(* ===== verification/Moli_Prelude.thy ===== *)
theory Moli_Prelude
  imports Main "HOL-Library.Word" "HOL-Library.Product_Lexorder"
begin

section \<open>Prelude: machine integers, panics, ordered maps and operation runs\<close>

text \<open>
  The definitions and lemmas every component shares.  Unsigned machine integers whose
  overflow the code checks are natural numbers with the width written out
  (\<open>u64_max\<close>, \<open>checked_add\<close>, \<open>checked_sub\<close>).  A Rust expression that
  may panic has an option type, with \<^const>\<open>None\<close> for the panic.  A
  \<^verbatim>\<open>BTreeMap\<close> is a strictly sorted association list (\<open>bt_insert\<close>,
  \<open>bt_remove\<close>, lookup by \<^const>\<open>map_of\<close>), so that iteration order and
  range queries are those of the library; the locale \<open>ordered_map\<close> states its
  contract.  The locale \<open>checked_system\<close> lifts a one-step invariant with a
  no-panic guarantee to every sequence of operations.
\<close>

named_theorems checked_simps \<open>evaluation of checked arithmetic\<close>
named_theorems bt_simps \<open>lookup laws of ordered maps\<close>


subsection \<open>Machine integers\<close>

text \<open>\<^verbatim>\<open>u64\<close> and \<^verbatim>\<open>usize\<close> (64 bits on every target the program is built for).\<close>

definition u64_max :: nat where
  "u64_max = 18446744073709551615"

definition checked_add :: "nat \<Rightarrow> nat \<Rightarrow> nat option" where
  "checked_add a b = (if a + b \<le> u64_max then Some (a + b) else None)"

definition checked_sub :: "nat \<Rightarrow> nat \<Rightarrow> nat option" where
  "checked_sub a b = (if b \<le> a then Some (a - b) else None)"

lemma u64_max_eq: "u64_max = 2 ^ 64 - 1"
  by (simp add: u64_max_def)

lemma checked_add_Some [simp, checked_simps]:
  "checked_add a b = Some c \<longleftrightarrow> c = a + b \<and> a + b \<le> u64_max"
  by (auto simp: checked_add_def)

lemma checked_add_None [simp, checked_simps]:
  "checked_add a b = None \<longleftrightarrow> u64_max < a + b"
  by (auto simp: checked_add_def)

lemma checked_sub_Some [simp, checked_simps]:
  "checked_sub a b = Some c \<longleftrightarrow> b \<le> a \<and> c = a - b"
  by (auto simp: checked_sub_def)

lemma checked_sub_None [simp, checked_simps]:
  "checked_sub a b = None \<longleftrightarrow> a < b"
  by (auto simp: checked_sub_def)


subsection \<open>Maps\<close>

lemma restrict_UNIV [simp]: "m |` UNIV = m"
  by (simp add: restrict_map_def)

lemma restrict_Compl_insert:
  "m |` (- insert k A) = (m(k := None)) |` (- A)"
  by (auto simp: restrict_map_def fun_eq_iff)


subsection \<open>Ordered maps and ordered sets\<close>

text \<open>
  \<^verbatim>\<open>BTreeMap\<close> as a strictly sorted association list.  \<^verbatim>\<open>range(..x).next_back()\<close> and
  \<^verbatim>\<open>range(x..).next()\<close> are the greatest entry below and the least entry from a key.
\<close>

type_synonym ('k, 'v) btree_map = "('k \<times> 'v) list"

abbreviation bt_keys :: "('k, 'v) btree_map \<Rightarrow> 'k list" where
  "bt_keys m \<equiv> map fst m"

definition bt_sorted :: "('k::linorder, 'v) btree_map \<Rightarrow> bool" where
  "bt_sorted m \<longleftrightarrow> sorted_wrt (<) (bt_keys m)"

fun bt_insert :: "'k::linorder \<Rightarrow> 'v \<Rightarrow> ('k, 'v) btree_map \<Rightarrow> ('k, 'v) btree_map" where
  "bt_insert k v [] = [(k, v)]"
| "bt_insert k v (e # m) =
     (if k < fst e then (k, v) # e # m
      else if fst e = k then (k, v) # m
      else e # bt_insert k v m)"

fun bt_remove :: "'k::linorder \<Rightarrow> ('k, 'v) btree_map \<Rightarrow> ('k, 'v) btree_map" where
  "bt_remove k [] = []"
| "bt_remove k (e # m) = (if fst e = k then m else e # bt_remove k m)"

definition bt_below :: "'k::linorder \<Rightarrow> ('k, 'v) btree_map \<Rightarrow> ('k \<times> 'v) option" where
  "bt_below x m = find (\<lambda>e. fst e < x) (rev m)"

definition bt_from :: "'k::linorder \<Rightarrow> ('k, 'v) btree_map \<Rightarrow> ('k \<times> 'v) option" where
  "bt_from x m = find (\<lambda>e. x \<le> fst e) m"

text \<open>\<^verbatim>\<open>BTreeSet\<close> as a strictly sorted list; \<^verbatim>\<open>range(lo..=hi).next()\<close>.\<close>

definition bs_range_first :: "'a::linorder \<Rightarrow> 'a \<Rightarrow> 'a list \<Rightarrow> 'a option" where
  "bs_range_first lo hi xs = find (\<lambda>x. lo \<le> x \<and> x \<le> hi) xs"

lemma set_bt_insert_keys [simp]: "fst ` set (bt_insert k v m) = insert k (fst ` set m)"
  by (induction m) auto

lemma set_bt_remove_subset: "set (bt_remove k m) \<subseteq> set m"
  by (induction m) auto

lemma bt_remove_notin [simp]: "k \<notin> fst ` set m \<Longrightarrow> bt_remove k m = m"
  by (induction m) auto

lemma bt_sorted_Cons [simp]:
  "bt_sorted (e # m) \<longleftrightarrow> (\<forall>x \<in> set m. fst e < fst x) \<and> bt_sorted m"
  by (simp add: bt_sorted_def)

lemma bt_sorted_Nil [simp]: "bt_sorted []"
  by (simp add: bt_sorted_def)

lemma bt_insert_memD: "e \<in> set (bt_insert k v m) \<Longrightarrow> e = (k, v) \<or> e \<in> set m"
  by (induction m) (auto split: if_splits)

lemma bt_sorted_insert [simp]: "bt_sorted m \<Longrightarrow> bt_sorted (bt_insert k v m)"
proof (induction m)
  case (Cons e m)
  then show ?case
    by (cases k "fst e" rule: linorder_cases) (auto dest!: bt_insert_memD)
qed simp

lemma bt_get_insert [bt_simps]: "map_of (bt_insert k v m) = (map_of m)(k \<mapsto> v)"
proof (induction m)
  case (Cons e m)
  then show ?case by (cases e) (auto simp: fun_eq_iff)
qed simp

lemma bt_sorted_append:
  "bt_sorted (xs @ ys) \<longleftrightarrow> bt_sorted xs \<and> bt_sorted ys \<and> (\<forall>x \<in> set xs. \<forall>y \<in> set ys. fst x < fst y)"
  by (auto simp: bt_sorted_def sorted_wrt_append)

lemma bt_sorted_remove [simp]: "bt_sorted m \<Longrightarrow> bt_sorted (bt_remove k m)"
  by (induction m) (auto dest: subsetD [OF set_bt_remove_subset])

lemma bt_sorted_distinct: "bt_sorted m \<Longrightarrow> distinct (bt_keys m)"
  by (induction m) auto

lemma bt_get_remove [bt_simps]:
  "bt_sorted m \<Longrightarrow> map_of (bt_remove k m) = (map_of m)(k := None)"
proof (induction m)
  case (Cons e m)
  have "fst e \<notin> fst ` set m" using Cons.prems by auto
  then have "map_of m (fst e) = None" by (simp add: map_of_eq_None_iff)
  with Cons show ?case by (cases e) (auto simp: fun_eq_iff)
qed simp

lemma bt_get_mem: "bt_sorted m \<Longrightarrow> map_of m k = Some v \<longleftrightarrow> (k, v) \<in> set m"
  using map_of_eq_Some_iff [OF bt_sorted_distinct, of m k v] by simp

text \<open>Both operations at a known position.\<close>

lemma bt_insert_mid:
  "\<forall>x \<in> set xs. fst x < k \<Longrightarrow> \<forall>y \<in> set ys. k < fst y \<Longrightarrow> bt_insert k v (xs @ ys) = xs @ (k, v) # ys"
proof (induction xs)
  case Nil
  then show ?case by (cases ys) auto
next
  case (Cons x xs)
  then have "\<not> k < fst x" "fst x < k" by auto
  with Cons show ?case by simp
qed

lemma bt_remove_mid:
  "\<forall>x \<in> set xs. fst x \<noteq> k \<Longrightarrow> bt_remove k (xs @ (k, v) # ys) = xs @ ys"
  by (induction xs) auto

lemma bt_below_split:
  assumes "\<forall>x \<in> set xs. fst x < k" "\<forall>y \<in> set ys. k \<le> fst y"
  shows "bt_below k (xs @ ys) = (if xs = [] then None else Some (last xs))"
proof -
  have "find (\<lambda>e. fst e < k) (rev ys @ zs) = find (\<lambda>e. fst e < k) zs" for zs
    using assms(2) by (induction ys arbitrary: zs) (auto simp: leD)
  moreover from this [of "[]"] have "find (\<lambda>e. fst e < k) (rev ys) = None" by simp
  ultimately show ?thesis
    using assms(1) by (cases xs rule: rev_cases) (simp_all add: bt_below_def)
qed

lemma bt_from_split:
  assumes "\<forall>x \<in> set xs. fst x < k" "\<forall>y \<in> set ys. k \<le> fst y"
  shows "bt_from k (xs @ ys) = (if ys = [] then None else Some (hd ys))"
proof -
  have "find (\<lambda>e. k \<le> fst e) (xs @ ys) = find (\<lambda>e. k \<le> fst e) ys"
    using assms(1) by (induction xs) auto
  with assms(2) show ?thesis by (cases ys) (simp_all add: bt_from_def)
qed

lemma sorted_le_last: "sorted xs \<Longrightarrow> x \<in> set xs \<Longrightarrow> x \<le> last xs"
  by (induction xs) auto

lemma find_sorted_least:
  "find P xs = Some x \<Longrightarrow> sorted xs \<Longrightarrow> x \<in> set xs \<and> P x \<and> (\<forall>y \<in> set xs. P y \<longrightarrow> x \<le> y)"
  by (induction xs) (auto split: if_splits)

text \<open>The contract of an ordered map, and what its clients derive from it.\<close>

locale ordered_map =
  fixes empty :: "'m"
    and get :: "'m \<Rightarrow> 'k::linorder \<Rightarrow> 'v option"
    and insert :: "'k \<Rightarrow> 'v \<Rightarrow> 'm \<Rightarrow> 'm"
    and remove :: "'k \<Rightarrow> 'm \<Rightarrow> 'm"
    and keys :: "'m \<Rightarrow> 'k list"
    and invar :: "'m \<Rightarrow> bool"
  assumes invar_empty: "invar empty"
    and invar_insert: "invar m \<Longrightarrow> invar (insert k v m)"
    and invar_remove: "invar m \<Longrightarrow> invar (remove k m)"
    and get_empty: "get empty k = None"
    and get_insert: "invar m \<Longrightarrow> get (insert k v m) = (get m)(k \<mapsto> v)"
    and get_remove: "invar m \<Longrightarrow> get (remove k m) = (get m)(k := None)"
    and keys_dom: "set (keys m) = dom (get m)"
    and keys_sorted: "invar m \<Longrightarrow> sorted_wrt (<) (keys m)"
begin

lemma keys_insert: "invar m \<Longrightarrow> set (keys (insert k v m)) = Set.insert k (set (keys m))"
  by (simp add: keys_dom get_insert)

lemma keys_remove: "invar m \<Longrightarrow> set (keys (remove k m)) = set (keys m) - {k}"
  by (simp add: keys_dom get_remove)

lemma keys_distinct: "invar m \<Longrightarrow> distinct (keys m)"
  using keys_sorted strict_sorted_iff by blast

lemma length_keys: "invar m \<Longrightarrow> length (keys m) = card (dom (get m))"
  using distinct_card [OF keys_distinct, of m] keys_dom [of m] by simp

lemma length_insert_fresh:
  "invar m \<Longrightarrow> get m k = None \<Longrightarrow> length (keys (insert k v m)) = Suc (length (keys m))"
proof -
  assume "invar m" "get m k = None"
  moreover have "finite (dom (get m))" using List.finite_set [of "keys m"] by (simp only: keys_dom)
  ultimately show ?thesis by (simp add: length_keys invar_insert get_insert card_insert_if domIff)
qed

lemma fold_remove:
  "invar m \<Longrightarrow> invar (fold remove ks m)
    \<and> get (fold remove ks m) k = (if k \<in> set ks then None else get m k)"
  by (induction ks arbitrary: m) (simp_all add: invar_remove get_remove)

lemma fold_insert:
  "invar m \<Longrightarrow> invar (fold (\<lambda>(k, v) t. insert k v t) kvs m)
    \<and> get (fold (\<lambda>(k, v) t. insert k v t) kvs m) = get m ++ map_of (rev kvs)"
proof (induction kvs arbitrary: m)
  case (Cons e kvs)
  obtain k v where e: "e = (k, v)" by (cases e)
  note IH = Cons.IH [OF invar_insert [OF Cons.prems, of k v]]
  have "get (fold (\<lambda>(k, v) t. insert k v t) (e # kvs) m) = (get m)(k \<mapsto> v) ++ map_of (rev kvs)"
    using IH get_insert [OF Cons.prems, of k v] by (simp only: e fold_simps o_apply prod.case)
  also have "\<dots> = get m ++ map_of (rev (e # kvs))"
    by (auto simp: e map_add_def fun_eq_iff split: option.split)
  finally show ?case using IH by (simp only: e fold_simps o_apply prod.case)
qed simp

end

interpretation bt: ordered_map "[]" map_of bt_insert bt_remove bt_keys bt_sorted
proof (unfold_locales, goal_cases)
  case (7 m)
  show ?case by (simp add: dom_map_of_conv_image_fst)
next
  case (8 m)
  then show ?case by (simp only: bt_sorted_def)
qed (simp_all only: bt_sorted_Nil bt_sorted_insert bt_sorted_remove bt_get_insert bt_get_remove map_of.simps)


subsection \<open>Runs of operations\<close>

text \<open>A run stops at the first panic.\<close>

primrec run :: "('op \<Rightarrow> 's \<Rightarrow> 's option) \<Rightarrow> 'op list \<Rightarrow> 's \<Rightarrow> 's option" where
  "run step [] s = Some s"
| "run step (x # xs) s = Option.bind (step x s) (run step xs)"

lemma run_append:
  "run step (xs @ ys) s = Option.bind (run step xs s) (run step ys)"
  by (induction xs arbitrary: s) (auto simp: bind_assoc split: Option.bind_split)

text \<open>
  The contract of a component whose operations keep an invariant (\<open>kept_system\<close>), and of
  one whose operations in addition never panic where it holds (\<open>checked_system\<close>).  The
  client lemmas are about whole runs.
\<close>

locale kept_system =
  fixes step :: "'op \<Rightarrow> 's \<Rightarrow> 's option"
    and inv :: "'s \<Rightarrow> bool"
  assumes step_inv: "inv s \<Longrightarrow> step x s = Some s' \<Longrightarrow> inv s'"
begin

lemma run_inv: "inv s \<Longrightarrow> run step xs s = Some s' \<Longrightarrow> inv s'"
proof (induction xs arbitrary: s)
  case (Cons x xs)
  then show ?case by (auto split: Option.bind_splits dest: step_inv)
qed simp

end

locale checked_system =
  fixes step :: "'op \<Rightarrow> 's \<Rightarrow> 's option"
    and inv :: "'s \<Rightarrow> bool"
  assumes step_total: "inv s \<Longrightarrow> \<exists>s'. step x s = Some s' \<and> inv s'"
begin

lemma run_total: "inv s \<Longrightarrow> \<exists>s'. run step xs s = Some s' \<and> inv s'"
proof (induction xs arbitrary: s)
  case Nil
  then show ?case by simp
next
  case (Cons x xs)
  then obtain s' where "step x s = Some s'" "inv s'"
    using step_total by blast
  with Cons.IH show ?case by simp
qed

end

sublocale checked_system \<subseteq> kept_system step inv
proof
  show "inv s'" if "inv s" "step x s = Some s'" for s x s'
    using step_total [OF that(1), of x] that(2) by auto
qed


subsection \<open>Refinement\<close>

text \<open>Runs that collect the outputs of their steps.\<close>

fun run_out :: "('op \<Rightarrow> 's \<Rightarrow> ('out list \<times> 's) option) \<Rightarrow> 'op list \<Rightarrow> 's \<Rightarrow> ('out list \<times> 's) option" where
  "run_out step [] s = Some ([], s)"
| "run_out step (x # xs) s =
     (case step x s of
        None \<Rightarrow> None
      | Some (out, s') \<Rightarrow> map_option (\<lambda>r. (out @ fst r, snd r)) (run_out step xs s'))"

text \<open>
  A component that implements an abstract one: on states that satisfy its invariant every
  step is the abstract step on the abstraction, outputs and panics included.
\<close>

locale refinement =
  fixes cstep :: "'op \<Rightarrow> 'c \<Rightarrow> ('cout list \<times> 'c) option"
    and astep :: "'op \<Rightarrow> 'a \<Rightarrow> ('aout list \<times> 'a) option"
    and abs :: "'c \<Rightarrow> 'a"
    and abs_out :: "'cout \<Rightarrow> 'aout"
    and inv :: "'c \<Rightarrow> bool"
  assumes step_refines: "inv c \<Longrightarrow>
      map_option (\<lambda>r. (map abs_out (fst r), abs (snd r))) (cstep x c) = astep x (abs c)"
    and step_keeps: "inv c \<Longrightarrow> cstep x c = Some r \<Longrightarrow> inv (snd r)"
begin

lemma run_refines:
  "inv c \<Longrightarrow>
   map_option (\<lambda>r. (map abs_out (fst r), abs (snd r))) (run_out cstep xs c) = run_out astep xs (abs c)"
proof (induction xs arbitrary: c)
  case (Cons x xs)
  show ?case
  proof (cases "cstep x c")
    case None
    with step_refines [OF Cons.prems, of x] show ?thesis by simp
  next
    case (Some r)
    then have "astep x (abs c) = Some (map abs_out (fst r), abs (snd r))"
      using step_refines [OF Cons.prems, of x] by simp
    with Some Cons.IH [OF step_keeps [OF Cons.prems Some]] show ?thesis
      by (cases r; cases "run_out cstep xs (snd r)"; cases "run_out astep xs (abs (snd r))") auto
  qed
qed simp

lemma run_keeps: "inv c \<Longrightarrow> run_out cstep xs c = Some r \<Longrightarrow> inv (snd r)"
proof (induction xs arbitrary: c r)
  case (Cons x xs)
  then obtain r1 r2 where "cstep x c = Some r1" "run_out cstep xs (snd r1) = Some r2" "snd r = snd r2"
    by (auto split: option.splits)
  with Cons.IH [OF step_keeps [OF Cons.prems(1)]] show ?case by simp
qed auto

lemma run_outputs:
  assumes "\<And>c x r. inv c \<Longrightarrow> cstep x c = Some r \<Longrightarrow> \<forall>b \<in> set (fst r). Q b"
  shows "inv c \<Longrightarrow> run_out cstep xs c = Some r \<Longrightarrow> \<forall>b \<in> set (fst r). Q b"
proof (induction xs arbitrary: c r)
  case (Cons x xs)
  then obtain r1 r2 where r: "cstep x c = Some r1" "run_out cstep xs (snd r1) = Some r2" "fst r = fst r1 @ fst r2"
    by (auto split: option.splits)
  from Cons.IH [OF step_keeps [OF Cons.prems(1) r(1)] r(2)] assms [OF Cons.prems(1) r(1)] r(3)
  show ?case by auto
qed auto

end


subsection \<open>Observers\<close>

lemma run_out_total:
  assumes "\<And>x s. P x \<Longrightarrow> I s \<Longrightarrow> \<exists>out s'. step x s = Some (out, s') \<and> I s'"
  shows "list_all P xs \<Longrightarrow> I s \<Longrightarrow> \<exists>out s'. run_out step xs s = Some (out, s') \<and> I s'"
proof (induction xs arbitrary: s)
  case (Cons x xs)
  with assms [of x s] obtain o1 s1 where s1: "step x s = Some (o1, s1)" "I s1" by auto
  with Cons.IH [of s1] Cons.prems show ?case by fastforce
qed simp

lemma run_out_guard:
  "list_all P xs \<Longrightarrow> run_out (\<lambda>x s. if P x then step x s else None) xs s = run_out step xs s"
  by (induction xs arbitrary: s) (auto split: option.split)

text \<open>
  A component whose outputs tell an observer what happens: an observer that starts from a matching
  view accepts every output and keeps a matching view.  The condition may depend on the operations that
  are still to come, so that it can bound how often a counter is advanced.
\<close>

locale observed_runs =
  fixes step :: "'op \<Rightarrow> 's \<Rightarrow> ('out list \<times> 's) option"
    and observe :: "'out \<Rightarrow> 'a \<Rightarrow> 'a option"
    and matches :: "'s \<Rightarrow> 'a \<Rightarrow> bool"
    and fits :: "'op list \<Rightarrow> 's \<Rightarrow> bool"
  assumes step_observed: "fits (x # xs) s \<Longrightarrow> matches s a \<Longrightarrow> step x s = Some (out, s') \<Longrightarrow>
      \<exists>a'. run observe out a = Some a' \<and> matches s' a'"
    and step_fits: "fits (x # xs) s \<Longrightarrow> step x s = Some (out, s') \<Longrightarrow> fits xs s'"
begin

lemma fitting_run_observed:
  "fits xs s \<Longrightarrow> matches s a \<Longrightarrow> run_out step xs s = Some (out, s') \<Longrightarrow>
   \<exists>a'. run observe out a = Some a' \<and> matches s' a' \<and> fits [] s'"
proof (induction xs arbitrary: s a out s')
  case (Cons x xs)
  then obtain o1 s1 o2 where r: "step x s = Some (o1, s1)" "run_out step xs s1 = Some (o2, s')" "out = o1 @ o2"
    by (auto split: option.splits)
  from step_observed [OF Cons.prems(1,2) r(1)] obtain a1 where a1: "run observe o1 a = Some a1" "matches s1 a1"
    by blast
  from Cons.IH [OF step_fits [OF Cons.prems(1) r(1)] a1(2) r(2)] a1(1) r(3) show ?case
    by (simp add: run_append)
qed simp

end

text \<open>Where no operation uses up anything, the condition is an invariant.\<close>

locale observed_system =
  fixes step :: "'op \<Rightarrow> 's \<Rightarrow> ('out list \<times> 's) option"
    and observe :: "'out \<Rightarrow> 'a \<Rightarrow> 'a option"
    and matches :: "'s \<Rightarrow> 'a \<Rightarrow> bool"
    and inv :: "'s \<Rightarrow> bool"
  assumes inv_observed: "inv s \<Longrightarrow> matches s a \<Longrightarrow> step x s = Some (out, s') \<Longrightarrow>
      \<exists>a'. run observe out a = Some a' \<and> matches s' a'"
    and step_holds: "inv s \<Longrightarrow> step x s = Some (out, s') \<Longrightarrow> inv s'"

sublocale observed_system \<subseteq> observed_runs step observe matches "\<lambda>_. inv"
  by unfold_locales (auto dest: inv_observed step_holds)

context observed_system
begin

lemmas run_observed = fitting_run_observed

end

text \<open>
  A component and an abstract one in step: on runs that fit they take the same steps with the same
  outputs, and they panic on the same operations.
\<close>

locale matching_runs =
  fixes cstep :: "'op \<Rightarrow> 'c \<Rightarrow> ('out list \<times> 'c) option"
    and astep :: "'op \<Rightarrow> 'a \<Rightarrow> ('out list \<times> 'a) option"
    and matches :: "'c \<Rightarrow> 'a \<Rightarrow> bool"
    and fits :: "'op list \<Rightarrow> 'c \<Rightarrow> bool"
  assumes step_matches: "fits (x # xs) c \<Longrightarrow> matches c a \<Longrightarrow>
      rel_option (rel_prod (=) matches) (cstep x c) (astep x a)"
    and step_fitting: "fits (x # xs) c \<Longrightarrow> cstep x c = Some (out, c') \<Longrightarrow> fits xs c'"
begin

lemma run_matches:
  "fits xs c \<Longrightarrow> matches c a \<Longrightarrow> rel_option (rel_prod (=) matches) (run_out cstep xs c) (run_out astep xs a)"
proof (induction xs arbitrary: c a)
  case (Cons x xs)
  note step = step_matches [OF Cons.prems]
  show ?case
  proof (cases "cstep x c")
    case None
    with step show ?thesis by simp
  next
    case (Some r)
    with step obtain out c' a' where r: "cstep x c = Some (out, c')" "astep x a = Some (out, a')" "matches c' a'"
      by (cases r) (auto simp: option_rel_Some1 rel_prod_sel)
    from Cons.IH [OF step_fitting [OF Cons.prems(1) r(1)] r(3)] r(1,2) show ?thesis
      by (auto simp: option_rel_Some1 option_rel_Some2 rel_prod_sel rel_option_iff split: option.splits)
  qed
qed simp

lemma run_same_outputs:
  "fits xs c \<Longrightarrow> matches c a \<Longrightarrow> map_option fst (run_out cstep xs c) = map_option fst (run_out astep xs a)"
  using run_matches [of xs c a] by (auto simp: rel_option_iff rel_prod_sel split: option.splits)

end

end
