(* ===== verification/Bounded_Buffer.thy ===== *)
theory Bounded_Buffer
  imports Moli_Prelude
begin

section \<open>The byte-budgeted buffer (moli-bounded-buffer)\<close>

text \<open>
  \<^verbatim>\<open>BoundedByteBuffer\<close> of \<^verbatim>\<open>moli-bounded-buffer/src/buffer.rs\<close>: a hash map with a byte
  charge per entry, a total budget and eviction in insertion order.  The hash map is a
  HOL map, the insertion queue a list.  Every \<^verbatim>\<open>-=\<close> on the byte counter is a
  checked subtraction, so an operation is \<^const>\<open>None\<close> where the Rust code would
  underflow; the invariant \<open>buffer_inv\<close> excludes that.
\<close>

record byte_limits =
  max_total_bytes :: nat
  max_entry_bytes :: nat

record 'v buffered_value =
  bv_value :: 'v
  bv_byte_len :: nat

record ('k, 'v) bounded_byte_buffer =
  limits :: byte_limits
  used_bytes :: nat
  insertion_order :: "'k list"
  buffer_entries :: "'k \<rightharpoonup> 'v buffered_value"

datatype ('k, 'v) insert_outcome = Stored "('k \<times> 'v) list" | Rejected 'k 'v

definition buffer_new :: "byte_limits \<Rightarrow> ('k, 'v) bounded_byte_buffer" where
  "buffer_new lim = \<lparr>limits = lim, used_bytes = 0, insertion_order = [], buffer_entries = Map.empty\<rparr>"

definition buffer_contains_key :: "('k, 'v) bounded_byte_buffer \<Rightarrow> 'k \<Rightarrow> bool" where
  "buffer_contains_key b k = (buffer_entries b k \<noteq> None)"

definition buffer_get :: "('k, 'v) bounded_byte_buffer \<Rightarrow> 'k \<Rightarrow> 'v option" where
  "buffer_get b k = map_option bv_value (buffer_entries b k)"

text \<open>Writing through the reference that \<^verbatim>\<open>get_mut\<close> returns changes the value, not its charge.\<close>

definition buffer_get_mut_write :: "('k, 'v) bounded_byte_buffer \<Rightarrow> 'k \<Rightarrow> ('v \<Rightarrow> 'v) \<Rightarrow> ('k, 'v) bounded_byte_buffer" where
  "buffer_get_mut_write b k f =
     (case buffer_entries b k of
        None \<Rightarrow> b
      | Some e \<Rightarrow> b\<lparr>buffer_entries := (buffer_entries b)(k \<mapsto> e\<lparr>bv_value := f (bv_value e)\<rparr>)\<rparr>)"

definition buffer_remove ::
  "'k \<Rightarrow> ('k, 'v) bounded_byte_buffer \<Rightarrow> ('v option \<times> ('k, 'v) bounded_byte_buffer) option" where
  "buffer_remove k b =
     (case buffer_entries b k of
        None \<Rightarrow> Some (None, b)
      | Some e \<Rightarrow>
          (case checked_sub (used_bytes b) (bv_byte_len e) of
             None \<Rightarrow> None
           | Some u \<Rightarrow>
               Some (Some (bv_value e),
                 b\<lparr>buffer_entries := (buffer_entries b)(k := None), used_bytes := u,
                   insertion_order := filter (\<lambda>c. c \<noteq> k) (insertion_order b)\<rparr>)))"

definition buffer_clear :: "('k, 'v) bounded_byte_buffer \<Rightarrow> ('k, 'v) bounded_byte_buffer" where
  "buffer_clear b = b\<lparr>buffer_entries := Map.empty, insertion_order := [], used_bytes := 0\<rparr>"

text \<open>The loop of \<^verbatim>\<open>pop_oldest\<close>: keys of the queue with no entry are skipped.\<close>

fun pop_oldest_from ::
  "'k list \<Rightarrow> ('k, 'v) bounded_byte_buffer \<Rightarrow> (('k \<times> 'v) option \<times> ('k, 'v) bounded_byte_buffer) option" where
  "pop_oldest_from [] b = Some (None, b\<lparr>insertion_order := []\<rparr>)"
| "pop_oldest_from (k # ks) b =
     (case buffer_entries b k of
        None \<Rightarrow> pop_oldest_from ks b
      | Some e \<Rightarrow>
          (case checked_sub (used_bytes b) (bv_byte_len e) of
             None \<Rightarrow> None
           | Some u \<Rightarrow>
               Some (Some (k, bv_value e),
                 b\<lparr>insertion_order := ks, buffer_entries := (buffer_entries b)(k := None),
                   used_bytes := u\<rparr>)))"

definition pop_oldest ::
  "('k, 'v) bounded_byte_buffer \<Rightarrow> (('k \<times> 'v) option \<times> ('k, 'v) bounded_byte_buffer) option" where
  "pop_oldest b = pop_oldest_from (insertion_order b) b"

lemma pop_oldest_from_shorter:
  "pop_oldest_from ks b = Some (Some kv, b') \<Longrightarrow> length (insertion_order b') < length ks"
  by (induction ks b rule: pop_oldest_from.induct) (auto split: option.splits)

lemma pop_oldest_shorter:
  "pop_oldest b = Some (Some kv, b') \<Longrightarrow> length (insertion_order b') < length (insertion_order b)"
  by (simp add: pop_oldest_def pop_oldest_from_shorter)

text \<open>
  The eviction loop of \<^verbatim>\<open>insert\<close>; \<open>room\<close> is \<^verbatim>\<open>max_total_bytes - byte_len\<close>.
  Every round shortens the queue, which is the termination measure.
\<close>

function evict_until ::
  "nat \<Rightarrow> ('k \<times> 'v) list \<Rightarrow> ('k, 'v) bounded_byte_buffer \<Rightarrow>
     (('k \<times> 'v) list \<times> ('k, 'v) bounded_byte_buffer) option" where
  "evict_until room evicted b =
     (if used_bytes b > room then
        (case pop_oldest b of
           None \<Rightarrow> None
         | Some (None, b') \<Rightarrow> Some (evicted, b')
         | Some (Some kv, b') \<Rightarrow> evict_until room (evicted @ [kv]) b')
      else Some (evicted, b))"
  by pat_completeness auto
termination
  by (relation "measure (\<lambda>(room, evicted, b). length (insertion_order b))")
     (auto dest: pop_oldest_shorter)

declare evict_until.simps [simp del]

definition buffer_insert ::
  "'k \<Rightarrow> 'v \<Rightarrow> nat \<Rightarrow> ('k, 'v) bounded_byte_buffer \<Rightarrow>
     (('k, 'v) insert_outcome \<times> ('k, 'v) bounded_byte_buffer) option" where
  "buffer_insert k v n b =
     (case buffer_remove k b of
        None \<Rightarrow> None
      | Some (_, b1) \<Rightarrow>
          if n > max_entry_bytes (limits b1) \<or> n > max_total_bytes (limits b1)
          then Some (Rejected k v, b1)
          else
            (case evict_until (max_total_bytes (limits b1) - n) [] b1 of
               None \<Rightarrow> None
             | Some (evicted, b2) \<Rightarrow>
                 (case checked_add (used_bytes b2) n of
                    None \<Rightarrow> None
                  | Some u \<Rightarrow>
                      Some (Stored evicted,
                        b2\<lparr>used_bytes := u, insertion_order := insertion_order b2 @ [k],
                          buffer_entries := (buffer_entries b2)(k \<mapsto> \<lparr>bv_value = v, bv_byte_len = n\<rparr>)\<rparr>))))"

text \<open>The public operations as one step.\<close>

datatype ('k, 'v) buffer_op =
    OpInsert 'k 'v nat
  | OpRemove 'k
  | OpGetMut 'k "'v \<Rightarrow> 'v"
  | OpClear

fun buffer_step :: "('k, 'v) buffer_op \<Rightarrow> ('k, 'v) bounded_byte_buffer \<Rightarrow> ('k, 'v) bounded_byte_buffer option" where
  "buffer_step (OpInsert k v n) b = map_option snd (buffer_insert k v n b)"
| "buffer_step (OpRemove k) b = map_option snd (buffer_remove k b)"
| "buffer_step (OpGetMut k f) b = Some (buffer_get_mut_write b k f)"
| "buffer_step OpClear b = Some (buffer_clear b)"


subsection \<open>Invariant\<close>

definition charge :: "('k \<rightharpoonup> 'v buffered_value) \<Rightarrow> 'k \<Rightarrow> nat" where
  "charge m k = (case m k of None \<Rightarrow> 0 | Some e \<Rightarrow> bv_byte_len e)"

definition charges :: "('k \<rightharpoonup> 'v buffered_value) \<Rightarrow> 'k list \<Rightarrow> nat" where
  "charges m ks = sum_list (map (charge m) ks)"

definition buffer_inv :: "('k, 'v) bounded_byte_buffer \<Rightarrow> bool" where
  "buffer_inv b \<longleftrightarrow>
     distinct (insertion_order b) \<and>
     set (insertion_order b) = dom (buffer_entries b) \<and>
     used_bytes b = charges (buffer_entries b) (insertion_order b) \<and>
     used_bytes b \<le> max_total_bytes (limits b) \<and>
     max_total_bytes (limits b) \<le> u64_max \<and>
     (\<forall>k e. buffer_entries b k = Some e \<longrightarrow> bv_byte_len e \<le> max_entry_bytes (limits b))"

lemma charges_simps [simp]:
  "charges m [] = 0"
  "charges m (k # ks) = charge m k + charges m ks"
  "charges m (xs @ ys) = charges m xs + charges m ys"
  by (simp_all add: charges_def)

lemma charges_upd_notin [simp]: "k \<notin> set ks \<Longrightarrow> charges (m(k := x)) ks = charges m ks"
  by (induction ks) (auto simp: charge_def)

lemma filter_neq_id [simp]: "k \<notin> set ks \<Longrightarrow> filter (\<lambda>c. c \<noteq> k) ks = ks"
  by (induction ks) auto

lemma charges_filter:
  "distinct ks \<Longrightarrow> k \<in> set ks \<Longrightarrow>
     charges m ks = charge m k + charges m (filter (\<lambda>c. c \<noteq> k) ks)"
  by (induction ks) auto

lemma buffer_inv_new: "max_total_bytes lim \<le> u64_max \<Longrightarrow> buffer_inv (buffer_new lim)"
  by (simp add: buffer_inv_def buffer_new_def)

lemma buffer_inv_clear: "buffer_inv b \<Longrightarrow> buffer_inv (buffer_clear b)"
  by (simp add: buffer_inv_def buffer_clear_def)

lemma charges_same_len:
  "(\<And>k. map_option bv_byte_len (m k) = map_option bv_byte_len (m' k)) \<Longrightarrow> charges m ks = charges m' ks"
proof -
  assume "\<And>k. map_option bv_byte_len (m k) = map_option bv_byte_len (m' k)"
  then have "charge m = charge m'"
    by (intro ext) (simp add: charge_def split: option.split, metis option.map_disc_iff option.map_sel option.sel option.simps(3))
  then show ?thesis by (simp add: charges_def)
qed

lemma buffer_inv_get_mut: "buffer_inv b \<Longrightarrow> buffer_inv (buffer_get_mut_write b k f)"
proof (cases "buffer_entries b k")
  case None
  then show "buffer_inv b \<Longrightarrow> ?thesis" by (simp add: buffer_get_mut_write_def)
next
  case (Some e)
  let ?m = "(buffer_entries b)(k \<mapsto> e\<lparr>bv_value := f (bv_value e)\<rparr>)"
  have "charges ?m ks = charges (buffer_entries b) ks" for ks
    by (rule charges_same_len) (simp add: Some)
  with Some show "buffer_inv b \<Longrightarrow> ?thesis"
    by (auto simp: buffer_get_mut_write_def buffer_inv_def split: if_splits)
qed

lemma charge_le_used:
  "buffer_inv b \<Longrightarrow> buffer_entries b k = Some e \<Longrightarrow> bv_byte_len e \<le> used_bytes b"
  using charges_filter [of "insertion_order b" k "buffer_entries b"] domI [of "buffer_entries b" k e]
  by (auto simp: buffer_inv_def charge_def)

lemma buffer_remove_spec:
  assumes "buffer_inv b"
  obtains b' where "buffer_remove k b = Some (buffer_get b k, b')" "buffer_inv b'"
    "buffer_entries b' = (buffer_entries b)(k := None)"
    "insertion_order b' = filter (\<lambda>c. c \<noteq> k) (insertion_order b)" "limits b' = limits b"
proof (cases "buffer_entries b k")
  case None
  with assms have "k \<notin> set (insertion_order b)" by (auto simp: buffer_inv_def)
  with None assms show ?thesis
    by (intro that [of b]) (auto simp: buffer_remove_def buffer_get_def fun_upd_idem)
next
  case (Some e)
  note le = charge_le_used [OF assms Some]
  let ?b = "b\<lparr>buffer_entries := (buffer_entries b)(k := None), used_bytes := used_bytes b - bv_byte_len e,
    insertion_order := filter (\<lambda>c. c \<noteq> k) (insertion_order b)\<rparr>"
  have k: "k \<in> set (insertion_order b)" using Some assms by (auto simp: buffer_inv_def)
  have "buffer_inv ?b"
    using assms Some k charges_filter [of "insertion_order b" k "buffer_entries b"]
    by (auto simp: buffer_inv_def charge_def split: if_splits)
  with Some le show ?thesis
    by (intro that [of ?b]) (auto simp: buffer_remove_def buffer_get_def checked_sub_def)
qed

lemma pop_oldest_empty:
  "insertion_order b = [] \<Longrightarrow> pop_oldest b = Some (None, b)"
  by (simp add: pop_oldest_def)

lemma pop_oldest_Cons:
  assumes "buffer_inv b" "insertion_order b = k # ks"
  obtains e b' where "buffer_entries b k = Some e" "pop_oldest b = Some (Some (k, bv_value e), b')"
    "buffer_inv b'" "insertion_order b' = ks" "buffer_entries b' = (buffer_entries b)(k := None)"
    "limits b' = limits b" "used_bytes b = bv_byte_len e + used_bytes b'"
proof -
  from assms have "k \<in> dom (buffer_entries b)"
    by (metis buffer_inv_def list.set_intros(1))
  then obtain e where e: "buffer_entries b k = Some e" by blast
  note le = charge_le_used [OF assms(1) e]
  let ?b = "b\<lparr>insertion_order := ks, buffer_entries := (buffer_entries b)(k := None),
    used_bytes := used_bytes b - bv_byte_len e\<rparr>"
  have "buffer_inv ?b"
    using assms e by (auto simp: buffer_inv_def charge_def split: if_splits)
  with e le assms(2) show ?thesis
    by (intro that [of e ?b]) (auto simp: pop_oldest_def checked_sub_def)
qed

text \<open>
  What an eviction does: the evicted entries are a prefix of the insertion order, nothing
  else changes, the charge left fits, and it would not fit with the last evicted entry
  kept.
\<close>

definition evicts ::
  "nat \<Rightarrow> ('k, 'v) bounded_byte_buffer \<Rightarrow> ('k \<times> 'v) list \<Rightarrow> ('k, 'v) bounded_byte_buffer \<Rightarrow> bool" where
  "evicts room b popped b' \<longleftrightarrow>
     limits b' = limits b \<and>
     insertion_order b = map fst popped @ insertion_order b' \<and>
     buffer_entries b' = buffer_entries b |` (- fst ` set popped) \<and>
     (\<forall>(k, v) \<in> set popped. buffer_get b k = Some v) \<and>
     used_bytes b' \<le> room \<and>
     (popped \<noteq> [] \<longrightarrow> room < used_bytes b' + charge (buffer_entries b) (fst (last popped)))"

lemma evicts_Nil: "used_bytes b \<le> room \<Longrightarrow> evicts room b [] b"
  by (simp add: evicts_def)

lemma evicts_Nil_used:
  "evicts room b [] b' \<Longrightarrow> buffer_inv b \<Longrightarrow> buffer_inv b' \<Longrightarrow> used_bytes b' = used_bytes b"
  by (simp add: evicts_def buffer_inv_def)

lemma evicts_Cons:
  assumes step: "evicts room b1 popped b2"
    and inv: "buffer_inv b" "buffer_inv b1" "buffer_inv b2"
    and pop: "insertion_order b = k # insertion_order b1" "buffer_entries b k = Some e"
      "buffer_entries b1 = (buffer_entries b)(k := None)" "limits b1 = limits b"
      "used_bytes b = bv_byte_len e + used_bytes b1"
    and full: "room < used_bytes b"
  shows "evicts room b ((k, bv_value e) # popped) b2"
proof -
  have "k \<notin> set (insertion_order b1)" using inv(1) pop(1) by (simp add: buffer_inv_def)
  then have nk: "k \<notin> fst ` set popped" using step by (auto simp: evicts_def)
  have "room < used_bytes b2 + charge (buffer_entries b) (fst (last ((k, bv_value e) # popped)))"
  proof (cases "popped = []")
    case True
    with evicts_Nil_used [OF _ inv(2,3)] step have "used_bytes b2 = used_bytes b1" by simp
    with True pop(2,5) full show ?thesis by (simp add: charge_def)
  next
    case False
    then have "fst (last popped) \<noteq> k" using nk by (metis image_eqI last_in_set)
    with step False pop(3) show ?thesis by (simp add: evicts_def charge_def)
  qed
  moreover have "\<forall>(k', v) \<in> set popped. buffer_get b k' = Some v"
    using step pop(3) nk by (auto simp: evicts_def buffer_get_def split: if_splits)
  ultimately show ?thesis
    using step pop by (simp add: evicts_def buffer_get_def restrict_Compl_insert)
qed

lemma evict_until_spec:
  "buffer_inv b \<Longrightarrow> \<exists>popped b'. evict_until room ev b = Some (ev @ popped, b') \<and>
     buffer_inv b' \<and> evicts room b popped b'"
proof (induction "insertion_order b" arbitrary: b ev)
  case Nil
  then have "used_bytes b = 0" by (simp add: buffer_inv_def)
  with Nil show ?case
    by (intro exI [of _ "[]"] exI [of _ b]) (simp add: evict_until.simps [of room ev b] evicts_Nil)
next
  case (Cons k ks)
  show ?case
  proof (cases "room < used_bytes b")
    case False
    with Cons.prems show ?thesis
      by (intro exI [of _ "[]"] exI [of _ b]) (simp add: evict_until.simps [of room ev b] evicts_Nil)
  next
    case True
    obtain e b1 where pop: "buffer_entries b k = Some e" "pop_oldest b = Some (Some (k, bv_value e), b1)"
      "buffer_inv b1" "insertion_order b1 = ks" "buffer_entries b1 = (buffer_entries b)(k := None)"
      "limits b1 = limits b" "used_bytes b = bv_byte_len e + used_bytes b1"
      using pop_oldest_Cons [OF Cons.prems, of k ks] Cons.hyps(2) by metis
    obtain popped b2 where IH:
      "evict_until room (ev @ [(k, bv_value e)]) b1 = Some ((ev @ [(k, bv_value e)]) @ popped, b2)"
      "buffer_inv b2" "evicts room b1 popped b2"
      using Cons.hyps(1) [OF pop(4) [symmetric] pop(3)] by blast
    have "evicts room b ((k, bv_value e) # popped) b2"
      using evicts_Cons [OF IH(3) Cons.prems pop(3) IH(2)] pop Cons.hyps(2) True by metis
    moreover have "evict_until room ev b = Some (ev @ ((k, bv_value e) # popped), b2)"
      using True pop(2) IH(1) by (simp add: evict_until.simps [of room ev b])
    ultimately show ?thesis using IH(2) by blast
  qed
qed

lemma buffer_insert_spec:
  assumes "buffer_inv b"
  obtains (rejected) b1 where
      "buffer_insert k v n b = Some (Rejected k v, b1)"
      "n > max_entry_bytes (limits b) \<or> n > max_total_bytes (limits b)"
      "buffer_remove k b = Some (buffer_get b k, b1)" "buffer_inv b1"
      "buffer_entries b1 = (buffer_entries b)(k := None)"
  | (stored) b1 popped b2 b' where
      "n \<le> max_entry_bytes (limits b)" "n \<le> max_total_bytes (limits b)"
      "buffer_remove k b = Some (buffer_get b k, b1)"
      "buffer_inv b1" "buffer_entries b1 = (buffer_entries b)(k := None)" "limits b1 = limits b"
      "insertion_order b1 = filter (\<lambda>c. c \<noteq> k) (insertion_order b)"
      "evicts (max_total_bytes (limits b) - n) b1 popped b2" "buffer_inv b2"
      "buffer_insert k v n b = Some (Stored popped, b')" "buffer_inv b'"
      "b' = b2\<lparr>used_bytes := used_bytes b2 + n, insertion_order := insertion_order b2 @ [k],
              buffer_entries := (buffer_entries b2)(k \<mapsto> \<lparr>bv_value = v, bv_byte_len = n\<rparr>)\<rparr>"
proof -
  obtain b1 where rem: "buffer_remove k b = Some (buffer_get b k, b1)" "buffer_inv b1"
    "buffer_entries b1 = (buffer_entries b)(k := None)"
    "insertion_order b1 = filter (\<lambda>c. c \<noteq> k) (insertion_order b)" "limits b1 = limits b"
    using buffer_remove_spec [OF assms] by metis
  show thesis
  proof (cases "n > max_entry_bytes (limits b) \<or> n > max_total_bytes (limits b)")
    case True
    with rem show thesis by (intro rejected [of b1]) (simp_all add: buffer_insert_def)
  next
    case False
    let ?room = "max_total_bytes (limits b) - n"
    obtain popped b2 where ev: "evict_until ?room [] b1 = Some (popped, b2)" "buffer_inv b2"
      "evicts ?room b1 popped b2"
      using evict_until_spec [OF rem(2), of ?room "[]"] by auto
    have lim: "limits b2 = limits b" "used_bytes b2 + n \<le> max_total_bytes (limits b)"
      using ev(3) rem(5) False by (auto simp: evicts_def)
    then have u: "used_bytes b2 + n \<le> u64_max" using assms by (simp add: buffer_inv_def)
    have k: "buffer_entries b2 k = None" using ev(3) rem(3) by (simp add: evicts_def restrict_map_def)
    let ?b' = "b2\<lparr>used_bytes := used_bytes b2 + n, insertion_order := insertion_order b2 @ [k],
              buffer_entries := (buffer_entries b2)(k \<mapsto> \<lparr>bv_value = v, bv_byte_len = n\<rparr>)\<rparr>"
    have nk: "k \<notin> set (insertion_order b2)" using k ev(2) by (auto simp: buffer_inv_def)
    have "buffer_inv ?b'"
      using ev(2) nk lim u False by (auto simp: buffer_inv_def charge_def split: if_splits)
    moreover have "buffer_insert k v n b = Some (Stored popped, ?b')"
      using rem ev(1) False u by (simp add: buffer_insert_def checked_add_def)
    ultimately show thesis using stored [OF _ _ rem(1,2,3,5,4) ev(3,2)] False by simp
  qed
qed

text \<open>The operations satisfy the contract of \<open>checked_system\<close>, with the limits fixed.\<close>

lemma buffer_get_mut_limits: "limits (buffer_get_mut_write b k f) = limits b"
  by (simp add: buffer_get_mut_write_def split: option.split)

lemma buffer_clear_limits: "limits (buffer_clear b) = limits b"
  by (simp add: buffer_clear_def)

lemma buffer_insert_limits:
  assumes "buffer_inv b" "buffer_insert k v n b = Some (r, b')"
  shows "buffer_inv b' \<and> limits b' = limits b"
  using assms(1)
proof (cases rule: buffer_insert_spec [of b k v n])
  case (rejected b1)
  with buffer_remove_spec [OF assms(1), of k] assms(2) show ?thesis by fastforce
next
  case (stored b1 popped b2 b'')
  with assms(2) show ?thesis by (auto simp: evicts_def)
qed

lemma buffer_step_total:
  assumes "buffer_inv b"
  shows "\<exists>b'. buffer_step x b = Some b' \<and> buffer_inv b' \<and> limits b' = limits b"
proof (cases x)
  case (OpInsert k v n)
  from assms have "buffer_insert k v n b \<noteq> None" by (rule buffer_insert_spec [of b k v n]) auto
  with OpInsert buffer_insert_limits [OF assms] show ?thesis by fastforce
next
  case (OpRemove k)
  with assms show ?thesis by (elim buffer_remove_spec [of b k]) auto
qed (use assms in \<open>auto simp: buffer_inv_get_mut buffer_inv_clear buffer_get_mut_limits buffer_clear_limits\<close>)

interpretation buffer_sys: checked_system buffer_step "\<lambda>b. buffer_inv b \<and> limits b = lim" for lim
  by unfold_locales (use buffer_step_total in blast)


subsection \<open>Properties\<close>

text \<open>C27: whatever sequence of inserts, removals, in-place updates and clears runs on a new
  buffer, no byte counter under- or overflows, the counter is the sum of the charges of the
  retained entries and never exceeds the total limit, no entry exceeds the entry limit, and
  the insertion queue lists exactly the retained keys, each once.\<close>

theorem bounded_buffer_accounting:
  assumes "max_total_bytes lim \<le> u64_max"
  shows "\<exists>b. run buffer_step ops (buffer_new lim) = Some b \<and>
    used_bytes b = (\<Sum>k \<in> dom (buffer_entries b). charge (buffer_entries b) k) \<and>
    used_bytes b \<le> max_total_bytes lim \<and>
    (\<forall>k e. buffer_entries b k = Some e \<longrightarrow> bv_byte_len e \<le> max_entry_bytes lim) \<and>
    distinct (insertion_order b) \<and> set (insertion_order b) = dom (buffer_entries b)"
proof -
  have "buffer_inv (buffer_new lim) \<and> limits (buffer_new lim) = lim"
    using buffer_inv_new [OF assms] by (simp add: buffer_new_def)
  from buffer_sys.run_total [OF this, of ops]
  obtain b where "run buffer_step ops (buffer_new lim) = Some b" "buffer_inv b" "limits b = lim"
    by blast
  moreover from this(2) have "used_bytes b = (\<Sum>k \<in> dom (buffer_entries b). charge (buffer_entries b) k)"
    by (metis buffer_inv_def charges_def sum_list_distinct_conv_sum_set)
  ultimately show ?thesis by (auto simp: buffer_inv_def)
qed

theorem bounded_buffer_accounting_witness:
  "\<exists>b. run buffer_step
      [OpInsert (1::nat) ''a'' 4, OpInsert 2 ''b'' 4, OpInsert 3 ''c'' 5, OpRemove 2]
      (buffer_new \<lparr>max_total_bytes = 10, max_entry_bytes = 6\<rparr>) = Some b \<and>
    used_bytes b = (\<Sum>k \<in> dom (buffer_entries b). charge (buffer_entries b) k) \<and> used_bytes b \<le> 10"
  using bounded_buffer_accounting [of "\<lparr>max_total_bytes = 10, max_entry_bytes = 6\<rparr>"
      "[OpInsert (1::nat) ''a'' 4, OpInsert 2 ''b'' 4, OpInsert 3 ''c'' 5, OpRemove 2]"]
  by (auto simp: u64_max_def)

text \<open>an insertion that stores its value makes the key the newest one, evicts exactly a
  prefix of the insertion order (oldest first) and returns the evicted values to the caller,
  keeps every other entry, and evicts no more than needed: with the last evicted entry kept
  the budget would be exceeded.\<close>

lemma bounded_buffer_insert_evicts_oldest:
  assumes "buffer_inv b" "buffer_insert k v n b = Some (Stored ev, b')"
  shows "buffer_get b' k = Some v \<and>
    (\<exists>rest. filter (\<lambda>c. c \<noteq> k) (insertion_order b) = map fst ev @ rest \<and>
            insertion_order b' = rest @ [k]) \<and>
    (\<forall>(k', v') \<in> set ev. buffer_get b k' = Some v' \<and> buffer_get b' k' = None) \<and>
    (\<forall>k'. k' \<noteq> k \<and> k' \<notin> fst ` set ev \<longrightarrow> buffer_get b' k' = buffer_get b k') \<and>
    (ev \<noteq> [] \<longrightarrow> max_total_bytes (limits b) < used_bytes b' + charge (buffer_entries b) (fst (last ev)))"
  using assms(1)
proof (cases rule: buffer_insert_spec [of b k v n])
  case (rejected b1)
  with assms(2) show ?thesis by simp
next
  case (stored b1 popped b2 b'')
  with assms(2) have eq: "popped = ev" "b'' = b'" by auto
  have nk: "k \<notin> fst ` set ev"
  proof -
    have "filter (\<lambda>c. c \<noteq> k) (insertion_order b) = map fst ev @ insertion_order b2"
      using stored(7,8) eq by (simp add: evicts_def)
    then have "fst ` set ev \<subseteq> set (filter (\<lambda>c. c \<noteq> k) (insertion_order b))" by simp
    then show ?thesis by auto
  qed
  have "max_total_bytes (limits b) < used_bytes b' + charge (buffer_entries b) (fst (last ev))"
    if "ev \<noteq> []"
  proof -
    have "fst (last ev) \<noteq> k" using that nk by (metis image_eqI last_in_set)
    with that stored(2,5,8,12) eq show ?thesis by (auto simp: evicts_def charge_def)
  qed
  moreover have "\<forall>(k', v') \<in> set ev. buffer_get b k' = Some v' \<and> buffer_get b' k' = None"
  proof clarify
    fix k' v' assume m: "(k', v') \<in> set ev"
    then have ne: "k' \<noteq> k" and r: "k' \<in> fst ` set ev" using nk by force+
    have "buffer_get b1 k' = Some v'" using m stored(8) eq by (auto simp: evicts_def)
    with ne stored(5) have "buffer_get b k' = Some v'" by (simp add: buffer_get_def)
    moreover have "buffer_entries b2 k' = None" using r stored(8) eq by (simp add: evicts_def restrict_map_def)
    ultimately show "buffer_get b k' = Some v' \<and> buffer_get b' k' = None"
      using ne stored(12) eq by (simp add: buffer_get_def)
  qed
  ultimately show ?thesis
    using stored(5,7,8,12) eq by (auto simp: evicts_def buffer_get_def restrict_map_def)
qed

lemma bounded_buffer_insert_evicts_oldest_example:
  "\<exists>b b'. insertion_order b = [1::nat, 2] \<and>
     buffer_insert 3 ''c'' 5 b = Some (Stored [(1, ''a'')], b') \<and> buffer_get b' 3 = Some ''c'' \<and>
     buffer_get b' 2 = buffer_get b 2"
proof -
  let ?b = "\<lparr>limits = \<lparr>max_total_bytes = 10, max_entry_bytes = 6\<rparr>, used_bytes = 8,
    insertion_order = [1::nat, 2],
    buffer_entries = [1 \<mapsto> \<lparr>bv_value = ''a'', bv_byte_len = 4\<rparr>, 2 \<mapsto> \<lparr>bv_value = ''b'', bv_byte_len = 4\<rparr>]\<rparr>"
  have inv: "buffer_inv ?b"
    by (auto simp: buffer_inv_def charge_def u64_max_def)
  have "\<exists>b'. buffer_insert 3 ''c'' 5 ?b = Some (Stored [(1, ''a'')], b')"
    by (simp add: buffer_insert_def buffer_remove_def pop_oldest_def checked_add_def checked_sub_def
        u64_max_def evict_until.simps)
  then obtain b' where b': "buffer_insert 3 ''c'' 5 ?b = Some (Stored [(1, ''a'')], b')" by blast
  from bounded_buffer_insert_evicts_oldest [OF inv b'] b'
  show ?thesis by (intro exI [of _ ?b] exI [of _ b']) auto
qed

end
