(* ===== verification/Disk_Alloc.thy ===== *)
theory Disk_Alloc
  imports Moli_Prelude
begin

section \<open>The extent allocator of the disk pool (moli-disk-pool)\<close>

text \<open>
  \<^verbatim>\<open>AllocationState\<close>, \<^verbatim>\<open>find_free_chunk\<close> and \<^verbatim>\<open>release_chunk\<close> of
  \<^verbatim>\<open>moli-disk-pool/src/allocation.rs\<close>.  The two indexes are the \<^verbatim>\<open>BTreeMap\<close> by offset and
  the \<^verbatim>\<open>BTreeSet\<close> of (length, offset) pairs.  Checked arithmetic with \<^verbatim>\<open>expect\<close> and the
  \<^verbatim>\<open>debug_assert\<close>s are panics (\<^const>\<open>None\<close>), so that the theorems that an operation
  returns also show that none of them fires.
\<close>

record extent =
  ext_offset :: nat
  ext_len :: nat

record allocation_state =
  may_write :: bool
  file_tail :: nat
  free_chunks_by_offset :: "(nat, nat) btree_map"
  free_chunks_by_size :: "(nat \<times> nat) list"
  free_bytes :: nat

definition insert_free_chunk :: "extent \<Rightarrow> allocation_state \<Rightarrow> allocation_state option" where
  "insert_free_chunk e s =
     (if map_of (free_chunks_by_offset s) (ext_offset e) \<noteq> None then None
      else if (ext_len e, ext_offset e) \<in> set (free_chunks_by_size s) then None
      else Some (s\<lparr>free_chunks_by_offset := bt_insert (ext_offset e) (ext_len e) (free_chunks_by_offset s),
                   free_chunks_by_size := insort (ext_len e, ext_offset e) (free_chunks_by_size s)\<rparr>))"

definition remove_free_chunk :: "extent \<Rightarrow> allocation_state \<Rightarrow> allocation_state option" where
  "remove_free_chunk e s =
     (if map_of (free_chunks_by_offset s) (ext_offset e) \<noteq> Some (ext_len e) then None
      else if (ext_len e, ext_offset e) \<notin> set (free_chunks_by_size s) then None
      else Some (s\<lparr>free_chunks_by_offset := bt_remove (ext_offset e) (free_chunks_by_offset s),
                   free_chunks_by_size := remove1 (ext_len e, ext_offset e) (free_chunks_by_size s)\<rparr>))"

text \<open>
  The choice of \<^verbatim>\<open>find_free_chunk\<close>: an exact fit, else the largest chunk if it is larger
  than the request; ties go to the lowest offset.  The inner option is the early
  \<^verbatim>\<open>return None\<close>, the outer one the \<^verbatim>\<open>expect\<close>.
\<close>

definition choose_free_chunk :: "allocation_state \<Rightarrow> nat \<Rightarrow> (nat \<times> nat) option option" where
  "choose_free_chunk s sz =
     (case bs_range_first (sz, 0) (sz, u64_max) (free_chunks_by_size s) of
        Some exact_fit \<Rightarrow> Some (Some exact_fit)
      | None \<Rightarrow>
          if free_chunks_by_size s = [] then Some None
          else
            let largest_size = fst (last (free_chunks_by_size s)) in
            if largest_size \<le> sz then Some None
            else map_option Some
                   (bs_range_first (largest_size, 0) (largest_size, u64_max) (free_chunks_by_size s)))"

definition find_free_chunk :: "allocation_state \<Rightarrow> nat \<Rightarrow> (extent option \<times> allocation_state) option" where
  "find_free_chunk s sz =
     (case choose_free_chunk s sz of
        None \<Rightarrow> None
      | Some None \<Rightarrow> Some (None, s)
      | Some (Some (chunk_size, off)) \<Rightarrow>
          (case checked_add off sz of
             None \<Rightarrow> None
           | Some remainder_offset \<Rightarrow>
               (case remove_free_chunk \<lparr>ext_offset = off, ext_len = chunk_size\<rparr> s of
                  None \<Rightarrow> None
                | Some s1 \<Rightarrow>
                    (case checked_sub (free_bytes s1) sz of
                       None \<Rightarrow> None
                     | Some fb \<Rightarrow>
                         let s2 = s1\<lparr>free_bytes := fb\<rparr> in
                         if chunk_size > sz then
                           (case insert_free_chunk
                                   \<lparr>ext_offset = remainder_offset, ext_len = chunk_size - sz\<rparr> s2 of
                              None \<Rightarrow> None
                            | Some s3 \<Rightarrow> Some (Some \<lparr>ext_offset = off, ext_len = sz\<rparr>, s3))
                         else Some (Some \<lparr>ext_offset = off, ext_len = chunk_size\<rparr>, s2)))))"

text \<open>The two halves of \<^verbatim>\<open>release_chunk\<close>: merging with the left and with the right neighbour.\<close>

definition merge_left :: "extent \<Rightarrow> allocation_state \<Rightarrow> (extent \<times> allocation_state) option" where
  "merge_left merged s =
     (case bt_below (ext_offset merged) (free_chunks_by_offset s) of
        None \<Rightarrow> Some (merged, s)
      | Some (left_offset, left_len) \<Rightarrow>
          (case checked_add left_offset left_len of
             None \<Rightarrow> None
           | Some left_end \<Rightarrow>
               if \<not> left_end \<le> ext_offset merged then None
               else if left_end = ext_offset merged then
                 (case remove_free_chunk \<lparr>ext_offset = left_offset, ext_len = left_len\<rparr> s of
                    None \<Rightarrow> None
                  | Some s1 \<Rightarrow>
                      map_option (\<lambda>n. (\<lparr>ext_offset = left_offset, ext_len = n\<rparr>, s1))
                        (checked_add (ext_len merged) left_len))
               else Some (merged, s)))"

definition merge_right :: "extent \<Rightarrow> allocation_state \<Rightarrow> (extent \<times> allocation_state) option" where
  "merge_right merged s =
     (case bt_from (ext_offset merged) (free_chunks_by_offset s) of
        None \<Rightarrow> Some (merged, s)
      | Some (right_offset, right_len) \<Rightarrow>
          (case checked_add (ext_offset merged) (ext_len merged) of
             None \<Rightarrow> None
           | Some merged_end \<Rightarrow>
               if \<not> merged_end \<le> right_offset then None
               else if merged_end = right_offset then
                 (case remove_free_chunk \<lparr>ext_offset = right_offset, ext_len = right_len\<rparr> s of
                    None \<Rightarrow> None
                  | Some s1 \<Rightarrow>
                      map_option (\<lambda>n. (merged\<lparr>ext_len := n\<rparr>, s1))
                        (checked_add (ext_len merged) right_len))
               else Some (merged, s)))"

definition release_chunk :: "extent \<Rightarrow> allocation_state \<Rightarrow> allocation_state option" where
  "release_chunk e s =
     (case merge_left e s of
        None \<Rightarrow> None
      | Some (m1, s1) \<Rightarrow>
          (case merge_right m1 s1 of
             None \<Rightarrow> None
           | Some (m2, s2) \<Rightarrow>
               (case insert_free_chunk m2 s2 of
                  None \<Rightarrow> None
                | Some s3 \<Rightarrow>
                    map_option (\<lambda>fb. s3\<lparr>free_bytes := fb\<rparr>) (checked_add (free_bytes s3) (ext_len e)))))"


subsection \<open>Cells, chunk lists and the invariant\<close>

text \<open>The byte positions of an extent, and of a list of (offset, length) chunks.\<close>

definition cells :: "extent \<Rightarrow> nat set" where
  "cells e = {ext_offset e ..< ext_offset e + ext_len e}"

definition chunk_cells :: "(nat, nat) btree_map \<Rightarrow> nat set" where
  "chunk_cells xs = (\<Union>x \<in> set xs. {fst x ..< fst x + snd x})"

text \<open>
  Free chunks are non-empty, sorted, disjoint, and never adjacent: two neighbouring free
  chunks would have been merged.
\<close>

definition chunks_ok :: "(nat, nat) btree_map \<Rightarrow> bool" where
  "chunks_ok xs \<longleftrightarrow> sorted_wrt (\<lambda>x y. fst x + snd x < fst y) xs \<and> (\<forall>x \<in> set xs. 0 < snd x)"

definition size_index_ok :: "allocation_state \<Rightarrow> bool" where
  "size_index_ok s \<longleftrightarrow>
     sorted (free_chunks_by_size s) \<and> distinct (free_chunks_by_size s) \<and>
     set (free_chunks_by_size s) = prod.swap ` set (free_chunks_by_offset s)"

definition alloc_inv :: "allocation_state \<Rightarrow> bool" where
  "alloc_inv s \<longleftrightarrow>
     chunks_ok (free_chunks_by_offset s) \<and> size_index_ok s \<and>
     (\<forall>x \<in> set (free_chunks_by_offset s). fst x + snd x \<le> file_tail s) \<and>
     file_tail s \<le> u64_max \<and>
     free_bytes s = sum_list (map snd (free_chunks_by_offset s))"

lemma chunks_ok_Nil [simp]: "chunks_ok []"
  by (simp add: chunks_ok_def)

lemma chunks_ok_Cons [simp]:
  "chunks_ok (x # xs) \<longleftrightarrow> 0 < snd x \<and> (\<forall>y \<in> set xs. fst x + snd x < fst y) \<and> chunks_ok xs"
  by (auto simp: chunks_ok_def)

lemma chunks_ok_append:
  "chunks_ok (xs @ ys) \<longleftrightarrow> chunks_ok xs \<and> chunks_ok ys \<and>
     (\<forall>x \<in> set xs. \<forall>y \<in> set ys. fst x + snd x < fst y)"
  by (auto simp: chunks_ok_def sorted_wrt_append)

lemma chunks_ok_bt_sorted: "chunks_ok xs \<Longrightarrow> bt_sorted xs"
  by (induction xs) fastforce+

lemma chunk_cells_simps [simp]:
  "chunk_cells [] = {}"
  "chunk_cells (x # xs) = {fst x ..< fst x + snd x} \<union> chunk_cells xs"
  "chunk_cells (xs @ ys) = chunk_cells xs \<union> chunk_cells ys"
  by (auto simp: chunk_cells_def)

lemma chunk_cells_mem: "x \<in> set xs \<Longrightarrow> {fst x ..< fst x + snd x} \<subseteq> chunk_cells xs"
  by (auto simp: chunk_cells_def)

lemma finite_chunk_cells [simp]: "finite (chunk_cells xs)"
  by (simp add: chunk_cells_def)

lemma chunk_cells_after:
  "\<forall>y \<in> set ys. b \<le> fst y \<Longrightarrow> chunk_cells ys \<inter> {..< b} = {}"
  by (fastforce simp: chunk_cells_def)

lemma chunk_cells_before:
  "\<forall>x \<in> set xs. fst x + snd x \<le> a \<Longrightarrow> chunk_cells xs \<inter> {a ..} = {}"
  by (fastforce simp: chunk_cells_def)

lemma card_chunk_cells: "chunks_ok xs \<Longrightarrow> card (chunk_cells xs) = sum_list (map snd xs)"
proof (induction xs)
  case (Cons x xs)
  then have "chunk_cells xs \<inter> {..< fst x + snd x} = {}"
    by (intro chunk_cells_after) auto
  then have "{fst x ..< fst x + snd x} \<inter> chunk_cells xs = {}" by auto
  with Cons show ?case by (simp add: card_Un_disjoint)
qed simp

text \<open>A non-empty extent apart from every chunk splits the chunk list around itself.\<close>

lemma chunks_split:
  assumes "chunks_ok xs" "{off ..< off + l} \<inter> chunk_cells xs = {}" "0 < l"
  shows "\<exists>ls rs. xs = ls @ rs \<and> (\<forall>x \<in> set ls. fst x + snd x \<le> off) \<and> (\<forall>y \<in> set rs. off + l \<le> fst y)"
  using assms(1,2)
proof (induction xs)
  case (Cons x xs)
  show ?case
  proof (cases "fst x + snd x \<le> off")
    case True
    from Cons obtain ls rs where "xs = ls @ rs" "\<forall>x \<in> set ls. fst x + snd x \<le> off"
      "\<forall>y \<in> set rs. off + l \<le> fst y" by auto
    with True show ?thesis by (intro exI [of _ "x # ls"] exI [of _ rs]) auto
  next
    case False
    have "off + l \<le> fst x"
    proof (rule ccontr)
      assume "\<not> off + l \<le> fst x"
      with False assms(3) Cons.prems(1)
      have "max off (fst x) \<in> {off ..< off + l}" "max off (fst x) \<in> {fst x ..< fst x + snd x}"
        by auto
      then have "max off (fst x) \<in> {off ..< off + l} \<inter> chunk_cells (x # xs)"
        unfolding chunk_cells_simps by blast
      with Cons.prems(2) show False by blast
    qed
    with Cons.prems(1) show ?thesis by (intro exI [of _ "[]"] exI [of _ "x # xs"]) auto
  qed
qed simp


subsection \<open>Inserting and removing a chunk at a known position\<close>

lemma remove_free_chunk_mid:
  assumes "free_chunks_by_offset s = xs @ (off, l) # ys" "chunks_ok (xs @ (off, l) # ys)" "size_index_ok s"
  obtains s' where "remove_free_chunk \<lparr>ext_offset = off, ext_len = l\<rparr> s = Some s'"
    "free_chunks_by_offset s' = xs @ ys" "size_index_ok s'"
    "may_write s' = may_write s" "file_tail s' = file_tail s" "free_bytes s' = free_bytes s"
proof -
  have sorted: "bt_sorted (xs @ (off, l) # ys)" using assms(2) by (rule chunks_ok_bt_sorted)
  then have get: "map_of (xs @ (off, l) # ys) off = Some l"
    using bt_get_mem [OF sorted, of off l] by simp
  have ne: "\<forall>x \<in> set xs. fst x \<noteq> off" "\<forall>y \<in> set ys. fst y \<noteq> off"
    using sorted by (auto simp: bt_sorted_append)
  let ?s = "s\<lparr>free_chunks_by_offset := xs @ ys,
    free_chunks_by_size := remove1 (l, off) (free_chunks_by_size s)\<rparr>"
  have "(l, off) \<in> set (free_chunks_by_size s)" using assms(1,3) by (auto simp: size_index_ok_def)
  with get ne(1) assms(1) have "remove_free_chunk \<lparr>ext_offset = off, ext_len = l\<rparr> s = Some ?s"
    by (simp add: remove_free_chunk_def bt_remove_mid)
  moreover have "size_index_ok ?s"
    using assms(1,3) ne by (auto simp: size_index_ok_def sorted_remove1 image_Un)
  ultimately show thesis by (intro that [of ?s]) simp_all
qed

lemma insert_free_chunk_mid:
  assumes "free_chunks_by_offset s = xs @ ys" "chunks_ok (xs @ (off, l) # ys)" "size_index_ok s"
  obtains s' where "insert_free_chunk \<lparr>ext_offset = off, ext_len = l\<rparr> s = Some s'"
    "free_chunks_by_offset s' = xs @ (off, l) # ys" "size_index_ok s'"
    "may_write s' = may_write s" "file_tail s' = file_tail s" "free_bytes s' = free_bytes s"
proof -
  have lt: "\<forall>x \<in> set xs. fst x < off" "\<forall>y \<in> set ys. off < fst y"
    using chunks_ok_bt_sorted [OF assms(2)] by (auto simp: bt_sorted_append)
  then have notin: "off \<notin> fst ` set (xs @ ys)" by auto
  let ?s = "s\<lparr>free_chunks_by_offset := xs @ (off, l) # ys,
    free_chunks_by_size := insort (l, off) (free_chunks_by_size s)\<rparr>"
  have "(l, off) \<notin> set (free_chunks_by_size s)"
    using notin assms(1,3) by (force simp: size_index_ok_def)
  moreover from this have "size_index_ok ?s"
    using assms(1,3) by (auto simp: size_index_ok_def set_insort_key sorted_insort distinct_insort image_Un)
  moreover have "map_of (free_chunks_by_offset s) off = None"
    unfolding assms(1) using notin map_of_eq_None_iff [of "xs @ ys" off] by blast
  ultimately show thesis
    using assms(1) lt by (intro that [of ?s]) (simp_all add: insert_free_chunk_def bt_insert_mid)
qed


subsection \<open>Allocation\<close>

lemma size_range:
  "(n, 0) \<le> p \<and> p \<le> (n, u64_max) \<longleftrightarrow> fst p = n \<and> snd p \<le> u64_max" for p :: "nat \<times> nat"
  by (cases p) auto

text \<open>The chunk the policy picks for a request, as a property of the chunk list alone.\<close>

definition best_chunk :: "(nat, nat) btree_map \<Rightarrow> nat \<Rightarrow> nat \<times> nat \<Rightarrow> bool" where
  "best_chunk xs sz c \<longleftrightarrow>
     c \<in> set xs \<and> sz \<le> snd c \<and>
     (snd c = sz \<or> (\<forall>x \<in> set xs. snd x \<noteq> sz \<and> snd x \<le> snd c)) \<and>
     (\<forall>x \<in> set xs. snd x = snd c \<longrightarrow> fst c \<le> fst x)"

lemma by_size_offset_bound:
  "alloc_inv s \<Longrightarrow> p \<in> set (free_chunks_by_size s) \<Longrightarrow> snd p \<le> u64_max"
  by (fastforce simp: alloc_inv_def size_index_ok_def)

lemma by_size_mem:
  "alloc_inv s \<Longrightarrow> (l, off) \<in> set (free_chunks_by_size s) \<longleftrightarrow> (off, l) \<in> set (free_chunks_by_offset s)"
  by (force simp: alloc_inv_def size_index_ok_def)

lemma bs_range_first_size:
  assumes "alloc_inv s"
  shows "bs_range_first (n, 0) (n, u64_max) (free_chunks_by_size s) = Some (l, off) \<Longrightarrow>
      l = n \<and> (off, n) \<in> set (free_chunks_by_offset s) \<and>
      (\<forall>x \<in> set (free_chunks_by_offset s). snd x = n \<longrightarrow> off \<le> fst x)"
    and "bs_range_first (n, 0) (n, u64_max) (free_chunks_by_size s) = None \<Longrightarrow>
      \<forall>x \<in> set (free_chunks_by_offset s). snd x \<noteq> n"
proof -
  have sorted: "sorted (free_chunks_by_size s)" using assms by (simp add: alloc_inv_def size_index_ok_def)
  show "l = n \<and> (off, n) \<in> set (free_chunks_by_offset s) \<and>
      (\<forall>x \<in> set (free_chunks_by_offset s). snd x = n \<longrightarrow> off \<le> fst x)"
    if "bs_range_first (n, 0) (n, u64_max) (free_chunks_by_size s) = Some (l, off)"
  proof -
    from find_sorted_least [OF that [unfolded bs_range_first_def] sorted]
    have l: "l = n" "(l, off) \<in> set (free_chunks_by_size s)"
      and least: "\<forall>y \<in> set (free_chunks_by_size s). fst y = n \<and> snd y \<le> u64_max \<longrightarrow> (l, off) \<le> y"
      by (auto simp: size_range)
    have "off \<le> fst x" if "x \<in> set (free_chunks_by_offset s)" "snd x = n" for x
    proof -
      have "(n, fst x) \<in> set (free_chunks_by_size s)"
        using that by_size_mem [OF assms, of n "fst x"] by auto
      with least l(1) by_size_offset_bound [OF assms] show ?thesis by fastforce
    qed
    with l by_size_mem [OF assms] show ?thesis by auto
  qed
  show "\<forall>x \<in> set (free_chunks_by_offset s). snd x \<noteq> n"
    if none: "bs_range_first (n, 0) (n, u64_max) (free_chunks_by_size s) = None"
  proof (intro ballI notI)
    fix x assume x: "x \<in> set (free_chunks_by_offset s)" "snd x = n"
    then have m: "(n, fst x) \<in> set (free_chunks_by_size s)"
      using by_size_mem [OF assms, of n "fst x"] by auto
    with none show False
      using by_size_offset_bound [OF assms m] by (auto simp: bs_range_first_def find_None_iff size_range)
  qed
qed

lemma choose_free_chunk_spec:
  assumes "alloc_inv s"
  shows "(choose_free_chunk s sz = Some None \<and> (\<forall>x \<in> set (free_chunks_by_offset s). snd x < sz)) \<or>
    (\<exists>off l. choose_free_chunk s sz = Some (Some (l, off)) \<and>
       best_chunk (free_chunks_by_offset s) sz (off, l))"
proof (cases "bs_range_first (sz, 0) (sz, u64_max) (free_chunks_by_size s)")
  case (Some p)
  with bs_range_first_size(1) [OF assms, of sz "fst p" "snd p"] show ?thesis
    by (cases p) (auto simp: choose_free_chunk_def best_chunk_def)
next
  case None
  note no_exact = bs_range_first_size(2) [OF assms None]
  show ?thesis
  proof (cases "free_chunks_by_size s = []")
    case True
    then have "free_chunks_by_offset s = []"
      using assms by (simp add: alloc_inv_def size_index_ok_def)
    with None True show ?thesis by (simp add: choose_free_chunk_def)
  next
    case False
    let ?n = "fst (last (free_chunks_by_size s))"
    have "sorted (free_chunks_by_size s)" using assms by (simp add: alloc_inv_def size_index_ok_def)
    then have le_last: "p \<le> last (free_chunks_by_size s)" if "p \<in> set (free_chunks_by_size s)" for p
      using that by (rule sorted_le_last)
    have largest: "snd x \<le> ?n" if "x \<in> set (free_chunks_by_offset s)" for x
      using le_last [of "(snd x, fst x)"] by_size_mem [OF assms, of "snd x" "fst x"] that
      by (auto simp: less_eq_prod_def)
    show ?thesis
    proof (cases "?n \<le> sz")
      case True
      have "snd x < sz" if "x \<in> set (free_chunks_by_offset s)" for x
        using largest [OF that] no_exact that True by (metis le_neq_implies_less le_trans)
      with None False True show ?thesis by (simp add: choose_free_chunk_def Let_def)
    next
      case gt: False
      have "(snd (last (free_chunks_by_size s)), ?n) \<in> set (free_chunks_by_offset s)"
        using by_size_mem [OF assms, of ?n "snd (last (free_chunks_by_size s))"] False by simp
      then obtain p where p: "bs_range_first (?n, 0) (?n, u64_max) (free_chunks_by_size s) = Some p"
        using bs_range_first_size(2) [OF assms, of ?n] by fastforce
      with bs_range_first_size(1) [OF assms, of ?n "fst p" "snd p"]
      have "fst p = ?n" "(snd p, ?n) \<in> set (free_chunks_by_offset s)"
        "\<forall>x \<in> set (free_chunks_by_offset s). snd x = ?n \<longrightarrow> snd p \<le> fst x" by auto
      then have "best_chunk (free_chunks_by_offset s) sz (snd p, fst p)"
        using gt largest no_exact by (simp add: best_chunk_def)
      moreover have "choose_free_chunk s sz = Some (Some (fst p, snd p))"
        using p gt None False by (simp add: choose_free_chunk_def Let_def)
      ultimately show ?thesis by blast
    qed
  qed
qed

text \<open>Frame: the fields no index operation touches.\<close>

definition same_frame :: "allocation_state \<Rightarrow> allocation_state \<Rightarrow> bool" where
  "same_frame s s' \<longleftrightarrow> may_write s' = may_write s \<and> file_tail s' = file_tail s"

definition allocated :: "allocation_state \<Rightarrow> nat \<Rightarrow> nat \<Rightarrow> allocation_state \<Rightarrow> bool" where
  "allocated s off sz s' \<longleftrightarrow> alloc_inv s' \<and> same_frame s s' \<and>
     chunk_cells (free_chunks_by_offset s) = {off ..< off + sz} \<union> chunk_cells (free_chunks_by_offset s') \<and>
     {off ..< off + sz} \<inter> chunk_cells (free_chunks_by_offset s') = {}"

lemma chunks_around:
  assumes "chunks_ok (xs @ (off, l) # ys)"
  shows "chunk_cells xs \<inter> {off ..} = {}" "chunk_cells ys \<inter> {..< off + l} = {}"
  by (rule chunk_cells_before chunk_cells_after, use assms in \<open>fastforce simp: chunks_ok_append\<close>)+

text \<open>The chosen chunk fits exactly, or its tail stays free.\<close>

lemma find_free_chunk_exact:
  assumes inv: "alloc_inv s" and sz: "0 < sz"
    and ch: "choose_free_chunk s sz = Some (Some (sz, off))"
    and xs: "free_chunks_by_offset s = xs @ (off, sz) # ys"
  shows "\<exists>s'. find_free_chunk s sz = Some (Some \<lparr>ext_offset = off, ext_len = sz\<rparr>, s') \<and> allocated s off sz s'"
proof -
  have ok: "chunks_ok (xs @ (off, sz) # ys)" "size_index_ok s"
    and tail: "off + sz \<le> file_tail s" "file_tail s \<le> u64_max"
    and fb: "free_bytes s = sum_list (map snd (xs @ (off, sz) # ys))"
    using inv xs by (auto simp: alloc_inv_def)
  obtain s1 where s1: "remove_free_chunk \<lparr>ext_offset = off, ext_len = sz\<rparr> s = Some s1"
    "free_chunks_by_offset s1 = xs @ ys" "size_index_ok s1"
    "may_write s1 = may_write s" "file_tail s1 = file_tail s" "free_bytes s1 = free_bytes s"
    using remove_free_chunk_mid [OF xs ok] by metis
  let ?s2 = "s1\<lparr>free_bytes := free_bytes s - sz\<rparr>"
  have "find_free_chunk s sz = Some (Some \<lparr>ext_offset = off, ext_len = sz\<rparr>, ?s2)"
    using ch s1 tail fb by (simp add: find_free_chunk_def checked_add_def checked_sub_def)
  moreover have "alloc_inv ?s2"
    using inv s1 ok xs fb by (auto simp: alloc_inv_def chunks_ok_append size_index_ok_def)
  moreover have "{off ..< off + sz} \<inter> chunk_cells (xs @ ys) = {}"
    using chunks_around [OF ok(1)] by auto
  ultimately show ?thesis
    using s1 xs by (intro exI [of _ ?s2]) (auto simp: same_frame_def allocated_def)
qed

lemma find_free_chunk_split:
  assumes inv: "alloc_inv s" and sz: "0 < sz" "sz < l"
    and ch: "choose_free_chunk s sz = Some (Some (l, off))"
    and xs: "free_chunks_by_offset s = xs @ (off, l) # ys"
  shows "\<exists>s'. find_free_chunk s sz = Some (Some \<lparr>ext_offset = off, ext_len = sz\<rparr>, s') \<and> allocated s off sz s'"
proof -
  have ok: "chunks_ok (xs @ (off, l) # ys)" "size_index_ok s"
    and tail: "off + l \<le> file_tail s" "file_tail s \<le> u64_max"
    and fb: "free_bytes s = sum_list (map snd (xs @ (off, l) # ys))"
    using inv xs by (auto simp: alloc_inv_def)
  obtain s1 where s1: "remove_free_chunk \<lparr>ext_offset = off, ext_len = l\<rparr> s = Some s1"
    "free_chunks_by_offset s1 = xs @ ys" "size_index_ok s1"
    "may_write s1 = may_write s" "file_tail s1 = file_tail s" "free_bytes s1 = free_bytes s"
    using remove_free_chunk_mid [OF xs ok] by metis
  let ?s2 = "s1\<lparr>free_bytes := free_bytes s - sz\<rparr>"
  have ok': "chunks_ok (xs @ (off + sz, l - sz) # ys)"
    using ok(1) sz by (auto simp: chunks_ok_append)
  obtain s3 where s3: "insert_free_chunk \<lparr>ext_offset = off + sz, ext_len = l - sz\<rparr> ?s2 = Some s3"
    "free_chunks_by_offset s3 = xs @ (off + sz, l - sz) # ys" "size_index_ok s3"
    "may_write s3 = may_write ?s2" "file_tail s3 = file_tail ?s2" "free_bytes s3 = free_bytes ?s2"
    using insert_free_chunk_mid [of ?s2, OF _ ok'] s1 by (auto simp: size_index_ok_def)
  have "find_free_chunk s sz = Some (Some \<lparr>ext_offset = off, ext_len = sz\<rparr>, s3)"
    using ch s1 tail fb sz s3(1)
    by (simp add: find_free_chunk_def checked_add_def checked_sub_def Let_def)
  moreover have "alloc_inv s3"
    using inv s1 s3 ok' xs fb sz tail by (auto simp: alloc_inv_def)
  moreover have "{off ..< off + l} = {off ..< off + sz} \<union> {off + sz ..< off + l}"
    using sz by auto
  moreover have "{off ..< off + sz} \<inter> chunk_cells (xs @ (off + sz, l - sz) # ys) = {}"
    using chunks_around [OF ok(1)] sz by auto
  ultimately show ?thesis
    using s1 s3 xs sz by (intro exI [of _ s3]) (auto simp: same_frame_def allocated_def)
qed

lemma find_free_chunk_spec:
  assumes inv: "alloc_inv s" and sz: "0 < sz"
  shows "(find_free_chunk s sz = Some (None, s) \<and> (\<forall>x \<in> set (free_chunks_by_offset s). snd x < sz)) \<or>
    (\<exists>off l s'. find_free_chunk s sz = Some (Some \<lparr>ext_offset = off, ext_len = sz\<rparr>, s') \<and>
       best_chunk (free_chunks_by_offset s) sz (off, l) \<and> allocated s off sz s')"
proof -
  consider "choose_free_chunk s sz = Some None" "\<forall>x \<in> set (free_chunks_by_offset s). snd x < sz"
    | off l where "choose_free_chunk s sz = Some (Some (l, off))"
        "best_chunk (free_chunks_by_offset s) sz (off, l)"
    using choose_free_chunk_spec [OF inv] by blast
  then show ?thesis
  proof cases
    case 1
    then show ?thesis by (simp add: find_free_chunk_def)
  next
    case 2
    then have mem: "(off, l) \<in> set (free_chunks_by_offset s)" and le: "sz \<le> l"
      by (auto simp: best_chunk_def)
    from mem obtain xs ys where xs: "free_chunks_by_offset s = xs @ (off, l) # ys"
      by (meson split_list)
    from le consider "l = sz" | "sz < l" by linarith
    then show ?thesis
      using find_free_chunk_exact [OF inv sz] find_free_chunk_split [OF inv sz] 2 xs by cases blast+
  qed
qed


subsection \<open>Release\<close>

lemma chunks_ok_pos: "chunks_ok xs \<Longrightarrow> x \<in> set xs \<Longrightarrow> 0 < snd x"
  by (simp add: chunks_ok_def)

lemma chunks_end_le_last:
  "chunks_ok xs \<Longrightarrow> x \<in> set xs \<Longrightarrow> fst x + snd x \<le> fst (last xs) + snd (last xs)"
proof (induction xs)
  case (Cons y xs)
  show ?case
  proof (cases "xs = []")
    case False
    have "fst y + snd y < fst (last xs)" using Cons.prems(1) last_in_set [OF False] by auto
    then have "fst y + snd y \<le> fst (last xs) + snd (last xs)" by linarith
    with Cons False show ?thesis by auto
  qed (use Cons in simp)
qed simp

text \<open>
  \<open>gap_at ls rs off l s\<close>: the extent of length \<open>l\<close> at \<open>off\<close> lies between \<open>ls\<close> and
  \<open>rs\<close>, which together are the free chunks of \<open>s\<close>.
\<close>

definition gap_at :: "(nat, nat) btree_map \<Rightarrow> (nat, nat) btree_map \<Rightarrow> nat \<Rightarrow> nat \<Rightarrow> allocation_state \<Rightarrow> bool" where
  "gap_at ls rs off l s \<longleftrightarrow>
     free_chunks_by_offset s = ls @ rs \<and> chunks_ok (ls @ rs) \<and> size_index_ok s \<and> 0 < l \<and>
     (\<forall>x \<in> set ls. fst x + snd x \<le> off) \<and> (\<forall>y \<in> set rs. off + l \<le> fst y)"

lemma merge_left_spec:
  assumes gap: "gap_at ls rs off l s" and bound: "off + l \<le> u64_max"
  shows "\<exists>ls' off' l' s'. merge_left \<lparr>ext_offset = off, ext_len = l\<rparr> s =
      Some (\<lparr>ext_offset = off', ext_len = l'\<rparr>, s') \<and> gap_at ls' rs off' l' s' \<and>
      (\<forall>x \<in> set ls'. fst x + snd x < off') \<and> off' + l' = off + l \<and>
      chunk_cells ls' \<union> {off' ..< off' + l'} = chunk_cells ls \<union> {off ..< off + l} \<and>
      sum_list (map snd ls') + l' = sum_list (map snd ls) + l \<and>
      same_frame s s' \<and> free_bytes s' = free_bytes s"
proof -
  have below: "bt_below off (free_chunks_by_offset s) = (if ls = [] then None else Some (last ls))"
  proof -
    have "fst x < off" if "x \<in> set ls" for x
      using gap that chunks_ok_pos [of ls x] by (fastforce simp: gap_at_def chunks_ok_append)
    moreover have "\<forall>y \<in> set rs. off \<le> fst y" using gap by (fastforce simp: gap_at_def)
    ultimately show ?thesis using gap by (simp add: gap_at_def bt_below_split)
  qed
  show ?thesis
  proof (cases "ls = [] \<or> fst (last ls) + snd (last ls) < off")
    case True
    have "merge_left \<lparr>ext_offset = off, ext_len = l\<rparr> s = Some (\<lparr>ext_offset = off, ext_len = l\<rparr>, s)"
      using True below bound by (auto simp: merge_left_def checked_add_def split: prod.split)
    moreover have "fst x + snd x < off" if "x \<in> set ls" for x
      using True that chunks_end_le_last [OF _ that] gap by (fastforce simp: gap_at_def chunks_ok_append)
    ultimately show ?thesis using gap
      by (intro exI [of _ ls] exI [of _ off] exI [of _ l] exI [of _ s]) (auto simp: same_frame_def)
  next
    case False
    define lo ll where "lo = fst (last ls)" and "ll = snd (last ls)"
    have ls: "ls = butlast ls @ [(lo, ll)]" using False by (simp add: lo_def ll_def)
    then have eq: "lo + ll = off"
      using False gap by (metis gap_at_def last_in_set le_neq_implies_less lo_def ll_def)
    have s: "free_chunks_by_offset s = butlast ls @ (lo, ll) # rs"
      using gap ls by (metis append.assoc append_Cons append_Nil gap_at_def)
    have ok: "chunks_ok (butlast ls @ (lo, ll) # rs)" "size_index_ok s" "0 < l"
      using gap unfolding gap_at_def s [symmetric] by auto
    obtain s1 where s1: "remove_free_chunk \<lparr>ext_offset = lo, ext_len = ll\<rparr> s = Some s1"
      "free_chunks_by_offset s1 = butlast ls @ rs" "size_index_ok s1"
      "may_write s1 = may_write s" "file_tail s1 = file_tail s" "free_bytes s1 = free_bytes s"
      using remove_free_chunk_mid [OF s ok(1,2)] by metis
    have "merge_left \<lparr>ext_offset = off, ext_len = l\<rparr> s = Some (\<lparr>ext_offset = lo, ext_len = l + ll\<rparr>, s1)"
    proof -
      have "bt_below off (free_chunks_by_offset s) = Some (lo, ll)"
        using False below by (simp add: lo_def ll_def)
      with bound eq s1(1) show ?thesis by (simp add: merge_left_def checked_add_def)
    qed
    moreover have "gap_at (butlast ls) rs lo (l + ll) s1"
      using gap ok s1 eq by (auto simp: gap_at_def chunks_ok_append)
    moreover have "chunk_cells ls \<union> {off ..< off + l} = chunk_cells (butlast ls) \<union> {lo ..< lo + (l + ll)}"
      by (subst ls) (use eq in auto)
    moreover have "sum_list (map snd ls) = sum_list (map snd (butlast ls)) + ll"
      by (subst ls) simp
    ultimately show ?thesis using s1 ok eq
      by (intro exI [of _ "butlast ls"] exI [of _ lo] exI [of _ "l + ll"] exI [of _ s1])
         (auto simp: same_frame_def chunks_ok_append)
  qed
qed

lemma merge_right_spec:
  assumes gap: "gap_at ls rs off l s" and lt: "\<forall>x \<in> set ls. fst x + snd x < off"
    and tail: "\<forall>x \<in> set rs. fst x + snd x \<le> u64_max" "off + l \<le> u64_max"
  shows "\<exists>rs' l' s'. merge_right \<lparr>ext_offset = off, ext_len = l\<rparr> s =
      Some (\<lparr>ext_offset = off, ext_len = l'\<rparr>, s') \<and> gap_at ls rs' off l' s' \<and>
      (\<forall>y \<in> set rs'. off + l' < fst y) \<and>
      {off ..< off + l'} \<union> chunk_cells rs' = {off ..< off + l} \<union> chunk_cells rs \<and>
      l' + sum_list (map snd rs') = l + sum_list (map snd rs) \<and>
      same_frame s s' \<and> free_bytes s' = free_bytes s"
proof -
  have "\<forall>x \<in> set ls. fst x < off" "\<forall>y \<in> set rs. off \<le> fst y"
    using lt gap by (fastforce, fastforce simp: gap_at_def)
  then have "bt_from off (ls @ rs) = (if rs = [] then None else Some (hd rs))"
    by (rule bt_from_split)
  then have from_eq: "bt_from off (free_chunks_by_offset s) = (if rs = [] then None else Some (hd rs))"
    using gap by (simp add: gap_at_def)
  show ?thesis
  proof (cases rs)
    case Nil
    with from_eq gap show ?thesis
      by (intro exI [of _ rs] exI [of _ l] exI [of _ s]) (simp add: merge_right_def same_frame_def)
  next
    case (Cons r rs1)
    obtain ro rl where r: "r = (ro, rl)" by (cases r)
    have le: "off + l \<le> ro" using gap Cons r by (auto simp: gap_at_def)
    show ?thesis
    proof (cases "off + l = ro")
      case False
      have "\<forall>y \<in> set rs. off + l < fst y"
        using False le gap Cons r by (fastforce simp: gap_at_def chunks_ok_append)
      moreover have "merge_right \<lparr>ext_offset = off, ext_len = l\<rparr> s =
          Some (\<lparr>ext_offset = off, ext_len = l\<rparr>, s)"
        using False le from_eq Cons r tail by (simp add: merge_right_def checked_add_def)
      ultimately show ?thesis using gap
        by (intro exI [of _ rs] exI [of _ l] exI [of _ s]) (simp add: same_frame_def)
    next
      case True
      have s: "free_chunks_by_offset s = ls @ (ro, rl) # rs1" using gap Cons r by (simp add: gap_at_def)
      with gap have ok: "chunks_ok (ls @ (ro, rl) # rs1)" "size_index_ok s" "0 < l"
        by (auto simp: gap_at_def)
      obtain s1 where s1: "remove_free_chunk \<lparr>ext_offset = ro, ext_len = rl\<rparr> s = Some s1"
        "free_chunks_by_offset s1 = ls @ rs1" "size_index_ok s1"
        "may_write s1 = may_write s" "file_tail s1 = file_tail s" "free_bytes s1 = free_bytes s"
        using remove_free_chunk_mid [OF s ok(1,2)] by metis
      have "merge_right \<lparr>ext_offset = off, ext_len = l\<rparr> s =
          Some (\<lparr>ext_offset = off, ext_len = l + rl\<rparr>, s1)"
        using True from_eq Cons r s1(1) tail by (simp add: merge_right_def checked_add_def)
      moreover have "gap_at ls rs1 off (l + rl) s1"
        using gap ok s1 True by (auto simp: gap_at_def chunks_ok_append)
      ultimately show ?thesis using s1 ok True Cons r
        by (intro exI [of _ rs1] exI [of _ "l + rl"] exI [of _ s1])
           (auto simp: same_frame_def chunks_ok_append)
    qed
  qed
qed

text \<open>Releasing an extent that no free chunk overlaps makes exactly its cells free.\<close>

definition released :: "allocation_state \<Rightarrow> extent \<Rightarrow> allocation_state \<Rightarrow> bool" where
  "released s e s' \<longleftrightarrow> alloc_inv s' \<and> same_frame s s' \<and>
     chunk_cells (free_chunks_by_offset s') = chunk_cells (free_chunks_by_offset s) \<union> cells e"

lemma release_chunk_spec:
  assumes inv: "alloc_inv s" and pos: "0 < ext_len e" and tail: "ext_offset e + ext_len e \<le> file_tail s"
    and free: "cells e \<inter> chunk_cells (free_chunks_by_offset s) = {}"
  shows "\<exists>s'. release_chunk e s = Some s' \<and> released s e s'"
proof -
  obtain off l where e: "e = \<lparr>ext_offset = off, ext_len = l\<rparr>" by (cases e) simp
  let ?F = "free_chunks_by_offset s"
  have ok: "chunks_ok ?F" "size_index_ok s" "file_tail s \<le> u64_max"
    and fb: "free_bytes s = sum_list (map snd ?F)"
    and end_le: "\<forall>x \<in> set ?F. fst x + snd x \<le> file_tail s" using inv by (auto simp: alloc_inv_def)
  obtain ls rs where lr: "?F = ls @ rs" "\<forall>x \<in> set ls. fst x + snd x \<le> off" "\<forall>y \<in> set rs. off + l \<le> fst y"
    using chunks_split [OF ok(1), of off l] free pos e by (auto simp: cells_def)
  have "gap_at ls rs off l s" using lr ok pos e by (simp add: gap_at_def)
  then obtain ls1 off1 l1 s1 where left:
    "merge_left e s = Some (\<lparr>ext_offset = off1, ext_len = l1\<rparr>, s1)" "gap_at ls1 rs off1 l1 s1"
    "\<forall>x \<in> set ls1. fst x + snd x < off1" "off1 + l1 = off + l"
    "chunk_cells ls1 \<union> {off1 ..< off1 + l1} = chunk_cells ls \<union> {off ..< off + l}"
    "sum_list (map snd ls1) + l1 = sum_list (map snd ls) + l" "same_frame s s1" "free_bytes s1 = free_bytes s"
    using merge_left_spec [of ls rs off l s] tail ok(3) e by force
  have "\<forall>x \<in> set rs. fst x + snd x \<le> u64_max" "off1 + l1 \<le> u64_max"
    using end_le lr(1) ok(3) tail e left(4) by (force, force)
  then obtain rs2 l2 s2 where right:
    "merge_right \<lparr>ext_offset = off1, ext_len = l1\<rparr> s1 = Some (\<lparr>ext_offset = off1, ext_len = l2\<rparr>, s2)"
    "gap_at ls1 rs2 off1 l2 s2" "\<forall>y \<in> set rs2. off1 + l2 < fst y"
    "{off1 ..< off1 + l2} \<union> chunk_cells rs2 = {off1 ..< off1 + l1} \<union> chunk_cells rs"
    "l2 + sum_list (map snd rs2) = l1 + sum_list (map snd rs)"
    "same_frame s1 s2" "free_bytes s2 = free_bytes s1"
    using merge_right_spec [OF left(2,3)] by blast
  have ok3: "chunks_ok (ls1 @ (off1, l2) # rs2)"
    using right(2,3) left(3) by (auto simp: gap_at_def chunks_ok_append)
  obtain s3 where s3: "insert_free_chunk \<lparr>ext_offset = off1, ext_len = l2\<rparr> s2 = Some s3"
    "free_chunks_by_offset s3 = ls1 @ (off1, l2) # rs2" "size_index_ok s3"
    "may_write s3 = may_write s2" "file_tail s3 = file_tail s2" "free_bytes s3 = free_bytes s2"
    using insert_free_chunk_mid [OF _ ok3] right(2) by (auto simp: gap_at_def)
  have cells3: "chunk_cells (ls1 @ (off1, l2) # rs2) = chunk_cells ?F \<union> {off ..< off + l}"
    using left(5) right(4) lr(1) by auto
  have total: "free_bytes s3 + l = sum_list (map snd (ls1 @ (off1, l2) # rs2))"
    using left(6,8) right(5,7) s3(6) fb lr(1) by simp
  have "chunk_cells ?F \<union> {off ..< off + l} \<subseteq> {..< file_tail s}"
    using end_le tail e by (fastforce simp: chunk_cells_def)
  then have sub: "chunk_cells (ls1 @ (off1, l2) # rs2) \<subseteq> {..< file_tail s}" using cells3 by simp
  then have "free_bytes s3 + l \<le> file_tail s"
    using total card_chunk_cells [OF ok3] card_mono [OF finite_lessThan sub] by simp
  then have rel: "release_chunk e s = Some (s3\<lparr>free_bytes := free_bytes s3 + l\<rparr>)"
    using left(1) right(1) s3(1) ok(3) e by (simp add: release_chunk_def checked_add_def)
  have "\<forall>x \<in> set (ls1 @ (off1, l2) # rs2). fst x + snd x \<le> file_tail s"
  proof
    fix x assume x: "x \<in> set (ls1 @ (off1, l2) # rs2)"
    with ok3 have "0 < snd x" by (metis chunks_ok_pos)
    then have "fst x + snd x - 1 \<in> {fst x ..< fst x + snd x}" by auto
    with x sub chunk_cells_mem have "fst x + snd x - 1 < file_tail s" by fast
    then show "fst x + snd x \<le> file_tail s" by simp
  qed
  with ok3 s3 total left(7) right(6) ok(3)
  have "alloc_inv (s3\<lparr>free_bytes := free_bytes s3 + l\<rparr>)"
    by (simp add: alloc_inv_def same_frame_def size_index_ok_def)
  with rel cells3 s3 left(7) right(6) e show ?thesis
    by (simp add: released_def same_frame_def cells_def)
qed

text \<open>The byte counter of the allocator counts the free cells.\<close>

lemma chunk_cells_finite [simp]: "finite (chunk_cells xs)"
  by (simp add: chunk_cells_def)

lemma chunks_card: "chunks_ok xs \<Longrightarrow> card (chunk_cells xs) = sum_list (map snd xs)"
proof (induction xs)
  case (Cons x xs)
  obtain off l where x: "x = (off, l)" by (cases x)
  have "chunk_cells xs \<inter> {..< off + l} = {}" using chunks_around(2) [of "[]" off l xs] Cons.prems x by simp
  then have "{off ..< off + l} \<inter> chunk_cells xs = {}" by auto
  moreover have "chunks_ok xs" using Cons.prems by (simp add: chunks_ok_def)
  moreover have "chunk_cells (x # xs) = {off ..< off + l} \<union> chunk_cells xs"
    by (simp add: chunk_cells_def x)
  ultimately show ?case using Cons.IH x by (simp add: card_Un_disjoint)
qed (simp add: chunk_cells_def)

lemma free_bytes_card: "alloc_inv s \<Longrightarrow> free_bytes s = card (chunk_cells (free_chunks_by_offset s))"
  using chunks_card [of "free_chunks_by_offset s"] by (simp add: alloc_inv_def)

end
