(* ===== verification/Disk_Pool.thy ===== *)
theory Disk_Pool
  imports Disk_Alloc
begin

section \<open>The disk pool (moli-disk-pool)\<close>

text \<open>
  \<^verbatim>\<open>DiskPool\<close>, \<^verbatim>\<open>ReservedChunk\<close>, \<^verbatim>\<open>DiskData\<close> and \<^verbatim>\<open>PoolFile\<close> of
  \<^verbatim>\<open>moli-disk-pool/src/{pool,reservation,data,file}.rs\<close>.  The anonymous temporary file is a
  function from offsets to bytes.  What the operating system answers to the positioned
  reads and writes is an input: a list of replies, each a number of bytes transferred or
  an error, consumed by the retry loops.  A loop whose replies run out has not returned
  (\<^const>\<open>None\<close>).  The handles a client owns are kept in a table, so that dropping one is an
  operation of the model; a stored handle also remembers the bytes it was written with,
  which no operation reads.
\<close>

type_synonym u8 = "8 word"

datatype io_error_kind = Interrupted | WriteZero | UnexpectedEof | InvalidInput | OtherError

datatype os_reply = Transferred nat | OsError io_error_kind

definition put_bytes :: "nat \<Rightarrow> u8 list \<Rightarrow> (nat \<Rightarrow> u8) \<Rightarrow> (nat \<Rightarrow> u8)" where
  "put_bytes off bs f = (\<lambda>i. if off \<le> i \<and> i < off + length bs then bs ! (i - off) else f i)"

definition get_bytes :: "nat \<Rightarrow> nat \<Rightarrow> (nat \<Rightarrow> u8) \<Rightarrow> u8 list" where
  "get_bytes off n f = map f [off ..< off + n]"

text \<open>
  \<^verbatim>\<open>PoolFile::write_all_at\<close> and \<^verbatim>\<open>read_exact_at\<close>.  A reply that transfers more than the
  slice holds would panic in the re-slicing.
\<close>

fun write_all_at ::
  "os_reply list \<Rightarrow> u8 list \<Rightarrow> nat \<Rightarrow> (nat \<Rightarrow> u8) \<Rightarrow> ((io_error_kind + unit) \<times> (nat \<Rightarrow> u8)) option" where
  "write_all_at rs [] off f = Some (Inr (), f)"
| "write_all_at [] (b # bs) off f = None"
| "write_all_at (Transferred n # rs) (b # bs) off f =
     (if n = 0 then Some (Inl WriteZero, f)
      else if n > length (b # bs) then None
      else
        let f' = put_bytes off (take n (b # bs)) f in
        (case checked_add off n of
           None \<Rightarrow> Some (Inl InvalidInput, f')
         | Some off' \<Rightarrow> write_all_at rs (drop n (b # bs)) off' f'))"
| "write_all_at (OsError k # rs) (b # bs) off f =
     (if k = Interrupted then write_all_at rs (b # bs) off f else Some (Inl k, f))"

fun read_exact_file_at ::
  "os_reply list \<Rightarrow> nat \<Rightarrow> nat \<Rightarrow> (nat \<Rightarrow> u8) \<Rightarrow> (io_error_kind + u8 list) option" where
  "read_exact_file_at rs 0 off f = Some (Inr [])"
| "read_exact_file_at [] (Suc m) off f = None"
| "read_exact_file_at (Transferred n # rs) (Suc m) off f =
     (if n = 0 then Some (Inl UnexpectedEof)
      else if n > Suc m then None
      else
        (case checked_add off n of
           None \<Rightarrow> Some (Inl InvalidInput)
         | Some off' \<Rightarrow>
             (case read_exact_file_at rs (Suc m - n) off' f of
                None \<Rightarrow> None
              | Some (Inl e) \<Rightarrow> Some (Inl e)
              | Some (Inr bs) \<Rightarrow> Some (Inr (get_bytes off n f @ bs)))))"
| "read_exact_file_at (OsError k # rs) (Suc m) off f =
     (if k = Interrupted then read_exact_file_at rs (Suc m) off f else Some (Inl k))"

record disk_pool =
  pool_state :: allocation_state
  max_capacity :: "nat option"
  pool_file :: "nat \<Rightarrow> u8"

record disk_pool_diagnostics =
  diag_may_write :: bool
  disk_footprint_bytes :: nat
  diag_free_bytes :: nat
  free_chunk_count :: nat

definition disk_pool_new :: "nat option \<Rightarrow> (nat \<Rightarrow> u8) \<Rightarrow> disk_pool" where
  "disk_pool_new cap f =
     \<lparr>pool_state = \<lparr>may_write = True, file_tail = 0, free_chunks_by_offset = [],
        free_chunks_by_size = [], free_bytes = 0\<rparr>,
      max_capacity = cap, pool_file = f\<rparr>"

text \<open>Growing the file tail when no free chunk fits.\<close>

definition reserve_at_tail :: "nat \<Rightarrow> disk_pool \<Rightarrow> extent option \<times> disk_pool" where
  "reserve_at_tail sz p =
     (case checked_add (file_tail (pool_state p)) sz of
        None \<Rightarrow> (None, p)
      | Some new_tail \<Rightarrow>
          if (case max_capacity p of None \<Rightarrow> False | Some capacity \<Rightarrow> new_tail > capacity) then (None, p)
          else (Some \<lparr>ext_offset = file_tail (pool_state p), ext_len = sz\<rparr>,
                p\<lparr>pool_state := (pool_state p)\<lparr>file_tail := new_tail\<rparr>\<rparr>))"

definition try_reserve_chunk :: "nat \<Rightarrow> disk_pool \<Rightarrow> (extent option \<times> disk_pool) option" where
  "try_reserve_chunk sz p =
     (if sz = 0 then Some (None, p)
      else if \<not> may_write (pool_state p) then Some (None, p)
      else
        (case find_free_chunk (pool_state p) sz of
           None \<Rightarrow> None
         | Some (Some e, s) \<Rightarrow> Some (Some e, p\<lparr>pool_state := s\<rparr>)
         | Some (None, s) \<Rightarrow> Some (reserve_at_tail sz (p\<lparr>pool_state := s\<rparr>))))"

definition pool_release :: "extent \<Rightarrow> disk_pool \<Rightarrow> disk_pool option" where
  "pool_release e p = map_option (\<lambda>s. p\<lparr>pool_state := s\<rparr>) (release_chunk e (pool_state p))"

text \<open>
  \<^verbatim>\<open>DiskPool::write\<close> on a chunk reserved from this pool.  A data length that differs from the
  extent's, or a failing disk write, gives the extent back; the latter also stops further
  writes.
\<close>

definition pool_write :: "os_reply list \<Rightarrow> extent \<Rightarrow> u8 list \<Rightarrow> disk_pool \<Rightarrow> ((io_error_kind + extent) \<times> disk_pool) option" where
  "pool_write rs e data p =
     (if ext_len e \<noteq> length data then
        map_option (\<lambda>p'. (Inl InvalidInput, p')) (pool_release e p)
      else
        (case write_all_at rs data (ext_offset e) (pool_file p) of
           None \<Rightarrow> None
         | Some (Inr _, f) \<Rightarrow> Some (Inr e, p\<lparr>pool_file := f\<rparr>)
         | Some (Inl err, f) \<Rightarrow>
             map_option (\<lambda>s. (Inl err, p\<lparr>pool_file := f, pool_state := s\<lparr>may_write := False\<rparr>\<rparr>))
               (release_chunk e (pool_state p))))"

definition pool_store :: "os_reply list \<Rightarrow> u8 list \<Rightarrow> disk_pool \<Rightarrow> ((io_error_kind + extent option) \<times> disk_pool) option" where
  "pool_store rs data p =
     (case try_reserve_chunk (length data) p of
        None \<Rightarrow> None
      | Some (None, p1) \<Rightarrow> Some (Inr None, p1)
      | Some (Some e, p1) \<Rightarrow>
          map_option (\<lambda>(r, p2). (case r of Inl err \<Rightarrow> Inl err | Inr e' \<Rightarrow> Inr (Some e'), p2))
            (pool_write rs e data p1))"

definition diagnostics :: "disk_pool \<Rightarrow> disk_pool_diagnostics" where
  "diagnostics p =
     \<lparr>diag_may_write = may_write (pool_state p), disk_footprint_bytes = file_tail (pool_state p),
      diag_free_bytes = free_bytes (pool_state p),
      free_chunk_count = length (free_chunks_by_offset (pool_state p))\<rparr>"

text \<open>\<^verbatim>\<open>DiskData::read_exact_at\<close> (a range relative to the extent) and \<^verbatim>\<open>to_vec\<close>.\<close>

definition read_exact_at :: "os_reply list \<Rightarrow> extent \<Rightarrow> nat \<Rightarrow> nat \<Rightarrow> disk_pool \<Rightarrow> (io_error_kind + u8 list) option" where
  "read_exact_at rs e off n p =
     (case checked_add off n of
        None \<Rightarrow> Some (Inl InvalidInput)
      | Some end_off \<Rightarrow>
          if end_off > ext_len e then Some (Inl InvalidInput)
          else
            (case checked_add (ext_offset e) off of
               None \<Rightarrow> Some (Inl InvalidInput)
             | Some absolute_offset \<Rightarrow> read_exact_file_at rs n absolute_offset (pool_file p)))"

definition to_vec :: "os_reply list \<Rightarrow> extent \<Rightarrow> disk_pool \<Rightarrow> (io_error_kind + u8 list) option" where
  "to_vec rs e p = read_exact_at rs e 0 (ext_len e) p"

text \<open>
  \<^verbatim>\<open>write_to\<close>: the writer is the caller's; \<open>rs\<close> gives the replies to the read at each offset.
\<close>

function write_to_from ::
  "('w \<Rightarrow> u8 list \<Rightarrow> io_error_kind + 'w) \<Rightarrow> (nat \<Rightarrow> os_reply list) \<Rightarrow> extent \<Rightarrow> disk_pool \<Rightarrow>
   nat \<Rightarrow> 'w \<Rightarrow> (io_error_kind + 'w) option" where
  "write_to_from write_all rs e p off w =
     (if off < ext_len e then
        let n = min (64 * 1024) (ext_len e - off) in
        (case read_exact_at (rs off) e off n p of
           None \<Rightarrow> None
         | Some (Inl err) \<Rightarrow> Some (Inl err)
         | Some (Inr buffer) \<Rightarrow>
             (case write_all w buffer of
                Inl err \<Rightarrow> Some (Inl err)
              | Inr w' \<Rightarrow> write_to_from write_all rs e p (off + n) w'))
      else Some (Inr w))"
  by pat_completeness auto
termination
  by (relation "measure (\<lambda>(write_all, rs, e, p, off, w). ext_len e - off)") auto

declare write_to_from.simps [simp del]

definition write_to ::
  "('w \<Rightarrow> u8 list \<Rightarrow> io_error_kind + 'w) \<Rightarrow> (nat \<Rightarrow> os_reply list) \<Rightarrow> extent \<Rightarrow> disk_pool \<Rightarrow> 'w \<Rightarrow>
   (io_error_kind + 'w) option" where
  "write_to write_all rs e p w = write_to_from write_all rs e p 0 w"


subsection \<open>Handles and their life cycle\<close>

datatype handle = ReservedChunk extent | DiskData extent "u8 list"

fun handle_extent :: "handle \<Rightarrow> extent" where
  "handle_extent (ReservedChunk e) = e"
| "handle_extent (DiskData e _) = e"

text \<open>\<^verbatim>\<open>Drop\<close> of both handle types.\<close>

definition drop_handle :: "handle \<Rightarrow> disk_pool \<Rightarrow> disk_pool option" where
  "drop_handle x p = pool_release (handle_extent x) p"

record pool_sys =
  sys_pool :: disk_pool
  handles :: "nat \<rightharpoonup> handle"

datatype pool_op =
    Reserve nat nat
  | Write nat "u8 list" "os_reply list"
  | Drop nat

fun pool_step :: "pool_op \<Rightarrow> pool_sys \<Rightarrow> pool_sys option" where
  "pool_step (Reserve h sz) s =
     (if handles s h \<noteq> None then Some s
      else
        (case try_reserve_chunk sz (sys_pool s) of
           None \<Rightarrow> None
         | Some (None, p) \<Rightarrow> Some (s\<lparr>sys_pool := p\<rparr>)
         | Some (Some e, p) \<Rightarrow> Some (s\<lparr>sys_pool := p, handles := (handles s)(h \<mapsto> ReservedChunk e)\<rparr>)))"
| "pool_step (Write h data rs) s =
     (case handles s h of
        Some (ReservedChunk e) \<Rightarrow>
          (case pool_write rs e data (sys_pool s) of
             None \<Rightarrow> None
           | Some (Inr e', p) \<Rightarrow> Some (s\<lparr>sys_pool := p, handles := (handles s)(h \<mapsto> DiskData e' data)\<rparr>)
           | Some (Inl err, p) \<Rightarrow> Some (s\<lparr>sys_pool := p, handles := (handles s)(h := None)\<rparr>))
      | _ \<Rightarrow> Some s)"
| "pool_step (Drop h) s =
     (case handles s h of
        None \<Rightarrow> Some s
      | Some x \<Rightarrow>
          map_option (\<lambda>p. s\<lparr>sys_pool := p, handles := (handles s)(h := None)\<rparr>)
            (drop_handle x (sys_pool s)))"

definition pool_sys_new :: "nat option \<Rightarrow> (nat \<Rightarrow> u8) \<Rightarrow> pool_sys" where
  "pool_sys_new cap f = \<lparr>sys_pool = disk_pool_new cap f, handles = Map.empty\<rparr>"


subsection \<open>The transfer loops\<close>

lemma length_get_bytes [simp]: "length (get_bytes off n f) = n"
  by (simp add: get_bytes_def)

lemma nth_get_bytes [simp]: "i < n \<Longrightarrow> get_bytes off n f ! i = f (off + i)"
  by (simp add: get_bytes_def)

lemma get_bytes_split: "k \<le> n \<Longrightarrow> get_bytes off n f = get_bytes off k f @ get_bytes (off + k) (n - k) f"
  by (rule nth_equalityI) (auto simp: nth_append)

lemma get_bytes_cong:
  "(\<And>i. off \<le> i \<Longrightarrow> i < off + n \<Longrightarrow> f i = g i) \<Longrightarrow> get_bytes off n f = get_bytes off n g"
  by (simp add: get_bytes_def)

lemma get_bytes_slice:
  "k + n \<le> m \<Longrightarrow> get_bytes (off + k) n f = take n (drop k (get_bytes off m f))"
  by (rule nth_equalityI) (auto simp: add.assoc)

lemma get_put_bytes [simp]: "get_bytes off (length bs) (put_bytes off bs f) = bs"
  by (rule nth_equalityI) (auto simp: put_bytes_def)

lemma put_bytes_other [simp]: "i \<notin> {off ..< off + length bs} \<Longrightarrow> put_bytes off bs f i = f i"
  by (auto simp: put_bytes_def)

text \<open>No write loop touches a byte outside the range it was asked to write.\<close>

lemma write_all_at_frame:
  "write_all_at rs data off f = Some (r, f') \<Longrightarrow> i \<notin> {off ..< off + length data} \<Longrightarrow> f' i = f i"
proof (induction rs data off f arbitrary: r f' rule: write_all_at.induct)
  case (3 n rs b bs off f)
  show ?case
  proof (cases "n = 0 \<or> n > length (b # bs) \<or> off + n > u64_max")
    case True
    with 3(2,3) show ?thesis
      by (auto simp: Let_def checked_add_def put_bytes_def split: if_splits)
  next
    case False
    let ?f = "put_bytes off (take n (b # bs)) f"
    from False 3(2) have "write_all_at rs (drop n (b # bs)) (off + n) ?f = Some (r, f')"
      by (simp add: Let_def checked_add_def split: if_splits)
    then have "f' i = ?f i" using 3(1) [of ?f "off + n"] False 3(3) by (auto simp: checked_add_def)
    with False 3(3) show ?thesis by (auto simp: put_bytes_def)
  qed
qed (auto split: if_splits)

lemma write_all_at_ok:
  "write_all_at rs data off f = Some (Inr u, f') \<Longrightarrow> get_bytes off (length data) f' = data"
proof (induction rs data off f arbitrary: f' rule: write_all_at.induct)
  case (3 n rs b bs off f)
  let ?d = "b # bs" and ?f = "put_bytes off (take n (b # bs)) f"
  from 3(2) have n: "n \<noteq> 0" "n \<le> length ?d" "off + n \<le> u64_max"
    and w: "write_all_at rs (drop n ?d) (off + n) ?f = Some (Inr u, f')"
    by (auto simp: Let_def checked_add_def split: if_splits)
  have "get_bytes (off + n) (length (drop n ?d)) f' = drop n ?d"
    using 3(1) [of ?f "off + n"] n w by (auto simp: checked_add_def)
  moreover have "get_bytes off n f' = take n ?d"
  proof -
    have "get_bytes off n f' = get_bytes off n ?f"
      using write_all_at_frame [OF w] by (intro get_bytes_cong) simp
    also have "\<dots> = take n ?d" using get_put_bytes [of off "take n ?d" f] n(2) by simp
    finally show ?thesis .
  qed
  ultimately show ?case
    using get_bytes_split [OF n(2), of off f'] append_take_drop_id [of n ?d] by simp
qed (auto simp: get_bytes_def split: if_splits)

text \<open>
  Replies that finish a transfer of \<open>n\<close> bytes: any interruptions, and positive transfers
  that add up.
\<close>

fun transfers :: "os_reply list \<Rightarrow> nat \<Rightarrow> bool" where
  "transfers rs 0 = True"
| "transfers [] (Suc n) = False"
| "transfers (Transferred k # rs) (Suc n) = (0 < k \<and> k \<le> Suc n \<and> transfers rs (Suc n - k))"
| "transfers (OsError k # rs) (Suc n) = (k = Interrupted \<and> transfers rs (Suc n))"

lemma read_exact_file_at_ok:
  "transfers rs n \<Longrightarrow> off + n \<le> u64_max \<Longrightarrow> read_exact_file_at rs n off f = Some (Inr (get_bytes off n f))"
proof (induction rs n off f rule: read_exact_file_at.induct)
  case (3 k rs m off f)
  have k: "0 < k" "k \<le> Suc m" "transfers rs (Suc m - k)" "off + k \<le> u64_max" using 3(2,3) by auto
  have "read_exact_file_at rs (Suc m - k) (off + k) f = Some (Inr (get_bytes (off + k) (Suc m - k) f))"
    using 3(1) [of "off + k"] k 3(3) by (auto simp: checked_add_def)
  with k show ?case using get_bytes_split [OF k(2), of off f] by (simp add: checked_add_def)
qed (auto simp: get_bytes_def)

lemma write_all_at_returns:
  "transfers rs (length data) \<Longrightarrow> off + length data \<le> u64_max \<Longrightarrow>
   \<exists>f'. write_all_at rs data off f = Some (Inr (), f')"
proof (induction rs data off f rule: write_all_at.induct)
  case (3 k rs b bs off f)
  have k: "0 < k" "k \<le> length (b # bs)" "transfers rs (length (drop k (b # bs)))" "off + k \<le> u64_max"
    using 3(2,3) by auto
  then show ?case using 3(1) [of _ "off + k"] 3(3) by (auto simp: checked_add_def Let_def)
qed auto


subsection \<open>Ownership of the file\<close>

definition owned :: "(nat \<rightharpoonup> handle) \<Rightarrow> nat set" where
  "owned hs = {i. \<exists>h x. hs h = Some x \<and> i \<in> cells (handle_extent x)}"

text \<open>
  Every live extent is non-empty; live extents are pairwise disjoint and disjoint from the
  free cells \<open>F\<close>, and together they are the whole file.
\<close>

definition ownership_ok :: "(nat \<rightharpoonup> handle) \<Rightarrow> nat set \<Rightarrow> nat \<Rightarrow> bool" where
  "ownership_ok hs F tail \<longleftrightarrow>
     (\<forall>h x. hs h = Some x \<longrightarrow> 0 < ext_len (handle_extent x)) \<and>
     (\<forall>h h' x y. hs h = Some x \<longrightarrow> hs h' = Some y \<longrightarrow> h \<noteq> h' \<longrightarrow>
        cells (handle_extent x) \<inter> cells (handle_extent y) = {}) \<and>
     owned hs \<inter> F = {} \<and> owned hs \<union> F = {..< tail}"

definition content_ok :: "(nat \<rightharpoonup> handle) \<Rightarrow> (nat \<Rightarrow> u8) \<Rightarrow> bool" where
  "content_ok hs f \<longleftrightarrow>
     (\<forall>h e data. hs h = Some (DiskData e data) \<longrightarrow>
        length data = ext_len e \<and> get_bytes (ext_offset e) (ext_len e) f = data)"

definition free_cells :: "pool_sys \<Rightarrow> nat set" where
  "free_cells s = chunk_cells (free_chunks_by_offset (pool_state (sys_pool s)))"

definition pool_inv :: "pool_sys \<Rightarrow> bool" where
  "pool_inv s \<longleftrightarrow>
     alloc_inv (pool_state (sys_pool s)) \<and>
     ownership_ok (handles s) (free_cells s) (file_tail (pool_state (sys_pool s))) \<and>
     content_ok (handles s) (pool_file (sys_pool s)) \<and>
     (\<forall>capacity. max_capacity (sys_pool s) = Some capacity \<longrightarrow>
        file_tail (pool_state (sys_pool s)) \<le> capacity)"

lemma owned_upd: "hs h = None \<Longrightarrow> owned (hs(h \<mapsto> x)) = owned hs \<union> cells (handle_extent x)"
  by (auto simp: owned_def) (metis option.distinct(1))

lemma ownership_okI:
  assumes "\<And>h x. hs h = Some x \<Longrightarrow> 0 < ext_len (handle_extent x)"
    and "\<And>h h' x y. hs h = Some x \<Longrightarrow> hs h' = Some y \<Longrightarrow> h \<noteq> h' \<Longrightarrow>
      cells (handle_extent x) \<inter> cells (handle_extent y) = {}"
    and "owned hs \<inter> F = {}" "owned hs \<union> F = {..< t}"
  shows "ownership_ok hs F t"
  unfolding ownership_ok_def using assms by blast

lemma ownership_okD:
  assumes "ownership_ok hs F t"
  shows "owned hs \<inter> F = {}" "owned hs \<union> F = {..< t}"
  using assms unfolding ownership_ok_def by blast+

lemma ownership_pos: "ownership_ok hs F t \<Longrightarrow> hs h = Some x \<Longrightarrow> 0 < ext_len (handle_extent x)"
  unfolding ownership_ok_def by blast

lemma ownership_disjoint:
  "ownership_ok hs F t \<Longrightarrow> hs h = Some x \<Longrightarrow> hs h' = Some y \<Longrightarrow> h \<noteq> h' \<Longrightarrow>
   cells (handle_extent x) \<inter> cells (handle_extent y) = {}"
  unfolding ownership_ok_def by blast

lemma owned_drop:
  assumes "ownership_ok hs F t" "hs h = Some x"
  shows "owned (hs(h := None)) = owned hs - cells (handle_extent x)"
proof (intro set_eqI iffI)
  fix i assume "i \<in> owned (hs(h := None))"
  then obtain k z where k: "k \<noteq> h" "hs k = Some z" "i \<in> cells (handle_extent z)"
    by (auto simp: owned_def split: if_splits)
  with ownership_disjoint [OF assms(1) k(2) assms(2) k(1)]
  show "i \<in> owned hs - cells (handle_extent x)" unfolding owned_def by blast
next
  fix i assume i: "i \<in> owned hs - cells (handle_extent x)"
  then obtain k z where k: "hs k = Some z" "i \<in> cells (handle_extent z)" by (auto simp: owned_def)
  with i assms(2) have "k \<noteq> h" by auto
  with k show "i \<in> owned (hs(h := None))" by (auto simp: owned_def)
qed

lemma owned_mem: "hs h = Some x \<Longrightarrow> cells (handle_extent x) \<subseteq> owned hs"
  by (auto simp: owned_def)

lemma ownership_acquire:
  assumes "ownership_ok hs F t" "hs h = None" "0 < ext_len (handle_extent x)"
    and "F \<union> {t ..< t'} = cells (handle_extent x) \<union> F'" "cells (handle_extent x) \<inter> F' = {}" "t \<le> t'"
  shows "ownership_ok (hs(h \<mapsto> x)) F' t'"
proof -
  note eqs = ownership_okD [OF assms(1)]
  have "owned hs \<subseteq> {..< t}" using eqs(2) by blast
  moreover have "{..< t} \<inter> {t ..< t'} = {}" by auto
  ultimately have "owned hs \<inter> (F \<union> {t ..< t'}) = {}" using eqs(1) by blast
  then have new: "cells (handle_extent x) \<inter> owned hs = {}" "F' \<inter> owned hs = {}"
    unfolding assms(4) by blast+
  have "owned hs \<union> cells (handle_extent x) \<union> F' = owned hs \<union> F \<union> {t ..< t'}"
    using assms(4) by blast
  also have "\<dots> = {..< t'}" unfolding eqs(2) using assms(6) by auto
  finally have all: "owned hs \<union> cells (handle_extent x) \<union> F' = {..< t'}" .
  have other: "cells (handle_extent x) \<inter> cells (handle_extent y) = {}" if "hs k = Some y" for k y
    using new(1) owned_mem [of hs k, OF that] by blast
  show ?thesis
  proof (rule ownership_okI)
    show "owned (hs(h \<mapsto> x)) \<inter> F' = {}" "owned (hs(h \<mapsto> x)) \<union> F' = {..< t'}"
      unfolding owned_upd [of hs, OF assms(2)] using assms(5) new(2) all by blast+
  next
    fix k k' z z' assume z: "(hs(h \<mapsto> x)) k = Some z"
    then show "0 < ext_len (handle_extent z)"
      using assms(3) ownership_pos [OF assms(1), of k] by (cases "k = h") auto
    assume "(hs(h \<mapsto> x)) k' = Some z'" "k \<noteq> k'"
    with z show "cells (handle_extent z) \<inter> cells (handle_extent z') = {}"
      using other [of k z] other [of k' z'] ownership_disjoint [OF assms(1), of k z k' z']
      by (cases "k = h"; cases "k' = h") (simp_all add: Int_commute)
  qed
qed

lemma ownership_release:
  assumes "ownership_ok hs F t" "hs h = Some x"
  shows "ownership_ok (hs(h := None)) (F \<union> cells (handle_extent x)) t"
proof (rule ownership_okI)
  have "cells (handle_extent x) \<subseteq> owned hs" by (rule owned_mem [of hs h, OF assms(2)])
  then show "owned (hs(h := None)) \<inter> (F \<union> cells (handle_extent x)) = {}"
    "owned (hs(h := None)) \<union> (F \<union> cells (handle_extent x)) = {..< t}"
    unfolding owned_drop [OF assms] using ownership_okD [OF assms(1)] by blast+
next
  fix k k' z z' assume z: "(hs(h := None)) k = Some z"
  then show "0 < ext_len (handle_extent z)"
    using ownership_pos [OF assms(1), of k] by (simp split: if_splits)
  assume "(hs(h := None)) k' = Some z'" "k \<noteq> k'"
  with z show "cells (handle_extent z) \<inter> cells (handle_extent z') = {}"
    using ownership_disjoint [OF assms(1), of k z k' z'] by (simp split: if_splits)
qed

lemma ownership_replace:
  assumes "ownership_ok hs F t" "hs h = Some x" "handle_extent y = handle_extent x"
  shows "ownership_ok (hs(h \<mapsto> y)) F t"
proof -
  have "owned (hs(h \<mapsto> y)) = owned hs"
    using assms(2,3) by (auto simp: owned_def) (metis option.inject)
  moreover have orig: "\<exists>z'. hs k = Some z' \<and> handle_extent z = handle_extent z'"
    if "(hs(h \<mapsto> y)) k = Some z" for k z
    using that assms(2,3) by (cases "k = h") auto
  ultimately show ?thesis
  proof (intro ownership_okI)
    fix k k' z z' assume z: "(hs(h \<mapsto> y)) k = Some z"
    from orig [OF z] show "0 < ext_len (handle_extent z)" using ownership_pos [OF assms(1)] by auto
    assume "(hs(h \<mapsto> y)) k' = Some z'" "k \<noteq> k'"
    with orig [OF z] orig [of k' z'] show "cells (handle_extent z) \<inter> cells (handle_extent z') = {}"
      by (metis ownership_disjoint [OF assms(1)])
  qed (simp_all add: ownership_okD [OF assms(1)])
qed

lemma ownership_bounds:
  assumes "ownership_ok hs F t" "hs h = Some x"
  shows "ext_offset (handle_extent x) + ext_len (handle_extent x) \<le> t"
    and "cells (handle_extent x) \<inter> F = {}" "0 < ext_len (handle_extent x)"
proof -
  have sub: "cells (handle_extent x) \<subseteq> owned hs" by (rule owned_mem [of hs h, OF assms(2)])
  note eqs = ownership_okD [OF assms(1)]
  show pos: "0 < ext_len (handle_extent x)" by (rule ownership_pos [OF assms])
  show "cells (handle_extent x) \<inter> F = {}" using sub eqs(1) by blast
  have "cells (handle_extent x) \<subseteq> {..< t}" using sub eqs(2) by blast
  with pos show "ext_offset (handle_extent x) + ext_len (handle_extent x) \<le> t"
    by (simp add: cells_def lessThan_atLeast0)
qed

lemma content_okD:
  "content_ok hs f \<Longrightarrow> hs h = Some (DiskData e data) \<Longrightarrow>
   length data = ext_len e \<and> get_bytes (ext_offset e) (ext_len e) f = data"
  unfolding content_ok_def by blast

lemma content_upd:
  assumes "content_ok hs f"
    and "\<And>e data. x = Some (DiskData e data) \<Longrightarrow>
      length data = ext_len e \<and> get_bytes (ext_offset e) (ext_len e) f = data"
  shows "content_ok (hs(h := x)) f"
  unfolding content_ok_def
proof (intro allI impI)
  fix k e data assume "(hs(h := x)) k = Some (DiskData e data)"
  then show "length data = ext_len e \<and> get_bytes (ext_offset e) (ext_len e) f = data"
    using assms(2) content_okD [OF assms(1), of k] by (cases "k = h") simp_all
qed

lemma content_frame:
  assumes "content_ok hs f" "ownership_ok hs F t" "hs h = Some (ReservedChunk e)"
    and "\<And>i. i \<notin> cells e \<Longrightarrow> f' i = f i"
  shows "content_ok hs f'"
  unfolding content_ok_def
proof (intro allI impI)
  fix k e' data assume k: "hs k = Some (DiskData e' data)"
  then have "k \<noteq> h" using assms(3) by auto
  then have disj: "cells e' \<inter> cells e = {}"
    using ownership_disjoint [OF assms(2) k assms(3)] by simp
  have "f' i = f i" if "ext_offset e' \<le> i" "i < ext_offset e' + ext_len e'" for i
  proof (rule assms(4))
    have "i \<in> cells e'" using that by (simp add: cells_def)
    with disj show "i \<notin> cells e" by blast
  qed
  then have "get_bytes (ext_offset e') (ext_len e') f' = get_bytes (ext_offset e') (ext_len e') f"
    by (rule get_bytes_cong)
  with content_okD [OF assms(1) k]
  show "length data = ext_len e' \<and> get_bytes (ext_offset e') (ext_len e') f' = data"
    by simp
qed


subsection \<open>Every operation keeps the invariant\<close>

definition within_capacity :: "disk_pool \<Rightarrow> bool" where
  "within_capacity p \<longleftrightarrow> (\<forall>capacity. max_capacity p = Some capacity \<longrightarrow> file_tail (pool_state p) \<le> capacity)"

definition pool_free :: "disk_pool \<Rightarrow> nat set" where
  "pool_free p = chunk_cells (free_chunks_by_offset (pool_state p))"

text \<open>What a successful reservation does to the pool.\<close>

definition reserved :: "nat \<Rightarrow> disk_pool \<Rightarrow> extent \<Rightarrow> disk_pool \<Rightarrow> bool" where
  "reserved sz p e p' \<longleftrightarrow>
     alloc_inv (pool_state p') \<and> within_capacity p' \<and> max_capacity p' = max_capacity p \<and>
     pool_file p' = pool_file p \<and> ext_len e = sz \<and>
     file_tail (pool_state p) \<le> file_tail (pool_state p') \<and>
     pool_free p \<union> {file_tail (pool_state p) ..< file_tail (pool_state p')} = cells e \<union> pool_free p' \<and>
     cells e \<inter> pool_free p' = {}"

lemma chunk_cells_below_tail: "alloc_inv s \<Longrightarrow> chunk_cells (free_chunks_by_offset s) \<subseteq> {..< file_tail s}"
  by (fastforce simp: alloc_inv_def chunk_cells_def)

lemma alloc_inv_grow: "alloc_inv s \<Longrightarrow> file_tail s \<le> t \<Longrightarrow> t \<le> u64_max \<Longrightarrow> alloc_inv (s\<lparr>file_tail := t\<rparr>)"
  by (fastforce simp: alloc_inv_def size_index_ok_def)

lemma alloc_inv_may_write [simp]: "alloc_inv (s\<lparr>may_write := b\<rparr>) = alloc_inv s"
  by (simp add: alloc_inv_def size_index_ok_def)

lemma reserve_at_tail_spec:
  assumes "alloc_inv (pool_state p)" "within_capacity p"
  shows "reserve_at_tail sz p = (None, p) \<or>
    (\<exists>e p'. reserve_at_tail sz p = (Some e, p') \<and> reserved sz p e p')"
proof -
  let ?t = "file_tail (pool_state p)"
  let ?p = "p\<lparr>pool_state := (pool_state p)\<lparr>file_tail := ?t + sz\<rparr>\<rparr>"
  have below: "pool_free p \<subseteq> {..< ?t}"
    unfolding pool_free_def by (rule chunk_cells_below_tail [OF assms(1)])
  have "reserved sz p \<lparr>ext_offset = ?t, ext_len = sz\<rparr> ?p"
    if "?t + sz \<le> u64_max" "\<And>c. max_capacity p = Some c \<Longrightarrow> ?t + sz \<le> c"
  proof -
    have "pool_free ?p = pool_free p" by (simp add: pool_free_def)
    moreover have "{?t ..< ?t + sz} \<inter> pool_free p = {}" using below by fastforce
    ultimately show ?thesis
      using that assms alloc_inv_grow [of "pool_state p" "?t + sz"]
      by (simp add: reserved_def within_capacity_def cells_def Un_commute)
  qed
  then show ?thesis
    unfolding reserve_at_tail_def checked_add_def
    by (cases "max_capacity p") (auto simp: not_less split: if_splits)
qed

lemma try_reserve_chunk_spec:
  assumes "alloc_inv (pool_state p)" "within_capacity p"
  shows "try_reserve_chunk sz p = Some (None, p) \<or>
    (\<exists>e p'. try_reserve_chunk sz p = Some (Some e, p') \<and> 0 < sz \<and> reserved sz p e p')"
proof (cases "sz = 0 \<or> \<not> may_write (pool_state p)")
  case True
  then show ?thesis by (auto simp: try_reserve_chunk_def)
next
  case False
  then have sz: "0 < sz" by simp
  from find_free_chunk_spec [OF assms(1) sz] show ?thesis
  proof (elim disjE conjE exE)
    assume "find_free_chunk (pool_state p) sz = Some (None, pool_state p)"
    with False reserve_at_tail_spec [OF assms, of sz] show ?thesis
      by (auto simp: try_reserve_chunk_def)
  next
    fix off l s'
    assume "find_free_chunk (pool_state p) sz = Some (Some \<lparr>ext_offset = off, ext_len = sz\<rparr>, s')"
      and al: "allocated (pool_state p) off sz s'"
    with False have "try_reserve_chunk sz p =
        Some (Some \<lparr>ext_offset = off, ext_len = sz\<rparr>, p\<lparr>pool_state := s'\<rparr>)"
      by (simp add: try_reserve_chunk_def)
    moreover have "reserved sz p \<lparr>ext_offset = off, ext_len = sz\<rparr> (p\<lparr>pool_state := s'\<rparr>)"
      using al assms(2)
      by (simp add: reserved_def allocated_def same_frame_def within_capacity_def pool_free_def cells_def)
    ultimately show ?thesis using sz by blast
  qed
qed

lemma pool_inv_iff:
  "pool_inv s \<longleftrightarrow> alloc_inv (pool_state (sys_pool s)) \<and> within_capacity (sys_pool s) \<and>
     ownership_ok (handles s) (pool_free (sys_pool s)) (file_tail (pool_state (sys_pool s))) \<and>
     content_ok (handles s) (pool_file (sys_pool s))"
  by (auto simp: pool_inv_def within_capacity_def free_cells_def pool_free_def)

text \<open>Giving an owned extent back never panics.\<close>

lemma release_owned:
  assumes inv: "pool_inv s" and h: "handles s h = Some x"
  obtains a where "release_chunk (handle_extent x) (pool_state (sys_pool s)) = Some a"
    and "\<And>f b. (\<And>i. i \<notin> cells (handle_extent x) \<Longrightarrow> f i = pool_file (sys_pool s) i) \<Longrightarrow>
      f = pool_file (sys_pool s) \<or> (\<exists>e. x = ReservedChunk e) \<Longrightarrow>
      pool_inv (s\<lparr>sys_pool := (sys_pool s)\<lparr>pool_file := f, pool_state := a\<lparr>may_write := b\<rparr>\<rparr>,
        handles := (handles s)(h := None)\<rparr>)"
proof -
  note i = inv [unfolded pool_inv_iff]
  note own = conjunct1 [OF conjunct2 [OF conjunct2 [OF i]]]
  obtain a where a: "release_chunk (handle_extent x) (pool_state (sys_pool s)) = Some a"
    "released (pool_state (sys_pool s)) (handle_extent x) a"
    using release_chunk_spec [OF conjunct1 [OF i], of "handle_extent x"] ownership_bounds [OF own h]
    unfolding pool_free_def by blast
  show thesis
  proof (rule that [OF a(1)])
    fix f b
    assume f: "\<And>i. i \<notin> cells (handle_extent x) \<Longrightarrow> f i = pool_file (sys_pool s) i"
      "f = pool_file (sys_pool s) \<or> (\<exists>e. x = ReservedChunk e)"
    have "content_ok (handles s) f"
      using f(2) i content_frame [of "handles s" "pool_file (sys_pool s)" _ _ h _ f] h f(1) by fastforce
    then have "content_ok ((handles s)(h := None)) f" by (rule content_upd) simp
    then show "pool_inv (s\<lparr>sys_pool := (sys_pool s)\<lparr>pool_file := f, pool_state := a\<lparr>may_write := b\<rparr>\<rparr>,
        handles := (handles s)(h := None)\<rparr>)"
      using i a(2) ownership_release [OF own h]
      by (simp add: pool_inv_iff within_capacity_def released_def same_frame_def pool_free_def)
  qed
qed

lemma pool_inv_new: "pool_inv (pool_sys_new cap f)"
  by (auto simp: pool_inv_def pool_sys_new_def disk_pool_new_def alloc_inv_def size_index_ok_def
      ownership_ok_def owned_def content_ok_def free_cells_def chunk_cells_def)

lemma reserve_step:
  assumes "pool_inv s"
  shows "\<exists>s'. pool_step (Reserve h sz) s = Some s' \<and> pool_inv s'"
proof (cases "handles s h")
  case None
  from assms have "alloc_inv (pool_state (sys_pool s))" "within_capacity (sys_pool s)"
    by (simp_all add: pool_inv_iff)
  from try_reserve_chunk_spec [OF this, of sz] show ?thesis
  proof (elim disjE exE conjE)
    assume "try_reserve_chunk sz (sys_pool s) = Some (None, sys_pool s)"
    with None assms show ?thesis by simp
  next
    fix e p' assume r: "try_reserve_chunk sz (sys_pool s) = Some (Some e, p')" "0 < sz"
      and res: "reserved sz (sys_pool s) e p'"
    have "ownership_ok ((handles s)(h \<mapsto> ReservedChunk e)) (pool_free p') (file_tail (pool_state p'))"
      using assms None r(2) res
      by (intro ownership_acquire) (auto simp: pool_inv_iff reserved_def)
    moreover have "content_ok ((handles s)(h \<mapsto> ReservedChunk e)) (pool_file p')"
      using assms res by (intro content_upd) (auto simp: pool_inv_iff reserved_def)
    ultimately have "pool_inv (s\<lparr>sys_pool := p', handles := (handles s)(h \<mapsto> ReservedChunk e)\<rparr>)"
      using res by (simp add: pool_inv_iff reserved_def)
    with r(1) None show ?thesis by simp
  qed
qed (use assms in simp)

lemma drop_step:
  assumes "pool_inv s"
  shows "\<exists>s'. pool_step (Drop h) s = Some s' \<and> pool_inv s'"
proof (cases "handles s h")
  case (Some x)
  obtain a where "release_chunk (handle_extent x) (pool_state (sys_pool s)) = Some a"
    and "pool_inv (s\<lparr>sys_pool := (sys_pool s)\<lparr>pool_file := pool_file (sys_pool s),
        pool_state := a\<lparr>may_write := may_write a\<rparr>\<rparr>, handles := (handles s)(h := None)\<rparr>)"
    using release_owned [OF assms Some] by blast
  with Some show ?thesis by (simp add: drop_handle_def pool_release_def)
qed (use assms in simp)

lemma release_length_mismatch:
  assumes "pool_inv s" "handles s h = Some (ReservedChunk e)" "ext_len e \<noteq> length data"
  shows "\<exists>s'. pool_step (Write h data rs) s = Some s' \<and> pool_inv s'"
proof -
  obtain a where "release_chunk e (pool_state (sys_pool s)) = Some a"
    and "pool_inv (s\<lparr>sys_pool := (sys_pool s)\<lparr>pool_file := pool_file (sys_pool s),
        pool_state := a\<lparr>may_write := may_write a\<rparr>\<rparr>, handles := (handles s)(h := None)\<rparr>)"
    using release_owned [OF assms(1,2)] by (metis handle_extent.simps(1))
  with assms show ?thesis by (simp add: pool_release_def pool_write_def)
qed

lemma write_step:
  assumes inv: "pool_inv s" and h: "handles s h = Some (ReservedChunk e)" and len: "ext_len e = length data"
    and w: "write_all_at rs data (ext_offset e) (pool_file (sys_pool s)) = Some (r, f)"
  shows "\<exists>s'. pool_step (Write h data rs) s = Some s' \<and> pool_inv s'"
proof -
  have frame: "f i = pool_file (sys_pool s) i" if "i \<notin> cells e" for i
    using write_all_at_frame [OF w] that len by (simp add: cells_def)
  show ?thesis
  proof (cases r)
    case (Inl err)
    obtain a where a: "release_chunk e (pool_state (sys_pool s)) = Some a"
      and "pool_inv (s\<lparr>sys_pool := (sys_pool s)\<lparr>pool_file := f,
          pool_state := a\<lparr>may_write := False\<rparr>\<rparr>, handles := (handles s)(h := None)\<rparr>)"
      using release_owned [OF inv h] frame by (metis handle_extent.simps(1))
    with h len w Inl show ?thesis by (simp add: pool_write_def)
  next
    case (Inr u)
    note i = inv [unfolded pool_inv_iff]
    have "content_ok (handles s) f"
      using content_frame [of "handles s" _ _ _ h e f] i h frame by blast
    moreover have "get_bytes (ext_offset e) (ext_len e) f = data"
      using write_all_at_ok [OF w [unfolded Inr]] len by simp
    ultimately have "content_ok ((handles s)(h \<mapsto> DiskData e data)) f"
      using len by (intro content_upd) auto
    moreover have "ownership_ok ((handles s)(h \<mapsto> DiskData e data)) (pool_free (sys_pool s))
        (file_tail (pool_state (sys_pool s)))"
      using i h by (intro ownership_replace [of _ _ _ h "ReservedChunk e"]) auto
    ultimately have "pool_inv (s\<lparr>sys_pool := (sys_pool s)\<lparr>pool_file := f\<rparr>,
        handles := (handles s)(h \<mapsto> DiskData e data)\<rparr>)"
      using i by (simp add: pool_inv_iff pool_free_def within_capacity_def)
    with h len w Inr show ?thesis by (simp add: pool_write_def)
  qed
qed

text \<open>An operation can only fail to return because a disk write has not returned.\<close>

lemma pool_step_cases:
  assumes "pool_inv s"
  shows "(\<exists>s'. pool_step x s = Some s' \<and> pool_inv s') \<or>
    (pool_step x s = None \<and> (\<exists>h data rs e. x = Write h data rs \<and> handles s h = Some (ReservedChunk e) \<and>
       write_all_at rs data (ext_offset e) (pool_file (sys_pool s)) = None))"
proof (cases x)
  case (Write h data rs)
  show ?thesis
  proof (cases "handles s h")
    case None
    with Write assms show ?thesis by simp
  next
    case (Some y)
    show ?thesis
    proof (cases y)
      case (ReservedChunk e)
      note h = Some [unfolded ReservedChunk]
      show ?thesis
      proof (cases "ext_len e = length data")
        case True
        show ?thesis
        proof (cases "write_all_at rs data (ext_offset e) (pool_file (sys_pool s))")
          case None
          with Write h True show ?thesis by (simp add: pool_write_def)
        next
          case (Some rf)
          then show ?thesis
            using write_step [OF assms h True, of rs "fst rf" "snd rf"] Write by simp
        qed
      qed (use release_length_mismatch [OF assms h] Write in simp)
    qed (use Write Some assms in simp)
  qed
qed (use reserve_step [OF assms] drop_step [OF assms] in blast)+

interpretation pool_system: kept_system pool_step pool_inv
proof
  show "pool_inv s'" if "pool_inv s" "pool_step x s = Some s'" for s x s'
    using pool_step_cases [OF that(1), of x] that(2) by auto
qed

lemmas pool_run_inv = pool_system.run_inv [OF pool_inv_new]


subsection \<open>The pool's promises\<close>

text \<open>C1: After any sequence of reservations, writes (whatever the operating system answers) and
  drops on a new pool, the extents of two live handles never overlap, no live extent
  overlaps a free chunk, live and free extents together are exactly the file up to its
  tail, the free byte counter is the number of free bytes, and the tail stays within the
  capacity.\<close>

theorem disk_pool_ownership:
  assumes "run pool_step ops (pool_sys_new cap f) = Some s"
  shows "(\<forall>h h' x y. handles s h = Some x \<longrightarrow> handles s h' = Some y \<longrightarrow> h \<noteq> h' \<longrightarrow>
      cells (handle_extent x) \<inter> cells (handle_extent y) = {}) \<and>
    owned (handles s) \<inter> free_cells s = {} \<and>
    owned (handles s) \<union> free_cells s = {..< file_tail (pool_state (sys_pool s))} \<and>
    free_bytes (pool_state (sys_pool s)) = card (free_cells s) \<and>
    (\<forall>c. max_capacity (sys_pool s) = Some c \<longrightarrow> file_tail (pool_state (sys_pool s)) \<le> c)"
proof -
  have inv: "pool_inv s" by (rule pool_run_inv [OF assms])
  then have "alloc_inv (pool_state (sys_pool s))" by (simp add: pool_inv_def)
  then have "free_bytes (pool_state (sys_pool s)) = card (free_cells s)"
    unfolding free_cells_def by (rule free_bytes_card)
  with inv show ?thesis unfolding pool_inv_def ownership_ok_def by blast
qed

lemmas pool_eval = try_reserve_chunk_def reserve_at_tail_def pool_write_def pool_release_def drop_handle_def
  find_free_chunk_def choose_free_chunk_def release_chunk_def merge_left_def merge_right_def
  insert_free_chunk_def remove_free_chunk_def bs_range_first_def
  bt_below_def bt_from_def checked_add_def checked_sub_def u64_max_def Let_def
  pool_sys_new_def disk_pool_new_def

lemma example_run:
  "\<exists>s. run pool_step [Reserve 0 3, Write 0 [7, 8, 9] [OsError Interrupted, Transferred 2, Transferred 1],
       Reserve 1 5, Drop 1, Reserve 2 2] (pool_sys_new (Some 20) (\<lambda>_. 0)) = Some s \<and>
     handles s 0 = Some (DiskData \<lparr>ext_offset = 0, ext_len = 3\<rparr> [7, 8, 9]) \<and>
     handles s 2 = Some (ReservedChunk \<lparr>ext_offset = 3, ext_len = 2\<rparr>)"
  by (simp add: pool_eval)

theorem disk_pool_ownership_witness:
  "\<exists>s. run pool_step [Reserve 0 3, Write 0 [7, 8, 9] [OsError Interrupted, Transferred 2, Transferred 1],
       Reserve 1 5, Drop 1, Reserve 2 2] (pool_sys_new (Some 20) (\<lambda>_. 0)) = Some s \<and>
     handles s 2 = Some (ReservedChunk \<lparr>ext_offset = 3, ext_len = 2\<rparr>) \<and>
     owned (handles s) \<inter> free_cells s = {} \<and>
     free_bytes (pool_state (sys_pool s)) = card (free_cells s)"
  using example_run disk_pool_ownership by blast

lemma stored_read:
  assumes "pool_inv s" "handles s h = Some (DiskData e data)"
    and "off + n \<le> ext_len e" "transfers rs n"
  shows "read_exact_at rs e off n (sys_pool s) = Some (Inr (take n (drop off data)))"
proof -
  note inv = assms(1)
  then have c: "get_bytes (ext_offset e) (ext_len e) (pool_file (sys_pool s)) = data"
    using content_okD assms(2) unfolding pool_inv_def by blast
  have "ext_offset e + ext_len e \<le> file_tail (pool_state (sys_pool s))"
    using ownership_bounds(1) [of "handles s" _ _ h] assms(2) inv by (fastforce simp: pool_inv_def)
  then have "ext_offset e + ext_len e \<le> u64_max" using inv by (simp add: pool_inv_def alloc_inv_def)
  with assms(3,4) have "read_exact_at rs e off n (sys_pool s) =
      Some (Inr (get_bytes (ext_offset e + off) n (pool_file (sys_pool s))))"
    by (simp add: read_exact_at_def checked_add_def read_exact_file_at_ok)
  with get_bytes_slice [OF assms(3)] c show ?thesis by simp
qed

lemma write_to_from_stored:
  assumes "pool_inv s" "handles s h = Some (DiskData e data)"
    and "\<And>off. off < ext_len e \<Longrightarrow> transfers (rs off) (min (64 * 1024) (ext_len e - off))"
    and "off \<le> ext_len e"
  shows "write_to_from (\<lambda>out buffer. Inr (out @ buffer)) rs e (sys_pool s) off out =
    Some (Inr (out @ drop off data))"
  using assms(4)
proof (induction "ext_len e - off" arbitrary: off out rule: less_induct)
  case less
  have len: "length data = ext_len e"
    using assms(1,2) content_okD unfolding pool_inv_def by blast
  show ?case
  proof (cases "off < ext_len e")
    case False
    with less.prems len show ?thesis by (simp add: write_to_from.simps)
  next
    case True
    let ?n = "min (64 * 1024) (ext_len e - off)"
    have "read_exact_at (rs off) e off ?n (sys_pool s) = Some (Inr (take ?n (drop off data)))"
      using True by (intro stored_read [OF assms(1,2) _ assms(3)]) auto
    moreover have "ext_len e - (off + ?n) < ext_len e - off" "off + ?n \<le> ext_len e" using True by auto
    ultimately have "write_to_from (\<lambda>out buffer. Inr (out @ buffer)) rs e (sys_pool s) off out =
        Some (Inr ((out @ take ?n (drop off data)) @ drop (off + ?n) data))"
      using True less.hyps [of "off + ?n"] by (subst write_to_from.simps) (simp add: Let_def)
    also have "(out @ take ?n (drop off data)) @ drop (off + ?n) data = out @ drop off data"
      using append_take_drop_id [of ?n "drop off data"] by (simp add: add.commute)
    finally show ?thesis .
  qed
qed

text \<open>C29: What was written to a stored chunk is what is read from it, at any later point of any
  interleaving with operations on other handles: every in-range read whose replies transfer
  the requested bytes (in any split, with any interruptions) returns that slice of the data.\<close>

theorem disk_pool_read_back:
  assumes "run pool_step ops (pool_sys_new cap f) = Some s" "handles s h = Some (DiskData e data)"
    and "off + n \<le> ext_len e" "transfers rs n"
  shows "read_exact_at rs e off n (sys_pool s) = Some (Inr (take n (drop off data)))"
  using stored_read [OF pool_run_inv [OF assms(1)] assms(2-4)] .

theorem disk_pool_read_back_witness:
  "\<exists>s. run pool_step [Reserve 0 3, Write 0 [7, 8, 9] [OsError Interrupted, Transferred 2, Transferred 1],
       Reserve 1 5, Drop 1, Reserve 2 2] (pool_sys_new (Some 20) (\<lambda>_. 0)) = Some s \<and>
     read_exact_at [Transferred 1, OsError Interrupted, Transferred 1] \<lparr>ext_offset = 0, ext_len = 3\<rparr> 1 2
       (sys_pool s) = Some (Inr [8, 9])"
proof -
  have "1 + 2 \<le> ext_len \<lparr>ext_offset = 0, ext_len = 3\<rparr>"
    "transfers [Transferred 1, OsError Interrupted, Transferred 1] 2"
    by (simp_all add: numeral_2_eq_2)
  from disk_pool_read_back [OF _ _ this] example_run show ?thesis by fastforce
qed

text \<open>C39: A failing disk write gives its extent back and stops the pool: the handle is gone, its
  bytes are free again, nothing else changes owner, and every later reservation is refused.\<close>

theorem disk_pool_write_failure:
  assumes "run pool_step ops (pool_sys_new cap f) = Some s" "handles s h = Some (ReservedChunk e)"
    and "ext_len e = length data"
    and "write_all_at rs data (ext_offset e) (pool_file (sys_pool s)) = Some (Inl err, f')"
  shows "\<exists>s'. pool_step (Write h data rs) s = Some s' \<and> handles s' = (handles s)(h := None) \<and>
    free_cells s' = free_cells s \<union> cells e \<and>
    (\<forall>sz. try_reserve_chunk sz (sys_pool s') = Some (None, sys_pool s'))"
proof -
  have inv: "pool_inv s" by (rule pool_run_inv [OF assms(1)])
  then have "alloc_inv (pool_state (sys_pool s))"
    and own: "ownership_ok (handles s) (free_cells s) (file_tail (pool_state (sys_pool s)))"
    by (simp_all add: pool_inv_def)
  with release_chunk_spec [of "pool_state (sys_pool s)" e] ownership_bounds [OF own assms(2)]
  obtain a where "release_chunk e (pool_state (sys_pool s)) = Some a" "released (pool_state (sys_pool s)) e a"
    by (auto simp: free_cells_def)
  then show ?thesis
    using assms by (simp add: pool_write_def released_def free_cells_def try_reserve_chunk_def)
qed

theorem disk_pool_write_failure_witness:
  "\<exists>s s'. handles s 0 = Some (ReservedChunk \<lparr>ext_offset = 0, ext_len = 3\<rparr>) \<and>
     pool_step (Write 0 [7, 8, 9] [Transferred 2, OsError OtherError]) s = Some s' \<and>
     handles s' 0 = None \<and> try_reserve_chunk 1 (sys_pool s') = Some (None, sys_pool s')"
proof -
  have "\<exists>s. run pool_step [Reserve 0 3] (pool_sys_new None (\<lambda>_. 0)) = Some s \<and>
      handles s 0 = Some (ReservedChunk \<lparr>ext_offset = 0, ext_len = 3\<rparr>)"
    by (simp add: pool_eval)
  then obtain s where s: "run pool_step [Reserve 0 3] (pool_sys_new None (\<lambda>_. 0)) = Some s"
    and h: "handles s 0 = Some (ReservedChunk \<lparr>ext_offset = 0, ext_len = 3\<rparr>)" by blast
  have w: "\<exists>f'. write_all_at [Transferred 2, OsError OtherError] [7, 8, 9]
      (ext_offset \<lparr>ext_offset = 0, ext_len = 3\<rparr>) (pool_file (sys_pool s)) = Some (Inl OtherError, f')"
    by (simp add: checked_add_def u64_max_def)
  then obtain f' where w: "write_all_at [Transferred 2, OsError OtherError] [7, 8, 9]
      (ext_offset \<lparr>ext_offset = 0, ext_len = 3\<rparr>) (pool_file (sys_pool s)) = Some (Inl OtherError, f')"
    by blast
  have l: "ext_len \<lparr>ext_offset = 0, ext_len = 3\<rparr> = length [7, 8, 9 :: u8]" by simp
  from disk_pool_write_failure [OF s h l w] h show ?thesis by (metis fun_upd_same)
qed

text \<open>The reservation policy.  While writes are enabled, a non-empty request that some free
  chunk can hold is served without growing the file, from a free chunk of exactly the
  requested size if there is one and from a largest one otherwise, at the lowest such offset;
  one that no free chunk can hold is served at the tail unless that would pass the capacity
  (or the offset range), and refused only then.  No reservation panics.\<close>

lemma disk_pool_reservation_policy:
  assumes "run pool_step ops (pool_sys_new cap f) = Some s"
    and "0 < sz" "may_write (pool_state (sys_pool s))"
  defines "chunks \<equiv> free_chunks_by_offset (pool_state (sys_pool s))"
    and "tail \<equiv> file_tail (pool_state (sys_pool s))"
  shows "if \<exists>x \<in> set chunks. sz \<le> snd x
    then \<exists>off l p'. try_reserve_chunk sz (sys_pool s) = Some (Some \<lparr>ext_offset = off, ext_len = sz\<rparr>, p') \<and>
      best_chunk chunks sz (off, l) \<and> file_tail (pool_state p') = tail
    else if tail + sz \<le> u64_max \<and> (\<forall>c. max_capacity (sys_pool s) = Some c \<longrightarrow> tail + sz \<le> c)
    then \<exists>p'. try_reserve_chunk sz (sys_pool s) = Some (Some \<lparr>ext_offset = tail, ext_len = sz\<rparr>, p') \<and>
      file_tail (pool_state p') = tail + sz
    else try_reserve_chunk sz (sys_pool s) = Some (None, sys_pool s)"
proof -
  have "pool_inv s" by (rule pool_run_inv [OF assms(1)])
  then have inv: "alloc_inv (pool_state (sys_pool s))" by (simp add: pool_inv_def)
  from find_free_chunk_spec [OF inv assms(2)] show ?thesis
  proof (elim disjE conjE exE)
    assume "find_free_chunk (pool_state (sys_pool s)) sz = Some (None, pool_state (sys_pool s))"
      and "\<forall>x \<in> set (free_chunks_by_offset (pool_state (sys_pool s))). snd x < sz"
    with assms(2,3) show ?thesis
      by (cases "max_capacity (sys_pool s)")
        (auto simp: chunks_def tail_def try_reserve_chunk_def reserve_at_tail_def checked_add_def)
  next
    fix off l s'
    assume "find_free_chunk (pool_state (sys_pool s)) sz = Some (Some \<lparr>ext_offset = off, ext_len = sz\<rparr>, s')"
      and b: "best_chunk (free_chunks_by_offset (pool_state (sys_pool s))) sz (off, l)"
      and "allocated (pool_state (sys_pool s)) off sz s'"
    moreover from b have "\<exists>x \<in> set chunks. sz \<le> snd x"
      unfolding best_chunk_def chunks_def by (intro bexI [of _ "(off, l)"]) auto
    ultimately show ?thesis
      using assms(2,3)
      by (auto simp: chunks_def tail_def try_reserve_chunk_def allocated_def same_frame_def)
  qed
qed

lemma disk_pool_reservation_policy_example:
  "\<exists>s p'. run pool_step [Reserve 0 3, Reserve 1 2, Reserve 2 4, Reserve 3 1, Drop 0, Drop 2]
       (pool_sys_new (Some 20) (\<lambda>_. 0)) = Some s \<and>
     try_reserve_chunk 1 (sys_pool s) = Some (Some \<lparr>ext_offset = 5, ext_len = 1\<rparr>, p') \<and>
     file_tail (pool_state p') = 10"
proof -
  have "\<exists>s. run pool_step [Reserve 0 3, Reserve 1 2, Reserve 2 4, Reserve 3 1, Drop 0, Drop 2]
       (pool_sys_new (Some 20) (\<lambda>_. 0)) = Some s \<and>
     pool_state (sys_pool s) = \<lparr>may_write = True, file_tail = 10, free_chunks_by_offset = [(0, 3), (5, 4)],
       free_chunks_by_size = [(3, 0), (4, 5)], free_bytes = 7\<rparr>"
    by (simp add: pool_eval)
  then obtain s where s: "run pool_step [Reserve 0 3, Reserve 1 2, Reserve 2 4, Reserve 3 1, Drop 0, Drop 2]
       (pool_sys_new (Some 20) (\<lambda>_. 0)) = Some s"
    and st: "pool_state (sys_pool s) = \<lparr>may_write = True, file_tail = 10,
       free_chunks_by_offset = [(0, 3), (5, 4)], free_chunks_by_size = [(3, 0), (4, 5)], free_bytes = 7\<rparr>"
    by blast
  from disk_pool_reservation_policy [OF s, of 1] s show ?thesis
    by (fastforce simp: st best_chunk_def)
qed

text \<open>Copying a stored chunk to a writer hands over its bytes, all of them and in order, in
  buffers of at most 64 KiB: with a writer that accepts everything, the output grows by
  exactly the data.\<close>

lemma disk_data_write_to:
  assumes "run pool_step ops (pool_sys_new cap f) = Some s" "handles s h = Some (DiskData e data)"
    and "\<And>off. off < ext_len e \<Longrightarrow> transfers (rs off) (min (64 * 1024) (ext_len e - off))"
  shows "write_to (\<lambda>out buffer. Inr (out @ buffer)) rs e (sys_pool s) out = Some (Inr (out @ data))"
  using write_to_from_stored [OF pool_run_inv [OF assms(1)] assms(2,3), of 0 out]
  by (simp add: write_to_def)

lemma disk_data_write_to_example:
  "\<exists>s. run pool_step [Reserve 0 3, Write 0 [7, 8, 9] [OsError Interrupted, Transferred 2, Transferred 1],
       Reserve 1 5, Drop 1, Reserve 2 2] (pool_sys_new (Some 20) (\<lambda>_. 0)) = Some s \<and>
     write_to (\<lambda>out buffer. Inr (out @ buffer)) (\<lambda>off. [Transferred (3 - off)])
       \<lparr>ext_offset = 0, ext_len = 3\<rparr> (sys_pool s) [] = Some (Inr [7, 8, 9])"
proof -
  have "transfers [Transferred (3 - off)] (min (64 * 1024) (3 - off))" if "off < 3" for off :: nat
  proof -
    from that consider "off = 0" | "off = 1" | "off = 2" by linarith
    then show ?thesis by cases (simp_all add: numeral_3_eq_3 numeral_2_eq_2)
  qed
  then have tr: "transfers [Transferred (3 - off)] (min (64 * 1024) (ext_len \<lparr>ext_offset = 0, ext_len = 3\<rparr> - off))"
    if "off < ext_len \<lparr>ext_offset = 0, ext_len = 3\<rparr>" for off
    using that by simp
  obtain s where s: "run pool_step [Reserve 0 3, Write 0 [7, 8, 9] [OsError Interrupted, Transferred 2,
       Transferred 1], Reserve 1 5, Drop 1, Reserve 2 2] (pool_sys_new (Some 20) (\<lambda>_. 0)) = Some s"
    and h: "handles s 0 = Some (DiskData \<lparr>ext_offset = 0, ext_len = 3\<rparr> [7, 8, 9])"
    using example_run by blast
  from s disk_data_write_to [OF s h tr, of "[]"] show ?thesis by auto
qed

end
