(* ===== verification/Mailbox.thy ===== *)
theory Mailbox
  imports Moli_Prelude "HOL-Library.Word"
begin

section \<open>Interfaces of the message registries\<close>

text \<open>
  Two registries of the program hand out ids from a 64 bit counter and keep one queue of
  undelivered messages per id: the message ports and the broadcast channels.  This theory
  holds the interface they share.  A \<open>budgeted_system\<close> is one whose invariant speaks of how
  many more operations the counter allows before it wraps; a \<open>mailbox_system\<close> in addition has
  queues whose contents change only by sending and taking, and ids that are not reused.
\<close>

type_synonym u64 = "64 word"

text \<open>\<^verbatim>\<open>AtomicU64::fetch_add(1)\<close> returns the old value and wraps; \<^verbatim>\<open>u64::saturating_add(1)\<close>.\<close>

definition saturating_succ :: "u64 \<Rightarrow> u64" where
  "saturating_succ n = (if n = - 1 then n else n + 1)"

lemma unat_succ: "unat n + 1 < 2 ^ 64 \<Longrightarrow> unat (n + 1) = unat n + 1" for n :: u64
  using unat_add_lem [of n 1] by simp

lemma unat_saturating_succ: "unat n + 1 < 2 ^ 64 \<Longrightarrow> unat (saturating_succ n) = unat n + 1"
  by (auto simp: saturating_succ_def unat_succ unsigned_minus_1_eq_mask mask_eq_exp_minus_1)

lemma unat_max_one: "1 \<le> unat n \<Longrightarrow> max n 1 = n" for n :: u64
  by (auto simp: max_def word_le_nat_alt word_unat_eq_iff)

lemma fold_snoc_state: "fold step (xs @ [x]) s = step x (fold step xs s)"
  by simp

locale budgeted_system =
  fixes step :: "'op \<Rightarrow> 's \<Rightarrow> 's"
    and inv :: "nat \<Rightarrow> 's \<Rightarrow> bool"
  assumes step_inv: "inv (Suc n) s \<Longrightarrow> inv n (step x s)"
begin

lemma fold_inv: "inv (length xs + n) s \<Longrightarrow> inv n (fold step xs s)"
  by (induction xs arbitrary: s) (simp_all add: step_inv)

end

text \<open>What an observation of single steps collects along a run.\<close>

fun observe :: "('op \<Rightarrow> 's \<Rightarrow> 'm list) \<Rightarrow> ('op \<Rightarrow> 's \<Rightarrow> 's) \<Rightarrow> 'op list \<Rightarrow> 's \<Rightarrow> 'm list" where
  "observe obs step [] s = []"
| "observe obs step (x # xs) s = obs x s @ observe obs step xs (step x s)"

definition queued :: "'m list option \<Rightarrow> 'm list" where
  "queued q = (case q of None \<Rightarrow> [] | Some ms \<Rightarrow> ms)"

lemma queued_simps [simp]: "queued None = []" "queued (Some ms) = ms"
  by (simp_all add: queued_def)

locale mailbox_system = budgeted_system step inv
  for step :: "'op \<Rightarrow> 's \<Rightarrow> 's" and inv :: "nat \<Rightarrow> 's \<Rightarrow> bool" +
  fixes queue :: "'k \<Rightarrow> 's \<Rightarrow> 'm list option"
    and sent taken :: "'k \<Rightarrow> 'op \<Rightarrow> 's \<Rightarrow> 'm list"
    and fresh :: "'k \<Rightarrow> 's \<Rightarrow> bool"
  assumes queue_step: "inv (Suc n) s \<Longrightarrow> queue k (step x s) = Some q \<Longrightarrow>
      queued (queue k s) @ sent k x s = taken k x s @ q"
    and queue_gone: "inv (Suc n) s \<Longrightarrow> queue k s = None \<Longrightarrow> \<not> fresh k s \<Longrightarrow> queue k (step x s) = None"
    and fresh_step: "inv (Suc n) s \<Longrightarrow> fresh k (step x s) \<Longrightarrow> fresh k s"
    and fresh_silent: "inv (Suc n) s \<Longrightarrow> fresh k s \<Longrightarrow> queue k s = None \<and> sent k x s = [] \<and> taken k x s = []"
begin

text \<open>A queue that is gone and whose id was handed out stays gone.\<close>

lemma gone_forever:
  "inv (length xs) s \<Longrightarrow> queue k s = None \<Longrightarrow> \<not> fresh k s \<Longrightarrow> queue k (fold step xs s) = None"
proof (induction xs arbitrary: s)
  case (Cons x xs)
  have i: "inv (Suc (length xs)) s" using Cons.prems(1) by simp
  show ?case
    using Cons.IH [OF step_inv [OF i]] queue_gone [OF i Cons.prems(2,3)] fresh_step [OF i] Cons.prems(3)
    by auto
qed simp

text \<open>First in, first out: what was taken, then what is still queued, is what was sent.\<close>

lemma fifo:
  "inv (length xs) s \<Longrightarrow> queue k (fold step xs s) = Some q \<Longrightarrow>
   queued (queue k s) @ observe (sent k) step xs s = observe (taken k) step xs s @ q"
proof (induction xs arbitrary: s)
  case (Cons x xs)
  have i: "inv (Suc (length xs)) s" using Cons.prems(1) by simp
  have IH: "queued (queue k (step x s)) @ observe (sent k) step xs (step x s) =
      observe (taken k) step xs (step x s) @ q"
    using Cons.IH [OF step_inv [OF i]] Cons.prems(2) by simp
  show ?case
  proof (cases "queue k (step x s)")
    case (Some q')
    from queue_step [OF i Some] IH Some show ?thesis
      by (metis append.assoc observe.simps(2) queued_simps(2))
  next
    case None
    then have "fresh k (step x s)"
      using gone_forever [OF step_inv [OF i], of k x] Cons.prems(2) by (cases "fresh k (step x s)") auto
    then have "queue k s = None \<and> sent k x s = [] \<and> taken k x s = []"
      by (intro fresh_silent [OF i] fresh_step [OF i])
    with IH None show ?thesis by simp
  qed
qed simp

end

end
