(* ===== verification/Message_Port.thy ===== *)
theory Message_Port
  imports Mailbox
begin

section \<open>Message ports (moli-message-port)\<close>

text \<open>
  \<^verbatim>\<open>MessagePortRegistry\<close> of \<^verbatim>\<open>moli-message-port/src/registry.rs\<close>.  Every method takes the
  registry lock once, so it is one step of the model; the hash map of endpoints is a finite
  map, the id counter a 64 bit word.  Payloads and owners are type parameters, as in the
  source.
\<close>

type_synonym message_port_id = u64

datatype message_port_close_kind = PeerClosed | ConnectionError

datatype 'p message_port_poll = Removed | Idle | Message 'p | Close message_port_close_kind

record 'o message_port_wake =
  wake_port_id :: message_port_id
  wake_owner :: 'o

record ('p, 'o) message_port_close_result =
  peer_wake :: "'o message_port_wake option"
  close_discarded :: "'p list"

record ('p, 'o) discarded_message_port =
  discarded_port_id :: message_port_id
  discarded_owner :: "'o option"
  discarded_messages :: "'p list"

record ('p, 'o) message_port_state =
  peer_id :: "message_port_id option"
  owner :: "'o option"
  pending_messages :: "'p list"
  pending_close :: "message_port_close_kind option"

record ('p, 'o) message_port_registry =
  ports :: "message_port_id \<rightharpoonup> ('p, 'o) message_port_state"
  next_port_id :: u64

definition registry_default :: "('p, 'o) message_port_registry" where
  "registry_default = \<lparr>ports = Map.empty, next_port_id = 1\<rparr>"

definition next_message_port_id :: "('p, 'o) message_port_registry \<Rightarrow> message_port_id \<times> ('p, 'o) message_port_registry" where
  "next_message_port_id r = (max (next_port_id r) 1, r\<lparr>next_port_id := next_port_id r + 1\<rparr>)"

definition create_message_port :: "'o \<Rightarrow> ('p, 'o) message_port_registry \<Rightarrow> message_port_id \<times> ('p, 'o) message_port_registry" where
  "create_message_port ow r =
     (let (port_id, r1) = next_message_port_id r in
      (port_id, r1\<lparr>ports := (ports r1)(port_id \<mapsto>
         \<lparr>peer_id = None, owner = Some ow, pending_messages = [], pending_close = None\<rparr>)\<rparr>))"

definition create_disconnected_message_port :: "'o \<Rightarrow> ('p, 'o) message_port_registry \<Rightarrow> message_port_id \<times> ('p, 'o) message_port_registry" where
  "create_disconnected_message_port ow r =
     (let (port_id, r1) = next_message_port_id r in
      (port_id, r1\<lparr>ports := (ports r1)(port_id \<mapsto>
         \<lparr>peer_id = None, owner = Some ow, pending_messages = [], pending_close = Some ConnectionError\<rparr>)\<rparr>))"

definition create_entangled_message_port_pair ::
  "'o \<Rightarrow> ('p, 'o) message_port_registry \<Rightarrow> (message_port_id \<times> message_port_id) \<times> ('p, 'o) message_port_registry" where
  "create_entangled_message_port_pair ow r =
     (let (port1, r1) = next_message_port_id r;
          (port2, r2) = next_message_port_id r1 in
      ((port1, port2), r2\<lparr>ports := (ports r2)(
         port1 \<mapsto> \<lparr>peer_id = Some port2, owner = Some ow, pending_messages = [], pending_close = None\<rparr>,
         port2 \<mapsto> \<lparr>peer_id = Some port1, owner = Some ow, pending_messages = [], pending_close = None\<rparr>)\<rparr>))"

definition attach_message_port_owner ::
  "message_port_id \<Rightarrow> 'o \<Rightarrow> ('p, 'o) message_port_registry \<Rightarrow>
   'o message_port_wake option \<times> ('p, 'o) message_port_registry" where
  "attach_message_port_owner port_id ow r =
     (case ports r port_id of
        None \<Rightarrow> (None, r)
      | Some st \<Rightarrow>
          (if pending_close st \<noteq> None \<or> pending_messages st \<noteq> []
           then Some \<lparr>wake_port_id = port_id, wake_owner = ow\<rparr> else None,
           r\<lparr>ports := (ports r)(port_id \<mapsto> st\<lparr>owner := Some ow\<rparr>)\<rparr>))"

definition detach_message_port_owner_for_transfer ::
  "message_port_id \<Rightarrow> ('p, 'o) message_port_registry \<Rightarrow> ('p, 'o) message_port_registry" where
  "detach_message_port_owner_for_transfer port_id r =
     (case ports r port_id of
        None \<Rightarrow> r
      | Some st \<Rightarrow> r\<lparr>ports := (ports r)(port_id \<mapsto> st\<lparr>owner := None\<rparr>)\<rparr>)"

definition clear_message_port_owner ::
  "message_port_id \<Rightarrow> ('p, 'o) message_port_registry \<Rightarrow> ('p, 'o) message_port_registry" where
  "clear_message_port_owner port_id r =
     (case ports r port_id of
        None \<Rightarrow> r
      | Some st \<Rightarrow> r\<lparr>ports := (ports r)(port_id \<mapsto> st\<lparr>owner := None\<rparr>)\<rparr>)"

definition wake_message_port_if_pending ::
  "message_port_id \<Rightarrow> ('p, 'o) message_port_registry \<Rightarrow> 'o message_port_wake option" where
  "wake_message_port_if_pending port_id r =
     (case ports r port_id of
        None \<Rightarrow> None
      | Some st \<Rightarrow>
          if pending_close st = None \<and> pending_messages st = [] then None
          else map_option (\<lambda>ow. \<lparr>wake_port_id = port_id, wake_owner = ow\<rparr>) (owner st))"

definition message_port_peer_id ::
  "message_port_id \<Rightarrow> ('p, 'o) message_port_registry \<Rightarrow> message_port_id option" where
  "message_port_peer_id port_id r = Option.bind (ports r port_id) peer_id"

definition enqueue_message_to_endpoint ::
  "message_port_id \<Rightarrow> 'p \<Rightarrow> ('p, 'o) message_port_registry \<Rightarrow> ('p + unit) \<times> ('p, 'o) message_port_registry" where
  "enqueue_message_to_endpoint port_id payload r =
     (case ports r port_id of
        None \<Rightarrow> (Inl payload, r)
      | Some st \<Rightarrow>
          (Inr (), r\<lparr>ports := (ports r)(port_id \<mapsto> st\<lparr>pending_messages := pending_messages st @ [payload]\<rparr>)\<rparr>))"

definition enqueue_message_to_message_port ::
  "message_port_id \<Rightarrow> 'p \<Rightarrow> ('p, 'o) message_port_registry \<Rightarrow> ('p + message_port_id) \<times> ('p, 'o) message_port_registry" where
  "enqueue_message_to_message_port port_id payload r =
     (case Option.bind (ports r port_id) peer_id of
        None \<Rightarrow> (Inl payload, r)
      | Some peer \<Rightarrow>
          (case ports r peer of
             None \<Rightarrow> (Inl payload, r)
           | Some st \<Rightarrow>
               (Inr peer, r\<lparr>ports := (ports r)(peer \<mapsto> st\<lparr>pending_messages := pending_messages st @ [payload]\<rparr>)\<rparr>)))"

definition poll_message_port ::
  "message_port_id \<Rightarrow> bool \<Rightarrow> ('p, 'o) message_port_registry \<Rightarrow> 'p message_port_poll \<times> ('p, 'o) message_port_registry" where
  "poll_message_port port_id started r =
     (case ports r port_id of
        None \<Rightarrow> (Removed, r)
      | Some st \<Rightarrow>
          if \<not> started then (Idle, r)
          else
            (case pending_messages st of
               m # ms \<Rightarrow> (Message m, r\<lparr>ports := (ports r)(port_id \<mapsto> st\<lparr>pending_messages := ms\<rparr>)\<rparr>)
             | [] \<Rightarrow>
                 (case pending_close st of
                    Some c \<Rightarrow> (Close c, r\<lparr>ports := (ports r)(port_id \<mapsto> st\<lparr>pending_close := None\<rparr>)\<rparr>)
                  | None \<Rightarrow> (Idle, r))))"

definition take_pending_message_port_message ::
  "message_port_id \<Rightarrow> ('p, 'o) message_port_registry \<Rightarrow> 'p option \<times> ('p, 'o) message_port_registry" where
  "take_pending_message_port_message port_id r =
     (case ports r port_id of
        None \<Rightarrow> (None, r)
      | Some st \<Rightarrow>
          (case pending_messages st of
             m # ms \<Rightarrow> (Some m, r\<lparr>ports := (ports r)(port_id \<mapsto> st\<lparr>pending_messages := ms\<rparr>)\<rparr>)
           | [] \<Rightarrow> (None, r)))"

definition contains_message_port :: "message_port_id \<Rightarrow> ('p, 'o) message_port_registry \<Rightarrow> bool" where
  "contains_message_port port_id r \<longleftrightarrow> ports r port_id \<noteq> None"

definition endpoint_count :: "('p, 'o) message_port_registry \<Rightarrow> nat" where
  "endpoint_count r = card (dom (ports r))"

definition discard_message_port_channel ::
  "message_port_id \<Rightarrow> ('p, 'o) message_port_registry \<Rightarrow>
   ('p, 'o) discarded_message_port list \<times> ('p, 'o) message_port_registry" where
  "discard_message_port_channel port_id r =
     (case ports r port_id of
        None \<Rightarrow> ([], r)
      | Some st \<Rightarrow>
          let ps = (ports r)(port_id := None);
              here = \<lparr>discarded_port_id = port_id, discarded_owner = owner st,
                discarded_messages = pending_messages st\<rparr> in
          (case Option.bind (peer_id st) (\<lambda>peer. map_option (Pair peer) (ps peer)) of
             None \<Rightarrow> ([here], r\<lparr>ports := ps\<rparr>)
           | Some (peer, pst) \<Rightarrow>
               ([here, \<lparr>discarded_port_id = peer, discarded_owner = owner pst,
                  discarded_messages = pending_messages pst\<rparr>],
                r\<lparr>ports := ps(peer := None)\<rparr>)))"

definition take_pending_message_port_close ::
  "message_port_id \<Rightarrow> ('p, 'o) message_port_registry \<Rightarrow>
   message_port_close_kind option \<times> ('p, 'o) message_port_registry" where
  "take_pending_message_port_close port_id r =
     (case ports r port_id of
        None \<Rightarrow> (None, r)
      | Some st \<Rightarrow> (pending_close st, r\<lparr>ports := (ports r)(port_id \<mapsto> st\<lparr>pending_close := None\<rparr>)\<rparr>))"

definition close_message_port ::
  "message_port_id \<Rightarrow> ('p, 'o) message_port_registry \<Rightarrow>
   ('p, 'o) message_port_close_result \<times> ('p, 'o) message_port_registry" where
  "close_message_port port_id r =
     (case ports r port_id of
        None \<Rightarrow> (\<lparr>peer_wake = None, close_discarded = []\<rparr>, r)
      | Some st \<Rightarrow>
          let ps = (ports r)(port_id := None) in
          (case Option.bind (peer_id st) (\<lambda>peer. map_option (Pair peer) (ps peer)) of
             None \<Rightarrow> (\<lparr>peer_wake = None, close_discarded = pending_messages st\<rparr>, r\<lparr>ports := ps\<rparr>)
           | Some (peer, pst) \<Rightarrow>
               (\<lparr>peer_wake = map_option (\<lambda>ow. \<lparr>wake_port_id = peer, wake_owner = ow\<rparr>) (owner pst),
                 close_discarded = pending_messages st\<rparr>,
                r\<lparr>ports := ps(peer \<mapsto> pst\<lparr>peer_id := None, pending_close := Some PeerClosed\<rparr>)\<rparr>)))"


subsection \<open>Runs of registry operations\<close>

datatype ('p, 'o) port_op =
    CreatePort 'o | CreateDisconnected 'o | CreatePair 'o
  | AttachOwner message_port_id 'o | DetachOwner message_port_id | ClearOwner message_port_id
  | SendToEndpoint message_port_id 'p | SendFrom message_port_id 'p
  | PollPort message_port_id bool | TakeMessage message_port_id | TakeClose message_port_id
  | DiscardChannel message_port_id | ClosePort message_port_id

fun port_step :: "('p, 'o) port_op \<Rightarrow> ('p, 'o) message_port_registry \<Rightarrow> ('p, 'o) message_port_registry" where
  "port_step (CreatePort ow) r = snd (create_message_port ow r)"
| "port_step (CreateDisconnected ow) r = snd (create_disconnected_message_port ow r)"
| "port_step (CreatePair ow) r = snd (create_entangled_message_port_pair ow r)"
| "port_step (AttachOwner p ow) r = snd (attach_message_port_owner p ow r)"
| "port_step (DetachOwner p) r = detach_message_port_owner_for_transfer p r"
| "port_step (ClearOwner p) r = clear_message_port_owner p r"
| "port_step (SendToEndpoint p m) r = snd (enqueue_message_to_endpoint p m r)"
| "port_step (SendFrom p m) r = snd (enqueue_message_to_message_port p m r)"
| "port_step (PollPort p started) r = snd (poll_message_port p started r)"
| "port_step (TakeMessage p) r = snd (take_pending_message_port_message p r)"
| "port_step (TakeClose p) r = snd (take_pending_message_port_close p r)"
| "port_step (DiscardChannel p) r = snd (discard_message_port_channel p r)"
| "port_step (ClosePort p) r = snd (close_message_port p r)"

text \<open>The messages an operation puts into, and takes out of, the queue of a port.\<close>

fun port_sent :: "message_port_id \<Rightarrow> ('p, 'o) port_op \<Rightarrow> ('p, 'o) message_port_registry \<Rightarrow> 'p list" where
  "port_sent k (SendToEndpoint p m) r =
     (if fst (enqueue_message_to_endpoint p m r) = Inr () \<and> p = k then [m] else [])"
| "port_sent k (SendFrom p m) r =
     (if fst (enqueue_message_to_message_port p m r) = Inr k then [m] else [])"
| "port_sent k _ r = []"

fun port_taken :: "message_port_id \<Rightarrow> ('p, 'o) port_op \<Rightarrow> ('p, 'o) message_port_registry \<Rightarrow> 'p list" where
  "port_taken k (PollPort p started) r =
     (case fst (poll_message_port p started r) of Message m \<Rightarrow> (if p = k then [m] else []) | _ \<Rightarrow> [])"
| "port_taken k (TakeMessage p) r =
     (case fst (take_pending_message_port_message p r) of
        Some m \<Rightarrow> (if p = k then [m] else []) | None \<Rightarrow> [])"
| "port_taken k _ r = []"

definition port_queue :: "message_port_id \<Rightarrow> ('p, 'o) message_port_registry \<Rightarrow> 'p list option" where
  "port_queue k r = map_option pending_messages (ports r k)"

definition port_fresh :: "message_port_id \<Rightarrow> ('p, 'o) message_port_registry \<Rightarrow> bool" where
  "port_fresh k r \<longleftrightarrow> unat (next_port_id r) \<le> unat k"

text \<open>
  Entanglement is symmetric and never with oneself; a port with a close event pending is
  not entangled; every id was handed out by the counter.
\<close>

definition entangled_ok :: "(message_port_id \<rightharpoonup> message_port_id) \<Rightarrow> bool" where
  "entangled_ok pm \<longleftrightarrow> (\<forall>a b. pm a = Some b \<longrightarrow> a \<noteq> b \<and> pm b = Some a)"

definition peer_map :: "('p, 'o) message_port_registry \<Rightarrow> (message_port_id \<rightharpoonup> message_port_id)" where
  "peer_map r = (\<lambda>a. message_port_peer_id a r)"

definition port_inv :: "('p, 'o) message_port_registry \<Rightarrow> bool" where
  "port_inv r \<longleftrightarrow>
     entangled_ok (peer_map r) \<and>
     (\<forall>a st. ports r a = Some st \<longrightarrow> pending_close st \<noteq> None \<longrightarrow> peer_id st = None) \<and>
     (\<forall>a \<in> dom (ports r). unat a < unat (next_port_id r)) \<and> 1 \<le> unat (next_port_id r)"

definition port_budget :: "nat \<Rightarrow> ('p, 'o) message_port_registry \<Rightarrow> bool" where
  "port_budget n r \<longleftrightarrow> port_inv r \<and> unat (next_port_id r) + 2 * n < 2 ^ 64"


subsection \<open>The invariant\<close>

lemma entangled_okD: "entangled_ok pm \<Longrightarrow> pm a = Some b \<Longrightarrow> a \<noteq> b \<and> pm b = Some a"
  unfolding entangled_ok_def by blast

lemma entangled_unlink: "entangled_ok pm \<Longrightarrow> pm a = Some b \<Longrightarrow> entangled_ok (pm(a := None, b := None))"
  unfolding entangled_ok_def fun_upd_def by (metis option.distinct(1) option.inject)

lemma entangled_drop: "entangled_ok pm \<Longrightarrow> pm a = None \<Longrightarrow> entangled_ok (pm(a := None))"
  by (simp add: fun_upd_idem)

lemma entangled_link:
  "entangled_ok pm \<Longrightarrow> pm a = None \<Longrightarrow> pm b = None \<Longrightarrow> a \<noteq> b \<Longrightarrow> entangled_ok (pm(a \<mapsto> b, b \<mapsto> a))"
  unfolding entangled_ok_def fun_upd_def by (metis option.distinct(1) option.inject)

lemma peer_map_port: "ports r a = Some st \<Longrightarrow> peer_map r a = peer_id st"
  by (simp add: peer_map_def message_port_peer_id_def)

lemma peer_map_no_port: "ports r a = None \<Longrightarrow> peer_map r a = None"
  by (simp add: peer_map_def message_port_peer_id_def)

lemma peer_map_upd [simp]:
  "peer_map (r\<lparr>ports := ps(a := x)\<rparr>) = (peer_map (r\<lparr>ports := ps\<rparr>))(a := Option.bind x peer_id)"
  by (auto simp: peer_map_def message_port_peer_id_def fun_eq_iff)

lemma peer_map_next [simp]: "peer_map (r\<lparr>next_port_id := n\<rparr>) = peer_map r"
  by (simp add: peer_map_def message_port_peer_id_def)

lemma ports_same [simp]: "r\<lparr>ports := ports r\<rparr> = r" for r :: "('p, 'o) message_port_registry"
  by simp

lemma port_inv_close: "port_inv r \<Longrightarrow> ports r a = Some st \<Longrightarrow> pending_close st \<noteq> None \<Longrightarrow> peer_id st = None"
  unfolding port_inv_def by blast

text \<open>Changing a port without touching its entanglement.\<close>

lemma port_inv_touch:
  assumes "port_inv r" "ports r a = Some st" "peer_id st' = peer_id st"
    and "pending_close st' = pending_close st \<or> pending_close st' = None"
  shows "port_inv (r\<lparr>ports := (ports r)(a \<mapsto> st')\<rparr>)"
proof -
  have "peer_map (r\<lparr>ports := (ports r)(a \<mapsto> st')\<rparr>) = peer_map r"
    using assms(2,3) peer_map_port [OF assms(2)] by (simp add: fun_upd_idem)
  with assms port_inv_close [OF assms(1,2)] show ?thesis
    by (cases "pending_close st") (auto simp: port_inv_def)
qed

text \<open>The peer of a port is a live port.\<close>

lemma peer_live:
  assumes "port_inv r" "ports r a = Some st" "peer_id st = Some b"
  obtains st' where "ports r b = Some st'" "peer_id st' = Some a" "a \<noteq> b" "pending_close st' = None"
proof -
  from assms peer_map_port [OF assms(2)] have pm: "a \<noteq> b" "peer_map r b = Some a"
    using entangled_okD [of "peer_map r" a b] by (auto simp: port_inv_def)
  then obtain st' where "ports r b = Some st'" "peer_id st' = Some a"
    using peer_map_no_port [of r b] peer_map_port [of r b] by (cases "ports r b") auto
  moreover from this have "pending_close st' = None"
    using assms(1) unfolding port_inv_def by fastforce
  ultimately show thesis using that pm(1) by blast
qed

text \<open>A new endpoint under an unused id.\<close>

lemma next_id_unused: "port_inv r \<Longrightarrow> unat (next_port_id r) \<le> unat a \<Longrightarrow> ports r a = None"
  unfolding port_inv_def by (metis domIff not_less)

lemma port_inv_new_port:
  assumes "port_inv r" "unat (next_port_id r) + 1 < 2 ^ 64" "peer_id st = None"
  shows "port_inv (r\<lparr>next_port_id := next_port_id r + 1, ports := (ports r)(next_port_id r \<mapsto> st)\<rparr>)"
proof -
  have "peer_map (r\<lparr>next_port_id := next_port_id r + 1, ports := (ports r)(next_port_id r \<mapsto> st)\<rparr>) =
      (peer_map r)(next_port_id r := None)"
    using assms(3) by (auto simp: peer_map_def message_port_peer_id_def fun_eq_iff)
  moreover have "entangled_ok ((peer_map r)(next_port_id r := None))"
    using assms(1) next_id_unused [OF assms(1), of "next_port_id r"]
    by (intro entangled_drop peer_map_no_port) (auto simp: port_inv_def)
  ultimately show ?thesis
    using assms port_inv_close [OF assms(1)] by (auto simp: port_inv_def unat_succ less_Suc_eq)
qed

lemma port_inv_new_pair:
  assumes "port_inv r" "unat (next_port_id r) + 2 < 2 ^ 64"
  shows "port_inv (snd (create_entangled_message_port_pair ow r))"
proof -
  let ?a = "next_port_id r" and ?b = "next_port_id r + 1" and ?r = "snd (create_entangled_message_port_pair ow r)"
  have a: "1 \<le> unat ?a" using assms(1) by (simp add: port_inv_def)
  have b: "unat ?b = unat ?a + 1" "unat (?b + 1) = unat ?a + 2"
    using unat_succ [of ?a] unat_succ [of ?b] assms(2) by simp_all
  have m: "max ?a 1 = ?a" "max ?b 1 = ?b" using a b by (simp_all add: unat_max_one)
  have ne: "?a \<noteq> ?b" using b(1) by (metis n_not_Suc_n Suc_eq_plus1)
  have r: "ports ?r = (ports r)(
         ?a \<mapsto> \<lparr>peer_id = Some ?b, owner = Some ow, pending_messages = [], pending_close = None\<rparr>,
         ?b \<mapsto> \<lparr>peer_id = Some ?a, owner = Some ow, pending_messages = [], pending_close = None\<rparr>)"
    "next_port_id ?r = ?b + 1"
    using m by (simp_all add: create_entangled_message_port_pair_def next_message_port_id_def)
  have "peer_map ?r = (peer_map r)(?a \<mapsto> ?b, ?b \<mapsto> ?a)"
    using r(1) by (auto simp: peer_map_def message_port_peer_id_def fun_eq_iff)
  moreover have "entangled_ok ((peer_map r)(?a \<mapsto> ?b, ?b \<mapsto> ?a))"
    using assms(1) ne next_id_unused [OF assms(1), of ?a] next_id_unused [OF assms(1), of ?b] b(1)
    by (intro entangled_link peer_map_no_port) (auto simp: port_inv_def)
  moreover have "\<forall>x \<in> dom (ports ?r). unat x < unat (next_port_id ?r)"
    using assms(1) b unfolding r by (auto simp: port_inv_def less_Suc_eq)
  ultimately show ?thesis
    using port_inv_close [OF assms(1)] b unfolding port_inv_def r by auto
qed

text \<open>Removing a port, and unlinking its peer.\<close>

lemma port_inv_remove:
  assumes "port_inv r" "ports r a = Some st" "peer_id st = None"
  shows "port_inv (r\<lparr>ports := (ports r)(a := None)\<rparr>)"
proof -
  have "peer_map (r\<lparr>ports := (ports r)(a := None)\<rparr>) = peer_map r"
    using peer_map_port [OF assms(2)] assms(3) by (simp add: fun_upd_idem)
  with assms(1) port_inv_close [OF assms(1)] show ?thesis by (auto simp: port_inv_def)
qed

lemma port_inv_unlink:
  assumes "port_inv r" "ports r a = Some st" "peer_id st = Some b" "ports r b = Some stb"
    and "x = None \<or> (\<exists>st'. x = Some st' \<and> peer_id st' = None)"
  shows "port_inv (r\<lparr>ports := (ports r)(a := None, b := x)\<rparr>)"
proof -
  have "peer_map (r\<lparr>ports := (ports r)(a := None, b := x)\<rparr>) = (peer_map r)(a := None, b := None)"
    using assms(5) by auto
  moreover have "entangled_ok ((peer_map r)(a := None, b := None))"
    using assms(1-3) by (intro entangled_unlink) (simp_all add: port_inv_def peer_map_port)
  ultimately show ?thesis
    using assms port_inv_close [OF assms(1)] by (auto simp: port_inv_def split: if_splits)
qed

lemma max_next: "port_inv r \<Longrightarrow> max (next_port_id r) 1 = next_port_id r"
  by (simp add: port_inv_def unat_max_one)

lemmas port_op_defs = create_message_port_def create_disconnected_message_port_def
  attach_message_port_owner_def detach_message_port_owner_for_transfer_def clear_message_port_owner_def
  enqueue_message_to_endpoint_def enqueue_message_to_message_port_def poll_message_port_def
  take_pending_message_port_message_def take_pending_message_port_close_def
  next_message_port_id_def

lemma close_inv: "port_inv r \<Longrightarrow> port_inv (snd (close_message_port a r))"
  by (cases "ports r a")
    (auto simp: close_message_port_def Let_def intro: port_inv_remove port_inv_unlink
      split: bind_splits option.splits elim: peer_live)

lemma discard_inv: "port_inv r \<Longrightarrow> port_inv (snd (discard_message_port_channel a r))"
  by (cases "ports r a")
    (auto simp: discard_message_port_channel_def Let_def intro: port_inv_remove port_inv_unlink
      split: bind_splits option.splits elim: peer_live)

lemma port_step_next:
  assumes "port_inv r" "unat (next_port_id r) + 2 < 2 ^ 64"
  shows "unat (next_port_id r) \<le> unat (next_port_id (port_step x r)) \<and>
    unat (next_port_id (port_step x r)) \<le> unat (next_port_id r) + 2"
  using unat_succ [of "next_port_id r"] unat_succ [of "next_port_id r + 1"] assms(2)
  by (cases x) (auto simp: port_op_defs create_entangled_message_port_pair_def close_message_port_def
      discard_message_port_channel_def Let_def split: option.splits list.splits)

lemma port_step_inv:
  assumes "port_inv r" "unat (next_port_id r) + 2 < 2 ^ 64"
  shows "port_inv (port_step x r)"
proof (cases x)
  case (CreatePort ow)
  then show ?thesis
    using port_inv_new_port [OF assms(1)] assms max_next [OF assms(1)] by (simp add: port_op_defs)
next
  case (CreateDisconnected ow)
  then show ?thesis
    using port_inv_new_port [OF assms(1)] assms max_next [OF assms(1)] by (simp add: port_op_defs)
next
  case (CreatePair ow)
  then show ?thesis using port_inv_new_pair [OF assms] by simp
next
  case (DiscardChannel a)
  then show ?thesis using discard_inv [OF assms(1)] by simp
next
  case (ClosePort a)
  then show ?thesis using close_inv [OF assms(1)] by simp
qed (use assms in \<open>auto simp: port_op_defs intro: port_inv_touch split: option.splits list.splits\<close>)


subsection \<open>The registry is a mailbox\<close>

text \<open>What one operation does to the queue of a port that is still there afterwards.\<close>

lemma port_queue_step:
  assumes "port_inv r" "unat (next_port_id r) + 2 < 2 ^ 64"
    and "port_queue k (port_step x r) = Some q"
  shows "queued (port_queue k r) @ port_sent k x r = port_taken k x r @ q"
proof -
  have u: "ports r (next_port_id r) = None" "ports r (next_port_id r + 1) = None"
    using next_id_unused [OF assms(1)] unat_succ [of "next_port_id r"] assms(2) by auto
  have m: "max (next_port_id r) 1 = next_port_id r" "max (next_port_id r + 1) 1 = next_port_id r + 1"
    using max_next [OF assms(1)] unat_succ [of "next_port_id r"] assms(2) by (auto simp: unat_max_one)
  show ?thesis
    using assms(3) u m
    by (cases x) (auto simp: port_op_defs create_entangled_message_port_pair_def close_message_port_def
        discard_message_port_channel_def Let_def port_queue_def
        split: option.splits list.splits if_splits bind_splits)
qed

lemma port_queue_gone:
  assumes "port_inv r" "unat (next_port_id r) + 2 < 2 ^ 64" "port_queue k r = None" "\<not> port_fresh k r"
  shows "port_queue k (port_step x r) = None"
proof -
  have ne: "k \<noteq> next_port_id r" "k \<noteq> next_port_id r + 1"
    using assms(2,4) unat_succ [of "next_port_id r"] by (auto simp: port_fresh_def)
  have m: "max (next_port_id r) 1 = next_port_id r" "max (next_port_id r + 1) 1 = next_port_id r + 1"
    using max_next [OF assms(1)] unat_succ [of "next_port_id r"] assms(2) by (auto simp: unat_max_one)
  show ?thesis
    using assms(3) ne m
    by (cases x) (auto simp: port_op_defs create_entangled_message_port_pair_def close_message_port_def
        discard_message_port_channel_def Let_def port_queue_def
        split: option.splits list.splits if_splits bind_splits)
qed

lemma port_fresh_silent:
  assumes "port_inv r" "port_fresh k r"
  shows "port_queue k r = None \<and> port_sent k x r = [] \<and> port_taken k x r = []"
proof -
  have "ports r k = None" using next_id_unused assms by (simp add: port_fresh_def)
  then show ?thesis
    by (cases x) (auto simp: port_op_defs port_queue_def split: option.splits list.splits if_splits)
qed

interpretation port_mail: mailbox_system port_step port_budget port_queue port_sent port_taken port_fresh
proof
  fix n :: nat and r :: "('p, 'o) message_port_registry" and x k q
  assume b: "port_budget (Suc n) r"
  then have i: "port_inv r" "unat (next_port_id r) + 2 < 2 ^ 64" by (auto simp: port_budget_def)
  show "port_budget n (port_step x r)"
    using b port_step_inv [OF i, of x] port_step_next [OF i, of x] by (simp add: port_budget_def)
  show "queued (port_queue k r) @ port_sent k x r = port_taken k x r @ q"
    if "port_queue k (port_step x r) = Some q"
    by (rule port_queue_step [OF i that])
  show "port_queue k (port_step x r) = None" if "port_queue k r = None" "\<not> port_fresh k r"
    by (rule port_queue_gone [OF i that])
  show "port_fresh k r" if "port_fresh k (port_step x r)"
    using that port_step_next [OF i, of x] by (simp add: port_fresh_def)
  show "port_queue k r = None \<and> port_sent k x r = [] \<and> port_taken k x r = []" if "port_fresh k r"
    by (rule port_fresh_silent [OF i(1) that])
qed

lemma registry_default_budget: "2 * n < 2 ^ 64 - 1 \<Longrightarrow> port_budget n registry_default"
  by (simp add: port_budget_def port_inv_def registry_default_def entangled_ok_def peer_map_def
      message_port_peer_id_def)

lemma port_queue_default: "port_queue k registry_default = None"
  by (simp add: port_queue_def registry_default_def)

lemma port_run_inv:
  "2 * length ops < 2 ^ 64 - 1 \<Longrightarrow> port_inv (fold port_step ops registry_default)"
  using port_mail.fold_inv [of ops 0, OF registry_default_budget] by (simp add: port_budget_def)


subsection \<open>The registry's promises\<close>

text \<open>C4: Messages are neither lost, duplicated nor reordered: after any sequence of registry
  operations (transfers, closes and discards included), for every live port the messages
  delivered from it followed by those still queued are exactly the messages accepted for it,
  in the order of acceptance.  The bound on the number of operations is the one under which
  the 64 bit id counter does not wrap.\<close>

theorem message_port_fifo:
  assumes "2 * length ops < 2 ^ 64 - 1"
    and "ports (fold port_step ops registry_default) k = Some st"
  shows "observe (port_taken k) port_step ops registry_default @ pending_messages st =
    observe (port_sent k) port_step ops registry_default"
  using port_mail.fifo [OF registry_default_budget [OF assms(1)], of k "pending_messages st"] assms(2)
  by (simp add: port_queue_def [of _ "fold port_step ops registry_default"] port_queue_default)

theorem message_port_fifo_witness:
  "observe (port_taken 2) port_step
     [CreatePair (0 :: nat), SendFrom 1 (7 :: nat), SendFrom 1 8, DetachOwner 2, SendToEndpoint 2 9,
      PollPort 2 True, AttachOwner 2 1, ClosePort 1, TakeMessage 2] registry_default @ [9] =
   observe (port_sent 2) port_step
     [CreatePair (0 :: nat), SendFrom 1 (7 :: nat), SendFrom 1 8, DetachOwner 2, SendToEndpoint 2 9,
      PollPort 2 True, AttachOwner 2 1, ClosePort 1, TakeMessage 2] registry_default"
proof -
  let ?ops = "[CreatePair (0 :: nat), SendFrom 1 (7 :: nat), SendFrom 1 8, DetachOwner 2, SendToEndpoint 2 9,
      PollPort 2 True, AttachOwner 2 1, ClosePort 1, TakeMessage 2]"
  have "ports (fold port_step ?ops registry_default) 2 =
      Some \<lparr>peer_id = None, owner = Some 1, pending_messages = [9], pending_close = Some PeerClosed\<rparr>"
    by code_simp
  from message_port_fifo [OF _ this] show ?thesis by simp
qed

text \<open>C28: Entanglement stays symmetric: after any sequence of operations, if a port has a peer,
  that peer is another live port whose peer it is, and neither has a close event pending; in
  particular a send from an entangled port is always accepted.\<close>

theorem message_port_entanglement:
  assumes "2 * length ops < 2 ^ 64 - 1"
    and "message_port_peer_id a (fold port_step ops registry_default) = Some b"
  shows "a \<noteq> b \<and> message_port_peer_id b (fold port_step ops registry_default) = Some a \<and>
    (\<forall>c \<in> {a, b}. \<exists>st. ports (fold port_step ops registry_default) c = Some st \<and> pending_close st = None) \<and>
    fst (enqueue_message_to_message_port a m (fold port_step ops registry_default)) = Inr b"
proof -
  let ?r = "fold port_step ops registry_default"
  have inv: "port_inv ?r" by (rule port_run_inv [OF assms(1)])
  from assms(2) obtain st where st: "ports ?r a = Some st" "peer_id st = Some b"
    by (auto simp: message_port_peer_id_def bind_eq_Some_conv)
  from peer_live [OF inv st] obtain st' where st': "ports ?r b = Some st'" "peer_id st' = Some a" "a \<noteq> b"
    "pending_close st' = None" by blast
  have "pending_close st = None" using port_inv_close [OF inv st(1)] st(2) by fastforce
  with st st' show ?thesis by (auto simp: message_port_peer_id_def enqueue_message_to_message_port_def)
qed

theorem message_port_entanglement_witness:
  "message_port_peer_id 2 (fold port_step [CreatePair (0 :: nat), CreatePair 1, ClosePort 3]
     (registry_default :: (nat, nat) message_port_registry)) = Some 1 \<and>
   message_port_peer_id 1 (fold port_step [CreatePair (0 :: nat), CreatePair 1, ClosePort 3]
     (registry_default :: (nat, nat) message_port_registry)) = Some 2 \<and>
   fst (enqueue_message_to_message_port 2 (5 :: nat)
     (fold port_step [CreatePair (0 :: nat), CreatePair 1, ClosePort 3]
     (registry_default :: (nat, nat) message_port_registry))) = Inr 1"
proof -
  let ?r = "fold port_step [CreatePair (0 :: nat), CreatePair 1, ClosePort 3]
      (registry_default :: (nat, nat) message_port_registry)"
  have "message_port_peer_id 2 ?r = Some 1" by code_simp
  with message_port_entanglement [OF _ this, of 5] show ?thesis by simp
qed

text \<open>The observations of successive polls of a started port.\<close>

fun polls :: "nat \<Rightarrow> message_port_id \<Rightarrow> ('p, 'o) message_port_registry \<Rightarrow> 'p message_port_poll list" where
  "polls 0 k r = []"
| "polls (Suc n) k r = fst (poll_message_port k True r) # polls n k (snd (poll_message_port k True r))"

lemma polls_drain:
  "ports r k = Some st \<Longrightarrow>
   polls (length (pending_messages st) + n) k r = map Message (pending_messages st) @
     polls n k (r\<lparr>ports := (ports r)(k \<mapsto> st\<lparr>pending_messages := []\<rparr>)\<rparr>)"
proof (induction "pending_messages st" arbitrary: r st)
  case Nil
  then have "(ports r)(k \<mapsto> st\<lparr>pending_messages := []\<rparr>) = ports r"
    by (metis fun_upd_triv message_port_state.surjective message_port_state.update_convs(3))
  with Nil show ?case by simp
next
  case (Cons m ms)
  let ?st = "st\<lparr>pending_messages := ms\<rparr>"
  from Cons.hyps(1) [of ?st "r\<lparr>ports := (ports r)(k \<mapsto> ?st)\<rparr>"]
  have "polls (length ms + n) k (r\<lparr>ports := (ports r)(k \<mapsto> ?st)\<rparr>) = map Message ms @
      polls n k (r\<lparr>ports := (ports r)(k \<mapsto> st\<lparr>pending_messages := []\<rparr>)\<rparr>)"
    by simp
  with Cons.hyps(2) [symmetric] Cons.prems show ?case by (simp add: poll_message_port_def)
qed

text \<open>Closing a port removes it and returns its queued messages as discarded.  Its peer keeps
  every message already queued for it, is given them in order by polling, then the close
  notification exactly once, then nothing; and it can no longer send.\<close>

lemma message_port_close_drains:
  assumes "2 * length ops < 2 ^ 64 - 1"
    and "ports (fold port_step ops registry_default) p = Some st" "peer_id st = Some q"
    and "ports (fold port_step ops registry_default) q = Some sq"
    and "close_message_port p (fold port_step ops registry_default) = (res, r')"
  shows "\<not> contains_message_port p r' \<and> close_discarded res = pending_messages st \<and>
    polls (length (pending_messages sq) + 2) q r' = map Message (pending_messages sq) @ [Close PeerClosed, Idle] \<and>
    enqueue_message_to_message_port q m r' = (Inl m, r')"
proof -
  have inv: "port_inv (fold port_step ops registry_default)" by (rule port_run_inv [OF assms(1)])
  from peer_live [OF inv assms(2,3)] have ne: "p \<noteq> q" by blast
  let ?sq = "sq\<lparr>peer_id := None, pending_close := Some PeerClosed\<rparr>"
  have q: "ports r' q = Some ?sq" and res: "close_discarded res = pending_messages st"
    and p: "ports r' p = None"
    using assms(2-5) ne by (auto simp: close_message_port_def Let_def)
  have "polls (length (pending_messages ?sq) + 2) q r' =
      map Message (pending_messages ?sq) @ [Close PeerClosed, Idle]"
    unfolding polls_drain [where st = ?sq, OF q] by (simp add: numeral_2_eq_2 poll_message_port_def)
  with q res p show ?thesis
    by (simp add: contains_message_port_def enqueue_message_to_message_port_def)
qed

lemma message_port_close_drains_example:
  "polls 3 2 (snd (close_message_port 1
      (fold port_step [CreatePair (0 :: nat), SendFrom 1 (7 :: nat)] registry_default))) =
    [Message 7, Close PeerClosed, Idle]"
proof -
  let ?r = "fold port_step [CreatePair (0 :: nat), SendFrom 1 (7 :: nat)] registry_default"
  have "ports ?r 1 = Some \<lparr>peer_id = Some 2, owner = Some 0, pending_messages = [], pending_close = None\<rparr>"
    "ports ?r 2 = Some \<lparr>peer_id = Some 1, owner = Some 0, pending_messages = [7], pending_close = None\<rparr>"
    by code_simp+
  from message_port_close_drains [OF _ this(1) _ this(2), of "fst (close_message_port 1 ?r)"
      "snd (close_message_port 1 ?r)"] show ?thesis by (simp add: numeral_3_eq_3)
qed

end
