(* ===== verification/Storage_Key.thy ===== *)
theory Storage_Key
  imports Text_Prelude Mailbox
begin

section \<open>Storage keys (moli-storage-key)\<close>

text \<open>
  \<^verbatim>\<open>MoliStorageKey\<close> of \<^verbatim>\<open>moli-storage-key/src\<close>: the partition key of storage and messaging, its
  serialization and the parser of that serialization.  URLs are the third-party \<^verbatim>\<open>url\<close>
  crate's: a type parameter, with \<^verbatim>\<open>Url::parse\<close>, the origin serialization of a URL and its
  schemeful site as arguments of the functions that call them.
\<close>

datatype storage_partition_relation = FirstParty | ThirdParty | Unknown

definition from_sites :: "string \<Rightarrow> string \<Rightarrow> storage_partition_relation" where
  "from_sites current_site top_level_site =
     (if current_site = top_level_site then FirstParty else ThirdParty)"

definition is_third_party :: "storage_partition_relation \<Rightarrow> bool" where
  "is_third_party rel \<longleftrightarrow> rel = ThirdParty"

record moli_storage_key =
  origin :: string
  top_level_site :: string
  opaque_nonce :: "u64 option"
  partition_relation :: storage_partition_relation
  cross_site_ancestor :: bool

definition key_new :: "string \<Rightarrow> string \<Rightarrow> u64 option \<Rightarrow> storage_partition_relation \<Rightarrow> moli_storage_key" where
  "key_new org site nonce rel =
     \<lparr>origin = org, top_level_site = site, opaque_nonce = nonce, partition_relation = rel,
      cross_site_ancestor = is_third_party rel\<rparr>"

definition from_url_and_top_level_site ::
  "('url \<Rightarrow> string) \<Rightarrow> ('url \<Rightarrow> string) \<Rightarrow> 'url \<Rightarrow> string \<Rightarrow> u64 option \<Rightarrow> moli_storage_key" where
  "from_url_and_top_level_site origin_of site_for_url url site nonce =
     key_new (origin_of url) site nonce (from_sites (site_for_url url) site)"

definition first_party_from_url ::
  "('url \<Rightarrow> string) \<Rightarrow> ('url \<Rightarrow> string) \<Rightarrow> 'url \<Rightarrow> u64 option \<Rightarrow> moli_storage_key" where
  "first_party_from_url origin_of site_for_url url nonce =
     from_url_and_top_level_site origin_of site_for_url url (site_for_url url) nonce"

definition with_cross_site_ancestor :: "moli_storage_key \<Rightarrow> moli_storage_key" where
  "with_cross_site_ancestor k = k\<lparr>cross_site_ancestor := True\<rparr>"

definition storage_key_serialization_prefix :: string where
  "storage_key_serialization_prefix = ''storage-key:v1;origin=''"

definition storage_key_for_origin_and_top_level_site :: "string \<Rightarrow> string \<Rightarrow> string" where
  "storage_key_for_origin_and_top_level_site org site =
     storage_key_serialization_prefix @ org @ '';top-level-site='' @ site"

definition storage_key_prefix_for_origin :: "string \<Rightarrow> string" where
  "storage_key_prefix_for_origin org = storage_key_serialization_prefix @ org @ '';top-level-site=''"

definition partitioned_storage_key :: "string \<Rightarrow> string \<Rightarrow> string" where
  "partitioned_storage_key org site = storage_key_for_origin_and_top_level_site org site"

definition serialized_storage_key :: "moli_storage_key \<Rightarrow> string" where
  "serialized_storage_key k =
     storage_key_for_origin_and_top_level_site (origin k) (top_level_site k) @
     (if cross_site_ancestor k \<and> \<not> is_third_party (partition_relation k) then '';cross-site-ancestor=1'' else []) @
     (case opaque_nonce k of None \<Rightarrow> [] | Some nonce \<Rightarrow> '';opaque-nonce='' @ show_nat (unat nonce))"

definition serialized_storage_key_has_opaque_origin :: "string \<Rightarrow> bool" where
  "serialized_storage_key_has_opaque_origin key \<longleftrightarrow>
     key = ''null'' \<or>
     (case strip_prefix storage_key_serialization_prefix key of
        None \<Rightarrow> False
      | Some rest \<Rightarrow> rest = ''null'' \<or> prefix ''null;'' rest)"

definition site_for_serialized_origin :: "(string \<Rightarrow> 'url option) \<Rightarrow> ('url \<Rightarrow> string) \<Rightarrow> string \<Rightarrow> string" where
  "site_for_serialized_origin parse site_for_url org =
     (case parse org of Some url \<Rightarrow> site_for_url url | None \<Rightarrow> org)"

text \<open>
  The components after the top-level site: an optional ancestor marker, then an optional
  nonce, then nothing.
\<close>

definition take_cross_site :: "string list \<Rightarrow> bool \<times> string list" where
  "take_cross_site cs =
     (case cs of c # rest \<Rightarrow> if c = ''cross-site-ancestor=1'' then (True, rest) else (False, cs)
      | [] \<Rightarrow> (False, []))"

definition take_nonce :: "string list \<Rightarrow> (u64 option \<times> string list) option" where
  "take_nonce cs =
     (case cs of
        [] \<Rightarrow> Some (None, [])
      | c # rest \<Rightarrow>
          Option.bind (strip_prefix ''opaque-nonce='' c)
            (\<lambda>n. map_option (\<lambda>v. (Some (word_of_nat v), rest)) (parse_u64 n)))"

definition deserialize_serialized_storage_key ::
  "(string \<Rightarrow> 'url option) \<Rightarrow> ('url \<Rightarrow> string) \<Rightarrow> string \<Rightarrow> moli_storage_key option" where
  "deserialize_serialized_storage_key parse site_for_url v =
     Option.bind (strip_prefix storage_key_serialization_prefix v) (\<lambda>rest.
     Option.bind (split_once '';top-level-site='' rest) (\<lambda>(org, rest).
     case split_on CHR '';'' rest of
       [] \<Rightarrow> None
     | site # components \<Rightarrow>
         let (cross, components) = take_cross_site components in
         Option.bind (take_nonce components) (\<lambda>(nonce, components).
         if components \<noteq> [] then None
         else
           let rel = from_sites (site_for_serialized_origin parse site_for_url org) site;
               key = key_new org site nonce rel in
           Some (if cross then with_cross_site_ancestor key else key))))"


subsection \<open>Round trip\<close>

text \<open>
  A key whose origin and site do not contain the separator.  Its ancestor marker is written out only when
  the relation does not imply it.
\<close>

definition separable :: "moli_storage_key \<Rightarrow> bool" where
  "separable k \<longleftrightarrow> CHR '';'' \<notin> set (origin k) \<and> CHR '';'' \<notin> set (top_level_site k)"

definition marked :: "moli_storage_key \<Rightarrow> bool" where
  "marked k \<longleftrightarrow> cross_site_ancestor k \<and> \<not> is_third_party (partition_relation k)"

text \<open>The relation that a reader of the serialization computes from the two sites.\<close>

definition read_relation :: "(string \<Rightarrow> 'url option) \<Rightarrow> ('url \<Rightarrow> string) \<Rightarrow> moli_storage_key \<Rightarrow> storage_partition_relation" where
  "read_relation parse site_for_url k =
     from_sites (site_for_serialized_origin parse site_for_url (origin k)) (top_level_site k)"

text \<open>
  The keys that are restored: the relation is the one that the sites determine, and a third-party key
  carries the marker.  The constructor makes such a key of a URL whose site is the site of its serialized origin.
\<close>

definition restored :: "(string \<Rightarrow> 'url option) \<Rightarrow> ('url \<Rightarrow> string) \<Rightarrow> moli_storage_key \<Rightarrow> bool" where
  "restored parse site_for_url k \<longleftrightarrow>
     partition_relation k = read_relation parse site_for_url k \<and>
     (is_third_party (partition_relation k) \<longrightarrow> cross_site_ancestor k)"

lemma from_url_restored:
  assumes "site_for_serialized_origin parse site_for_url (origin_of url) = site_for_url url"
  shows "restored parse site_for_url (from_url_and_top_level_site origin_of site_for_url url site nonce)"
  using assms by (simp add: restored_def read_relation_def from_url_and_top_level_site_def key_new_def)

lemma split_suffix:
  assumes "CHR '';'' \<notin> set site"
  shows "split_on CHR '';'' (site @ (if c then '';cross-site-ancestor=1'' else []) @
      (case nonce of None \<Rightarrow> [] | Some n \<Rightarrow> '';opaque-nonce='' @ show_nat (unat n))) =
    site # (if c then [''cross-site-ancestor=1''] else []) @
      (case nonce of None \<Rightarrow> [] | Some n \<Rightarrow> [''opaque-nonce='' @ show_nat (unat n)])"
proof -
  have num: "split_on CHR '';'' (show_nat k) = [show_nat k]" for k
    using show_nat_notin [of "CHR '';''" k] by (intro split_on_none) simp
  show ?thesis
    using assms by (cases c; cases nonce) (simp_all add: num)
qed

lemma take_components:
  "take_cross_site ((if c then [''cross-site-ancestor=1''] else []) @
      (case nonce of None \<Rightarrow> [] | Some n \<Rightarrow> [''opaque-nonce='' @ show_nat (unat n)])) =
    (c, case nonce of None \<Rightarrow> [] | Some n \<Rightarrow> [''opaque-nonce='' @ show_nat (unat n)])"
  by (cases c; cases nonce) (simp_all add: take_cross_site_def)

lemma take_nonce_shown:
  "take_nonce (case nonce of None \<Rightarrow> [] | Some n \<Rightarrow> [''opaque-nonce='' @ show_nat (unat n)]) = Some (nonce, [])"
proof (cases nonce)
  case (Some n)
  have "unat n \<le> u64_max" using unsigned_less [of n, where 'a = nat] by (simp add: u64_max_eq)
  with Some show ?thesis by (simp add: take_nonce_def)
qed (simp add: take_nonce_def)

lemma serialized_split:
  "serialized_storage_key k = storage_key_serialization_prefix @ origin k @ '';top-level-site='' @
     (top_level_site k @
      (if cross_site_ancestor k \<and> \<not> is_third_party (partition_relation k) then '';cross-site-ancestor=1'' else []) @
      (case opaque_nonce k of None \<Rightarrow> [] | Some n \<Rightarrow> '';opaque-nonce='' @ show_nat (unat n)))"
  by (simp add: serialized_storage_key_def storage_key_for_origin_and_top_level_site_def)

lemma serialized_read:
  assumes "separable k"
  shows "deserialize_serialized_storage_key parse site_for_url (serialized_storage_key k) =
    Some (k\<lparr>partition_relation := read_relation parse site_for_url k,
      cross_site_ancestor := is_third_party (read_relation parse site_for_url k) \<or> marked k\<rparr>)"
proof -
  have org: "CHR '';'' \<notin> set (origin k)" and site: "CHR '';'' \<notin> set (top_level_site k)"
    using assms by (simp_all add: separable_def)
  show ?thesis
    unfolding serialized_split deserialize_serialized_storage_key_def strip_prefix_append
      bind.bind_lunit split_once_found [OF org] prod.case split_suffix [OF site] list.case
    by (cases k) (auto simp: Let_def take_components take_nonce_shown key_new_def with_cross_site_ancestor_def
        read_relation_def marked_def)
qed

lemma serialized_equal:
  assumes "separable k" "separable k'"
  shows "serialized_storage_key k' = serialized_storage_key k \<longleftrightarrow>
    (origin k', top_level_site k', opaque_nonce k', marked k') = (origin k, top_level_site k, opaque_nonce k, marked k)"
proof
  let ?suffix = "\<lambda>k. top_level_site k @ (if cross_site_ancestor k \<and> \<not> is_third_party (partition_relation k)
      then '';cross-site-ancestor=1'' else []) @
    (case opaque_nonce k of None \<Rightarrow> [] | Some n \<Rightarrow> '';opaque-nonce='' @ show_nat (unat n))"
  let ?nonce = "\<lambda>k. case opaque_nonce k of None \<Rightarrow> [] | Some n \<Rightarrow> [''opaque-nonce='' @ show_nat (unat n)]"
  let ?mark = "\<lambda>k. if cross_site_ancestor k \<and> \<not> is_third_party (partition_relation k) then [''cross-site-ancestor=1''] else []"
  assume "serialized_storage_key k' = serialized_storage_key k"
  then have eq: "origin k' @ '';top-level-site='' @ ?suffix k' = origin k @ '';top-level-site='' @ ?suffix k"
    unfolding serialized_split append_assoc same_append_eq .
  have split: "split_once '';top-level-site='' (origin k @ '';top-level-site='' @ ?suffix k) = Some (origin k, ?suffix k)"
    and parts: "split_on CHR '';'' (?suffix k) = top_level_site k # ?mark k @ ?nonce k" if "separable k" for k
    using that by (auto simp only: separable_def intro!: split_once_found split_suffix)
  from arg_cong [OF eq, of "split_once '';top-level-site=''"] have o: "origin k' = origin k" and "?suffix k' = ?suffix k"
    unfolding split [OF assms(1)] split [OF assms(2)] by (simp_all only: option.inject prod.inject)
  from arg_cong [OF this(2), of "split_on CHR '';''"] have site: "top_level_site k' = top_level_site k"
    and rest: "?mark k' @ ?nonce k' = ?mark k @ ?nonce k"
    unfolding parts [OF assms(1)] parts [OF assms(2)] by (simp_all only: list.inject)
  from arg_cong [OF rest, of take_cross_site] have m: "marked k' = marked k" and n: "?nonce k' = ?nonce k"
    unfolding take_components marked_def by (simp_all only: prod.inject)
  from arg_cong [OF n, of take_nonce] have "opaque_nonce k' = opaque_nonce k"
    unfolding take_nonce_shown by (simp only: option.inject prod.inject)
  with o site m show "(origin k', top_level_site k', opaque_nonce k', marked k') = (origin k, top_level_site k, opaque_nonce k, marked k)"
    by simp
qed (simp add: serialized_split marked_def)

lemma serialized_prefix:
  assumes "separable k" and o: "CHR '';'' \<notin> set org"
  shows "prefix (storage_key_prefix_for_origin org) (serialized_storage_key k) \<longleftrightarrow> org = origin k"
proof
  have org: "CHR '';'' \<notin> set (origin k)" using assms(1) by (simp add: separable_def)
  assume "prefix (storage_key_prefix_for_origin org) (serialized_storage_key k)"
  then obtain rest where "serialized_storage_key k = storage_key_prefix_for_origin org @ rest"
    by (auto simp: prefix_def)
  then have eq: "org @ '';top-level-site='' @ rest = origin k @ '';top-level-site='' @
      (top_level_site k @
       (if cross_site_ancestor k \<and> \<not> is_third_party (partition_relation k) then '';cross-site-ancestor=1'' else []) @
       (case opaque_nonce k of None \<Rightarrow> [] | Some n \<Rightarrow> '';opaque-nonce='' @ show_nat (unat n)))"
    (is "_ = _ @ _ @ ?rest'")
    unfolding serialized_split storage_key_prefix_for_origin_def append_assoc same_append_eq by (rule sym)
  have "Some (org, rest) = Some (origin k, ?rest')"
    using arg_cong [OF eq, of "split_once '';top-level-site=''"]
    unfolding split_once_found [OF o] split_once_found [OF org] .
  then show "org = origin k" by (simp only: option.inject prod.inject)
qed (simp add: serialized_split storage_key_prefix_for_origin_def)

text \<open>C23: The serialization of a storage key whose origin and top-level site contain no semicolon is read back with the same
  origin, site and nonce.  The relation is computed anew from the two sites, and the ancestor marker is
  set if that relation is third-party or the marker was written.  So the key itself comes back exactly
  if its relation is the one of its sites and, being third-party, it carries the marker; a key
  whose relation is unknown comes back with a known one.  Two such keys share a partition exactly if they
  have the same origin, site, nonce and written marker, and the serialization
  starts with the prefix of an origin exactly if it is the key's own.\<close>

theorem storage_key_round_trip:
  assumes "separable k"
  shows "deserialize_serialized_storage_key parse site_for_url (serialized_storage_key k) =
      Some (k\<lparr>partition_relation := read_relation parse site_for_url k,
        cross_site_ancestor := is_third_party (read_relation parse site_for_url k) \<or> marked k\<rparr>)
    \<and> (deserialize_serialized_storage_key parse site_for_url (serialized_storage_key k) = Some k
         \<longleftrightarrow> restored parse site_for_url k)
    \<and> (separable k' \<longrightarrow>
         (serialized_storage_key k' = serialized_storage_key k \<longleftrightarrow>
           (origin k', top_level_site k', opaque_nonce k', marked k') = (origin k, top_level_site k, opaque_nonce k, marked k)))
    \<and> (CHR '';'' \<notin> set org \<longrightarrow>
         (prefix (storage_key_prefix_for_origin org) (serialized_storage_key k) \<longleftrightarrow> org = origin k))"
proof -
  have "k\<lparr>partition_relation := r, cross_site_ancestor := c\<rparr> = k \<longleftrightarrow> r = partition_relation k \<and> c = cross_site_ancestor k" for r c
    by (cases k) auto
  then show ?thesis
    using serialized_read [OF assms] serialized_equal [OF assms] serialized_prefix [OF assms]
    by (auto simp: restored_def marked_def)
qed

definition example_site :: "string \<Rightarrow> string option" where
  "example_site s = (if s = ''https://a.b.c'' then Some ''u'' else None)"

definition example_storage_key :: "storage_partition_relation \<Rightarrow> moli_storage_key" where
  "example_storage_key rel = \<lparr>origin = ''https://a.b.c'', top_level_site = ''https://b.c'',
     opaque_nonce = Some 42, partition_relation = rel, cross_site_ancestor = True\<rparr>"

theorem storage_key_round_trip_witness:
  "deserialize_serialized_storage_key example_site (\<lambda>_. ''https://b.c'') (serialized_storage_key (example_storage_key FirstParty))
     = Some (example_storage_key FirstParty)
   \<and> deserialize_serialized_storage_key example_site (\<lambda>_. ''https://b.c'') (serialized_storage_key (example_storage_key Unknown))
     = Some (example_storage_key FirstParty)"
proof -
  have "separable (example_storage_key rel)" for rel by (simp add: separable_def example_storage_key_def)
  note r = storage_key_round_trip [OF this, THEN conjunct1, of example_site "\<lambda>_. ''https://b.c''"]
  show ?thesis
    unfolding r by (simp add: example_storage_key_def read_relation_def marked_def example_site_def
        site_for_serialized_origin_def from_sites_def is_third_party_def)
qed

end
