(* ===== verification/Broadcast_Channel.thy ===== *)
theory Broadcast_Channel
  imports Storage_Key
begin

section \<open>Broadcast channels (moli-broadcast-channel)\<close>

text \<open>
  \<^verbatim>\<open>BroadcastChannelRegistry\<close> of \<^verbatim>\<open>moli-broadcast-channel/src/registry.rs\<close>.  The ordered map
  of channels is a sorted association list, so that the order in which a post reports its
  targets is the order of their ids.  The wake operation is the caller's: an argument.
\<close>

type_synonym broadcast_channel_id = u64

datatype 'p broadcast_channel_event = ChannelMessage 'p

record ('p, 'o) broadcast_channel_state =
  storage_key :: moli_storage_key
  channel_name :: string
  channel_owner :: 'o
  pending_events :: "'p broadcast_channel_event list"

record ('p, 'o) broadcast_channel_registry =
  channels :: "(broadcast_channel_id, ('p, 'o) broadcast_channel_state) btree_map"
  next_channel_id :: u64
  next_opaque_context_nonce_counter :: u64

definition broadcast_default :: "('p, 'o) broadcast_channel_registry" where
  "broadcast_default = \<lparr>channels = [], next_channel_id = 0, next_opaque_context_nonce_counter = 0\<rparr>"

definition next_broadcast_channel_id ::
  "('p, 'o) broadcast_channel_registry \<Rightarrow> broadcast_channel_id \<times> ('p, 'o) broadcast_channel_registry" where
  "next_broadcast_channel_id r =
     (saturating_succ (next_channel_id r), r\<lparr>next_channel_id := next_channel_id r + 1\<rparr>)"

definition create_broadcast_channel ::
  "moli_storage_key \<Rightarrow> string \<Rightarrow> 'o \<Rightarrow> ('p, 'o) broadcast_channel_registry \<Rightarrow>
   broadcast_channel_id \<times> ('p, 'o) broadcast_channel_registry" where
  "create_broadcast_channel key nm ow r =
     (let (channel_id, r1) = next_broadcast_channel_id r in
      (channel_id, r1\<lparr>channels := bt_insert channel_id
         \<lparr>storage_key = key, channel_name = nm, channel_owner = ow, pending_events = []\<rparr> (channels r1)\<rparr>))"

definition next_opaque_context_nonce ::
  "('p, 'o) broadcast_channel_registry \<Rightarrow> u64 \<times> ('p, 'o) broadcast_channel_registry" where
  "next_opaque_context_nonce r =
     (saturating_succ (next_opaque_context_nonce_counter r),
      r\<lparr>next_opaque_context_nonce_counter := next_opaque_context_nonce_counter r + 1\<rparr>)"

definition close_broadcast_channel ::
  "broadcast_channel_id \<Rightarrow> ('p, 'o) broadcast_channel_registry \<Rightarrow> ('p, 'o) broadcast_channel_registry" where
  "close_broadcast_channel channel_id r = r\<lparr>channels := bt_remove channel_id (channels r)\<rparr>"

definition take_pending_broadcast_channel_event ::
  "broadcast_channel_id \<Rightarrow> ('p, 'o) broadcast_channel_registry \<Rightarrow>
   'p broadcast_channel_event option \<times> ('p, 'o) broadcast_channel_registry" where
  "take_pending_broadcast_channel_event channel_id r =
     (case map_of (channels r) channel_id of
        None \<Rightarrow> (None, r)
      | Some st \<Rightarrow>
          (case pending_events st of
             [] \<Rightarrow> (None, r)
           | e # es \<Rightarrow>
               (Some e, r\<lparr>channels := bt_insert channel_id (st\<lparr>pending_events := es\<rparr>) (channels r)\<rparr>)))"

definition broadcast_channel_origin ::
  "broadcast_channel_id \<Rightarrow> ('p, 'o) broadcast_channel_registry \<Rightarrow> string option" where
  "broadcast_channel_origin channel_id r =
     map_option (\<lambda>st. origin (storage_key st)) (map_of (channels r) channel_id)"

definition wake_broadcast_channel_if_pending ::
  "('o \<Rightarrow> broadcast_channel_id \<Rightarrow> bool) \<Rightarrow> broadcast_channel_id \<Rightarrow>
   ('p, 'o) broadcast_channel_registry \<Rightarrow> bool \<times> ('p, 'o) broadcast_channel_registry" where
  "wake_broadcast_channel_if_pending wake channel_id r =
     (case map_of (channels r) channel_id of
        None \<Rightarrow> (False, r)
      | Some st \<Rightarrow>
          if pending_events st = [] then (True, r)
          else if wake (channel_owner st) channel_id then (True, r)
          else (False, r\<lparr>channels := bt_remove channel_id (channels r)\<rparr>))"

text \<open>The filter of \<^verbatim>\<open>post_broadcast_channel_message\<close> and its loop over the channels.\<close>

definition is_target ::
  "broadcast_channel_id \<Rightarrow> moli_storage_key \<Rightarrow> string \<Rightarrow>
   broadcast_channel_id \<times> ('p, 'o) broadcast_channel_state \<Rightarrow> bool" where
  "is_target source_id key nm c \<longleftrightarrow>
     fst c \<noteq> source_id \<and> storage_key (snd c) = key \<and> channel_name (snd c) = nm"

definition post_broadcast_channel_message ::
  "broadcast_channel_id \<Rightarrow> 'p \<Rightarrow> ('p, 'o) broadcast_channel_registry \<Rightarrow>
   broadcast_channel_id list \<times> ('p, 'o) broadcast_channel_registry" where
  "post_broadcast_channel_message source_id payload r =
     (case map_of (channels r) source_id of
        None \<Rightarrow> ([], r)
      | Some source \<Rightarrow>
          let target = is_target source_id (storage_key source) (channel_name source) in
          (map fst (filter target (channels r)),
           r\<lparr>channels := map (\<lambda>c. if target c
              then (fst c, (snd c)\<lparr>pending_events := pending_events (snd c) @ [ChannelMessage payload]\<rparr>)
              else c) (channels r)\<rparr>))"


subsection \<open>Runs of registry operations\<close>

datatype ('p, 'o) channel_op =
    CreateChannel moli_storage_key string 'o | NewNonce | CloseChannel broadcast_channel_id
  | TakeEvent broadcast_channel_id | Wake "'o \<Rightarrow> broadcast_channel_id \<Rightarrow> bool" broadcast_channel_id
  | Post broadcast_channel_id 'p

fun channel_step :: "('p, 'o) channel_op \<Rightarrow> ('p, 'o) broadcast_channel_registry \<Rightarrow> ('p, 'o) broadcast_channel_registry" where
  "channel_step (CreateChannel key nm ow) r = snd (create_broadcast_channel key nm ow r)"
| "channel_step NewNonce r = snd (next_opaque_context_nonce r)"
| "channel_step (CloseChannel c) r = close_broadcast_channel c r"
| "channel_step (TakeEvent c) r = snd (take_pending_broadcast_channel_event c r)"
| "channel_step (Wake w c) r = snd (wake_broadcast_channel_if_pending w c r)"
| "channel_step (Post c m) r = snd (post_broadcast_channel_message c m r)"

fun channel_sent ::
  "broadcast_channel_id \<Rightarrow> ('p, 'o) channel_op \<Rightarrow> ('p, 'o) broadcast_channel_registry \<Rightarrow> 'p broadcast_channel_event list" where
  "channel_sent k (Post c m) r =
     (if k \<in> set (fst (post_broadcast_channel_message c m r)) then [ChannelMessage m] else [])"
| "channel_sent k _ r = []"

fun channel_taken ::
  "broadcast_channel_id \<Rightarrow> ('p, 'o) channel_op \<Rightarrow> ('p, 'o) broadcast_channel_registry \<Rightarrow> 'p broadcast_channel_event list" where
  "channel_taken k (TakeEvent c) r =
     (if c = k then (case fst (take_pending_broadcast_channel_event c r) of None \<Rightarrow> [] | Some e \<Rightarrow> [e]) else [])"
| "channel_taken k _ r = []"

definition channel_queue ::
  "broadcast_channel_id \<Rightarrow> ('p, 'o) broadcast_channel_registry \<Rightarrow> 'p broadcast_channel_event list option" where
  "channel_queue k r = map_option pending_events (map_of (channels r) k)"

definition channel_fresh :: "broadcast_channel_id \<Rightarrow> ('p, 'o) broadcast_channel_registry \<Rightarrow> bool" where
  "channel_fresh k r \<longleftrightarrow> unat (next_channel_id r) < unat k"

definition channel_inv :: "('p, 'o) broadcast_channel_registry \<Rightarrow> bool" where
  "channel_inv r \<longleftrightarrow>
     bt_sorted (channels r) \<and> (\<forall>k \<in> set (bt_keys (channels r)). unat k \<le> unat (next_channel_id r))"

definition channel_budget :: "nat \<Rightarrow> ('p, 'o) broadcast_channel_registry \<Rightarrow> bool" where
  "channel_budget n r \<longleftrightarrow> channel_inv r \<and> unat (next_channel_id r) + n < 2 ^ 64"


subsection \<open>The registry is a mailbox\<close>

lemma map_of_post:
  "map_of (map (\<lambda>c. if P c then (fst c, g c) else c) xs) k =
   map_option (\<lambda>st. if P (k, st) then g (k, st) else st) (map_of xs k)"
  by (induction xs) auto

lemma keys_post: "map fst (map (\<lambda>c. if P c then (fst c, g c) else c) xs) = map fst xs"
  by (induction xs) auto

lemma target_mem:
  "bt_sorted m \<Longrightarrow> k \<in> set (map fst (filter P m)) \<longleftrightarrow> (\<exists>st. map_of m k = Some st \<and> P (k, st))"
  by (auto simp: bt_get_mem intro: rev_image_eqI)

lemma key_present: "map_of m k = Some v \<Longrightarrow> k \<in> fst ` set m"
  by (metis domI dom_map_of_conv_image_fst)

lemma bt_keys_insert: "fst ` set (bt_insert k v m) = insert k (fst ` set m)"
  using dom_map_of_conv_image_fst [of "bt_insert k v m"] dom_map_of_conv_image_fst [of m]
  by (simp add: bt_get_insert)

lemmas channel_op_defs = create_broadcast_channel_def next_broadcast_channel_id_def
  next_opaque_context_nonce_def close_broadcast_channel_def take_pending_broadcast_channel_event_def
  wake_broadcast_channel_if_pending_def post_broadcast_channel_message_def

lemma channel_inv_iff:
  "channel_inv r \<longleftrightarrow> bt_sorted (channels r) \<and> (\<forall>k \<in> fst ` set (channels r). unat k \<le> unat (next_channel_id r))"
  by (simp add: channel_inv_def)

lemma channel_inv_new:
  assumes "channel_inv r" "unat (next_channel_id r) + 1 < 2 ^ 64"
  shows "channel_inv (snd (create_broadcast_channel key nm ow r))"
proof -
  have "\<forall>k \<in> fst ` set (channels r). unat k \<le> unat (next_channel_id r) + 1"
    using assms(1) unfolding channel_inv_iff by (auto intro: le_SucI)
  then show ?thesis
    using assms(1) unat_succ [OF assms(2)] unat_saturating_succ [OF assms(2)]
    unfolding channel_inv_iff
    by (simp add: create_broadcast_channel_def next_broadcast_channel_id_def bt_keys_insert)
qed

lemma channel_inv_touch:
  "channel_inv r \<Longrightarrow> map_of (channels r) k = Some st \<Longrightarrow> channel_inv (r\<lparr>channels := bt_insert k st' (channels r)\<rparr>)"
  using key_present [of "channels r" k st]
  unfolding channel_inv_iff by (simp add: bt_keys_insert insert_absorb)

lemma channel_inv_remove: "channel_inv r \<Longrightarrow> channel_inv (r\<lparr>channels := bt_remove k (channels r)\<rparr>)"
  by (auto simp: channel_inv_def dest: subsetD [OF set_bt_remove_subset])

lemma post_keys:
  "bt_keys (channels (snd (post_broadcast_channel_message c m r))) = bt_keys (channels r)"
  "next_channel_id (snd (post_broadcast_channel_message c m r)) = next_channel_id r"
  by (auto simp: post_broadcast_channel_message_def Let_def keys_post simp del: map_map split: option.splits)

lemma channel_inv_post: "channel_inv r \<Longrightarrow> channel_inv (snd (post_broadcast_channel_message c m r))"
  unfolding channel_inv_def bt_sorted_def post_keys .

lemma channel_step_inv:
  assumes "channel_inv r" "unat (next_channel_id r) + 1 < 2 ^ 64"
  shows "channel_inv (channel_step x r)"
proof (cases x)
  case (CreateChannel key nm ow)
  then show ?thesis using channel_inv_new [OF assms] by simp
next
  case (Post c m)
  then show ?thesis using channel_inv_post [OF assms(1)] by simp
next
  case NewNonce
  then show ?thesis using assms(1) by (simp add: next_opaque_context_nonce_def channel_inv_def)
qed (use assms in \<open>auto simp: channel_op_defs intro: channel_inv_touch channel_inv_remove
    split: option.splits list.splits\<close>)

lemma channel_step_next:
  assumes "unat (next_channel_id r) + 1 < 2 ^ 64"
  shows "unat (next_channel_id r) \<le> unat (next_channel_id (channel_step x r)) \<and>
    unat (next_channel_id (channel_step x r)) \<le> unat (next_channel_id r) + 1"
  using unat_succ [OF assms]
  by (cases x) (auto simp: channel_op_defs Let_def split: option.splits list.splits)

lemma post_lookup:
  "map_of (channels (snd (post_broadcast_channel_message c m r))) k =
   (case map_of (channels r) c of
      None \<Rightarrow> map_of (channels r) k
    | Some source \<Rightarrow> map_option (\<lambda>st. if is_target c (storage_key source) (channel_name source) (k, st)
        then st\<lparr>pending_events := pending_events st @ [ChannelMessage m]\<rparr> else st) (map_of (channels r) k))"
  by (cases "map_of (channels r) k")
    (simp_all add: post_broadcast_channel_message_def Let_def map_of_post split: option.split)

lemma post_targets:
  assumes "channel_inv r" "map_of (channels r) c = Some source"
  shows "k \<in> set (fst (post_broadcast_channel_message c m r)) \<longleftrightarrow>
    (\<exists>st. map_of (channels r) k = Some st \<and> k \<noteq> c \<and> storage_key st = storage_key source \<and>
       channel_name st = channel_name source)"
  using assms target_mem [of "channels r" k "is_target c (storage_key source) (channel_name source)"]
  unfolding channel_inv_def post_broadcast_channel_message_def
  by (simp add: Let_def is_target_def del: list.set_map)

lemma channel_queue_post:
  assumes "channel_inv r" "channel_queue k (snd (post_broadcast_channel_message c m r)) = Some q"
  shows "queued (channel_queue k r) @
    (if k \<in> set (fst (post_broadcast_channel_message c m r)) then [ChannelMessage m] else []) = q"
proof (cases "map_of (channels r) c")
  case None
  with assms(2) show ?thesis by (auto simp: channel_queue_def post_broadcast_channel_message_def)
next
  case (Some source)
  with assms(2) show ?thesis
    unfolding post_targets [OF assms(1) Some]
    by (cases "map_of (channels r) k") (auto simp: channel_queue_def post_lookup is_target_def)
qed

lemma channel_queue_step:
  assumes "channel_inv r" "unat (next_channel_id r) + 1 < 2 ^ 64"
    and "channel_queue k (channel_step x r) = Some q"
  shows "queued (channel_queue k r) @ channel_sent k x r = channel_taken k x r @ q"
proof (cases x)
  case (Post c m)
  with channel_queue_post [OF assms(1)] assms(3) show ?thesis by simp
next
  case (CreateChannel key nm ow)
  have "map_of (channels r) (saturating_succ (next_channel_id r)) = None"
    using assms(1) unat_saturating_succ [OF assms(2)] key_present [of "channels r"]
    unfolding channel_inv_iff by (metis Suc_n_not_le_n Suc_eq_plus1 not_None_eq)
  with CreateChannel assms(3) show ?thesis
    by (auto simp: channel_op_defs channel_queue_def bt_get_insert split: if_splits)
qed (use assms in \<open>auto simp: channel_op_defs channel_queue_def channel_inv_def bt_get_insert bt_get_remove
    split: option.splits list.splits if_splits\<close>)

lemma channel_queue_gone:
  assumes "channel_inv r" "unat (next_channel_id r) + 1 < 2 ^ 64"
    and "channel_queue k r = None" "\<not> channel_fresh k r"
  shows "channel_queue k (channel_step x r) = None"
proof (cases x)
  case (CreateChannel key nm ow)
  have "k \<noteq> saturating_succ (next_channel_id r)"
    using assms(4) unat_saturating_succ [OF assms(2)] by (auto simp: channel_fresh_def)
  with CreateChannel assms(3) show ?thesis
    by (simp add: channel_op_defs channel_queue_def bt_get_insert)
next
  case (Post c m)
  with assms(3) show ?thesis by (simp add: channel_queue_def post_lookup split: option.splits)
qed (use assms in \<open>auto simp: channel_op_defs channel_queue_def channel_inv_def bt_get_insert bt_get_remove
    split: option.splits list.splits if_splits\<close>)

lemma channel_fresh_silent:
  assumes "channel_inv r" "channel_fresh k r"
  shows "channel_queue k r = None \<and> channel_sent k x r = [] \<and> channel_taken k x r = []"
proof -
  have none: "map_of (channels r) k = None"
    using assms key_present [of "channels r" k] unfolding channel_inv_iff channel_fresh_def
    by (metis not_None_eq not_less)
  have "k \<notin> set (fst (post_broadcast_channel_message c m r))" for c m
    using post_targets [OF assms(1), of c _ k m] none
    by (cases "map_of (channels r) c") (auto simp: post_broadcast_channel_message_def)
  with none show ?thesis
    by (cases x) (auto simp: take_pending_broadcast_channel_event_def channel_queue_def)
qed

interpretation channel_mail: mailbox_system channel_step channel_budget channel_queue channel_sent
  channel_taken channel_fresh
proof
  fix n :: nat and r :: "('p, 'o) broadcast_channel_registry" and x k q
  assume b: "channel_budget (Suc n) r"
  then have i: "channel_inv r" "unat (next_channel_id r) + 1 < 2 ^ 64" by (auto simp: channel_budget_def)
  show "channel_budget n (channel_step x r)"
    using b channel_step_inv [OF i, of x] channel_step_next [OF i(2), of x] by (simp add: channel_budget_def)
  show "queued (channel_queue k r) @ channel_sent k x r = channel_taken k x r @ q"
    if "channel_queue k (channel_step x r) = Some q"
    by (rule channel_queue_step [OF i that])
  show "channel_queue k (channel_step x r) = None" if "channel_queue k r = None" "\<not> channel_fresh k r"
    by (rule channel_queue_gone [OF i that])
  show "channel_fresh k r" if "channel_fresh k (channel_step x r)"
    using that channel_step_next [OF i(2), of x] by (simp add: channel_fresh_def)
  show "channel_queue k r = None \<and> channel_sent k x r = [] \<and> channel_taken k x r = []"
    if "channel_fresh k r"
    by (rule channel_fresh_silent [OF i(1) that])
qed

lemma broadcast_default_budget: "n < 2 ^ 64 \<Longrightarrow> channel_budget n broadcast_default"
  by (simp add: channel_budget_def channel_inv_def broadcast_default_def)

lemma channel_queue_default: "channel_queue k broadcast_default = None"
  by (simp add: channel_queue_def broadcast_default_def)

lemma channel_run_inv: "length ops < 2 ^ 64 \<Longrightarrow> channel_inv (fold channel_step ops broadcast_default)"
  using channel_mail.fold_inv [of ops 0, OF broadcast_default_budget] by (simp add: channel_budget_def)


subsection \<open>The registry's promises\<close>

text \<open>A post reaches exactly the other live channels with the sender's storage key and name:
  their ids are reported in ascending order without repetition, each of them has the
  message appended to its queue once, and no other channel changes.\<close>

lemma broadcast_post_routing:
  assumes "length ops < 2 ^ 64"
    and "map_of (channels (fold channel_step ops broadcast_default)) c = Some source"
    and "post_broadcast_channel_message c m (fold channel_step ops broadcast_default) = (ids, r')"
  shows "sorted_wrt (<) ids \<and>
    (\<forall>k st. map_of (channels (fold channel_step ops broadcast_default)) k = Some st \<longrightarrow>
       (if k \<noteq> c \<and> storage_key st = storage_key source \<and> channel_name st = channel_name source
        then k \<in> set ids \<and> map_of (channels r') k =
          Some (st\<lparr>pending_events := pending_events st @ [ChannelMessage m]\<rparr>)
        else k \<notin> set ids \<and> map_of (channels r') k = Some st)) \<and>
    dom (map_of (channels r')) = dom (map_of (channels (fold channel_step ops broadcast_default)))"
proof -
  let ?r = "fold channel_step ops broadcast_default"
  have inv: "channel_inv ?r" by (rule channel_run_inv [OF assms(1)])
  have ids: "ids = fst (post_broadcast_channel_message c m ?r)"
    and r': "r' = snd (post_broadcast_channel_message c m ?r)" using assms(3) by simp_all
  have "sorted_wrt (<) ids"
    using inv assms(2) unfolding ids
    by (auto simp: channel_inv_def bt_sorted_def post_broadcast_channel_message_def Let_def
        sorted_wrt_map intro: sorted_wrt_filter)
  moreover have "dom (map_of (channels r')) = dom (map_of (channels ?r))"
    using assms(2) unfolding r' by (auto simp: post_lookup dom_def)
  moreover have "if k \<noteq> c \<and> storage_key st = storage_key source \<and> channel_name st = channel_name source
      then k \<in> set ids \<and> map_of (channels r') k =
        Some (st\<lparr>pending_events := pending_events st @ [ChannelMessage m]\<rparr>)
      else k \<notin> set ids \<and> map_of (channels r') k = Some st"
    if "map_of (channels ?r) k = Some st" for k st
    using that assms(2) post_targets [OF inv assms(2), of k m] unfolding ids r'
    by (simp add: post_lookup is_target_def)
  ultimately show ?thesis by blast
qed

definition example_key :: "string \<Rightarrow> moli_storage_key" where
  "example_key s = key_new s s None FirstParty"

lemma broadcast_post_routing_example:
  "\<exists>ids r'. post_broadcast_channel_message 2 (7 :: nat) (fold channel_step
     [CreateChannel (example_key ''a'') ''n'' (0 :: nat), CreateChannel (example_key ''a'') ''n'' 1,
      CreateChannel (example_key ''b'') ''n'' 2, CreateChannel (example_key ''a'') ''n'' 3] broadcast_default) = (ids, r') \<and>
    sorted_wrt (<) ids \<and> 1 \<in> set ids \<and> 2 \<notin> set ids \<and> 3 \<notin> set ids"
proof -
  let ?r = "fold channel_step
     [CreateChannel (example_key ''a'') ''n'' (0 :: nat), CreateChannel (example_key ''a'') ''n'' 1,
      CreateChannel (example_key ''b'') ''n'' 2, CreateChannel (example_key ''a'') ''n'' 3]
      (broadcast_default :: (nat, nat) broadcast_channel_registry)"
  obtain ids r' where p: "post_broadcast_channel_message 2 (7 :: nat) ?r = (ids, r')" by fastforce
  have ch: "map_of (channels ?r) 1 = Some \<lparr>storage_key = example_key ''a'', channel_name = ''n'', channel_owner = 0, pending_events = []\<rparr>"
    "map_of (channels ?r) 2 = Some \<lparr>storage_key = example_key ''a'', channel_name = ''n'', channel_owner = 1, pending_events = []\<rparr>"
    "map_of (channels ?r) 3 = Some \<lparr>storage_key = example_key ''b'', channel_name = ''n'', channel_owner = 2, pending_events = []\<rparr>"
    by code_simp+
  have ne: "example_key ''b'' \<noteq> example_key ''a''" by code_simp
  have len: "length [CreateChannel (example_key ''a'') ''n'' (0 :: nat), CreateChannel (example_key ''a'') ''n'' 1,
      CreateChannel (example_key ''b'') ''n'' 2, CreateChannel (example_key ''a'') ''n'' 3] < 2 ^ 64" by simp
  note post = broadcast_post_routing [OF len ch(2) p]
  have "1 \<in> set ids" using conjunct1 [OF conjunct2 [OF post], rule_format, OF ch(1)] by simp
  moreover have "2 \<notin> set ids" using conjunct1 [OF conjunct2 [OF post], rule_format, OF ch(2)] by simp
  moreover have "3 \<notin> set ids" using conjunct1 [OF conjunct2 [OF post], rule_format, OF ch(3)] ne by simp
  ultimately show ?thesis using p conjunct1 [OF post] by blast
qed

text \<open>Broadcast messages are neither lost, duplicated nor reordered: for every live channel,
  the events taken from it followed by those still pending are the ones posted to it since
  its creation, in order.  The bound on the number of operations is the one under which the
  64 bit id counter does not wrap.\<close>

lemma broadcast_fifo:
  assumes "length ops < 2 ^ 64"
    and "map_of (channels (fold channel_step ops broadcast_default)) k = Some st"
  shows "observe (channel_taken k) channel_step ops broadcast_default @ pending_events st =
    observe (channel_sent k) channel_step ops broadcast_default"
  using channel_mail.fifo [OF broadcast_default_budget [OF assms(1)], of k "pending_events st"] assms(2)
  by (simp add: channel_queue_def [of _ "fold channel_step ops broadcast_default"] channel_queue_default)

lemma broadcast_fifo_example:
  "observe (channel_taken 1) channel_step
     [CreateChannel (example_key ''a'') ''n'' (0 :: nat), CreateChannel (example_key ''a'') ''n'' 1,
      Post 2 (7 :: nat), Post 2 8, TakeEvent 1, CloseChannel 2] broadcast_default @ [ChannelMessage 8] =
   observe (channel_sent 1) channel_step
     [CreateChannel (example_key ''a'') ''n'' (0 :: nat), CreateChannel (example_key ''a'') ''n'' 1,
      Post 2 (7 :: nat), Post 2 8, TakeEvent 1, CloseChannel 2] broadcast_default"
proof -
  let ?ops = "[CreateChannel (example_key ''a'') ''n'' (0 :: nat), CreateChannel (example_key ''a'') ''n'' 1,
      Post 2 (7 :: nat), Post 2 8, TakeEvent 1, CloseChannel 2]"
  have "map_of (channels (fold channel_step ?ops broadcast_default)) 1 =
      Some \<lparr>storage_key = example_key ''a'', channel_name = ''n'', channel_owner = 0, pending_events = [ChannelMessage 8]\<rparr>"
    by code_simp
  from broadcast_fifo [OF _ this] show ?thesis by simp
qed

end
