(* ===== verification/Session_History.thy ===== *)
theory Session_History
  imports Text_Prelude
begin

section \<open>Joint session history (moli-session-history)\<close>

text \<open>
  \<^verbatim>\<open>JointSessionHistory\<close> of \<^verbatim>\<open>moli-session-history/src/{identity,entry,traversal,joint}.rs\<close>.
  The process-wide id counters are a record passed along; an exhausted counter, an index out
  of range and a search for descendants that does not end are all the value \<^const>\<open>None\<close>.
  Context, step and revision ids are the numbers the counters hand out; entry keys and
  document ids are the opaque tokens of the source.
\<close>


subsection \<open>Identities\<close>

record identity_counters =
  next_document :: nat
  next_entry_key :: nat
  next_context :: nat
  next_step :: nat
  next_revision :: nat

definition allocate :: "nat \<Rightarrow> (nat \<times> nat) option" where
  "allocate counter = map_option (Pair counter) (checked_add counter 1)"

definition allocate_navigation_history_document_id :: "nat \<Rightarrow> (string \<times> nat) option" where
  "allocate_navigation_history_document_id counter =
     map_option (\<lambda>n. (''document-'' @ show_nat counter, n)) (checked_add counter 1)"

definition allocate_navigation_history_entry_key :: "nat \<Rightarrow> (string \<times> nat) option" where
  "allocate_navigation_history_entry_key counter =
     map_option (\<lambda>n. (''key-'' @ show_nat counter, n)) (checked_add counter 1)"

definition allocate_step :: "identity_counters \<Rightarrow> (nat \<times> identity_counters) option" where
  "allocate_step ids = map_option (\<lambda>(i, n). (i, ids\<lparr>next_step := n\<rparr>)) (allocate (next_step ids))"

definition allocate_revision :: "identity_counters \<Rightarrow> (nat \<times> identity_counters) option" where
  "allocate_revision ids = map_option (\<lambda>(i, n). (i, ids\<lparr>next_revision := n\<rparr>)) (allocate (next_revision ids))"

definition allocate_context :: "identity_counters \<Rightarrow> (nat \<times> identity_counters) option" where
  "allocate_context ids = map_option (\<lambda>(i, n). (i, ids\<lparr>next_context := n\<rparr>)) (allocate (next_context ids))"


subsection \<open>The timeline\<close>

record session_history_position =
  pos_index :: nat
  pos_length :: nat

definition position_new :: "nat \<Rightarrow> nat \<Rightarrow> session_history_position option" where
  "position_new i n = (if i < n then Some \<lparr>pos_index = i, pos_length = n\<rparr> else None)"

record session_history_entry =
  entry_key :: string
  entry_document :: string

type_synonym history_entries = "(nat, session_history_entry) btree_map"

record session_history_step =
  step_id :: nat
  step_entries :: history_entries

record joint_session_history =
  revision :: nat
  steps :: "session_history_step list"
  current :: nat
  parents :: "(nat, nat) btree_map"

record session_history_context_change =
  change_context :: nat
  change_from :: "session_history_entry option"
  change_to :: "session_history_entry option"

record session_history_traversal_plan =
  plan_revision :: nat
  source_step :: nat
  target_step :: nat
  plan_delta :: int
  plan_changes :: "session_history_context_change list"
  target_entries :: history_entries

text \<open>\<^verbatim>\<open>steps[current]\<close> panics out of range.\<close>

definition current_of :: "joint_session_history \<Rightarrow> session_history_step option" where
  "current_of h = (if current h < length (steps h) then Some (steps h ! current h) else None)"

fun new_steps :: "nat \<Rightarrow> identity_counters \<Rightarrow> (session_history_step list \<times> identity_counters) option" where
  "new_steps 0 ids = Some ([], ids)"
| "new_steps (Suc n) ids =
     (case allocate_step ids of
        None \<Rightarrow> None
      | Some (i, ids1) \<Rightarrow>
          map_option (\<lambda>(ss, ids2). (\<lparr>step_id = i, step_entries = []\<rparr> # ss, ids2)) (new_steps n ids1))"

definition joint_new ::
  "session_history_position \<Rightarrow> identity_counters \<Rightarrow> (joint_session_history \<times> identity_counters) option" where
  "joint_new p ids =
     (case allocate_revision ids of
        None \<Rightarrow> None
      | Some (rv, ids1) \<Rightarrow>
          map_option (\<lambda>(ss, ids2). (\<lparr>revision = rv, steps = ss, current = pos_index p, parents = []\<rparr>, ids2))
            (new_steps (pos_length p) ids1))"

definition position :: "joint_session_history \<Rightarrow> session_history_position" where
  "position h = \<lparr>pos_index = current h, pos_length = length (steps h)\<rparr>"

definition current_step :: "joint_session_history \<Rightarrow> nat option" where
  "current_step h = map_option step_id (current_of h)"

definition history_entry :: "nat \<Rightarrow> joint_session_history \<Rightarrow> session_history_entry option option" where
  "history_entry ctx h = map_option (\<lambda>st. map_of (step_entries st) ctx) (current_of h)"

text \<open>The loop of \<^verbatim>\<open>descendants\<close>: it need not end when the parent relation has a cycle.\<close>

definition children :: "nat \<Rightarrow> (nat, nat) btree_map \<Rightarrow> nat list" where
  "children p ps = map fst (filter (\<lambda>cp. snd cp = p) ps)"

partial_function (option) descendants_loop :: "(nat, nat) btree_map \<Rightarrow> nat list \<Rightarrow> nat \<Rightarrow> nat list option" where
  "descendants_loop ps found index =
     (if index < length found
      then descendants_loop ps (found @ children (found ! index) ps) (index + 1)
      else Some found)"

definition descendants :: "nat \<Rightarrow> joint_session_history \<Rightarrow> nat list option" where
  "descendants ctx h = map_option tl (descendants_loop (parents h) [ctx] 0)"

text \<open>\<^verbatim>\<open>BTreeMap::retain\<close> against a list of removed ids.\<close>

definition retain_not_in :: "nat list \<Rightarrow> (nat, 'v) btree_map \<Rightarrow> (nat, 'v) btree_map" where
  "retain_not_in ds m = filter (\<lambda>e. fst e \<notin> set ds) m"

definition or_insert :: "nat \<Rightarrow> 'v \<Rightarrow> (nat, 'v) btree_map \<Rightarrow> (nat, 'v) btree_map" where
  "or_insert k v m = (if map_of m k = None then bt_insert k v m else m)"

fun same_parent_document :: "nat option \<Rightarrow> string option \<Rightarrow> session_history_step \<Rightarrow> bool" where
  "same_parent_document (Some p) (Some d) st =
     (case map_of (step_entries st) p of None \<Rightarrow> False | Some e \<Rightarrow> entry_document e = d)"
| "same_parent_document _ _ st = False"

definition attach ::
  "nat \<Rightarrow> nat option \<Rightarrow> session_history_entry \<Rightarrow> joint_session_history \<Rightarrow> joint_session_history option" where
  "attach ctx parent e h =
     (case current_of h of
        None \<Rightarrow> None
      | Some cur \<Rightarrow>
          if map_of (step_entries cur) ctx \<noteq> None then Some h
          else
            let parent_document =
                  Option.bind parent (\<lambda>p. map_option entry_document (map_of (step_entries cur) p));
                ps = (case parent of None \<Rightarrow> parents h | Some p \<Rightarrow> bt_insert ctx p (parents h)) in
            Some (h\<lparr>parents := ps, steps := map (\<lambda>(i, st).
              if i = current h \<or> same_parent_document parent parent_document st
              then st\<lparr>step_entries := or_insert ctx e (step_entries st)\<rparr> else st)
              (enumerate 0 (steps h))\<rparr>))"

definition document_changes :: "nat \<Rightarrow> session_history_entry \<Rightarrow> session_history_step \<Rightarrow> bool" where
  "document_changes ctx e st =
     (case map_of (step_entries st) ctx of
        None \<Rightarrow> False
      | Some old \<Rightarrow> entry_document old \<noteq> entry_document e)"

definition remove_replaced_document_children ::
  "session_history_step \<Rightarrow> nat \<Rightarrow> session_history_entry \<Rightarrow> joint_session_history \<Rightarrow> session_history_step option" where
  "remove_replaced_document_children st ctx e h =
     (if document_changes ctx e st
      then map_option (\<lambda>ds. st\<lparr>step_entries := retain_not_in ds (step_entries st)\<rparr>) (descendants ctx h)
      else Some st)"

type_synonym history_state = "joint_session_history \<times> identity_counters"

definition bump_revision :: "joint_session_history \<Rightarrow> identity_counters \<Rightarrow> history_state option" where
  "bump_revision h ids = map_option (\<lambda>(rv, ids'). (h\<lparr>revision := rv\<rparr>, ids')) (allocate_revision ids)"

definition push :: "nat \<Rightarrow> session_history_entry \<Rightarrow> history_state \<Rightarrow> history_state option" where
  "push ctx e s =
     (case current_of (fst s) of
        None \<Rightarrow> None
      | Some cur \<Rightarrow>
          Option.bind (allocate_step (snd s)) (\<lambda>(i, ids).
          Option.bind (remove_replaced_document_children (cur\<lparr>step_id := i\<rparr>) ctx e (fst s)) (\<lambda>st.
            bump_revision ((fst s)\<lparr>
              steps := take (current (fst s) + 1) (steps (fst s)) @
                [st\<lparr>step_entries := bt_insert ctx e (step_entries st)\<rparr>],
              current := current (fst s) + 1\<rparr>) ids)))"

definition replace_in_step ::
  "nat \<Rightarrow> session_history_entry \<Rightarrow> nat list \<Rightarrow> session_history_step \<Rightarrow> session_history_step" where
  "replace_in_step ctx e ds st =
     (let es = (if document_changes ctx e st then retain_not_in ds (step_entries st) else step_entries st) in
      st\<lparr>step_entries := bt_insert ctx e es\<rparr>)"

definition has_key :: "nat \<Rightarrow> string \<Rightarrow> session_history_step \<Rightarrow> bool" where
  "has_key ctx k st = (case map_of (step_entries st) ctx of None \<Rightarrow> False | Some e \<Rightarrow> entry_key e = k)"

definition replace_entry :: "nat \<Rightarrow> session_history_entry \<Rightarrow> history_state \<Rightarrow> history_state option" where
  "replace_entry ctx e s =
     (case current_of (fst s) of
        None \<Rightarrow> None
      | Some cur \<Rightarrow>
          if map_of (step_entries cur) ctx = Some e then Some s
          else
            let old_key = map_option entry_key (map_of (step_entries cur) ctx) in
            Option.bind (descendants ctx (fst s)) (\<lambda>ds.
              bump_revision ((fst s)\<lparr>steps := map (\<lambda>(i, st).
                if i = current (fst s) \<or> (case old_key of None \<Rightarrow> False | Some k \<Rightarrow> has_key ctx k st)
                then replace_in_step ctx e ds st else st) (enumerate 0 (steps (fst s)))\<rparr>) (snd s)))"

text \<open>\<^verbatim>\<open>Iterator::position\<close>, and the conversions between \<^verbatim>\<open>usize\<close> and \<^verbatim>\<open>i64\<close>.\<close>

fun find_index :: "('a \<Rightarrow> bool) \<Rightarrow> 'a list \<Rightarrow> nat option" where
  "find_index P [] = None"
| "find_index P (x # xs) = (if P x then Some 0 else map_option Suc (find_index P xs))"

definition i64_max :: int where
  "i64_max = 9223372036854775807"

definition i64_of_usize :: "nat \<Rightarrow> int option" where
  "i64_of_usize n = (if int n \<le> i64_max then Some (int n) else None)"

definition i64_checked_add :: "int \<Rightarrow> int \<Rightarrow> int option" where
  "i64_checked_add a b = (if - i64_max - 1 \<le> a + b \<and> a + b \<le> i64_max then Some (a + b) else None)"

definition usize_of_i64 :: "int \<Rightarrow> nat option" where
  "usize_of_i64 a = (if 0 \<le> a then Some (nat a) else None)"

definition get_nth :: "'a list \<Rightarrow> nat \<Rightarrow> 'a option" where
  "get_nth xs i = (if i < length xs then Some (xs ! i) else None)"

definition step_index :: "nat \<Rightarrow> joint_session_history \<Rightarrow> nat option" where
  "step_index target h = find_index (\<lambda>st. step_id st = target) (steps h)"

definition step_by_delta_from :: "nat \<Rightarrow> int \<Rightarrow> joint_session_history \<Rightarrow> nat option" where
  "step_by_delta_from source delta h =
     Option.bind (step_index source h) (\<lambda>i.
     Option.bind (i64_of_usize i) (\<lambda>i.
     Option.bind (i64_checked_add i delta) (\<lambda>j.
     Option.bind (usize_of_i64 j) (\<lambda>j.
       map_option step_id (get_nth (steps h) j)))))"

definition step_by_delta :: "int \<Rightarrow> joint_session_history \<Rightarrow> nat option option" where
  "step_by_delta delta h = map_option (\<lambda>st. step_by_delta_from st delta h) (current_step h)"

definition delta_to :: "nat \<Rightarrow> joint_session_history \<Rightarrow> int option" where
  "delta_to target h =
     Option.bind (step_index target h) (\<lambda>i.
     Option.bind (i64_of_usize i) (\<lambda>i.
       map_option (\<lambda>c. i - c) (i64_of_usize (current h))))"

definition steps_for_entry :: "nat \<Rightarrow> string \<Rightarrow> joint_session_history \<Rightarrow> nat list" where
  "steps_for_entry ctx k h = map fst (filter (\<lambda>(i, st). has_key ctx k st) (enumerate 0 (steps h)))"

definition step_for_entry :: "nat \<Rightarrow> string \<Rightarrow> joint_session_history \<Rightarrow> nat option option" where
  "step_for_entry ctx k h =
     (if current h < length (steps h) then
        Some (map_option step_id
          (case find (has_key ctx k) (rev (take (current h + 1) (steps h))) of
             Some st \<Rightarrow> Some st
           | None \<Rightarrow> find (has_key ctx k) (drop (current h + 1) (steps h))))
      else None)"

definition entries_at :: "nat \<Rightarrow> joint_session_history \<Rightarrow> history_entries option" where
  "entries_at target h = map_option step_entries (find (\<lambda>st. step_id st = target) (steps h))"

text \<open>The contexts of a transition in ascending order, each once.\<close>

definition merged_contexts :: "history_entries \<Rightarrow> history_entries \<Rightarrow> nat list" where
  "merged_contexts source dest = sorted_list_of_set (set (bt_keys source) \<union> set (bt_keys dest))"

definition context_changes ::
  "history_entries \<Rightarrow> history_entries \<Rightarrow> session_history_context_change list" where
  "context_changes source dest =
     map (\<lambda>c. \<lparr>change_context = c, change_from = map_of source c, change_to = map_of dest c\<rparr>)
       (filter (\<lambda>c. map_of source c \<noteq> map_of dest c) (merged_contexts source dest))"

definition plan_traversal :: "nat \<Rightarrow> joint_session_history \<Rightarrow> session_history_traversal_plan option" where
  "plan_traversal target h =
     Option.bind (step_index target h) (\<lambda>next.
     Option.bind (i64_of_usize next) (\<lambda>n.
     Option.bind (i64_of_usize (current h)) (\<lambda>c.
     Option.bind (current_of h) (\<lambda>cur.
       let dest = step_entries (steps h ! next) in
       Some \<lparr>plan_revision = revision h, source_step = step_id cur, target_step = target,
             plan_delta = n - c, plan_changes = context_changes (step_entries cur) dest,
             target_entries = dest\<rparr>))))"

definition is_traversal_plan_current :: "session_history_traversal_plan \<Rightarrow> joint_session_history \<Rightarrow> bool" where
  "is_traversal_plan_current plan h \<longleftrightarrow>
     revision h = plan_revision plan \<and> current_step h = Some (source_step plan) \<and>
     (case plan_traversal (target_step plan) h of
        None \<Rightarrow> False
      | Some cur \<Rightarrow> plan_changes cur = plan_changes plan)"

definition commit_traversal ::
  "session_history_traversal_plan \<Rightarrow> history_state \<Rightarrow> (int option \<times> history_state) option" where
  "commit_traversal plan s =
     (if \<not> is_traversal_plan_current plan (fst s) then Some (None, s)
      else
        (case step_index (target_step plan) (fst s) of
           None \<Rightarrow> Some (None, s)
         | Some next \<Rightarrow>
             map_option (Pair (Some (plan_delta plan))) (bump_revision ((fst s)\<lparr>current := next\<rparr>) (snd s))))"

definition contains_entry :: "nat \<Rightarrow> string \<Rightarrow> joint_session_history \<Rightarrow> bool" where
  "contains_entry ctx k h \<longleftrightarrow> list_ex (has_key ctx k) (steps h)"

definition prune_all_but_current :: "history_state \<Rightarrow> history_state option" where
  "prune_all_but_current s =
     (if length (steps (fst s)) = 1 then Some s
      else
        (case current_of (fst s) of
           None \<Rightarrow> None
         | Some cur \<Rightarrow> bump_revision ((fst s)\<lparr>steps := [cur], current := 0\<rparr>) (snd s)))"

definition detach :: "nat \<Rightarrow> joint_session_history \<Rightarrow> joint_session_history option" where
  "detach ctx h =
     map_option (\<lambda>ds.
       let removed = ds @ [ctx] in
       if \<not> list_ex (\<lambda>c. c \<in> set removed) (bt_keys (parents h)) \<and>
          \<not> list_ex (\<lambda>st. list_ex (\<lambda>c. c \<in> set removed) (bt_keys (step_entries st))) (steps h)
       then h
       else h\<lparr>steps := map (\<lambda>st. st\<lparr>step_entries := retain_not_in removed (step_entries st)\<rparr>) (steps h),
              parents := retain_not_in removed (parents h)\<rparr>)
       (descendants ctx h)"


subsection \<open>Runs\<close>

datatype history_op =
    Attach nat "nat option" session_history_entry
  | Push nat session_history_entry
  | Replace nat session_history_entry
  | Commit session_history_traversal_plan
  | Prune
  | Detach nat

fun history_exec :: "history_op \<Rightarrow> history_state \<Rightarrow> history_state option" where
  "history_exec (Attach c p e) s = map_option (\<lambda>h. (h, snd s)) (attach c p e (fst s))"
| "history_exec (Push c e) s = push c e s"
| "history_exec (Replace c e) s = replace_entry c e s"
| "history_exec (Commit plan) s = map_option snd (commit_traversal plan s)"
| "history_exec Prune s = prune_all_but_current s"
| "history_exec (Detach c) s = map_option (\<lambda>h. (h, snd s)) (detach c (fst s))"


subsection \<open>The descendants of a context\<close>

definition child_rel :: "joint_session_history \<Rightarrow> (nat \<times> nat) set" where
  "child_rel h = {(p, c). (c, p) \<in> set (parents h)}"

lemma children_mem [simp]: "c \<in> set (children p ps) \<longleftrightarrow> (c, p) \<in> set ps"
  by (force simp: children_def)

lemma children_distinct: "distinct (map fst ps) \<Longrightarrow> distinct (children p ps)"
  by (simp add: children_def distinct_map_filter)

text \<open>
  What the loop maintains: the list has no repetition, everything on it is the start or a
  descendant, and exactly the children of the processed part have been added.
\<close>

definition found_ok :: "(nat, nat) btree_map \<Rightarrow> nat \<Rightarrow> nat list \<Rightarrow> nat \<Rightarrow> bool" where
  "found_ok ps ctx found i \<longleftrightarrow>
     distinct found \<and> i \<le> length found \<and> found \<noteq> [] \<and> hd found = ctx \<and>
     (\<forall>x \<in> set (tl found). (ctx, x) \<in> {(p, c). (c, p) \<in> set ps}\<^sup>+) \<and>
     set found = insert ctx {c. \<exists>p \<in> set (take i found). (c, p) \<in> set ps}"

lemma found_ok_step:
  assumes ok: "found_ok ps ctx found i" and i: "i < length found"
    and keys: "distinct (map fst ps)" and acyc: "acyclic {(p, c). (c, p) \<in> set ps}"
  shows "found_ok ps ctx (found @ children (found ! i) ps) (i + 1)"
proof -
  let ?R = "{(p, c). (c, p) \<in> set ps}" and ?p = "found ! i"
  have d: "distinct found" "found \<noteq> []" "hd found = ctx" "\<forall>x \<in> set (tl found). (ctx, x) \<in> ?R\<^sup>+"
    and st: "set found = insert ctx {c. \<exists>p \<in> set (take i found). (c, p) \<in> set ps}"
    using ok by (simp_all add: found_ok_def)
  have split: "set found = insert ctx (set (tl found))" using d(2,3) by (cases found) auto
  have p: "?p = ctx \<or> (ctx, ?p) \<in> ?R\<^sup>+" using split d(4) nth_mem [OF i] by auto
  have reach: "(ctx, c) \<in> ?R\<^sup>+" if "(c, ?p) \<in> set ps" for c
    using p that trancl_into_trancl [of ctx ?p ?R c] by auto
  have new: "c \<notin> set found" if c: "(c, ?p) \<in> set ps" for c
  proof
    assume "c \<in> set found"
    then consider "c = ctx" | p where "p \<in> set (take i found)" "(c, p) \<in> set ps" using st by auto
    then show False
    proof cases
      case 1
      with reach [OF c] acyc show False by (simp add: acyclic_def)
    next
      case 2
      then have "p = ?p" using eq_key_imp_eq_value [OF keys 2(2) c] by simp
      with 2(1) d(1) i show False by (auto simp: in_set_conv_nth nth_eq_iff_index_eq)
    qed
  qed
  have tk: "set (take (i + 1) (found @ children ?p ps)) = insert ?p (set (take i found))"
    using i by (simp add: take_Suc_conv_app_nth)
  show ?thesis
    unfolding found_ok_def tk
    using d i new reach st children_distinct [OF keys, of ?p] by (auto simp: set_eq_iff)
qed

lemma descendants_loop_ends:
  assumes "found_ok ps ctx found i" "distinct (map fst ps)" "acyclic {(p, c). (c, p) \<in> set ps}"
  shows "\<exists>found'. descendants_loop ps found i = Some found' \<and> found_ok ps ctx found' (length found')"
  using assms(1)
proof (induction "Suc (length ps) - i" arbitrary: found i rule: less_induct)
  case less
  show ?case
  proof (cases "i < length found")
    case True
    have "set found \<subseteq> insert ctx (fst ` set ps)" "distinct found"
      using less.prems by (force simp: found_ok_def)+
    then have "length found \<le> Suc (length ps)"
      using card_mono [of "insert ctx (fst ` set ps)" "set found"] distinct_card [of found]
        card_insert_le_m1 [of "Suc (length ps)" "fst ` set ps" ctx] card_image_le [of "set ps" fst]
        card_length [of ps] by (simp add: card_insert_if split: if_splits)
    then have "Suc (length ps) - (i + 1) < Suc (length ps) - i" using True by simp
    from less.hyps [OF this found_ok_step [OF less.prems True assms(2,3)]] True show ?thesis
      by (simp add: descendants_loop.simps [of ps found i])
  next
    case False
    then have "i = length found" using less.prems by (simp add: found_ok_def)
    with less.prems show ?thesis by (simp add: descendants_loop.simps [of ps found "length found"])
  qed
qed

lemma closed_reaches:
  assumes "ctx \<in> S" "\<And>p c. p \<in> S \<Longrightarrow> (p, c) \<in> R \<Longrightarrow> c \<in> S" "(ctx, x) \<in> R\<^sup>+"
  shows "x \<in> S"
  using assms(3) by (induction rule: trancl_induct) (use assms(1,2) in auto)

text \<open>With an acyclic parent relation the search ends and finds exactly the descendants, each once.\<close>

lemma descendants_spec:
  assumes "bt_sorted (parents h)" "acyclic (child_rel h)"
  shows "\<exists>ds. descendants ctx h = Some ds \<and> distinct ds \<and> set ds = {c. (ctx, c) \<in> (child_rel h)\<^sup>+} \<and> ctx \<notin> set ds"
proof -
  let ?R = "{(p, c). (c, p) \<in> set (parents h)}"
  have keys: "distinct (map fst (parents h))" using assms(1) by (rule bt_sorted_distinct)
  have "found_ok (parents h) ctx [ctx] 0" by (simp add: found_ok_def)
  from descendants_loop_ends [OF this keys] assms(2) obtain found
    where f: "descendants_loop (parents h) [ctx] 0 = Some found" and ok: "found_ok (parents h) ctx found (length found)"
    by (auto simp: child_rel_def)
  have fnd: "distinct found" "found \<noteq> []" "hd found = ctx" "\<forall>x \<in> set (tl found). (ctx, x) \<in> ?R\<^sup>+"
    and st: "set found = insert ctx {c. \<exists>p \<in> set found. (c, p) \<in> set (parents h)}"
    using ok by (simp_all add: found_ok_def)
  have split: "set found = insert ctx (set (tl found))" "ctx \<notin> set (tl found)" "distinct (tl found)"
    using fnd(1-3) by (cases found; auto)+
  have "x \<in> set (tl found)" if "(ctx, x) \<in> ?R\<^sup>+" for x
  proof -
    have "x \<in> set found"
      by (rule closed_reaches [OF _ _ that]) (use st in auto)
    moreover have "x \<noteq> ctx" using that assms(2) by (auto simp: acyclic_def child_rel_def)
    ultimately show ?thesis using split(1) by simp
  qed
  with fnd(4) have "set (tl found) = {c. (ctx, c) \<in> ?R\<^sup>+}" by auto
  with f split show ?thesis by (simp add: descendants_def child_rel_def)
qed


subsection \<open>The invariant of the timeline\<close>

definition entries_sorted :: "session_history_step list \<Rightarrow> bool" where
  "entries_sorted ss \<longleftrightarrow> (\<forall>st \<in> set ss. bt_sorted (step_entries st))"

definition history_inv :: "history_state \<Rightarrow> bool" where
  "history_inv s \<longleftrightarrow>
     current (fst s) < length (steps (fst s)) \<and>
     distinct (map step_id (steps (fst s))) \<and>
     (\<forall>st \<in> set (steps (fst s)). step_id st < next_step (snd s)) \<and>
     revision (fst s) < next_revision (snd s) \<and>
     entries_sorted (steps (fst s)) \<and> bt_sorted (parents (fst s))"

lemma bt_sorted_filter [simp]: "bt_sorted m \<Longrightarrow> bt_sorted (filter P m)"
  by (induction m) auto

lemma bt_sorted_retain [simp]: "bt_sorted m \<Longrightarrow> bt_sorted (retain_not_in ds m)"
  by (simp add: retain_not_in_def)

lemma map_of_filter_key: "map_of (filter (\<lambda>e. P (fst e)) m) k = (if P k then map_of m k else None)"
  by (induction m) auto

lemma get_retain [bt_simps]: "map_of (retain_not_in ds m) k = (if k \<in> set ds then None else map_of m k)"
  using map_of_filter_key [of "\<lambda>k. k \<notin> set ds" m k] by (simp add: retain_not_in_def)

lemma bt_sorted_or_insert [simp]: "bt_sorted m \<Longrightarrow> bt_sorted (or_insert k v m)"
  by (simp add: or_insert_def)

lemma current_of_in: "history_inv s \<Longrightarrow> current_of (fst s) = Some (steps (fst s) ! current (fst s))"
  by (simp add: history_inv_def current_of_def)

text \<open>Updating steps in place keeps their ids and their number.\<close>

lemma enumerate_update_ids:
  "(\<And>i st. step_id (f i st) = step_id st) \<Longrightarrow>
   map step_id (map (\<lambda>(i, st). f i st) (enumerate n ss)) = map step_id ss"
  by (induction ss arbitrary: n) auto

lemma enumerate_update_sorted:
  "(\<And>i st. bt_sorted (step_entries st) \<Longrightarrow> bt_sorted (step_entries (f i st))) \<Longrightarrow>
   entries_sorted ss \<Longrightarrow> entries_sorted (map (\<lambda>(i, st). f i st) (enumerate n ss))"
  by (induction ss arbitrary: n) (auto simp: entries_sorted_def)

lemma history_inv_update:
  assumes "history_inv s" "map step_id ss = map step_id (steps (fst s))"
    and "entries_sorted ss" "bt_sorted ps"
  shows "history_inv ((fst s)\<lparr>steps := ss, parents := ps\<rparr>, snd s)"
proof -
  have "length ss = length (steps (fst s))" using assms(2) by (metis length_map)
  moreover have "\<forall>st \<in> set ss. step_id st < next_step (snd s)"
    using assms(1,2) unfolding history_inv_def by (metis (mono_tags, lifting) image_iff image_set)
  ultimately show ?thesis using assms by (simp add: history_inv_def)
qed

lemma bump_revision_inv:
  assumes "history_inv (h, ids)" "bump_revision h ids = Some s'"
  shows "history_inv s'"
  using assms by (auto simp: bump_revision_def allocate_revision_def allocate_def history_inv_def)

lemma attach_inv:
  assumes "history_inv s" "attach ctx p e (fst s) = Some h"
  shows "history_inv (h, snd s)"
proof (cases "map_of (step_entries (steps (fst s) ! current (fst s))) ctx = None")
  case False
  with assms show ?thesis by (auto simp: attach_def current_of_in)
next
  case True
  let ?d = "Option.bind p (\<lambda>p. map_option entry_document (map_of (step_entries (steps (fst s) ! current (fst s))) p))"
  let ?f = "\<lambda>i st. if i = current (fst s) \<or> same_parent_document p ?d st
      then st\<lparr>step_entries := or_insert ctx e (step_entries st)\<rparr> else st"
  let ?ss = "map (\<lambda>(i, st). ?f i st) (enumerate 0 (steps (fst s)))"
  let ?ps = "case p of None \<Rightarrow> parents (fst s) | Some p \<Rightarrow> bt_insert ctx p (parents (fst s))"
  have h: "h = (fst s)\<lparr>steps := ?ss, parents := ?ps\<rparr>"
    using assms True by (auto simp: attach_def current_of_in Let_def)
  have "map step_id ?ss = map step_id (steps (fst s))" by (rule enumerate_update_ids) simp
  moreover have "entries_sorted ?ss"
    by (rule enumerate_update_sorted) (use assms(1) in \<open>simp_all add: history_inv_def\<close>)
  moreover have "bt_sorted ?ps" using assms(1) by (simp add: history_inv_def split: option.split)
  ultimately show ?thesis unfolding h using history_inv_update [OF assms(1)] by simp
qed

lemma replace_inv:
  assumes "history_inv s" "replace_entry ctx e s = Some s'"
  shows "history_inv s'"
proof (cases "map_of (step_entries (steps (fst s) ! current (fst s))) ctx = Some e")
  case True
  with assms show ?thesis by (auto simp: replace_entry_def current_of_in)
next
  case False
  let ?k = "map_option entry_key (map_of (step_entries (steps (fst s) ! current (fst s))) ctx)"
  let ?f = "\<lambda>ds i st. if i = current (fst s) \<or> (case ?k of None \<Rightarrow> False | Some k \<Rightarrow> has_key ctx k st)
      then replace_in_step ctx e ds st else st"
  obtain ds where ds: "bump_revision ((fst s)\<lparr>steps := map (\<lambda>(i, st). ?f ds i st) (enumerate 0 (steps (fst s)))\<rparr>) (snd s) = Some s'"
    using assms False by (auto simp: replace_entry_def current_of_in Let_def bind_eq_Some_conv)
  let ?ss = "map (\<lambda>(i, st). ?f ds i st) (enumerate 0 (steps (fst s)))"
  have "map step_id ?ss = map step_id (steps (fst s))"
    by (rule enumerate_update_ids) (simp add: replace_in_step_def Let_def)
  moreover have "entries_sorted ?ss"
    by (rule enumerate_update_sorted)
      (use assms(1) in \<open>simp_all add: history_inv_def replace_in_step_def Let_def\<close>)
  ultimately have "history_inv ((fst s)\<lparr>steps := ?ss, parents := parents (fst s)\<rparr>, snd s)"
    using assms(1) by (intro history_inv_update) (simp_all add: history_inv_def)
  then show ?thesis using bump_revision_inv [OF _ ds] by simp
qed

text \<open>What a push produces when it returns.\<close>

lemma push_cases:
  assumes "history_inv s" "push ctx e s = Some s'"
  obtains st where
    "remove_replaced_document_children ((steps (fst s) ! current (fst s))\<lparr>step_id := next_step (snd s)\<rparr>) ctx e (fst s) = Some st"
    "s' = ((fst s)\<lparr>revision := next_revision (snd s),
        steps := take (current (fst s) + 1) (steps (fst s)) @ [st\<lparr>step_entries := bt_insert ctx e (step_entries st)\<rparr>],
        current := current (fst s) + 1\<rparr>,
      (snd s)\<lparr>next_step := next_step (snd s) + 1, next_revision := next_revision (snd s) + 1\<rparr>)"
  using assms(2) current_of_in [OF assms(1)]
  by (auto simp: push_def bind_eq_Some_conv bump_revision_def allocate_revision_def allocate_step_def allocate_def)

lemma remove_children_step:
  "remove_replaced_document_children st ctx e h = Some st' \<Longrightarrow>
   step_id st' = step_id st \<and> (bt_sorted (step_entries st) \<longrightarrow> bt_sorted (step_entries st'))"
  by (auto simp: remove_replaced_document_children_def split: if_splits)

lemma push_inv:
  assumes "history_inv s" "push ctx e s = Some s'"
  shows "history_inv s'"
  using assms
proof (rule push_cases)
  fix st
  assume r: "remove_replaced_document_children ((steps (fst s) ! current (fst s))\<lparr>step_id := next_step (snd s)\<rparr>) ctx e (fst s) = Some st"
    and s': "s' = ((fst s)\<lparr>revision := next_revision (snd s),
        steps := take (current (fst s) + 1) (steps (fst s)) @ [st\<lparr>step_entries := bt_insert ctx e (step_entries st)\<rparr>],
        current := current (fst s) + 1\<rparr>,
      (snd s)\<lparr>next_step := next_step (snd s) + 1, next_revision := next_revision (snd s) + 1\<rparr>)"
  have inv: "current (fst s) < length (steps (fst s))" "distinct (map step_id (steps (fst s)))"
    "\<forall>st \<in> set (steps (fst s)). step_id st < next_step (snd s)" "entries_sorted (steps (fst s))"
    "bt_sorted (parents (fst s))" using assms(1) by (simp_all add: history_inv_def)
  have st: "step_id st = next_step (snd s)" "bt_sorted (step_entries st)"
    using remove_children_step [OF r] inv(1,4) by (auto simp: entries_sorted_def)
  let ?k = "take (current (fst s) + 1) (steps (fst s))"
  have "distinct (map step_id ?k)" using inv(2) by (metis distinct_take take_map)
  moreover have sub: "set ?k \<subseteq> set (steps (fst s))" by (rule set_take_subset)
  moreover have "next_step (snd s) \<notin> step_id ` set ?k" using inv(3) sub by fastforce
  moreover have "\<forall>x \<in> set ?k. step_id x < Suc (next_step (snd s))" using inv(3) sub by fastforce
  ultimately show "history_inv s'"
    using inv st by (auto simp: history_inv_def s' entries_sorted_def dest: subsetD [OF sub])
qed

lemma find_index_Some:
  "find_index P xs = Some i \<Longrightarrow> i < length xs \<and> P (xs ! i) \<and> (\<forall>j < i. \<not> P (xs ! j))"
  by (induction xs arbitrary: i) (auto simp: less_Suc_eq_0_disj split: if_splits)

lemma find_index_ex: "i < length xs \<Longrightarrow> P (xs ! i) \<Longrightarrow> \<exists>j. find_index P xs = Some j"
  by (induction xs arbitrary: i) (auto simp: less_Suc_eq_0_disj nth_Cons')

lemma step_index_nth:
  assumes "history_inv s" "i < length (steps (fst s))"
  shows "step_index (step_id (steps (fst s) ! i)) (fst s) = Some i"
proof -
  have d: "distinct (map step_id (steps (fst s)))" using assms(1) by (simp add: history_inv_def)
  obtain j where j: "step_index (step_id (steps (fst s) ! i)) (fst s) = Some j"
    using find_index_ex [OF assms(2), of "\<lambda>st. step_id st = step_id (steps (fst s) ! i)"]
    by (auto simp: step_index_def)
  from find_index_Some [OF this [unfolded step_index_def]] assms(2) d have "j = i"
    by (metis length_map nth_eq_iff_index_eq nth_map)
  with j show ?thesis by simp
qed

lemma commit_inv:
  assumes "history_inv s" "commit_traversal plan s = Some (r, s')"
  shows "history_inv s'"
proof (cases "is_traversal_plan_current plan (fst s) \<and> step_index (target_step plan) (fst s) \<noteq> None")
  case False
  with assms show ?thesis by (auto simp: commit_traversal_def split: if_splits)
next
  case True
  then obtain i where i: "step_index (target_step plan) (fst s) = Some i" by auto
  then have "i < length (steps (fst s))" using find_index_Some by (auto simp: step_index_def)
  then have "history_inv ((fst s)\<lparr>current := i\<rparr>, snd s)" using assms(1) by (simp add: history_inv_def)
  moreover have "bump_revision ((fst s)\<lparr>current := i\<rparr>) (snd s) = Some s'"
    using assms(2) True i by (auto simp: commit_traversal_def split: if_splits)
  ultimately show ?thesis by (rule bump_revision_inv)
qed

lemma prune_inv:
  assumes "history_inv s" "prune_all_but_current s = Some s'"
  shows "history_inv s'"
proof (cases "length (steps (fst s)) = 1")
  case True
  with assms show ?thesis by (simp add: prune_all_but_current_def)
next
  case False
  then have b: "bump_revision ((fst s)\<lparr>steps := [steps (fst s) ! current (fst s)], current := 0\<rparr>) (snd s) = Some s'"
    using assms by (simp add: prune_all_but_current_def current_of_in)
  have "history_inv ((fst s)\<lparr>steps := [steps (fst s) ! current (fst s)], current := 0\<rparr>, snd s)"
    using assms(1) by (simp add: history_inv_def entries_sorted_def)
  then show ?thesis using b by (rule bump_revision_inv)
qed

lemma detach_inv:
  assumes "history_inv s" "detach ctx (fst s) = Some h"
  shows "history_inv (h, snd s)"
proof -
  from assms(2) obtain ds where "h = fst s \<or> h = (fst s)\<lparr>
      steps := map (\<lambda>st. st\<lparr>step_entries := retain_not_in (ds @ [ctx]) (step_entries st)\<rparr>) (steps (fst s)),
      parents := retain_not_in (ds @ [ctx]) (parents (fst s))\<rparr>"
    by (auto simp: detach_def Let_def split: if_splits)
  then show ?thesis
  proof
    assume "h = fst s"
    with assms(1) show ?thesis by simp
  next
    assume "h = (fst s)\<lparr>
      steps := map (\<lambda>st. st\<lparr>step_entries := retain_not_in (ds @ [ctx]) (step_entries st)\<rparr>) (steps (fst s)),
      parents := retain_not_in (ds @ [ctx]) (parents (fst s))\<rparr>"
    then show ?thesis
      using assms(1) by (simp only:)
        (rule history_inv_update, auto simp: history_inv_def entries_sorted_def)
  qed
qed

interpretation history_system: kept_system history_exec history_inv
proof
  show "history_inv s'" if "history_inv s" "history_exec x s = Some s'" for s x s'
    using that by (cases x) (auto intro: attach_inv push_inv replace_inv commit_inv prune_inv detach_inv)
qed

lemma new_steps_inv:
  "new_steps n ids = Some (ss, ids') \<Longrightarrow>
   length ss = n \<and> map step_id ss = [next_step ids ..< next_step ids + n] \<and>
   (\<forall>st \<in> set ss. step_entries st = []) \<and> next_step ids' = next_step ids + n \<and> next_revision ids' = next_revision ids"
proof (induction n arbitrary: ids ss ids')
  case (Suc n)
  then obtain ss1 where n: "new_steps n (ids\<lparr>next_step := next_step ids + 1\<rparr>) = Some (ss1, ids')"
    and ss: "ss = \<lparr>step_id = next_step ids, step_entries = []\<rparr> # ss1"
    by (auto simp: allocate_step_def allocate_def split: option.splits)
  from Suc.IH [OF n] ss show ?case by (simp add: upt_conv_Cons)
qed simp

lemma joint_new_inv:
  assumes "position_new i n = Some p" "joint_new p ids = Some s"
  shows "history_inv s"
proof -
  have p: "pos_index p = i" "pos_length p = n" "i < n" using assms(1) by (auto simp: position_new_def split: if_splits)
  obtain ss ids' where n: "new_steps n (ids\<lparr>next_revision := next_revision ids + 1\<rparr>) = Some (ss, ids')"
    and s: "s = (\<lparr>revision = next_revision ids, steps = ss, current = i, parents = []\<rparr>, ids')"
    using assms(2) p by (auto simp: joint_new_def allocate_revision_def allocate_def split: option.splits)
  have "\<forall>st \<in> set ss. step_id st < next_step ids + n"
    using new_steps_inv [OF n] by (metis (no_types, lifting) atLeastLessThan_iff image_eqI list.set_map set_upt
        identity_counters.select_convs(4) identity_counters.surjective identity_counters.update_convs(5))
  with new_steps_inv [OF n] p(3) show ?thesis by (auto simp: s history_inv_def entries_sorted_def)
qed


subsection \<open>Revisions\<close>

text \<open>Every change of the timeline takes a new revision; nothing ever returns to an old one.\<close>

definition same_revision :: "history_state \<Rightarrow> history_state \<Rightarrow> bool" where
  "same_revision s s' \<longleftrightarrow> revision (fst s') = revision (fst s) \<and> next_revision (snd s') = next_revision (snd s)"

definition new_revision :: "history_state \<Rightarrow> history_state \<Rightarrow> bool" where
  "new_revision s s' \<longleftrightarrow>
     revision (fst s') = next_revision (snd s) \<and> next_revision (snd s') = next_revision (snd s) + 1"

lemma bump_revision_new:
  "bump_revision h ids = Some s' \<Longrightarrow>
   revision (fst s') = next_revision ids \<and> next_revision (snd s') = next_revision ids + 1"
  by (auto simp: bump_revision_def allocate_revision_def allocate_def)

lemma exec_revision:
  assumes "history_exec x s = Some s'"
  shows "same_revision s s' \<or> new_revision s s'"
proof (cases x)
  case (Push c e)
  with assms show ?thesis
    by (auto simp: push_def bind_eq_Some_conv allocate_step_def allocate_def new_revision_def
        split: option.splits dest!: bump_revision_new)
qed (use assms in \<open>auto simp: same_revision_def new_revision_def attach_def detach_def replace_entry_def
    commit_traversal_def prune_all_but_current_def Let_def bind_eq_Some_conv
    split: option.splits if_splits dest!: bump_revision_new\<close>)

lemma push_new_revision: "push c e s = Some s' \<Longrightarrow> new_revision s s'"
  by (auto simp: push_def bind_eq_Some_conv allocate_step_def allocate_def new_revision_def
      split: option.splits dest!: bump_revision_new)

lemma run_revision_mono:
  "history_inv s \<Longrightarrow> run history_exec ops s = Some s' \<Longrightarrow> revision (fst s) \<le> revision (fst s')"
proof (induction ops arbitrary: s)
  case (Cons x ops)
  then obtain s1 where s1: "history_exec x s = Some s1" "run history_exec ops s1 = Some s'"
    by (auto simp: bind_eq_Some_conv)
  have "revision (fst s) \<le> revision (fst s1)"
    using exec_revision [OF s1(1)] Cons.prems(1)
    by (auto simp: same_revision_def new_revision_def history_inv_def)
  also have "\<dots> \<le> revision (fst s')"
    using Cons.IH [OF history_system.step_inv [OF Cons.prems(1) s1(1)] s1(2)] .
  finally show ?case .
qed simp

fun changes_timeline :: "history_op \<Rightarrow> bool" where
  "changes_timeline (Attach _ _ _) = False"
| "changes_timeline (Detach _) = False"
| "changes_timeline _ = True"

lemma timeline_change_new_revision:
  assumes "history_exec x s = Some s'" "changes_timeline x" "s' \<noteq> s"
  shows "new_revision s s'"
proof (cases x)
  case (Push c e)
  with assms show ?thesis by (simp add: push_new_revision)
qed (use assms in \<open>auto simp: new_revision_def replace_entry_def
    commit_traversal_def prune_all_but_current_def Let_def bind_eq_Some_conv
    split: option.splits if_splits dest!: bump_revision_new\<close>)

lemma run_split:
  "run step (xs @ ys) s = Some s' \<Longrightarrow> \<exists>s1. run step xs s = Some s1 \<and> run step ys s1 = Some s'"
  by (auto simp: run_append bind_eq_Some_conv)


subsection \<open>Traversal plans\<close>

definition apply_changes ::
  "session_history_context_change list \<Rightarrow> (nat \<rightharpoonup> session_history_entry) \<Rightarrow> (nat \<rightharpoonup> session_history_entry)" where
  "apply_changes = fold (\<lambda>c m. m(change_context c := change_to c))"

lemma apply_changes_map:
  "apply_changes (map (\<lambda>c. \<lparr>change_context = c, change_from = f c, change_to = g c\<rparr>) cs) m =
   (\<lambda>c. if c \<in> set cs then g c else m c)"
  by (induction cs arbitrary: m) (auto simp: apply_changes_def fun_eq_iff)

lemma apply_context_changes: "apply_changes (context_changes source dest) (map_of source) = map_of dest"
proof
  fix c
  have "c \<notin> set (bt_keys m) \<Longrightarrow> map_of m c = None" for m :: history_entries
    by (simp add: map_of_eq_None_iff)
  then have "c \<in> set (filter (\<lambda>c. map_of source c \<noteq> map_of dest c) (merged_contexts source dest)) \<longleftrightarrow>
      map_of source c \<noteq> map_of dest c"
    by (auto simp: merged_contexts_def) (metis not_Some_eq)
  then show "apply_changes (context_changes source dest) (map_of source) c = map_of dest c"
    unfolding context_changes_def apply_changes_map by auto
qed

lemma plan_traversal_cases:
  assumes "history_inv s" "plan_traversal target (fst s) = Some plan"
  obtains i where "step_index target (fst s) = Some i" "i < length (steps (fst s))"
    "step_id (steps (fst s) ! i) = target"
    "plan_revision plan = revision (fst s)" "source_step plan = step_id (steps (fst s) ! current (fst s))"
    "target_step plan = target" "plan_delta plan = int i - int (current (fst s))"
    "plan_changes plan = context_changes (step_entries (steps (fst s) ! current (fst s))) (step_entries (steps (fst s) ! i))"
    "target_entries plan = step_entries (steps (fst s) ! i)"
  using assms(2) current_of_in [OF assms(1)]
  by (auto simp: plan_traversal_def bind_eq_Some_conv i64_of_usize_def step_index_def Let_def
      split: if_splits dest!: find_index_Some)

lemma plan_is_current:
  assumes "history_inv s" "plan_traversal target (fst s) = Some plan"
  shows "is_traversal_plan_current plan (fst s)"
  using assms(1)
proof (rule plan_traversal_cases [OF _ assms(2)])
  assume "plan_revision plan = revision (fst s)" "source_step plan = step_id (steps (fst s) ! current (fst s))"
    "target_step plan = target"
  with assms current_of_in [OF assms(1)] show ?thesis
    by (simp add: is_traversal_plan_current_def current_step_def)
qed


subsection \<open>The history's promises\<close>

text \<open>C35: Committing a plan against the history it was made for moves the joint cursor to the
  planned step by exactly the planned delta, every context then shows the entry of that step,
  no step is touched, and the plan's listed changes are exactly what turns the entries of the
  source step into those of the target (unless the revision counter is exhausted).\<close>

theorem history_commit_plan:
  assumes "position_new i n = Some p" "joint_new p ids = Some s0" "run history_exec ops s0 = Some s"
    and "plan_traversal target (fst s) = Some plan" "next_revision (snd s) < u64_max"
  shows "\<exists>s'. commit_traversal plan s = Some (Some (plan_delta plan), s') \<and>
    current_step (fst s') = Some target \<and> steps (fst s') = steps (fst s) \<and>
    int (current (fst s')) = int (current (fst s)) + plan_delta plan \<and>
    (\<forall>c. history_entry c (fst s') = Some (map_of (target_entries plan) c)) \<and>
    apply_changes (plan_changes plan) (\<lambda>c. the (history_entry c (fst s))) = map_of (target_entries plan)"
proof -
  have inv: "history_inv s"
    using history_system.run_inv [OF joint_new_inv [OF assms(1,2)] assms(3)] .
  show ?thesis
  proof (rule plan_traversal_cases [OF inv assms(4)])
    fix i
    assume i: "step_index target (fst s) = Some i" "i < length (steps (fst s))" "step_id (steps (fst s) ! i) = target"
      and p: "target_step plan = target" "plan_delta plan = int i - int (current (fst s))"
        "plan_changes plan = context_changes (step_entries (steps (fst s) ! current (fst s))) (step_entries (steps (fst s) ! i))"
        "target_entries plan = step_entries (steps (fst s) ! i)"
    let ?s = "((fst s)\<lparr>revision := next_revision (snd s), current := i\<rparr>,
      (snd s)\<lparr>next_revision := next_revision (snd s) + 1\<rparr>)"
    have "commit_traversal plan s = Some (Some (plan_delta plan), ?s)"
      using plan_is_current [OF inv assms(4)] i(1) p(1) assms(5)
      by (simp add: commit_traversal_def bump_revision_def allocate_revision_def allocate_def checked_add_def)
    moreover have "apply_changes (plan_changes plan) (\<lambda>c. the (history_entry c (fst s))) = map_of (target_entries plan)"
      using current_of_in [OF inv] apply_context_changes by (simp add: p history_entry_def)
    ultimately show ?thesis
      using i p by (intro exI [of _ ?s]) (simp add: current_step_def history_entry_def current_of_def)
  qed
qed

text \<open>C18: A plan is only good for the timeline it was made for: once any push, replacement, prune
  or other traversal has changed the history, committing the old plan is refused and changes
  nothing, whatever happened in between, even if the cursor is back where it was.\<close>

theorem history_stale_plan:
  assumes "position_new i n = Some p" "joint_new p ids = Some s0" "run history_exec ops s0 = Some s"
    and "plan_traversal target (fst s) = Some plan"
    and "run history_exec ops1 s = Some s1" "history_exec x s1 = Some s2" "changes_timeline x" "s2 \<noteq> s1"
    and "run history_exec ops2 s2 = Some s'"
  shows "commit_traversal plan s' = Some (None, s')"
proof -
  have inv: "history_inv s"
    using history_system.run_inv [OF joint_new_inv [OF assms(1,2)] assms(3)] .
  have inv1: "history_inv s1" by (rule history_system.run_inv [OF inv assms(5)])
  have "revision (fst s) \<le> revision (fst s1)" by (rule run_revision_mono [OF inv assms(5)])
  also have "\<dots> < revision (fst s2)"
    using timeline_change_new_revision [OF assms(6-8)] inv1 by (simp add: new_revision_def history_inv_def)
  also have "\<dots> \<le> revision (fst s')"
    by (rule run_revision_mono [OF history_system.step_inv [OF inv1 assms(6)] assms(9)])
  finally have "revision (fst s') \<noteq> plan_revision plan"
    using plan_traversal_cases [OF inv assms(4)] by (metis less_irrefl)
  then show ?thesis by (simp add: commit_traversal_def is_traversal_plan_current_def)
qed

text \<open>A push truncates the forward steps, keeps every step up to the current one, and adds one
  step with an unused id that becomes current.  Its entries are those of the old current
  step with the pushed entry in its context; if that replaces the context's document, the
  entries of all the context's descendants are gone.  With an acyclic parent relation the
  push returns unless an id counter is exhausted.\<close>

lemma history_push:
  assumes "position_new i n = Some p" "joint_new p ids = Some s0" "run history_exec ops s0 = Some s"
    and "acyclic (child_rel (fst s))" "next_step (snd s) < u64_max" "next_revision (snd s) < u64_max"
  defines "cur \<equiv> steps (fst s) ! current (fst s)"
  shows "\<exists>s' new. push ctx e s = Some s' \<and>
    steps (fst s') = take (current (fst s) + 1) (steps (fst s)) @ [new] \<and>
    current (fst s') = current (fst s) + 1 \<and> step_id new \<notin> step_id ` set (steps (fst s)) \<and>
    (\<forall>c. map_of (step_entries new) c =
       (if c = ctx then Some e
        else if document_changes ctx e cur \<and> (ctx, c) \<in> (child_rel (fst s))\<^sup>+ then None
        else map_of (step_entries cur) c))"
proof -
  have inv: "history_inv s"
    using history_system.run_inv [OF joint_new_inv [OF assms(1,2)] assms(3)] .
  then have "bt_sorted (parents (fst s))" by (simp add: history_inv_def)
  from descendants_spec [OF this assms(4), of ctx]
  obtain ds where ds: "descendants ctx (fst s) = Some ds" "set ds = {c. (ctx, c) \<in> (child_rel (fst s))\<^sup>+}"
    by blast
  let ?st = "if document_changes ctx e cur
    then cur\<lparr>step_id := next_step (snd s), step_entries := retain_not_in ds (step_entries cur)\<rparr>
    else cur\<lparr>step_id := next_step (snd s)\<rparr>"
  have "remove_replaced_document_children (cur\<lparr>step_id := next_step (snd s)\<rparr>) ctx e (fst s) = Some ?st"
    using ds(1) by (simp add: remove_replaced_document_children_def document_changes_def)
  then have "push ctx e s = Some ((fst s)\<lparr>revision := next_revision (snd s),
      steps := take (current (fst s) + 1) (steps (fst s)) @ [?st\<lparr>step_entries := bt_insert ctx e (step_entries ?st)\<rparr>],
      current := current (fst s) + 1\<rparr>,
      (snd s)\<lparr>next_step := next_step (snd s) + 1, next_revision := next_revision (snd s) + 1\<rparr>)"
    using assms(5,6) current_of_in [OF inv]
    by (simp add: push_def cur_def bump_revision_def allocate_revision_def allocate_step_def allocate_def
        checked_add_def del: if_split)
  moreover have "next_step (snd s) \<notin> step_id ` set (steps (fst s))"
    using inv by (fastforce simp: history_inv_def)
  ultimately show ?thesis
    using ds(2) by (auto simp: bt_get_insert get_retain)
qed

lemma find_rev_take:
  assumes "find P (rev (take n xs)) = Some x" "n \<le> length xs"
  shows "\<exists>i < n. x = xs ! i \<and> P x \<and> (\<forall>j. i < j \<and> j < n \<longrightarrow> \<not> P (xs ! j))"
proof -
  from assms obtain k where k: "k < n" "P x" "x = rev (take n xs) ! k" "\<forall>j < k. \<not> P (rev (take n xs) ! j)"
    by (auto simp: find_Some_iff)
  have r: "rev (take n xs) ! j = xs ! (n - 1 - j)" if "j < n" for j
    using that assms(2) by (simp add: rev_nth)
  have "\<not> P (xs ! j)" if "n - 1 - k < j" "j < n" for j
    using k(1) k(4) [rule_format, of "n - 1 - j"] r [of "n - 1 - j"] that by auto
  with k r [OF k(1)] show ?thesis by (intro exI [of _ "n - 1 - k"]) auto
qed

lemma find_rev_take_None:
  "find P (rev (take n xs)) = None \<Longrightarrow> n \<le> length xs \<Longrightarrow> j < n \<Longrightarrow> \<not> P (xs ! j)"
  by (auto simp: find_None_iff in_set_conv_nth)

lemma find_drop:
  assumes "find P (drop n xs) = Some x"
  shows "\<exists>i. n \<le> i \<and> i < length xs \<and> x = xs ! i \<and> P x \<and> (\<forall>j. n \<le> j \<and> j < i \<longrightarrow> \<not> P (xs ! j))"
proof -
  from assms obtain k where k: "k < length xs - n" "P x" "x = xs ! (n + k)" "\<forall>j < k. \<not> P (xs ! (n + j))"
    by (auto simp: find_Some_iff)
  have "\<not> P (xs ! j)" if "n \<le> j" "j < n + k" for j
    using k(4) [rule_format, of "j - n"] that by auto
  with k show ?thesis by (intro exI [of _ "n + k"]) auto
qed

text \<open>The step chosen for a navigation entry is the nearest one showing it.  If the steps that
  show an entry are consecutive (an entry is not left and entered again under the same
  key), the step found is at minimal distance from the current one, and one is found exactly
  if some step shows the entry.\<close>

lemma history_step_for_entry_nearest:
  assumes "position_new i n = Some p" "joint_new p ids = Some s0" "run history_exec ops s0 = Some s"
    and "\<And>a b c. a < b \<Longrightarrow> b < c \<Longrightarrow> c < length (steps (fst s)) \<Longrightarrow>
      has_key ctx k (steps (fst s) ! a) \<Longrightarrow> has_key ctx k (steps (fst s) ! c) \<Longrightarrow> has_key ctx k (steps (fst s) ! b)"
  shows "case step_for_entry ctx k (fst s) of
      None \<Rightarrow> False
    | Some None \<Rightarrow> \<not> contains_entry ctx k (fst s)
    | Some (Some target) \<Rightarrow>
        (\<exists>a < length (steps (fst s)). step_id (steps (fst s) ! a) = target \<and> has_key ctx k (steps (fst s) ! a) \<and>
          (\<forall>b < length (steps (fst s)). has_key ctx k (steps (fst s) ! b) \<longrightarrow>
             \<bar>int a - int (current (fst s))\<bar> \<le> \<bar>int b - int (current (fst s))\<bar>))"
proof -
  let ?P = "has_key ctx k" and ?ss = "steps (fst s)" and ?n = "current (fst s) + 1"
  have n: "?n \<le> length ?ss"
    using history_system.run_inv [OF joint_new_inv [OF assms(1,2)] assms(3)] by (simp add: history_inv_def)
  show ?thesis
  proof (cases "find ?P (rev (take ?n ?ss))")
    case (Some x)
    then obtain a where a: "a < ?n" "x = ?ss ! a" "?P x" "\<forall>j. a < j \<and> j < ?n \<longrightarrow> \<not> ?P (?ss ! j)"
      using find_rev_take [OF Some n] by blast
    have "\<bar>int a - int (current (fst s))\<bar> \<le> \<bar>int b - int (current (fst s))\<bar>"
      if "b < length ?ss" "?P (?ss ! b)" for b
    proof (cases "b \<le> a")
      case False
      then have "a = current (fst s) \<or> \<not> (a < current (fst s) \<and> current (fst s) < b)"
        using assms(4) [of a "current (fst s)" b] a that by auto
      with a False that show ?thesis by (cases "b < ?n") auto
    qed (use a in auto)
    with Some n a have "step_for_entry ctx k (fst s) = Some (Some (step_id (?ss ! a)))"
      and "\<forall>b < length ?ss. ?P (?ss ! b) \<longrightarrow>
        \<bar>int a - int (current (fst s))\<bar> \<le> \<bar>int b - int (current (fst s))\<bar>"
      by (auto simp: step_for_entry_def)
    with n a show ?thesis by (auto intro!: exI [of _ a])
  next
    case None
    note before = find_rev_take_None [OF None n]
    show ?thesis
    proof (cases "find ?P (drop ?n ?ss)")
      case (Some x)
      then obtain a where a: "?n \<le> a" "a < length ?ss" "x = ?ss ! a" "?P x" "\<forall>j. ?n \<le> j \<and> j < a \<longrightarrow> \<not> ?P (?ss ! j)"
        using find_drop [OF Some] by blast
      have "\<bar>int a - int (current (fst s))\<bar> \<le> \<bar>int b - int (current (fst s))\<bar>"
        if "b < length ?ss" "?P (?ss ! b)" for b
      proof -
        have "?n \<le> b" using before that by (meson not_less)
        then have "a \<le> b" using a(5) that by (meson not_less)
        with a(1) show ?thesis by auto
      qed
      with None Some n a show ?thesis by (auto simp: step_for_entry_def)
    next
      case none: None
      have "\<not> ?P x" if "x \<in> set ?ss" for x
      proof -
        have "x \<in> set (rev (take ?n ?ss)) \<or> x \<in> set (drop ?n ?ss)"
          using that set_append [of "take ?n ?ss" "drop ?n ?ss"] by simp
        then show ?thesis using None none unfolding find_None_iff by blast
      qed
      with None none n show ?thesis by (auto simp: step_for_entry_def contains_entry_def list_ex_iff)
    qed
  qed
qed


subsection \<open>A concrete history\<close>

definition ids0 :: identity_counters where
  "ids0 = \<lparr>next_document = 1, next_entry_key = 1, next_context = 1, next_step = 1, next_revision = 1\<rparr>"

definition entry_of :: "nat \<Rightarrow> nat \<Rightarrow> session_history_entry" where
  "entry_of k d = \<lparr>entry_key = ''key-'' @ show_nat k, entry_document = ''document-'' @ show_nat d\<rparr>"

lemma entry_of_eq [simp]: "entry_of k d = entry_of k' d' \<longleftrightarrow> k = k' \<and> d = d'"
proof -
  have "show_nat a = show_nat b \<longleftrightarrow> a = b" for a b by (metis digits_value_show option.inject)
  then show ?thesis by (simp add: entry_of_def)
qed

lemma entry_of_sel [simp]:
  "entry_document (entry_of k d) = entry_document (entry_of k' d') \<longleftrightarrow> d = d'"
  "entry_key (entry_of k d) = entry_key (entry_of k' d') \<longleftrightarrow> k = k'"
  using entry_of_eq [of 0 d 0 d'] entry_of_eq [of k 0 k' 0] by (simp_all add: entry_of_def)

lemmas history_eval = attach_def push_def current_of_def allocate_step_def allocate_revision_def
  allocate_def checked_add_def u64_max_def bump_revision_def remove_replaced_document_children_def
  document_changes_def descendants_def descendants_loop.simps [of _ _ 0]
  descendants_loop.simps [of _ _ "Suc 0"] descendants_loop.simps [of _ _ "Suc (Suc 0)"] children_def retain_not_in_def or_insert_def
  Let_def

text \<open>A page with one child frame; the frame navigates, then the page does.\<close>

definition demo_ops :: "history_op list" where
  "demo_ops = [Attach 0 None (entry_of 1 1), Attach 1 (Some 0) (entry_of 2 2),
     Push 1 (entry_of 3 3), Push 0 (entry_of 4 4)]"

definition demo_state :: history_state where
  "demo_state = (\<lparr>revision = 3,
     steps = [\<lparr>step_id = 1, step_entries = [(0, entry_of 1 1), (1, entry_of 2 2)]\<rparr>,
              \<lparr>step_id = 2, step_entries = [(0, entry_of 1 1), (1, entry_of 3 3)]\<rparr>,
              \<lparr>step_id = 3, step_entries = [(0, entry_of 4 4)]\<rparr>],
     current = 2, parents = [(1, 0)]\<rparr>,
     \<lparr>next_document = 1, next_entry_key = 1, next_context = 1, next_step = 4, next_revision = 4\<rparr>)"

definition demo_start :: history_state where
  "demo_start = (\<lparr>revision = 1, steps = [\<lparr>step_id = 1, step_entries = []\<rparr>], current = 0, parents = []\<rparr>,
     \<lparr>next_document = 1, next_entry_key = 1, next_context = 1, next_step = 2, next_revision = 2\<rparr>)"

lemma demo_new:
  "position_new 0 1 = Some \<lparr>pos_index = 0, pos_length = 1\<rparr>"
  "joint_new \<lparr>pos_index = 0, pos_length = 1\<rparr> ids0 = Some demo_start"
  by (simp_all add: position_new_def joint_new_def ids0_def demo_start_def allocate_step_def
      allocate_revision_def allocate_def checked_add_def u64_max_def numeral_2_eq_2)

lemma demo_run: "run history_exec demo_ops demo_start = Some demo_state"
  by (simp add: demo_ops_def demo_start_def demo_state_def history_eval)

definition demo_plan :: session_history_traversal_plan where
  "demo_plan = \<lparr>plan_revision = 3, source_step = 3, target_step = 1, plan_delta = - 2,
     plan_changes = [\<lparr>change_context = 0, change_from = Some (entry_of 4 4), change_to = Some (entry_of 1 1)\<rparr>,
       \<lparr>change_context = 1, change_from = None, change_to = Some (entry_of 2 2)\<rparr>],
     target_entries = [(0, entry_of 1 1), (1, entry_of 2 2)]\<rparr>"

lemma demo_plan: "plan_traversal 1 (fst demo_state) = Some demo_plan"
proof -
  have "sorted_list_of_set {0, Suc 0} = [0, 1]" by simp
  then show ?thesis
    by (simp add: plan_traversal_def step_index_def demo_state_def demo_plan_def i64_of_usize_def i64_max_def
        current_of_def Let_def context_changes_def merged_contexts_def insert_commute)
qed

theorem history_commit_plan_witness:
  "\<exists>s'. commit_traversal demo_plan demo_state = Some (Some (- 2), s') \<and> current_step (fst s') = Some 1 \<and>
     current (fst s') = 0"
proof -
  have "next_revision (snd demo_state) < u64_max" by (simp add: demo_state_def u64_max_def)
  from history_commit_plan [OF demo_new demo_run demo_plan this]
  show ?thesis by (auto simp: demo_plan_def demo_state_def)
qed

theorem history_stale_plan_witness:
  "\<exists>s2. push 1 (entry_of 9 9) demo_state = Some s2 \<and> commit_traversal demo_plan s2 = Some (None, s2)"
proof -
  have "\<exists>s2. push 1 (entry_of 9 9) demo_state = Some s2 \<and> s2 \<noteq> demo_state"
    by (simp add: demo_state_def history_eval)
  then obtain s2 where s2: "push 1 (entry_of 9 9) demo_state = Some s2" "s2 \<noteq> demo_state" by blast
  have "run history_exec [] demo_state = Some demo_state" "history_exec (Push 1 (entry_of 9 9)) demo_state = Some s2"
    "changes_timeline (Push 1 (entry_of 9 9))" "run history_exec [] s2 = Some s2"
    using s2 by simp_all
  from history_stale_plan [OF demo_new demo_run demo_plan this(1-3) s2(2) this(4)] s2(1) show ?thesis by blast
qed

lemma history_push_example:
  "\<exists>s' new. push 0 (entry_of 9 9) demo_state = Some s' \<and> steps (fst s') = steps (fst demo_state) @ [new] \<and>
     map_of (step_entries new) 0 = Some (entry_of 9 9)"
proof -
  have "child_rel (fst demo_state) = {(0, 1)}" by (auto simp: child_rel_def demo_state_def)
  moreover have "acyclic {(0 :: nat, 1 :: nat)}" by (simp, simp add: acyclic_def)
  ultimately have "acyclic (child_rel (fst demo_state))" by simp
  moreover have "next_step (snd demo_state) < u64_max" "next_revision (snd demo_state) < u64_max"
    by (simp_all add: demo_state_def u64_max_def)
  ultimately show ?thesis
    using history_push [OF demo_new demo_run, of 0 "entry_of 9 9"] by (fastforce simp: demo_state_def)
qed

lemma history_step_for_entry_example:
  "step_for_entry 0 (entry_key (entry_of 1 1)) (fst demo_state) = Some (Some 2)"
proof -
  have k: "has_key 0 (entry_key (entry_of 1 1)) (steps (fst demo_state) ! j) \<longleftrightarrow> j = 0 \<or> j = 1"
    if "j < length (steps (fst demo_state))" for j
  proof -
    from that consider "j = 0" | "j = 1" | "j = 2" by (fastforce simp: demo_state_def)
    then show ?thesis by cases (simp_all add: demo_state_def has_key_def)
  qed
  have "case step_for_entry 0 (entry_key (entry_of 1 1)) (fst demo_state) of
      None \<Rightarrow> False
    | Some None \<Rightarrow> \<not> contains_entry 0 (entry_key (entry_of 1 1)) (fst demo_state)
    | Some (Some target) \<Rightarrow>
        (\<exists>a < length (steps (fst demo_state)). step_id (steps (fst demo_state) ! a) = target \<and>
          has_key 0 (entry_key (entry_of 1 1)) (steps (fst demo_state) ! a) \<and>
          (\<forall>b < length (steps (fst demo_state)). has_key 0 (entry_key (entry_of 1 1)) (steps (fst demo_state) ! b) \<longrightarrow>
             \<bar>int a - int (current (fst demo_state))\<bar> \<le> \<bar>int b - int (current (fst demo_state))\<bar>))"
    by (rule history_step_for_entry_nearest [OF demo_new demo_run]) (use k in auto)
  moreover have "contains_entry 0 (entry_key (entry_of 1 1)) (fst demo_state)"
    by (simp add: contains_entry_def has_key_def demo_state_def)
  ultimately obtain a where a: "a < length (steps (fst demo_state))"
    "step_for_entry 0 (entry_key (entry_of 1 1)) (fst demo_state) = Some (Some (step_id (steps (fst demo_state) ! a)))"
    "has_key 0 (entry_key (entry_of 1 1)) (steps (fst demo_state) ! a)"
    "\<forall>b < length (steps (fst demo_state)). has_key 0 (entry_key (entry_of 1 1)) (steps (fst demo_state) ! b) \<longrightarrow>
       \<bar>int a - int (current (fst demo_state))\<bar> \<le> \<bar>int b - int (current (fst demo_state))\<bar>"
    by (auto split: option.splits)
  have "a = 1"
    using a(3,4) k [OF a(1)] k [of 1] by (auto simp: demo_state_def)
  with a(2) show ?thesis by (simp add: demo_state_def)
qed

end
