(* ===== verification/Window_History.thy ===== *)
theory Window_History
  imports Moli_Prelude
begin

section \<open>The history of a window (moli-history, and its writers in moli-renderer-v8)\<close>

text \<open>
  \<^verbatim>\<open>WindowHistory\<close>: the entries of one window, its cursor and the revision by which bindings notice that
  a cached \<^verbatim>\<open>history.state\<close> is out of date.  Entries are shared, mutable objects: a
  \<^verbatim>\<open>HistoryEntryRef\<close> is an address and the store maps addresses to entries, so that two positions
  may hold the same entry and an entry can be written after it has left the list.  The parts of
  an entry the code never reads here are a type parameter.

  The renderer also writes the states of an entry past \<^verbatim>\<open>WindowHistory\<close>, without a new revision:
  \<^verbatim>\<open>pushState\<close> and \<^verbatim>\<open>replaceState\<close> store their snapshot after the entry is installed, and a navigation in the
  same document copies the states of the current entry before.  Both are modelled with the push or
  replacement they belong to, as one operation: no script runs, and so nothing is read, in between.
\<close>

subsection \<open>Entries (entry.rs)\<close>

datatype scroll_restoration = Auto | Manual

definition scroll_restoration_as_str :: "scroll_restoration \<Rightarrow> string" where
  "scroll_restoration_as_str v = (case v of Auto \<Rightarrow> ''auto'' | Manual \<Rightarrow> ''manual'')"

record ('v, 'x) window_history_entry =
  entry_history_state :: "'v option"
  entry_navigation_state :: "'v option"
  entry_scroll_restoration :: scroll_restoration
  entry_other :: 'x

type_synonym entry_ref = nat
type_synonym ('v, 'x) entry_store = "entry_ref \<Rightarrow> ('v, 'x) window_history_entry"


subsection \<open>The window (window.rs)\<close>

record window_history =
  window_entries :: "entry_ref list"
  window_current :: nat
  window_revision :: nat

definition window_history_new :: "entry_ref list \<Rightarrow> nat \<Rightarrow> window_history" where
  "window_history_new es c = \<lparr>window_entries = es, window_current = c, window_revision = 0\<rparr>"

definition current_entry :: "window_history \<Rightarrow> entry_ref option" where
  "current_entry w =
     (if window_current w < length (window_entries w) then Some (window_entries w ! window_current w) else None)"

definition invalidate_state_cache :: "window_history \<Rightarrow> window_history option" where
  "invalidate_state_cache w = map_option (\<lambda>n. w\<lparr>window_revision := n\<rparr>) (checked_add (window_revision w) 1)"

definition set_current_index :: "nat \<Rightarrow> window_history \<Rightarrow> window_history option" where
  "set_current_index i w =
     (if window_current w \<noteq> i then invalidate_state_cache (w\<lparr>window_current := i\<rparr>) else Some w)"

text \<open>The first position of an entry, compared by identity.\<close>

fun position_of :: "entry_ref \<Rightarrow> entry_ref list \<Rightarrow> nat option" where
  "position_of e [] = None"
| "position_of e (x # xs) = (if x = e then Some 0 else map_option Suc (position_of e xs))"

definition as_u32 :: "nat \<Rightarrow> nat" where
  "as_u32 n = n mod 2 ^ 32"

definition restore_entries :: "entry_ref list \<Rightarrow> window_history \<Rightarrow> window_history option" where
  "restore_entries es w =
     (let retained_current = Option.bind (current_entry w) (\<lambda>e. position_of e es);
          w = w\<lparr>window_entries := es\<rparr> in
      case retained_current of
        Some i \<Rightarrow> Some (w\<lparr>window_current := as_u32 i\<rparr>)
      | None \<Rightarrow> invalidate_state_cache w)"

definition get_scroll_restoration :: "('v, 'x) entry_store \<Rightarrow> window_history \<Rightarrow> scroll_restoration" where
  "get_scroll_restoration h w =
     (case current_entry w of None \<Rightarrow> Auto | Some e \<Rightarrow> entry_scroll_restoration (h e))"

definition write_scroll_restoration ::
  "entry_ref \<Rightarrow> scroll_restoration \<Rightarrow> ('v, 'x) entry_store \<Rightarrow> ('v, 'x) entry_store" where
  "write_scroll_restoration e v h = h(e := (h e)\<lparr>entry_scroll_restoration := v\<rparr>)"

definition window_push_entry ::
  "entry_ref \<Rightarrow> ('v, 'x) entry_store \<times> window_history \<Rightarrow>
   (entry_ref list \<times> ('v, 'x) entry_store \<times> window_history) option" where
  "window_push_entry e s =
     (let (h, w) = s;
          h = write_scroll_restoration e (get_scroll_restoration h w) h;
          next = min (window_current w + 1) (length (window_entries w));
          removed = drop next (window_entries w);
          w = w\<lparr>window_entries := take next (window_entries w) @ [e], window_current := as_u32 next\<rparr> in
      map_option (\<lambda>w. (removed, h, w)) (invalidate_state_cache w))"

definition window_replace_entry ::
  "entry_ref \<Rightarrow> ('v, 'x) entry_store \<times> window_history \<Rightarrow>
   (entry_ref option \<times> ('v, 'x) entry_store \<times> window_history) option" where
  "window_replace_entry e s =
     (let (h, w) = s; h = write_scroll_restoration e (get_scroll_restoration h w) h in
      case current_entry w of
        None \<Rightarrow> Some (None, h, w)
      | Some previous \<Rightarrow>
          map_option (\<lambda>w. (Some previous, h, w))
            (invalidate_state_cache (w\<lparr>window_entries := (window_entries w)[window_current w := e]\<rparr>)))"

definition window_state :: "('v, 'x) entry_store \<times> window_history \<Rightarrow> 'v option" where
  "window_state s = (let (h, w) = s in Option.bind (current_entry w) (\<lambda>e. entry_history_state (h e)))"

definition set_window_state ::
  "'v option \<Rightarrow> ('v, 'x) entry_store \<times> window_history \<Rightarrow> (('v, 'x) entry_store \<times> window_history) option" where
  "set_window_state v s =
     (let (h, w) = s;
          h = (case current_entry w of Some e \<Rightarrow> h(e := (h e)\<lparr>entry_history_state := v\<rparr>) | None \<Rightarrow> h) in
      map_option (Pair h) (invalidate_state_cache w))"

definition set_window_scroll_restoration ::
  "scroll_restoration \<Rightarrow> ('v, 'x) entry_store \<times> window_history \<Rightarrow> ('v, 'x) entry_store \<times> window_history" where
  "set_window_scroll_restoration v s =
     (let (h, w) = s in
      (case current_entry w of Some e \<Rightarrow> write_scroll_restoration e v h | None \<Rightarrow> h, w))"


subsection \<open>Writes of the renderer (history\_mutation.rs, navigation\_entry\_state.rs, same\_document.rs)\<close>

datatype history_mutation_kind = HistoryPush | HistoryReplace
datatype location_navigation_kind = LocationAssign | LocationReplace | LocationReload

definition write_history_state :: "entry_ref \<Rightarrow> 'v option \<Rightarrow> ('v, 'x) entry_store \<Rightarrow> ('v, 'x) entry_store" where
  "write_history_state e v h = h(e := (h e)\<lparr>entry_history_state := v\<rparr>)"

definition install_entry ::
  "history_mutation_kind \<Rightarrow> entry_ref \<Rightarrow> ('v, 'x) entry_store \<times> window_history \<Rightarrow>
   (('v, 'x) entry_store \<times> window_history) option" where
  "install_entry kind e s =
     (case kind of HistoryPush \<Rightarrow> map_option snd (window_push_entry e s)
      | HistoryReplace \<Rightarrow> map_option snd (window_replace_entry e s))"

text \<open>\<^verbatim>\<open>pushState\<close> and \<^verbatim>\<open>replaceState\<close>: the created entry is installed, then its state is written.\<close>

definition mutate_history ::
  "history_mutation_kind \<Rightarrow> entry_ref \<Rightarrow> 'v \<Rightarrow> ('v, 'x) entry_store \<times> window_history \<Rightarrow>
   (('v, 'x) entry_store \<times> window_history) option" where
  "mutate_history kind e snapshot s =
     map_option (\<lambda>(h, w). (write_history_state e (Some snapshot) h, w)) (install_entry kind e s)"

definition copy_entry_serialized_states ::
  "entry_ref \<Rightarrow> entry_ref \<Rightarrow> ('v, 'x) entry_store \<Rightarrow> ('v, 'x) entry_store" where
  "copy_entry_serialized_states src dst h =
     h(dst := (h dst)\<lparr>entry_history_state := entry_history_state (h src),
       entry_navigation_state := entry_navigation_state (h src)\<rparr>)"

definition navigate_same_document ::
  "location_navigation_kind \<Rightarrow> entry_ref \<Rightarrow> entry_ref \<Rightarrow> ('v, 'x) entry_store \<times> window_history \<Rightarrow>
   (('v, 'x) entry_store \<times> window_history) option" where
  "navigate_same_document kind current e s =
     (let (h, w) = s in
      case kind of
        LocationAssign \<Rightarrow> install_entry HistoryPush e (copy_entry_serialized_states current e h, w)
      | LocationReplace \<Rightarrow> install_entry HistoryReplace e (copy_entry_serialized_states current e h, w)
      | LocationReload \<Rightarrow> Some s)"

text \<open>The state is absent when it cannot be serialized.\<close>

definition set_navigation_entry_state :: "entry_ref \<Rightarrow> 'v option \<Rightarrow> ('v, 'x) entry_store \<Rightarrow> ('v, 'x) entry_store" where
  "set_navigation_entry_state e serialized h =
     (case serialized of Some v \<Rightarrow> h(e := (h e)\<lparr>entry_navigation_state := Some v\<rparr>) | None \<Rightarrow> h)"


subsection \<open>The revision guards the cached state\<close>

datatype 'v window_history_op =
    SetCurrentIndex nat | RestoreEntries "entry_ref list" | PushEntry entry_ref | ReplaceEntry entry_ref
  | SetState "'v option" | SetScrollRestoration scroll_restoration
  | MutateHistory history_mutation_kind entry_ref 'v
  | NavigateSameDocument location_navigation_kind entry_ref entry_ref
  | SetNavigationState entry_ref "'v option"

fun window_history_step ::
  "'v window_history_op \<Rightarrow> ('v, 'x) entry_store \<times> window_history \<Rightarrow> (('v, 'x) entry_store \<times> window_history) option" where
  "window_history_step (SetCurrentIndex i) s = map_option (Pair (fst s)) (set_current_index i (snd s))"
| "window_history_step (RestoreEntries es) s = map_option (Pair (fst s)) (restore_entries es (snd s))"
| "window_history_step (PushEntry e) s = map_option snd (window_push_entry e s)"
| "window_history_step (ReplaceEntry e) s = map_option snd (window_replace_entry e s)"
| "window_history_step (SetState v) s = set_window_state v s"
| "window_history_step (SetScrollRestoration v) s = Some (set_window_scroll_restoration v s)"
| "window_history_step (MutateHistory kind e snapshot) s = mutate_history kind e snapshot s"
| "window_history_step (NavigateSameDocument kind current e) s = navigate_same_document kind current e s"
| "window_history_step (SetNavigationState e v) s = Some (set_navigation_entry_state e v (fst s), snd s)"

text \<open>Lists of more entries than a 32-bit index can name are excluded.\<close>

fun op_fits :: "'v window_history_op \<Rightarrow> bool" where
  "op_fits (RestoreEntries es) \<longleftrightarrow> length es \<le> 2 ^ 32"
| "op_fits _ \<longleftrightarrow> True"

lemma invalidate_bumps: "invalidate_state_cache w = Some w' \<Longrightarrow> window_revision w' = window_revision w + 1"
  by (auto simp: invalidate_state_cache_def checked_add_def split: if_splits)

lemma write_scroll_keeps_state [simp]:
  "entry_history_state (write_scroll_restoration e v h a) = entry_history_state (h a)"
  by (simp add: write_scroll_restoration_def)

lemma position_of_Some: "position_of e es = Some i \<Longrightarrow> i < length es \<and> es ! i = e"
  by (induction es arbitrary: i) (auto split: if_splits)

lemma restore_keeps_current:
  assumes "restore_entries es w = Some w'" "length es \<le> 2 ^ 32" "window_revision w' = window_revision w"
  shows "current_entry w' = current_entry w"
proof (cases "Option.bind (current_entry w) (\<lambda>e. position_of e es)")
  case None
  then show ?thesis using assms(1,3) invalidate_bumps by (fastforce simp: restore_entries_def)
next
  case (Some i)
  then obtain e where e: "current_entry w = Some e" "position_of e es = Some i" by (auto simp: bind_eq_Some_conv)
  have "i < length es" "es ! i = e" using position_of_Some [OF e(2)] by auto
  moreover have "w' = w\<lparr>window_entries := es, window_current := i\<rparr>"
    using assms(1,2) Some \<open>i < length es\<close> by (simp add: restore_entries_def as_u32_def)
  ultimately show ?thesis using e(1) by (simp add: current_entry_def)
qed

text \<open>An installed entry either makes a new revision or there is no current entry at all.\<close>

lemma install_revision:
  "install_entry kind e (h, w) = Some (h', w') \<Longrightarrow>
   window_revision w' = window_revision w + 1 \<or> w' = w \<and> current_entry w = None"
  by (auto simp: install_entry_def window_push_entry_def window_replace_entry_def Let_def
      dest!: invalidate_bumps split: history_mutation_kind.splits option.splits)

lemma no_current_state: "current_entry w = None \<Longrightarrow> window_state (h, w) = None"
  by (simp add: window_state_def)

lemma window_step_revision:
  assumes "window_history_step x (h, w) = Some (h', w')" "op_fits x"
  shows "window_revision w' = window_revision w + 1 \<or>
    window_revision w' = window_revision w \<and> window_state (h', w') = window_state (h, w)"
proof (cases x)
  case (RestoreEntries es)
  then have r: "restore_entries es w = Some w'" "h' = h" using assms(1) by auto
  have "window_revision w' = window_revision w + 1 \<or> window_revision w' = window_revision w"
    using r(1) by (auto simp: restore_entries_def Let_def dest!: invalidate_bumps split: option.splits)
  then show ?thesis using restore_keeps_current [OF r(1)] assms(2) RestoreEntries r(2) by (auto simp: window_state_def)
next
  case (ReplaceEntry e)
  then show ?thesis
    using assms(1) by (auto simp: window_replace_entry_def window_state_def Let_def dest!: invalidate_bumps split: option.splits)
next
  case (MutateHistory kind e v)
  then show ?thesis
    using assms(1) by (auto simp: mutate_history_def no_current_state dest!: install_revision)
next
  case (NavigateSameDocument kind current e)
  then show ?thesis
    using assms(1)
    by (auto simp: navigate_same_document_def no_current_state dest!: install_revision split: location_navigation_kind.splits)
next
  case (SetNavigationState e v)
  then show ?thesis
    using assms(1) by (cases v; cases "current_entry w") (auto simp: set_navigation_entry_state_def window_state_def)
next
  case (SetScrollRestoration v)
  then show ?thesis
    using assms(1) by (cases "current_entry w") (auto simp: set_window_scroll_restoration_def window_state_def)
qed (use assms(1) in \<open>auto simp: set_current_index_def window_push_entry_def set_window_state_def Let_def
      dest!: invalidate_bumps split: if_splits\<close>)

lemma window_run_revision:
  assumes "run window_history_step ops s = Some s'" "list_all op_fits ops"
  shows "window_revision (snd s) \<le> window_revision (snd s')
    \<and> (window_revision (snd s') = window_revision (snd s) \<longrightarrow> window_state s' = window_state s)"
  using assms
proof (induction ops arbitrary: s)
  case (Cons x xs)
  then obtain s1 where s1: "window_history_step x s = Some s1" "run window_history_step xs s1 = Some s'"
    by (auto simp: bind_eq_Some_conv)
  have "window_revision (snd s1) = window_revision (snd s) + 1 \<or>
      window_revision (snd s1) = window_revision (snd s) \<and> window_state s1 = window_state s"
    using window_step_revision [of x "fst s" "snd s" "fst s1" "snd s1"] s1(1) Cons.prems(2) by simp
  with Cons.IH [OF s1(2)] Cons.prems(2) show ?case by auto
qed simp

text \<open>C34: A binding may keep a cached history.state for as long as the revision does not change:
  whatever navigations, traversals, restorations and writes happen in between, those of pushState, of replaceState and
  of navigations in the same document included, which write into the shared entries without a revision of their
  own, if the revision is the same then so is the state.  A restored list has at most 2 to the 32 entries.\<close>

theorem window_history_cache_valid:
  assumes "run window_history_step ops s = Some s'" "list_all op_fits ops"
    "window_revision (snd s') = window_revision (snd s)"
  shows "window_state s' = window_state s"
  using window_run_revision [OF assms(1,2)] assms(3) by simp

definition example_operations :: "nat window_history_op list" where
  "example_operations = [RestoreEntries [7, 5], SetScrollRestoration Manual, SetNavigationState 5 (Some 9),
     NavigateSameDocument LocationReload 5 8]"

definition example_window :: "(nat, unit) entry_store \<times> window_history" where
  "example_window = (\<lambda>_. \<lparr>entry_history_state = Some 3, entry_navigation_state = None, entry_scroll_restoration = Auto, entry_other = ()\<rparr>,
     window_history_new [4, 5, 6] 1)"

lemma window_history_cache_valid_witness:
  "\<exists>s s'. run window_history_step [MutateHistory HistoryReplace 5 (2 :: nat)] example_window = Some s
     \<and> run window_history_step example_operations s = Some s' \<and> window_state s' = window_state s \<and> window_state s = Some 2"
proof -
  obtain s s' where s: "run window_history_step [MutateHistory HistoryReplace 5 (2 :: nat)] example_window = Some s"
      "run window_history_step example_operations s = Some s'" "window_revision (snd s) = 1" "window_revision (snd s') = 1"
      "window_state s = Some 2"
    by (simp add: example_window_def example_operations_def mutate_history_def install_entry_def window_replace_entry_def
        invalidate_state_cache_def checked_add_def u64_max_def restore_entries_def current_entry_def window_history_new_def as_u32_def
        set_window_scroll_restoration_def set_navigation_entry_state_def navigate_same_document_def window_state_def
        write_history_state_def)
  moreover have "window_state s' = window_state s"
    by (rule window_history_cache_valid [OF s(2)]) (simp_all add: s example_operations_def)
  ultimately show ?thesis by blast
qed

end
