(* ===== verification/Action_Window.thy ===== *)
theory Action_Window
  imports Moli_Prelude "HOL-Library.Word"
begin

section \<open>Action batching windows (moli-action-window)\<close>

text \<open>
  \<^verbatim>\<open>ActionWindow\<close> of \<^verbatim>\<open>moli-action-window/src/{action,batch,window}.rs\<close>: input actions are
  collected for one second and compacted.  Scopes and renderer-specific actions are type
  parameters as in the source; coordinates are a type parameter as well, since no operation
  looks at them.  An \<^verbatim>\<open>Instant\<close> is its number of nanoseconds, bounded by a 64 bit signed
  count of seconds; an exhausted counter or an instant past the bound is a panic.
\<close>


subsection \<open>Actions (action.rs)\<close>

unbundle bit_operations_syntax

record 'f point =
  point_x :: 'f
  point_y :: 'f

type_synonym input_modifiers = "8 word"

definition modifiers_contains :: "input_modifiers \<Rightarrow> input_modifiers \<Rightarrow> bool" where
  "modifiers_contains a b \<longleftrightarrow> a AND b = b"

definition modifiers_bitor :: "input_modifiers \<Rightarrow> input_modifiers \<Rightarrow> input_modifiers" where
  "modifiers_bitor a b = a OR b"

datatype scroll_delta_mode = Pixel | Line | Page

record 'f scroll_action =
  scroll_position :: "'f point"
  delta_x :: 'f
  delta_y :: 'f
  delta_mode :: scroll_delta_mode
  scroll_modifiers :: input_modifiers

definition scroll_pixels :: "'f point \<Rightarrow> 'f \<Rightarrow> 'f \<Rightarrow> 'f scroll_action" where
  "scroll_pixels p dx dy =
     \<lparr>scroll_position = p, delta_x = dx, delta_y = dy, delta_mode = Pixel, scroll_modifiers = 0\<rparr>"

datatype mouse_button = LeftButton | MiddleButton | RightButton | BackButton | ForwardButton

record 'f click_action =
  click_position :: "'f point"
  click_button :: mouse_button
  click_count :: "32 word"
  click_modifiers :: input_modifiers

definition click_new :: "'f point \<Rightarrow> mouse_button \<Rightarrow> 32 word \<Rightarrow> 'f click_action" where
  "click_new p b n = \<lparr>click_position = p, click_button = b, click_count = n, click_modifiers = 0\<rparr>"

datatype ('o, 'f) window_action = Scroll "'f scroll_action" | Click "'f click_action" | Ordered 'o


subsection \<open>Batches (batch.rs)\<close>

datatype action_barrier = Screenshot | Screencast | Explicit

datatype action_batch_cause = Deadline | Barrier action_barrier

record 'v scheduled_action =
  sequence :: nat
  admitted_at :: nat
  sched_value :: 'v

record 'f scroll_run =
  run_steps :: "'f scroll_action scheduled_action list"

definition run_new :: "'f scroll_action scheduled_action \<Rightarrow> 'f scroll_run" where
  "run_new st = \<lparr>run_steps = [st]\<rparr>"

definition run_push :: "'f scroll_run \<Rightarrow> 'f scroll_action scheduled_action \<Rightarrow> 'f scroll_run" where
  "run_push r st = r\<lparr>run_steps := run_steps r @ [st]\<rparr>"

definition run_concat :: "'f scroll_run \<Rightarrow> 'f scroll_run \<Rightarrow> 'f scroll_run" where
  "run_concat r other = r\<lparr>run_steps := run_steps r @ run_steps other\<rparr>"

datatype ('s, 'o, 'f) planned_action =
    PScroll 's "'f scroll_run"
  | PClick 's "'f click_action scheduled_action"
  | POrdered 's "'o scheduled_action"

fun planned_scope :: "('s, 'o, 'f) planned_action \<Rightarrow> 's" where
  "planned_scope (PScroll sc _) = sc"
| "planned_scope (PClick sc _) = sc"
| "planned_scope (POrdered sc _) = sc"

fun planned_retained_count :: "('s, 'o, 'f) planned_action \<Rightarrow> nat" where
  "planned_retained_count (PScroll _ r) = length (run_steps r)"
| "planned_retained_count (PClick _ _) = 1"
| "planned_retained_count (POrdered _ _) = 1"

record ('s, 'o, 'f) action_batch =
  batch_id :: nat
  batch_opened_at :: nat
  batch_deadline :: nat
  released_at :: nat
  cause :: action_batch_cause
  batch_admitted_count :: nat
  batch_retained_count :: nat
  batch_actions :: "('s, 'o, 'f) planned_action list"


subsection \<open>The window (window.rs)\<close>

definition action_window_duration :: nat where
  "action_window_duration = 1000000000"

definition instant_max :: nat where
  "instant_max = 9223372036854775807 * 1000000000 + 999999999"

datatype action_compaction = Added | AppendedToScrollRun | ReplacedClick

datatype admission_state = Opened | Joined | Rotated

record ('s, 'o, 'f) action_admission =
  adm_state :: admission_state
  adm_batch_id :: nat
  adm_sequence :: nat
  adm_deadline :: nat
  compaction :: action_compaction
  ready_batch :: "('s, 'o, 'f) action_batch option"

record ('s, 'o, 'f) pending_window =
  window_id :: nat
  opened_at :: nat
  deadline :: nat
  admitted_action_count :: nat
  retained_action_count :: nat
  actions :: "('s, 'o, 'f) planned_action list"

record ('s, 'o, 'f) action_window =
  next_batch_id :: nat
  next_sequence :: nat
  open_window :: "('s, 'o, 'f) pending_window option"

text \<open>The loop of \<^verbatim>\<open>normalize_scroll_runs\<close>: the last unit of the output is extended in place.\<close>

fun normalize_push ::
  "('s, 'o, 'f) planned_action \<Rightarrow> ('s, 'o, 'f) planned_action list \<Rightarrow> ('s, 'o, 'f) planned_action list" where
  "normalize_push (PScroll sc r) out =
     (case rev out of
        PScroll sc' r' # before \<Rightarrow>
          if sc' = sc then rev before @ [PScroll sc' (run_concat r' r)] else out @ [PScroll sc r]
      | _ \<Rightarrow> out @ [PScroll sc r])"
| "normalize_push other out = out @ [other]"

definition normalize_scroll_runs :: "('s, 'o, 'f) planned_action list \<Rightarrow> ('s, 'o, 'f) planned_action list" where
  "normalize_scroll_runs as = fold normalize_push as []"

fun is_click_of :: "'s \<Rightarrow> ('s, 'o, 'f) planned_action \<Rightarrow> bool" where
  "is_click_of sc (PClick sc' _) = (sc' = sc)"
| "is_click_of sc _ = False"

text \<open>\<^verbatim>\<open>position\<close> followed by \<^verbatim>\<open>remove\<close>: the first click of the scope, if any, is taken out.\<close>

fun remove_first :: "('a \<Rightarrow> bool) \<Rightarrow> 'a list \<Rightarrow> 'a list option" where
  "remove_first P [] = None"
| "remove_first P (x # xs) = (if P x then Some xs else map_option (Cons x) (remove_first P xs))"

fun window_admit ::
  "'s \<Rightarrow> ('o, 'f) window_action \<Rightarrow> nat \<Rightarrow> nat \<Rightarrow> ('s, 'o, 'f) pending_window \<Rightarrow>
   action_compaction \<times> ('s, 'o, 'f) pending_window" where
  "window_admit sc (Scroll scroll) sq t w =
     (let w1 = w\<lparr>admitted_action_count := admitted_action_count w + 1,
                 retained_action_count := retained_action_count w + 1\<rparr>;
          st = \<lparr>sequence = sq, admitted_at = t, sched_value = scroll\<rparr> in
      case rev (actions w) of
        PScroll sc' r # before \<Rightarrow>
          if sc' = sc
          then (AppendedToScrollRun, w1\<lparr>actions := rev before @ [PScroll sc' (run_push r st)]\<rparr>)
          else (Added, w1\<lparr>actions := actions w @ [PScroll sc (run_new st)]\<rparr>)
      | _ \<Rightarrow> (Added, w1\<lparr>actions := actions w @ [PScroll sc (run_new st)]\<rparr>))"
| "window_admit sc (Click click) sq t w =
     (let w1 = w\<lparr>admitted_action_count := admitted_action_count w + 1\<rparr>;
          unit = PClick sc \<lparr>sequence = sq, admitted_at = t, sched_value = click\<rparr> in
      case remove_first (is_click_of sc) (actions w) of
        Some rest \<Rightarrow> (ReplacedClick, w1\<lparr>actions := normalize_scroll_runs rest @ [unit]\<rparr>)
      | None \<Rightarrow> (Added, w1\<lparr>retained_action_count := retained_action_count w + 1, actions := actions w @ [unit]\<rparr>))"
| "window_admit sc (Ordered a) sq t w =
     (Added, w\<lparr>admitted_action_count := admitted_action_count w + 1,
               retained_action_count := retained_action_count w + 1,
               actions := actions w @ [POrdered sc \<lparr>sequence = sq, admitted_at = t, sched_value = a\<rparr>]\<rparr>)"

fun planned_sequences :: "('s, 'o, 'f) planned_action \<Rightarrow> nat list" where
  "planned_sequences (PScroll _ r) = map sequence (run_steps r)"
| "planned_sequences (PClick _ c) = [sequence c]"
| "planned_sequences (POrdered _ a) = [sequence a]"

definition remove_scope :: "'s \<Rightarrow> ('s, 'o, 'f) pending_window \<Rightarrow> nat list \<times> ('s, 'o, 'f) pending_window" where
  "remove_scope sc w =
     (let kept = filter (\<lambda>a. planned_scope a \<noteq> sc) (actions w) in
      (concat (map planned_sequences (filter (\<lambda>a. planned_scope a = sc) (actions w))),
       w\<lparr>retained_action_count := sum_list (map planned_retained_count kept),
         actions := normalize_scroll_runs kept\<rparr>))"

definition into_batch :: "nat \<Rightarrow> action_batch_cause \<Rightarrow> ('s, 'o, 'f) pending_window \<Rightarrow> ('s, 'o, 'f) action_batch" where
  "into_batch t c w =
     \<lparr>batch_id = window_id w, batch_opened_at = opened_at w, batch_deadline = deadline w, released_at = t,
      cause = c, batch_admitted_count = admitted_action_count w,
      batch_retained_count = retained_action_count w, batch_actions = actions w\<rparr>"

definition window_new :: "('s, 'o, 'f) action_window" where
  "window_new = \<lparr>next_batch_id = 1, next_sequence = 1, open_window = None\<rparr>"

definition is_idle :: "('s, 'o, 'f) action_window \<Rightarrow> bool" where
  "is_idle w \<longleftrightarrow> open_window w = None"

definition next_deadline :: "('s, 'o, 'f) action_window \<Rightarrow> nat option" where
  "next_deadline w = map_option deadline (open_window w)"

definition pending_admitted_action_count :: "('s, 'o, 'f) action_window \<Rightarrow> nat" where
  "pending_admitted_action_count w = (case open_window w of None \<Rightarrow> 0 | Some p \<Rightarrow> admitted_action_count p)"

definition pending_retained_action_count :: "('s, 'o, 'f) action_window \<Rightarrow> nat" where
  "pending_retained_action_count w = (case open_window w of None \<Rightarrow> 0 | Some p \<Rightarrow> retained_action_count p)"

definition pending_planned_action_count :: "('s, 'o, 'f) action_window \<Rightarrow> nat" where
  "pending_planned_action_count w = (case open_window w of None \<Rightarrow> 0 | Some p \<Rightarrow> length (actions p))"

definition window_clear :: "('s, 'o, 'f) action_window \<Rightarrow> nat \<times> ('s, 'o, 'f) action_window" where
  "window_clear w = (pending_retained_action_count w, w\<lparr>open_window := None\<rparr>)"

definition open_fresh :: "nat \<Rightarrow> ('s, 'o, 'f) action_window \<Rightarrow> (('s, 'o, 'f) pending_window \<times> ('s, 'o, 'f) action_window) option" where
  "open_fresh t w =
     (if t + action_window_duration > instant_max then None
      else map_option (\<lambda>n.
        (let p = \<lparr>window_id = next_batch_id w, opened_at = t, deadline = t + action_window_duration,
                admitted_action_count = 0, retained_action_count = 0, actions = []\<rparr> in
         (p, w\<lparr>next_batch_id := n, open_window := Some p\<rparr>)))
        (checked_add (next_batch_id w) 1))"

definition window_push ::
  "'s \<Rightarrow> ('o, 'f) window_action \<Rightarrow> nat \<Rightarrow> ('s, 'o, 'f) action_window \<Rightarrow>
   (('s, 'o, 'f) action_admission \<times> ('s, 'o, 'f) action_window) option" where
  "window_push sc a t w =
     (let rotate = (case open_window w of None \<Rightarrow> False | Some p \<Rightarrow> deadline p \<le> t);
          ready = (if rotate then map_option (into_batch t Deadline) (open_window w) else None);
          w1 = (if rotate then w\<lparr>open_window := None\<rparr> else w);
          state = (if ready \<noteq> None then Rotated else if open_window w1 \<noteq> None then Joined else Opened) in
      case (case open_window w1 of Some p \<Rightarrow> Some (p, w1) | None \<Rightarrow> open_fresh t w1) of
        None \<Rightarrow> None
      | Some (p, w2) \<Rightarrow>
          map_option (\<lambda>n.
            (let (comp, p') = window_admit sc a (next_sequence w2) t p in
             (\<lparr>adm_state = state, adm_batch_id = window_id p', adm_sequence = next_sequence w2,
               adm_deadline = deadline p', compaction = comp, ready_batch = ready\<rparr>,
              w2\<lparr>next_sequence := n, open_window := Some p'\<rparr>)))
            (checked_add (next_sequence w2) 1))"

definition take_due :: "nat \<Rightarrow> ('s, 'o, 'f) action_window \<Rightarrow> ('s, 'o, 'f) action_batch option \<times> ('s, 'o, 'f) action_window" where
  "take_due now w =
     (case open_window w of
        None \<Rightarrow> (None, w)
      | Some p \<Rightarrow>
          if deadline p \<le> now then (Some (into_batch now Deadline p), w\<lparr>open_window := None\<rparr>) else (None, w))"

definition window_flush ::
  "action_barrier \<Rightarrow> nat \<Rightarrow> ('s, 'o, 'f) action_window \<Rightarrow> ('s, 'o, 'f) action_batch option \<times> ('s, 'o, 'f) action_window" where
  "window_flush b now w =
     (map_option (into_batch now (Barrier b)) (open_window w), w\<lparr>open_window := None\<rparr>)"

definition cancel_scope :: "'s \<Rightarrow> ('s, 'o, 'f) action_window \<Rightarrow> nat list \<times> ('s, 'o, 'f) action_window" where
  "cancel_scope sc w =
     (case open_window w of
        None \<Rightarrow> ([], w)
      | Some p \<Rightarrow>
          (let (removed, p') = remove_scope sc p in
           (removed, w\<lparr>open_window := if actions p' = [] then None else Some p'\<rparr>)))"


subsection \<open>What a window holds\<close>

text \<open>
  The retained actions of a plan in execution order, without the grouping into scroll runs.
\<close>

type_synonym ('s, 'o, 'f) flat_action = "'s \<times> ('o, 'f) window_action scheduled_action"

definition resched :: "('v \<Rightarrow> 'w) \<Rightarrow> 'v scheduled_action \<Rightarrow> 'w scheduled_action" where
  "resched f s = \<lparr>sequence = sequence s, admitted_at = admitted_at s, sched_value = f (sched_value s)\<rparr>"

fun flat :: "('s, 'o, 'f) planned_action \<Rightarrow> ('s, 'o, 'f) flat_action list" where
  "flat (PScroll sc r) = map (\<lambda>st. (sc, resched Scroll st)) (run_steps r)"
| "flat (PClick sc c) = [(sc, resched Click c)]"
| "flat (POrdered sc a) = [(sc, resched Ordered a)]"

definition flatten :: "('s, 'o, 'f) planned_action list \<Rightarrow> ('s, 'o, 'f) flat_action list" where
  "flatten as = concat (map flat as)"

fun is_click :: "('o, 'f) window_action \<Rightarrow> bool" where
  "is_click (Click _) = True"
| "is_click _ = False"

text \<open>The policy on the flat list: a click displaces the earlier click of its scope.\<close>

definition spec_admit ::
  "'s \<Rightarrow> ('o, 'f) window_action \<Rightarrow> nat \<Rightarrow> nat \<Rightarrow> ('s, 'o, 'f) flat_action list \<Rightarrow> ('s, 'o, 'f) flat_action list" where
  "spec_admit sc a sq t xs =
     (if is_click a then filter (\<lambda>x. \<not> (fst x = sc \<and> is_click (sched_value (snd x)))) xs else xs) @
     [(sc, \<lparr>sequence = sq, admitted_at = t, sched_value = a\<rparr>)]"

fun mergeable :: "('s, 'o, 'f) planned_action \<Rightarrow> ('s, 'o, 'f) planned_action \<Rightarrow> bool" where
  "mergeable (PScroll sc _) (PScroll sc' _) = (sc = sc')"
| "mergeable _ _ = False"

fun run_nonempty :: "('s, 'o, 'f) planned_action \<Rightarrow> bool" where
  "run_nonempty (PScroll _ r) = (run_steps r \<noteq> [])"
| "run_nonempty _ = True"

text \<open>Maximal scroll runs, none empty.\<close>

definition compacted :: "('s, 'o, 'f) planned_action list \<Rightarrow> bool" where
  "compacted as \<longleftrightarrow> successively (\<lambda>a b. \<not> mergeable a b) as \<and> (\<forall>a \<in> set as. run_nonempty a)"

definition one_click :: "('s, 'o, 'f) planned_action list \<Rightarrow> bool" where
  "one_click as \<longleftrightarrow> (\<forall>sc. length (filter (is_click_of sc) as) \<le> 1)"

lemma flatten_simps [simp]:
  "flatten [] = []" "flatten (a # as) = flat a @ flatten as" "flatten (as @ bs) = flatten as @ flatten bs"
  by (simp_all add: flatten_def)

lemma resched_sel [simp]: "sequence (resched f s) = sequence s" "sched_value (resched f s) = f (sched_value s)"
  by (simp_all add: resched_def)

text \<open>The shape of the last unit decides how a scroll step is added.\<close>

definition scroll_end :: "'s \<Rightarrow> ('s, 'o, 'f) planned_action list \<Rightarrow> bool" where
  "scroll_end sc as \<longleftrightarrow> (\<exists>before r. as = before @ [PScroll sc r])"

lemma rev_case_plain:
  assumes "\<not> scroll_end sc as"
  shows "(case rev as of PScroll sc' r # before \<Rightarrow> if sc' = sc then F sc' r before else G | _ \<Rightarrow> G) = G"
proof (cases as rule: rev_cases)
  case (snoc before u)
  with assms show ?thesis by (cases u) (auto simp: scroll_end_def)
qed simp

lemma flatten_normalize_push [simp]: "flatten (normalize_push a out) = flatten out @ flat a"
proof (cases a)
  case (PScroll sc r)
  show ?thesis
  proof (cases "scroll_end sc out")
    case True
    then obtain before r' where "out = before @ [PScroll sc r']" by (auto simp: scroll_end_def)
    with PScroll show ?thesis by (simp add: run_concat_def)
  next
    case False
    then show ?thesis using PScroll by (simp add: rev_case_plain)
  qed
qed simp_all

lemma flatten_fold_push: "flatten (fold normalize_push as out) = flatten out @ flatten as"
  by (induction as arbitrary: out) simp_all

lemma flatten_normalize [simp]: "flatten (normalize_scroll_runs as) = flatten as"
  by (simp add: normalize_scroll_runs_def flatten_fold_push)

lemma compacted_snoc:
  "compacted (as @ [a]) \<longleftrightarrow> compacted as \<and> run_nonempty a \<and> (as = [] \<or> \<not> mergeable (last as) a)"
  by (auto simp: compacted_def successively_append_iff)

lemma compacted_replace_run:
  "compacted (before @ [PScroll sc r]) \<Longrightarrow> run_steps r' \<noteq> [] \<Longrightarrow> compacted (before @ [PScroll sc r'])"
proof -
  have "mergeable a (PScroll sc r') = mergeable a (PScroll sc r)" for a :: "('a, 'b, 'c) planned_action"
    by (cases a) auto
  then show "compacted (before @ [PScroll sc r]) \<Longrightarrow> run_steps r' \<noteq> [] \<Longrightarrow> compacted (before @ [PScroll sc r'])"
    by (simp add: compacted_snoc)
qed

lemma compacted_plain:
  assumes "\<not> scroll_end sc as" "compacted as" "run_steps r \<noteq> []"
  shows "compacted (as @ [PScroll sc r])"
proof (cases as rule: rev_cases)
  case (snoc before u)
  then have "\<not> mergeable (last as) (PScroll sc r)"
    using assms(1) by (cases u) (auto simp: scroll_end_def)
  with assms show ?thesis unfolding compacted_snoc by simp
qed (use assms in \<open>simp add: compacted_def\<close>)

lemma compacted_push: "compacted out \<Longrightarrow> run_nonempty a \<Longrightarrow> compacted (normalize_push a out)"
proof (cases a)
  case (PScroll sc r)
  assume c: "compacted out" "run_nonempty a"
  show ?thesis
  proof (cases "scroll_end sc out")
    case True
    then obtain before r' where "out = before @ [PScroll sc r']" by (auto simp: scroll_end_def)
    with c PScroll compacted_replace_run [of before sc r' "run_concat r' r"] show ?thesis
      by (simp add: run_concat_def)
  next
    case False
    then show ?thesis
      using compacted_plain [OF False c(1)] c(2) PScroll by (simp add: rev_case_plain)
  qed
next
  case (PClick sc c)
  assume "compacted out" "run_nonempty a"
  with PClick show ?thesis by (cases "last out") (simp_all add: compacted_snoc)
next
  case (POrdered sc c)
  assume "compacted out" "run_nonempty a"
  with POrdered show ?thesis by (cases "last out") (simp_all add: compacted_snoc)
qed

lemma compacted_normalize: "\<forall>a \<in> set as. run_nonempty a \<Longrightarrow> compacted (normalize_scroll_runs as)"
proof -
  have "\<forall>a \<in> set as. run_nonempty a \<Longrightarrow> compacted out \<Longrightarrow> compacted (fold normalize_push as out)" for out
    by (induction as arbitrary: out) (simp_all add: compacted_push)
  moreover have "compacted []" by (simp add: compacted_def)
  ultimately show "\<forall>a \<in> set as. run_nonempty a \<Longrightarrow> ?thesis"
    unfolding normalize_scroll_runs_def by blast
qed

lemma filter_click_push: "filter (is_click_of sc) (normalize_push a out) = filter (is_click_of sc) (out @ [a])"
proof (cases a)
  case (PScroll sc' r)
  show ?thesis
  proof (cases "scroll_end sc' out")
    case True
    then obtain before r' where "out = before @ [PScroll sc' r']" by (auto simp: scroll_end_def)
    with PScroll show ?thesis by simp
  next
    case False
    then show ?thesis using PScroll by (simp add: rev_case_plain)
  qed
qed simp_all

lemma filter_click_normalize [simp]:
  "filter (is_click_of sc) (normalize_scroll_runs as) = filter (is_click_of sc) as"
proof -
  have "filter (is_click_of sc) (fold normalize_push as out) = filter (is_click_of sc) (out @ as)" for out
    by (induction as arbitrary: out) (simp_all add: filter_click_push)
  then show ?thesis by (simp add: normalize_scroll_runs_def)
qed

lemma one_click_normalize [simp]: "one_click (normalize_scroll_runs as) = one_click as"
  by (simp add: one_click_def)

lemma length_flat [simp]: "length (flat a) = planned_retained_count a"
  by (cases a) simp_all

lemma length_flatten: "length (flatten as) = sum_list (map planned_retained_count as)"
  by (induction as) simp_all

lemma flat_scope: "x \<in> set (flat a) \<Longrightarrow> fst x = planned_scope a"
  by (cases a) auto

lemma planned_sequences_flat: "planned_sequences a = map (\<lambda>x. sequence (snd x)) (flat a)"
  by (cases a) simp_all

text \<open>Filters on the plan are filters on the flat list.\<close>

lemma flatten_filter_scope:
  "flatten (filter (\<lambda>a. P (planned_scope a)) as) = filter (\<lambda>x. P (fst x)) (flatten as)"
proof (induction as)
  case (Cons a as)
  have "filter (\<lambda>x. P (fst x)) (flat a) = (if P (planned_scope a) then flat a else [])"
    by (auto simp: filter_id_conv filter_empty_conv flat_scope)
  with Cons show ?case by simp
qed simp

definition click_in :: "'s \<Rightarrow> ('s, 'o, 'f) flat_action \<Rightarrow> bool" where
  "click_in sc x \<longleftrightarrow> fst x = sc \<and> is_click (sched_value (snd x))"

lemma flat_not_click: "\<not> is_click_of sc a \<Longrightarrow> filter (\<lambda>x. \<not> click_in sc x) (flat a) = flat a"
  by (cases a) (auto simp: click_in_def filter_id_conv)

lemma flatten_no_click:
  "filter (is_click_of sc) as = [] \<Longrightarrow> filter (\<lambda>x. \<not> click_in sc x) (flatten as) = flatten as"
  by (induction as) (auto simp: flat_not_click split: if_splits)

lemma remove_first_None: "remove_first P xs = None \<longleftrightarrow> filter P xs = []"
  by (induction xs) auto

lemma remove_first_Some:
  "remove_first P xs = Some ys \<Longrightarrow> \<exists>as x bs. xs = as @ x # bs \<and> ys = as @ bs \<and> P x \<and> filter P as = []"
proof (induction xs arbitrary: ys)
  case (Cons x xs)
  show ?case
  proof (cases "P x")
    case True
    with Cons.prems show ?thesis by (intro exI [of _ "[]"]) auto
  next
    case False
    with Cons.prems obtain zs where z: "remove_first P xs = Some zs" "ys = x # zs" by auto
    from Cons.IH [OF z(1)] obtain as y bs where "xs = as @ y # bs" "zs = as @ bs" "P y" "filter P as = []" by blast
    with False z(2) show ?thesis by (intro exI [of _ "x # as"]) auto
  qed
qed simp

lemma flatten_remove_click:
  assumes "one_click as" "remove_first (is_click_of sc) as = Some rest"
  shows "flatten rest = filter (\<lambda>x. \<not> click_in sc x) (flatten as) \<and> filter (is_click_of sc) rest = [] \<and>
    length (flatten as) = Suc (length (flatten rest)) \<and> set rest \<subseteq> set as \<and> one_click rest"
proof -
  from remove_first_Some [OF assms(2)] obtain xs x ys where as: "as = xs @ x # ys" "rest = xs @ ys"
    "is_click_of sc x" "filter (is_click_of sc) xs = []" by blast
  have "length (filter (is_click_of sc) as) \<le> 1" using assms(1) by (simp add: one_click_def)
  then have ys: "filter (is_click_of sc) ys = []" using as by simp
  have x: "filter (\<lambda>x. \<not> click_in sc x) (flat x) = []" "planned_retained_count x = 1"
    using as(3) by (cases x; simp add: click_in_def)+
  have "length (filter (is_click_of sc') rest) \<le> 1" for sc'
  proof -
    have "length (filter (is_click_of sc') rest) \<le> length (filter (is_click_of sc') as)" by (simp add: as)
    also have "\<dots> \<le> 1" using assms(1) by (simp add: one_click_def)
    finally show ?thesis .
  qed
  then show ?thesis
    using as x ys flatten_no_click [OF as(4)] flatten_no_click [OF ys] by (auto simp: one_click_def)
qed


subsection \<open>The invariant of an open window\<close>

definition seqs :: "('s, 'o, 'f) flat_action list \<Rightarrow> nat list" where
  "seqs xs = map (\<lambda>x. sequence (snd x)) xs"

definition pending_ok :: "nat \<Rightarrow> ('s, 'o, 'f) pending_window \<Rightarrow> bool" where
  "pending_ok n p \<longleftrightarrow>
     compacted (actions p) \<and> one_click (actions p) \<and>
     retained_action_count p = length (flatten (actions p)) \<and>
     retained_action_count p \<le> admitted_action_count p \<and>
     sorted_wrt (<) (seqs (flatten (actions p))) \<and> (\<forall>q \<in> set (seqs (flatten (actions p))). q < n) \<and>
     deadline p = opened_at p + action_window_duration"

definition window_inv :: "('s, 'o, 'f) action_window \<Rightarrow> bool" where
  "window_inv w \<longleftrightarrow>
     (case open_window w of None \<Rightarrow> True | Some p \<Rightarrow> pending_ok (next_sequence w) p \<and> actions p \<noteq> [])"

lemma seqs_simps [simp]: "seqs [] = []" "seqs (x # xs) = sequence (snd x) # seqs xs" "seqs (xs @ ys) = seqs xs @ seqs ys"
  by (simp_all add: seqs_def)

lemma sorted_seqs_filter: "sorted_wrt (<) (seqs xs) \<Longrightarrow> sorted_wrt (<) (seqs (filter P xs))"
  by (induction xs) (auto simp: seqs_def)

lemma seqs_filter_subset: "set (seqs (filter P xs)) \<subseteq> set (seqs xs)"
  by (auto simp: seqs_def)

lemma spec_admit_plain: "\<not> is_click a \<Longrightarrow> spec_admit sc a n t xs = xs @ [(sc, \<lparr>sequence = n, admitted_at = t, sched_value = a\<rparr>)]"
  by (simp add: spec_admit_def)

lemma spec_admit_click: "is_click a \<Longrightarrow> spec_admit sc a n t xs =
    filter (\<lambda>x. \<not> click_in sc x) xs @ [(sc, \<lparr>sequence = n, admitted_at = t, sched_value = a\<rparr>)]"
  by (simp add: spec_admit_def click_in_def)

lemma spec_admit_seqs:
  assumes "sorted_wrt (<) (seqs xs)" "\<forall>q \<in> set (seqs xs). q < n"
  shows "sorted_wrt (<) (seqs (spec_admit sc a n t xs)) \<and> (\<forall>q \<in> set (seqs (spec_admit sc a n t xs)). q < Suc n)"
  using assms sorted_seqs_filter [OF assms(1), of "\<lambda>x. \<not> click_in sc x"]
    subsetD [OF seqs_filter_subset [of "\<lambda>x. \<not> click_in sc x" xs]]
  by (cases "is_click a") (auto simp: spec_admit_plain spec_admit_click sorted_wrt_append less_SucI)

lemma one_click_snoc: "one_click (as @ [a]) \<longleftrightarrow>
    one_click as \<and> (\<forall>sc. is_click_of sc a \<longrightarrow> filter (is_click_of sc) as = [])"
proof -
  have "length (filter (is_click_of sc) (as @ [a])) \<le> 1 \<longleftrightarrow>
      length (filter (is_click_of sc) as) \<le> 1 \<and> (is_click_of sc a \<longrightarrow> filter (is_click_of sc) as = [])" for sc
    by auto
  then show ?thesis unfolding one_click_def by blast
qed

text \<open>Appending a unit that is no scroll.\<close>

lemma compacted_snoc_other: "compacted as \<Longrightarrow> compacted (as @ [PClick sc c])" "compacted as \<Longrightarrow> compacted (as @ [POrdered sc d])"
  by (cases "last as"; simp add: compacted_snoc)+

text \<open>What admission does to the plan, whatever the action.\<close>

definition admitted_to :: "'s \<Rightarrow> ('o, 'f) window_action \<Rightarrow> nat \<Rightarrow> nat \<Rightarrow>
    ('s, 'o, 'f) pending_window \<Rightarrow> ('s, 'o, 'f) pending_window \<Rightarrow> bool" where
  "admitted_to sc a n t p p' \<longleftrightarrow>
     flatten (actions p') = spec_admit sc a n t (flatten (actions p)) \<and>
     compacted (actions p') \<and> one_click (actions p') \<and>
     retained_action_count p' = length (flatten (actions p')) \<and>
     admitted_action_count p' = Suc (admitted_action_count p) \<and>
     window_id p' = window_id p \<and> opened_at p' = opened_at p \<and> deadline p' = deadline p"

lemma admit_scroll:
  assumes "pending_ok n p"
  shows "admitted_to sc (Scroll scroll) n t p (snd (window_admit sc (Scroll scroll) n t p))"
proof (cases "scroll_end sc (actions p)")
  case True
  then obtain before r where b: "actions p = before @ [PScroll sc r]" by (auto simp: scroll_end_def)
  have "compacted (before @ [PScroll sc (run_push r st)])" for st
    using assms b compacted_replace_run [of before sc r] by (simp add: pending_ok_def run_push_def)
  with assms b show ?thesis
    by (simp add: admitted_to_def pending_ok_def spec_admit_plain run_push_def resched_def Let_def one_click_snoc)
next
  case False
  have "compacted (actions p @ [PScroll sc (run_new st)])" for st
    using assms compacted_plain [OF False] by (simp add: pending_ok_def run_new_def)
  with assms False show ?thesis
    by (simp add: admitted_to_def pending_ok_def spec_admit_plain run_new_def resched_def Let_def one_click_snoc
        rev_case_plain)
qed

lemma admit_click:
  assumes "pending_ok n p"
  shows "admitted_to sc (Click click) n t p (snd (window_admit sc (Click click) n t p))"
proof (cases "remove_first (is_click_of sc) (actions p)")
  case None
  then have none: "filter (is_click_of sc) (actions p) = []" by (simp add: remove_first_None)
  with assms None flatten_no_click [OF none] show ?thesis
    by (auto simp: admitted_to_def pending_ok_def spec_admit_click resched_def Let_def one_click_snoc
        intro: compacted_snoc_other)
next
  case (Some rest)
  have oc: "one_click (actions p)" using assms by (simp add: pending_ok_def)
  note r = flatten_remove_click [OF oc Some]
  have "compacted (normalize_scroll_runs rest)"
    using assms r by (intro compacted_normalize) (auto simp: pending_ok_def compacted_def)
  with assms Some r show ?thesis
    by (auto simp: admitted_to_def pending_ok_def spec_admit_click resched_def Let_def one_click_snoc
        intro: compacted_snoc_other)
qed

lemma admit_ordered:
  assumes "pending_ok n p"
  shows "admitted_to sc (Ordered d) n t p (snd (window_admit sc (Ordered d) n t p))"
  using assms by (auto simp: admitted_to_def pending_ok_def spec_admit_plain resched_def one_click_snoc
      intro: compacted_snoc_other)

lemma admit_spec:
  assumes "pending_ok n p"
  shows "admitted_to sc a n t p (snd (window_admit sc a n t p))"
    and "pending_ok (Suc n) (snd (window_admit sc a n t p))" "actions (snd (window_admit sc a n t p)) \<noteq> []"
proof -
  show ad: "admitted_to sc a n t p (snd (window_admit sc a n t p))"
    using assms by (cases a) (simp_all only: admit_scroll admit_click admit_ordered)
  let ?p = "snd (window_admit sc a n t p)"
  have len: "length (spec_admit sc a n t (flatten (actions p))) \<le> Suc (length (flatten (actions p)))"
    by (cases "is_click a") (simp_all add: spec_admit_plain spec_admit_click)
  show "pending_ok (Suc n) ?p"
    using ad assms len spec_admit_seqs [of "flatten (actions p)" n sc a t]
    by (auto simp: admitted_to_def pending_ok_def)
  have "flatten (actions ?p) \<noteq> []" using ad by (simp add: admitted_to_def spec_admit_def)
  then show "actions ?p \<noteq> []" by auto
qed


subsection \<open>The abstract window and the refinement\<close>

text \<open>
  What the window promises, without runs, counters of retained actions or normalisation: an
  open window is its id, its opening time, the number of admitted actions and the flat list
  of retained ones.
\<close>

record ('s, 'o, 'f) flat_open =
  fo_id :: nat
  fo_opened :: nat
  fo_admitted :: nat
  fo_items :: "('s, 'o, 'f) flat_action list"

record ('s, 'o, 'f) flat_window =
  fw_next_batch :: nat
  fw_next_seq :: nat
  fw_open :: "('s, 'o, 'f) flat_open option"

record ('s, 'o, 'f) flat_batch =
  fb_window :: "('s, 'o, 'f) flat_open"
  fb_released :: nat
  fb_cause :: action_batch_cause

datatype ('s, 'o, 'f) window_op =
    OpPush 's "('o, 'f) window_action" nat | OpTakeDue nat | OpFlush action_barrier nat
  | OpCancel 's | OpClear

fun window_step ::
  "('s, 'o, 'f) window_op \<Rightarrow> ('s, 'o, 'f) action_window \<Rightarrow>
   (('s, 'o, 'f) action_batch list \<times> ('s, 'o, 'f) action_window) option" where
  "window_step (OpPush sc a t) w =
     map_option (\<lambda>r. (case ready_batch (fst r) of None \<Rightarrow> [] | Some b \<Rightarrow> [b], snd r)) (window_push sc a t w)"
| "window_step (OpTakeDue t) w = Some (case fst (take_due t w) of None \<Rightarrow> [] | Some b \<Rightarrow> [b], snd (take_due t w))"
| "window_step (OpFlush b t) w =
     Some (case fst (window_flush b t w) of None \<Rightarrow> [] | Some b \<Rightarrow> [b], snd (window_flush b t w))"
| "window_step (OpCancel sc) w = Some ([], snd (cancel_scope sc w))"
| "window_step OpClear w = Some ([], snd (window_clear w))"

definition spec_admit_open :: "'s \<Rightarrow> ('o, 'f) window_action \<Rightarrow> nat \<Rightarrow> nat \<Rightarrow> ('s, 'o, 'f) flat_open \<Rightarrow> ('s, 'o, 'f) flat_open" where
  "spec_admit_open sc a n t o' =
     o'\<lparr>fo_admitted := Suc (fo_admitted o'), fo_items := spec_admit sc a n t (fo_items o')\<rparr>"

definition spec_fresh :: "nat \<Rightarrow> ('s, 'o, 'f) flat_window \<Rightarrow> ('s, 'o, 'f) flat_open" where
  "spec_fresh t s = \<lparr>fo_id = fw_next_batch s, fo_opened = t, fo_admitted = 0, fo_items = []\<rparr>"

definition spec_release :: "nat \<Rightarrow> action_batch_cause \<Rightarrow> ('s, 'o, 'f) flat_open \<Rightarrow> ('s, 'o, 'f) flat_batch" where
  "spec_release t c o' = \<lparr>fb_window = o', fb_released = t, fb_cause = c\<rparr>"

fun spec_step ::
  "('s, 'o, 'f) window_op \<Rightarrow> ('s, 'o, 'f) flat_window \<Rightarrow>
   (('s, 'o, 'f) flat_batch list \<times> ('s, 'o, 'f) flat_window) option" where
  "spec_step (OpPush sc a t) s =
     (case fw_open s of
        Some o' \<Rightarrow>
          if t < fo_opened o' + action_window_duration then
            (if fw_next_seq s < u64_max
             then Some ([], s\<lparr>fw_next_seq := Suc (fw_next_seq s),
               fw_open := Some (spec_admit_open sc a (fw_next_seq s) t o')\<rparr>)
             else None)
          else
            (if t + action_window_duration \<le> instant_max \<and> fw_next_batch s < u64_max \<and> fw_next_seq s < u64_max
             then Some ([spec_release t Deadline o'], s\<lparr>fw_next_batch := Suc (fw_next_batch s),
               fw_next_seq := Suc (fw_next_seq s),
               fw_open := Some (spec_admit_open sc a (fw_next_seq s) t (spec_fresh t s))\<rparr>)
             else None)
      | None \<Rightarrow>
          if t + action_window_duration \<le> instant_max \<and> fw_next_batch s < u64_max \<and> fw_next_seq s < u64_max
          then Some ([], s\<lparr>fw_next_batch := Suc (fw_next_batch s), fw_next_seq := Suc (fw_next_seq s),
               fw_open := Some (spec_admit_open sc a (fw_next_seq s) t (spec_fresh t s))\<rparr>)
          else None)"
| "spec_step (OpTakeDue t) s =
     (case fw_open s of
        Some o' \<Rightarrow>
          if fo_opened o' + action_window_duration \<le> t
          then Some ([spec_release t Deadline o'], s\<lparr>fw_open := None\<rparr>) else Some ([], s)
      | None \<Rightarrow> Some ([], s))"
| "spec_step (OpFlush b t) s =
     Some (case fw_open s of None \<Rightarrow> [] | Some o' \<Rightarrow> [spec_release t (Barrier b) o'], s\<lparr>fw_open := None\<rparr>)"
| "spec_step (OpCancel sc) s =
     Some ([], case fw_open s of
        None \<Rightarrow> s
      | Some o' \<Rightarrow>
          (let kept = filter (\<lambda>x. fst x \<noteq> sc) (fo_items o') in
           s\<lparr>fw_open := if kept = [] then None else Some (o'\<lparr>fo_items := kept\<rparr>)\<rparr>))"
| "spec_step OpClear s = Some ([], s\<lparr>fw_open := None\<rparr>)"

definition abs_open :: "('s, 'o, 'f) pending_window \<Rightarrow> ('s, 'o, 'f) flat_open" where
  "abs_open p = \<lparr>fo_id = window_id p, fo_opened = opened_at p, fo_admitted = admitted_action_count p,
     fo_items = flatten (actions p)\<rparr>"

definition abs_window :: "('s, 'o, 'f) action_window \<Rightarrow> ('s, 'o, 'f) flat_window" where
  "abs_window w = \<lparr>fw_next_batch = next_batch_id w, fw_next_seq = next_sequence w,
     fw_open = map_option abs_open (open_window w)\<rparr>"

definition abs_batch :: "('s, 'o, 'f) action_batch \<Rightarrow> ('s, 'o, 'f) flat_batch" where
  "abs_batch b = \<lparr>fb_window = \<lparr>fo_id = batch_id b, fo_opened = batch_opened_at b,
       fo_admitted = batch_admitted_count b, fo_items = flatten (batch_actions b)\<rparr>,
     fb_released = released_at b, fb_cause = cause b\<rparr>"

lemma abs_into_batch [simp]: "abs_batch (into_batch t c p) = spec_release t c (abs_open p)"
  by (simp add: abs_batch_def into_batch_def abs_open_def spec_release_def)

text \<open>Admission into a pending window, on the abstraction.\<close>

lemma abs_admit:
  "pending_ok n p \<Longrightarrow> abs_open (snd (window_admit sc a n t p)) = spec_admit_open sc a n t (abs_open p)"
  using admit_spec(1) [of n p sc a t] by (simp add: abs_open_def spec_admit_open_def admitted_to_def)

lemma fresh_ok:
  "pending_ok n \<lparr>window_id = i, opened_at = t, deadline = t + action_window_duration,
     admitted_action_count = 0, retained_action_count = 0, actions = []\<rparr>"
  by (simp add: pending_ok_def compacted_def one_click_def)

lemma abs_fresh:
  "abs_open \<lparr>window_id = next_batch_id w, opened_at = t, deadline = t + action_window_duration,
     admitted_action_count = 0, retained_action_count = 0, actions = []\<rparr> = spec_fresh t (abs_window w)"
  by (simp add: abs_open_def spec_fresh_def abs_window_def)

lemma filter_filter_le: "length (filter P (filter Q xs)) \<le> length (filter P xs)"
  by (induction xs) auto

lemma remove_scope_spec:
  assumes "pending_ok n p"
  shows "pending_ok n (snd (remove_scope sc p))"
    and "abs_open (snd (remove_scope sc p)) = (abs_open p)\<lparr>fo_items := filter (\<lambda>x. fst x \<noteq> sc) (flatten (actions p))\<rparr>"
    and "actions (snd (remove_scope sc p)) = [] \<longleftrightarrow> filter (\<lambda>x. fst x \<noteq> sc) (flatten (actions p)) = []"
proof -
  let ?kept = "filter (\<lambda>a. planned_scope a \<noteq> sc) (actions p)"
  have fl: "flatten ?kept = filter (\<lambda>x. fst x \<noteq> sc) (flatten (actions p))"
    by (rule flatten_filter_scope)
  have p: "compacted (actions p)" "one_click (actions p)" "sorted_wrt (<) (seqs (flatten (actions p)))"
    "\<forall>q \<in> set (seqs (flatten (actions p))). q < n" "retained_action_count p = length (flatten (actions p))"
    "retained_action_count p \<le> admitted_action_count p" "deadline p = opened_at p + action_window_duration"
    using assms by (simp_all add: pending_ok_def)
  have cn: "compacted (normalize_scroll_runs ?kept)"
    using p(1) by (intro compacted_normalize) (simp add: compacted_def)
  have "length (filter (is_click_of c) ?kept) \<le> length (filter (is_click_of c) (actions p))" for c
    by (rule filter_filter_le)
  then have oc: "one_click ?kept" using p(2) unfolding one_click_def by (meson order_trans)
  have "length (filter (\<lambda>x. fst x \<noteq> sc) (flatten (actions p))) \<le> admitted_action_count p"
    using p(5,6) length_filter_le [of "\<lambda>x. fst x \<noteq> sc" "flatten (actions p)"] by linarith
  with cn oc p sorted_seqs_filter [OF p(3)] subsetD [OF seqs_filter_subset [of _ "flatten (actions p)"]]
  show "pending_ok n (snd (remove_scope sc p))"
    unfolding pending_ok_def by (auto simp: remove_scope_def Let_def fl simp flip: length_flatten)
  show "abs_open (snd (remove_scope sc p)) = (abs_open p)\<lparr>fo_items := filter (\<lambda>x. fst x \<noteq> sc) (flatten (actions p))\<rparr>"
    by (simp add: remove_scope_def abs_open_def fl Let_def)
  have nonempty: "flatten as = [] \<longleftrightarrow> as = []" if "compacted as" for as :: "('a, 'b, 'c) planned_action list"
  proof (cases as)
    case (Cons a as')
    then have "run_nonempty a" using that by (simp add: compacted_def)
    with Cons show ?thesis by (cases a) auto
  qed simp
  show "actions (snd (remove_scope sc p)) = [] \<longleftrightarrow> filter (\<lambda>x. fst x \<noteq> sc) (flatten (actions p)) = []"
    using nonempty [OF cn] by (simp add: remove_scope_def Let_def fl)
qed

lemma push_joined:
  assumes "open_window w = Some p" "pending_ok (next_sequence w) p" "t < deadline p"
  shows "window_push sc a t w = (if next_sequence w < u64_max then
      Some (\<lparr>adm_state = Joined, adm_batch_id = window_id p, adm_sequence = next_sequence w,
          adm_deadline = deadline p, compaction = fst (window_admit sc a (next_sequence w) t p), ready_batch = None\<rparr>,
        w\<lparr>next_sequence := Suc (next_sequence w), open_window := Some (snd (window_admit sc a (next_sequence w) t p))\<rparr>)
      else None)"
  using assms admit_spec(1) [OF assms(2), of sc a t]
  by (cases "window_admit sc a (next_sequence w) t p")
    (simp add: window_push_def Let_def checked_add_def admitted_to_def)

lemma push_opened:
  assumes "open_window w = None \<or> (\<exists>p. open_window w = Some p \<and> deadline p \<le> t)"
  defines "q \<equiv> \<lparr>window_id = next_batch_id w, opened_at = t, deadline = t + action_window_duration,
      admitted_action_count = 0, retained_action_count = 0, actions = []\<rparr>"
  shows "window_push sc a t w =
    (if t + action_window_duration \<le> instant_max \<and> next_batch_id w < u64_max \<and> next_sequence w < u64_max then
      Some (\<lparr>adm_state = (if open_window w = None then Opened else Rotated), adm_batch_id = next_batch_id w,
          adm_sequence = next_sequence w, adm_deadline = t + action_window_duration,
          compaction = fst (window_admit sc a (next_sequence w) t q),
          ready_batch = map_option (into_batch t Deadline) (open_window w)\<rparr>,
        w\<lparr>next_batch_id := Suc (next_batch_id w), next_sequence := Suc (next_sequence w),
          open_window := Some (snd (window_admit sc a (next_sequence w) t q))\<rparr>)
      else None)"
proof -
  have "pending_ok (next_sequence w) q" unfolding q_def by (rule fresh_ok)
  from admit_spec(1) [OF this, of sc a t] have "window_id (snd (window_admit sc a (next_sequence w) t q)) = next_batch_id w"
    "deadline (snd (window_admit sc a (next_sequence w) t q)) = t + action_window_duration"
    by (simp_all add: admitted_to_def q_def)
  with assms(1) show ?thesis
    by (cases "window_admit sc a (next_sequence w) t q")
      (auto simp: window_push_def open_fresh_def Let_def checked_add_def simp flip: q_def)
qed

lemma step_push_refines:
  assumes "window_inv w"
  shows "map_option (\<lambda>r. (map abs_batch (fst r), abs_window (snd r))) (window_step (OpPush sc a t) w) =
      spec_step (OpPush sc a t) (abs_window w) \<and>
    (\<forall>r. window_step (OpPush sc a t) w = Some r \<longrightarrow> window_inv (snd r))"
proof (cases "\<exists>p. open_window w = Some p \<and> t < deadline p")
  case True
  then obtain p where p: "open_window w = Some p" "t < deadline p" by blast
  with assms have ok: "pending_ok (next_sequence w) p" by (simp add: window_inv_def)
  have "deadline p = fo_opened (abs_open p) + action_window_duration"
    using ok by (simp add: pending_ok_def abs_open_def)
  with p ok push_joined [OF p(1) ok p(2), of sc a] abs_admit [OF ok, of sc a t] admit_spec [OF ok, of sc a t]
  show ?thesis by (simp add: abs_window_def window_inv_def)
next
  case False
  then have o: "open_window w = None \<or> (\<exists>p. open_window w = Some p \<and> deadline p \<le> t)"
    by (cases "open_window w") auto
  have d: "deadline p = fo_opened (abs_open p) + action_window_duration" if "open_window w = Some p" for p
    using assms that by (simp add: window_inv_def pending_ok_def abs_open_def)
  let ?q = "\<lparr>window_id = next_batch_id w, opened_at = t, deadline = t + action_window_duration,
      admitted_action_count = 0, retained_action_count = 0, actions = []\<rparr>"
  have ok: "pending_ok (next_sequence w) ?q" by (rule fresh_ok)
  show ?thesis
    using o d push_opened [OF o, of sc a] abs_fresh [of w t] abs_admit [OF ok, of sc a t] admit_spec [OF ok, of sc a t]
    by (cases "open_window w") (auto simp: abs_window_def window_inv_def)
qed

lemma step_cancel_refines:
  assumes "window_inv w"
  shows "abs_window (snd (cancel_scope sc w)) = snd (the (spec_step (OpCancel sc) (abs_window w)))"
    and "window_inv (snd (cancel_scope sc w))"
proof -
  have "abs_window (snd (cancel_scope sc w)) = snd (the (spec_step (OpCancel sc) (abs_window w))) \<and>
      window_inv (snd (cancel_scope sc w))"
  proof (cases "open_window w")
    case (Some p)
    with assms have ok: "pending_ok (next_sequence w) p" by (simp add: window_inv_def)
    from remove_scope_spec [OF ok, of sc] Some show ?thesis
      by (auto simp: cancel_scope_def abs_window_def window_inv_def abs_open_def Let_def split: prod.split)
  qed (use assms in \<open>simp add: cancel_scope_def abs_window_def\<close>)
  then show "abs_window (snd (cancel_scope sc w)) = snd (the (spec_step (OpCancel sc) (abs_window w)))"
    "window_inv (snd (cancel_scope sc w))" by blast+
qed

interpretation window_refines: refinement window_step spec_step abs_window abs_batch window_inv
proof
  fix w :: "('s, 'o, 'f) action_window" and x r
  assume inv: "window_inv w"
  have d: "deadline p = fo_opened (abs_open p) + action_window_duration" if "open_window w = Some p" for p
    using inv that by (simp add: window_inv_def pending_ok_def abs_open_def)
  show "map_option (\<lambda>r. (map abs_batch (fst r), abs_window (snd r))) (window_step x w) = spec_step x (abs_window w)"
  proof (cases x)
    case (OpPush sc a t)
    then show ?thesis using step_push_refines [OF inv] by blast
  next
    case (OpCancel sc)
    then show ?thesis using step_cancel_refines [OF inv, of sc] by simp
  qed (use d in \<open>auto simp: take_due_def window_flush_def window_clear_def abs_window_def split: option.splits\<close>)
  show "window_inv (snd r)" if "window_step x w = Some r"
  proof (cases x)
    case (OpPush sc a t)
    then show ?thesis using step_push_refines [OF inv] that by blast
  next
    case (OpCancel sc)
    then show ?thesis using step_cancel_refines [OF inv, of sc] that by auto
  qed (use inv that in \<open>auto simp: take_due_def window_flush_def window_clear_def window_inv_def split: option.splits if_splits\<close>)
qed


subsection \<open>The window's promises\<close>

definition flat_new :: "('s, 'o, 'f) flat_window" where
  "flat_new = \<lparr>fw_next_batch = 1, fw_next_seq = 1, fw_open = None\<rparr>"

lemma window_new_inv: "window_inv window_new"
  by (simp add: window_inv_def window_new_def)

text \<open>C14: The compacting window implements the flat one: for every sequence of pushes, timer
  expiries, barrier flushes, scope cancellations and clears, it panics exactly when the flat
  window does, and otherwise releases the same batches (same window, time and cause, the same
  actions in the same order) and ends in the corresponding state.\<close>

theorem action_window_refines:
  "map_option (\<lambda>r. (map abs_batch (fst r), abs_window (snd r))) (run_out window_step ops window_new) =
   run_out spec_step ops flat_new"
  using window_refines.run_refines [OF window_new_inv, of ops]
  by (simp add: abs_window_def window_new_def flat_new_def)

text \<open>Batches are windows that were open.\<close>

definition batch_ok :: "('s, 'o, 'f) action_batch \<Rightarrow> bool" where
  "batch_ok b \<longleftrightarrow>
     compacted (batch_actions b) \<and> one_click (batch_actions b) \<and> batch_actions b \<noteq> [] \<and>
     batch_retained_count b = length (flatten (batch_actions b)) \<and>
     batch_retained_count b \<le> batch_admitted_count b \<and>
     (cause b = Deadline \<longrightarrow> batch_opened_at b + action_window_duration \<le> released_at b)"

lemma window_step_release:
  assumes "window_inv w" "window_step x w = Some r"
  shows "fst r = [] \<or> (\<exists>p t c. open_window w = Some p \<and> fst r = [into_batch t c p] \<and>
      (c = Deadline \<longrightarrow> deadline p \<le> t))"
proof (cases x)
  case (OpPush sc a t)
  show ?thesis
  proof (cases "\<exists>p. open_window w = Some p \<and> t < deadline p")
    case True
    then obtain p where p: "open_window w = Some p" "t < deadline p" by blast
    with assms(1) have "pending_ok (next_sequence w) p" by (simp add: window_inv_def)
    with push_joined [OF p(1) this p(2), of sc a] assms(2) OpPush show ?thesis by (auto split: if_splits)
  next
    case False
    then have o: "open_window w = None \<or> (\<exists>p. open_window w = Some p \<and> deadline p \<le> t)"
      by (cases "open_window w") auto
    with push_opened [OF o, of sc a] assms(2) OpPush show ?thesis by (auto split: if_splits)
  qed
next
  case (OpFlush b t)
  with assms(2) show ?thesis
    by (cases "open_window w") (auto simp: window_flush_def intro!: exI [of _ t] exI [of _ "Barrier b"])
qed (use assms(2) in \<open>auto simp: take_due_def split: option.splits if_splits\<close>)

lemma window_step_batch_ok:
  assumes "window_inv w" "window_step x w = Some r"
  shows "\<forall>b \<in> set (fst r). batch_ok b"
proof -
  have "pending_ok (next_sequence w) p \<and> actions p \<noteq> []" if "open_window w = Some p" for p
    using assms(1) that by (simp add: window_inv_def)
  with window_step_release [OF assms] show ?thesis
    by (auto simp: batch_ok_def into_batch_def pending_ok_def)
qed

text \<open>Every released batch is compacted: it is not empty, no two neighbouring units are scroll
  runs of one scope, no run is empty, no scope has two clicks, the reported count is the
  number of retained actions and does not exceed the admitted ones; and a batch released for
  its deadline is released no earlier than one second after its window opened.\<close>

lemma action_window_batches_compacted:
  assumes "run_out window_step ops window_new = Some (bs, w)" "b \<in> set bs"
  shows "batch_actions b \<noteq> [] \<and>
    successively (\<lambda>x y. \<not> mergeable x y) (batch_actions b) \<and> (\<forall>x \<in> set (batch_actions b). run_nonempty x) \<and>
    (\<forall>sc. length (filter (is_click_of sc) (batch_actions b)) \<le> 1) \<and>
    batch_retained_count b = sum_list (map planned_retained_count (batch_actions b)) \<and>
    batch_retained_count b \<le> batch_admitted_count b \<and>
    (cause b = Deadline \<longrightarrow> batch_opened_at b + action_window_duration \<le> released_at b)"
proof -
  have "batch_ok b"
    using window_refines.run_outputs [of batch_ok, OF window_step_batch_ok window_new_inv assms(1)] assms(2)
    by simp
  then show ?thesis by (simp add: batch_ok_def compacted_def one_click_def length_flatten)
qed

text \<open>The sequence numbers released by a batch, and those still pending.\<close>

definition batch_seqs :: "('s, 'o, 'f) action_batch \<Rightarrow> nat list" where
  "batch_seqs b = seqs (flatten (batch_actions b))"

definition pending_seqs :: "('s, 'o, 'f) action_window \<Rightarrow> nat list" where
  "pending_seqs w = (case open_window w of None \<Rightarrow> [] | Some p \<Rightarrow> seqs (flatten (actions p)))"

lemma pending_seqs_abs: "pending_seqs w = (case fw_open (abs_window w) of None \<Rightarrow> [] | Some o' \<Rightarrow> seqs (fo_items o'))"
  by (simp add: pending_seqs_def abs_window_def abs_open_def split: option.split)

lemma spec_admit_seq_set: "set (seqs (spec_admit sc a n t xs)) \<subseteq> insert n (set (seqs xs))"
  using seqs_filter_subset [of "\<lambda>x. \<not> click_in sc x" xs]
  by (cases "is_click a") (auto simp: spec_admit_plain spec_admit_click)

text \<open>A step releases everything pending or nothing; what is pending afterwards was pending or is new.\<close>

lemma spec_step_seqs:
  assumes "spec_step x s = Some (bs, s')"
  defines "pend \<equiv> \<lambda>s. case fw_open s of None \<Rightarrow> [] | Some o' \<Rightarrow> seqs (fo_items o')"
  shows "fw_next_seq s \<le> fw_next_seq s' \<and>
    (bs = [] \<and> set (pend s') \<subseteq> insert (fw_next_seq s) (set (pend s)) \<or>
     concat (map (\<lambda>b. seqs (fo_items (fb_window b))) bs) = pend s \<and> set (pend s') \<subseteq> {fw_next_seq s})"
proof (cases x)
  case (OpPush sc a t)
  with assms(1) spec_admit_seq_set [of sc a "fw_next_seq s" t] show ?thesis
    by (fastforce simp: pend_def spec_admit_open_def spec_fresh_def spec_release_def split: option.splits if_splits)
next
  case (OpCancel sc)
  with assms(1) show ?thesis
    using seqs_filter_subset by (fastforce simp: pend_def Let_def split: option.splits if_splits)
qed (use assms(1) in \<open>auto simp: pend_def spec_release_def split: option.splits if_splits\<close>)

lemma window_step_seqs:
  assumes "window_inv w" "window_step x w = Some (bs, w')"
  shows "next_sequence w \<le> next_sequence w' \<and>
    (bs = [] \<and> set (pending_seqs w') \<subseteq> insert (next_sequence w) (set (pending_seqs w)) \<or>
     concat (map batch_seqs bs) = pending_seqs w \<and> set (pending_seqs w') \<subseteq> {next_sequence w})"
proof -
  have "spec_step x (abs_window w) = Some (map abs_batch bs, abs_window w')"
    using window_refines.step_refines [OF assms(1), of x] assms(2) by simp
  note step = spec_step_seqs [OF this, folded pending_seqs_abs]
  have "concat (map (\<lambda>b. seqs (fo_items (fb_window b))) (map abs_batch bs)) = concat (map batch_seqs bs)"
    by (induction bs) (simp_all add: abs_batch_def batch_seqs_def)
  moreover have "fw_next_seq (abs_window v) = next_sequence v" for v :: "('a, 'b, 'c) action_window"
    by (simp add: abs_window_def)
  ultimately show ?thesis using step by simp
qed

lemma pending_seqs_inv:
  "window_inv w \<Longrightarrow> sorted_wrt (<) (pending_seqs w) \<and> (\<forall>q \<in> set (pending_seqs w). q < next_sequence w)"
  by (auto simp: window_inv_def pending_seqs_def pending_ok_def split: option.splits)

lemma run_seqs:
  "window_inv w \<Longrightarrow> run_out window_step ops w = Some (bs, w') \<Longrightarrow>
   sorted_wrt (<) (concat (map batch_seqs bs) @ pending_seqs w') \<and>
   (\<forall>q \<in> set (concat (map batch_seqs bs) @ pending_seqs w'). q \<in> set (pending_seqs w) \<or> next_sequence w \<le> q)"
proof (induction ops arbitrary: w bs)
  case Nil
  then show ?case by (auto simp: pending_seqs_inv)
next
  case (Cons x ops)
  then obtain b1 w1 b2 where s: "window_step x w = Some (b1, w1)" "run_out window_step ops w1 = Some (b2, w')"
    "bs = b1 @ b2" by (auto split: option.splits)
  have inv1: "window_inv w1" using window_refines.step_keeps [OF Cons.prems(1) s(1)] by simp
  note IH = Cons.IH [OF inv1 s(2)]
  have lt: "\<forall>q \<in> set (pending_seqs w). q < next_sequence w" "sorted_wrt (<) (pending_seqs w)"
    using pending_seqs_inv [OF Cons.prems(1)] by auto
  have mono: "next_sequence w \<le> next_sequence w1"
    and step: "b1 = [] \<and> set (pending_seqs w1) \<subseteq> insert (next_sequence w) (set (pending_seqs w)) \<or>
      concat (map batch_seqs b1) = pending_seqs w \<and> set (pending_seqs w1) \<subseteq> {next_sequence w}"
    using window_step_seqs [OF Cons.prems(1) s(1)] by blast+
  from step show ?case
  proof (elim disjE conjE)
    assume b1: "b1 = []" and sub: "set (pending_seqs w1) \<subseteq> insert (next_sequence w) (set (pending_seqs w))"
    have "q \<in> set (pending_seqs w) \<or> next_sequence w \<le> q"
      if "q \<in> set (pending_seqs w1) \<or> next_sequence w1 \<le> q" for q
      using that sub mono by auto
    with IH show ?case unfolding s(3) b1 by simp
  next
    assume b1: "concat (map batch_seqs b1) = pending_seqs w" and sub: "set (pending_seqs w1) \<subseteq> {next_sequence w}"
    have later: "next_sequence w \<le> q" if "q \<in> set (concat (map batch_seqs b2) @ pending_seqs w')" for q
    proof -
      have "q \<in> set (pending_seqs w1) \<or> next_sequence w1 \<le> q" using IH that by blast
      with sub mono show ?thesis by auto
    qed
    have "x < y" if "x \<in> set (pending_seqs w)" "y \<in> set (concat (map batch_seqs b2) @ pending_seqs w')" for x y
      using lt(1) later [OF that(2)] that(1) by (meson less_le_trans)
    then have "sorted_wrt (<) (pending_seqs w @ (concat (map batch_seqs b2) @ pending_seqs w'))"
      unfolding sorted_wrt_append using lt(2) IH by (simp add: sorted_wrt_append)
    moreover have "concat (map batch_seqs bs) = pending_seqs w @ concat (map batch_seqs b2)"
      by (simp add: s(3) b1)
    ultimately show ?case using later by auto
  qed
qed

text \<open>Execution order is admission order: over any run, the sequence numbers of all released
  actions, batch after batch, followed by those still pending, are strictly increasing, so
  that no action is executed twice, overtakes another, or outlives its release.\<close>

lemma action_window_order:
  assumes "run_out window_step ops window_new = Some (bs, w)"
  shows "sorted_wrt (<) (concat (map batch_seqs bs) @ pending_seqs w)"
  using run_seqs [OF window_new_inv assms] by blast


subsection \<open>A concrete window\<close>

definition demo_scroll :: "nat scroll_action" where
  "demo_scroll = scroll_pixels \<lparr>point_x = 1, point_y = 2\<rparr> 0 10"

definition demo_click :: "nat click_action" where
  "demo_click = click_new \<lparr>point_x = 1, point_y = 2\<rparr> LeftButton 1"

text \<open>Two clicks of one scope around its scrolling; the window then expires.\<close>

definition demo_window_ops :: "(nat, unit, nat) window_op list" where
  "demo_window_ops = [OpPush 0 (Scroll demo_scroll) 5, OpPush 0 (Click demo_click) 6,
     OpPush 0 (Scroll demo_scroll) 7, OpPush 0 (Click demo_click) 8, OpPush 1 (Ordered ()) 2000000000]"

definition demo_batch :: "(nat, unit, nat) action_batch" where
  "demo_batch = \<lparr>batch_id = 1, batch_opened_at = 5, batch_deadline = 1000000005, released_at = 2000000000,
     cause = Deadline, batch_admitted_count = 4, batch_retained_count = 3,
     batch_actions = [
       PScroll 0 \<lparr>run_steps = [\<lparr>sequence = 1, admitted_at = 5, sched_value = demo_scroll\<rparr>,
         \<lparr>sequence = 3, admitted_at = 7, sched_value = demo_scroll\<rparr>]\<rparr>,
       PClick 0 \<lparr>sequence = 4, admitted_at = 8, sched_value = demo_click\<rparr>]\<rparr>"

lemma demo_window_run:
  "\<exists>w. run_out window_step demo_window_ops window_new = Some ([demo_batch], w) \<and> pending_seqs w = [5]"
  by (simp add: demo_window_ops_def demo_batch_def window_new_def window_push_def open_fresh_def
      action_window_duration_def instant_max_def checked_add_def u64_max_def Let_def into_batch_def
      normalize_scroll_runs_def run_concat_def run_push_def run_new_def pending_seqs_def resched_def)

lemma action_window_batches_compacted_example:
  "\<exists>bs w. run_out window_step demo_window_ops window_new = Some (bs, w) \<and> demo_batch \<in> set bs \<and>
     successively (\<lambda>x y. \<not> mergeable x y) (batch_actions demo_batch) \<and>
     batch_retained_count demo_batch \<le> batch_admitted_count demo_batch"
proof -
  obtain w where w: "run_out window_step demo_window_ops window_new = Some ([demo_batch], w)"
    using demo_window_run by blast
  from action_window_batches_compacted [OF w, of demo_batch] w show ?thesis by auto
qed

lemma action_window_order_example:
  "\<exists>w. run_out window_step demo_window_ops window_new = Some ([demo_batch], w) \<and>
     sorted_wrt (<) (concat (map batch_seqs [demo_batch]) @ pending_seqs w)"
proof -
  obtain w where w: "run_out window_step demo_window_ops window_new = Some ([demo_batch], w)"
    using demo_window_run by blast
  from action_window_order [OF w] w show ?thesis by blast
qed

end
