(* ===== verification/Leveldb_Coding.thy ===== *)
theory Leveldb_Coding
  imports Moli_Prelude "HOL-Library.Word" "HOL-Library.Sublist"
begin

section \<open>LevelDB: primitive fields (moli-leveldb-parser, coding.rs and layout.rs)\<close>

text \<open>
  The decoder of \<^verbatim>\<open>moli-leveldb-parser/src/coding.rs\<close> over the fixed layouts of
  \<^verbatim>\<open>layout.rs\<close>.  A decoder is a function from the remaining bytes to a value and the bytes
  after it, or an error; each \<^verbatim>\<open>ensure!\<close> and \<^verbatim>\<open>bail!\<close> is an error value of its own.  The
  third-party \<^verbatim>\<open>crc32c\<close> checksum is an argument of the functions that use it.  The encoders
  below are those of the file format; the program only reads.
\<close>

unbundle bit_operations_syntax

type_synonym byte = "8 word"
type_synonym bytes = "byte list"

datatype leveldb_error =
    TruncatedField | VarintOverflow | InvalidVarint | Varint32Overflow | InvalidVarint32
  | NonzeroTrailer | InvalidPadding | RecordCrossesBlock | LogChecksumMismatch
  | UnfinishedBeforeFull | UnfinishedBeforeFirst | FragmentWithoutFirst | UnsupportedRecordType
  | RecordTooLarge | BlockOutsideTable | BlockTooLarge | BlockChecksumMismatch | InvalidSnappyLength | SnappyError
  | UnsupportedCompression | TruncatedRestarts | InvalidRestartCount | NoRestartPoints
  | RestartOutOfBounds | UnorderedRestarts | FirstRestartNotZero | InvalidPrefixLength
  | RestartInsideEntry | RestartSharedPrefix | InvalidTableSize | InvalidTableMagic
  | UnsupportedComparator | InvalidSequence | InvalidKey | UnsupportedLevel | UnsupportedTag
  | IncompleteManifest | TruncatedInternalKey | UnsupportedValueType
  | BatchSequenceOverflow | BatchCountMismatch | ConflictingValues
  | IoError | InvalidCurrent | InvalidLogNumber | DuplicateLog

type_synonym 'a result = "leveldb_error + 'a"
type_synonym 'a decoder = "bytes \<Rightarrow> ('a \<times> bytes) result"

definition res_bind :: "'a result \<Rightarrow> ('a \<Rightarrow> 'b result) \<Rightarrow> 'b result" where
  "res_bind m k = (case m of Inl e \<Rightarrow> Inl e | Inr x \<Rightarrow> k x)"

definition ensure :: "bool \<Rightarrow> leveldb_error \<Rightarrow> 'a result \<Rightarrow> 'a result" where
  "ensure c e k = (if c then k else Inl e)"

lemma res_bind_simps [simp]: "res_bind (Inl e) k = Inl e" "res_bind (Inr x) k = k x"
  by (simp_all add: res_bind_def)

lemma res_bind_cong [fundef_cong]:
  "m = m' \<Longrightarrow> (\<And>x. m' = Inr x \<Longrightarrow> k x = k' x) \<Longrightarrow> res_bind m k = res_bind m' k'"
  by (cases m') simp_all

lemma ensure_cong [fundef_cong]:
  "c = c' \<Longrightarrow> (c' \<Longrightarrow> k = k') \<Longrightarrow> ensure c e k = ensure c' e k'"
  by (simp add: ensure_def)

lemma res_bind_assoc: "res_bind (res_bind m k) l = res_bind m (\<lambda>x. res_bind (k x) l)"
  by (cases m) simp_all

lemma res_bind_Inr: "res_bind m k = Inr y \<longleftrightarrow> (\<exists>x. m = Inr x \<and> k x = Inr y)"
  by (cases m) simp_all

lemma ensure_simps [simp]: "ensure True e k = k" "ensure False e k = Inl e"
  by (simp_all add: ensure_def)

lemma ensure_Inr: "ensure c e k = Inr y \<longleftrightarrow> c \<and> k = Inr y"
  by (simp add: ensure_def)


subsection \<open>Decoders\<close>

definition take_bytes :: "nat \<Rightarrow> bytes decoder" where
  "take_bytes n bs = ensure (n \<le> length bs) TruncatedField (Inr (take n bs, drop n bs))"

text \<open>Little-endian numbers of a fixed width.\<close>

fun le_nat :: "bytes \<Rightarrow> nat" where
  "le_nat [] = 0"
| "le_nat (b # bs) = unat b + 256 * le_nat bs"

definition fixed_le :: "nat \<Rightarrow> nat decoder" where
  "fixed_le w bs = map_sum id (\<lambda>r. (le_nat (fst r), snd r)) (take_bytes w bs)"

function varint_loop :: "nat \<Rightarrow> 64 word \<Rightarrow> (64 word) decoder" where
  "varint_loop shift v bs =
     (if shift \<ge> 70 then Inl InvalidVarint
      else
        (case bs of
           [] \<Rightarrow> Inl TruncatedField
         | b # rest \<Rightarrow>
             ensure (shift \<noteq> 63 \<or> b \<le> 1) VarintOverflow
               (let v' = v OR push_bit shift (ucast (b AND 0x7F)) in
                if b < 0x80 then Inr (v', rest) else varint_loop (shift + 7) v' rest)))"
  by pat_completeness auto
termination
  by (relation "measure (\<lambda>(shift, v, bs). 70 - shift)") auto

definition varint :: "(64 word) decoder" where
  "varint bs = varint_loop 0 0 bs"

function varint32_loop :: "nat \<Rightarrow> 32 word \<Rightarrow> (32 word) decoder" where
  "varint32_loop shift v bs =
     (if shift \<ge> 35 then Inl InvalidVarint32
      else
        (case bs of
           [] \<Rightarrow> Inl TruncatedField
         | b # rest \<Rightarrow>
             ensure (shift \<noteq> 28 \<or> b \<le> 0x0F) Varint32Overflow
               (let v' = v OR push_bit shift (ucast (b AND 0x7F)) in
                if b < 0x80 then Inr (v', rest) else varint32_loop (shift + 7) v' rest)))"
  by pat_completeness auto
termination
  by (relation "measure (\<lambda>(shift, v, bs). 35 - shift)") auto

declare varint_loop.simps [simp del] varint32_loop.simps [simp del]

definition varint32 :: "(32 word) decoder" where
  "varint32 bs = varint32_loop 0 0 bs"

definition slice :: "bytes decoder" where
  "slice bs = res_bind (varint32 bs) (\<lambda>r. take_bytes (unat (fst r)) (snd r))"

definition masked_crc :: "(bytes \<Rightarrow> 32 word) \<Rightarrow> bytes \<Rightarrow> 32 word" where
  "masked_crc crc32c bs = word_rotr 15 (crc32c bs) + 0xA282EAD8"


text \<open>Every decoder of a variable-length field consumes at least one byte.\<close>

lemma varint_loop_shorter: "varint_loop s v bs = Inr (w, rest) \<Longrightarrow> length rest < length bs"
proof (induction s v bs rule: varint_loop.induct)
  case (1 s v bs)
  then show ?case
    by (subst (asm) varint_loop.simps [of s v bs])
      (fastforce simp: Let_def ensure_Inr split: if_splits list.splits)
qed

lemma varint32_loop_shorter: "varint32_loop s v bs = Inr (w, rest) \<Longrightarrow> length rest < length bs"
proof (induction s v bs rule: varint32_loop.induct)
  case (1 s v bs)
  then show ?case
    by (subst (asm) varint32_loop.simps [of s v bs])
      (fastforce simp: Let_def ensure_Inr split: if_splits list.splits)
qed

lemma varint_shorter: "varint bs = Inr (w, rest) \<Longrightarrow> length rest < length bs"
  by (simp add: varint_def varint_loop_shorter)

lemma varint32_shorter: "varint32 bs = Inr (w, rest) \<Longrightarrow> length rest < length bs"
  by (simp add: varint32_def varint32_loop_shorter)

lemma take_bytes_Inr: "take_bytes n bs = Inr (x, rest) \<longleftrightarrow> n \<le> length bs \<and> x = take n bs \<and> rest = drop n bs"
  by (auto simp: take_bytes_def ensure_Inr)

lemma slice_shorter: "slice bs = Inr (x, rest) \<Longrightarrow> length rest < length bs"
  by (fastforce simp: slice_def res_bind_Inr take_bytes_Inr dest: varint32_shorter)


subsection \<open>The encoders of the format\<close>

fun le_bytes :: "nat \<Rightarrow> nat \<Rightarrow> bytes" where
  "le_bytes 0 n = []"
| "le_bytes (Suc w) n = word_of_nat (n mod 256) # le_bytes w (n div 256)"

function put_varint :: "nat \<Rightarrow> bytes" where
  "put_varint n = (if n < 128 then [word_of_nat n] else word_of_nat (128 + n mod 128) # put_varint (n div 128))"
  by pat_completeness auto
termination
  by (relation "measure id") auto

declare put_varint.simps [simp del]

lemma put_varint_nonempty [simp]: "0 < length (put_varint n)" "put_varint n \<noteq> []"
  by (simp_all add: put_varint.simps [of n])

lemma put_varint_small: "n < 128 \<Longrightarrow> put_varint n = [word_of_nat n]"
  by (simp add: put_varint.simps)

definition put_slice :: "bytes \<Rightarrow> bytes" where
  "put_slice bs = put_varint (length bs) @ bs"

text \<open>
  The interface between the field decoders and the readers of records built from them: a
  decoder reads back what the format writes, and leaves what follows.
\<close>

locale codec =
  fixes enc :: "'v \<Rightarrow> bytes"
    and dec :: "'a decoder"
    and ok :: "'v \<Rightarrow> bool"
    and val :: "'v \<Rightarrow> 'a"
  assumes dec_enc: "ok x \<Longrightarrow> dec (enc x @ rest) = Inr (val x, rest)"
begin

lemma dec_enc_bind: "ok x \<Longrightarrow> res_bind (dec (enc x @ rest)) k = k (val x, rest)"
  by (simp add: dec_enc)

lemma enc_inj: "ok x \<Longrightarrow> ok y \<Longrightarrow> enc x = enc y \<Longrightarrow> val x = val y"
  using dec_enc [of x "[]"] dec_enc [of y "[]"] by simp

text \<open>No encoding is a proper prefix of another, so that fields can be concatenated.\<close>

lemma enc_prefix_free: "ok x \<Longrightarrow> ok y \<Longrightarrow> prefix (enc x) (enc y) \<Longrightarrow> enc x = enc y"
proof -
  assume "ok x" "ok y" "prefix (enc x) (enc y)"
  then obtain r where "enc y = enc x @ r" by (auto simp: prefix_def)
  with \<open>ok x\<close> \<open>ok y\<close> dec_enc [of x r] dec_enc [of y "[]"] show "enc x = enc y" by simp
qed

end


subsection \<open>Fixed-width fields\<close>

lemma le_bytes_length [simp]: "length (le_bytes w n) = w"
  by (induction w n rule: le_bytes.induct) simp_all

lemma le_nat_bytes [simp]: "n < 256 ^ w \<Longrightarrow> le_nat (le_bytes w n) = n"
proof (induction w n rule: le_bytes.induct)
  case (2 w n)
  have "n div 256 < 256 ^ w" using 2(2) by (simp add: less_mult_imp_div_less mult.commute)
  moreover have "unat (word_of_nat (n mod 256) :: byte) = n mod 256"
    by (simp add: unsigned_of_nat take_bit_eq_mod)
  ultimately show ?case using 2(1) by simp
qed simp

interpretation fixed: codec "le_bytes w" "fixed_le w" "\<lambda>n. n < 256 ^ w" id for w
  by unfold_locales (simp add: fixed_le_def take_bytes_def ensure_def)

lemma take_bytes_append [simp]: "take_bytes (length xs) (xs @ rest) = Inr (xs, rest)"
  by (simp add: take_bytes_def)


subsection \<open>Variable-length integers\<close>

lemma or_shift_add: "v < 2 ^ s \<Longrightarrow> v OR push_bit s x = v + 2 ^ s * x" for v x s :: nat
proof -
  assume v: "v < 2 ^ s"
  have "v AND push_bit s x = 0"
  proof (rule bit_eqI)
    fix n
    have "\<not> bit v n" if "s \<le> n"
      using v that by (metis bit_take_bit_iff not_less take_bit_nat_eq_self_iff)
    then show "bit (v AND push_bit s x) n = bit 0 n" by (auto simp: bit_and_iff bit_push_bit_iff)
  qed
  then have "v OR push_bit s x = v + push_bit s x" by (simp add: disjunctive_add_eq_or)
  then show ?thesis by (simp add: push_bit_eq_mult mult.commute)
qed

lemma byte_low7: "unat (b AND 0x7F) = unat b mod 128" for b :: byte
proof -
  have "unat b AND 127 = take_bit 7 (unat b)"
    using take_bit_eq_mask [of 7 "unat b"] by (simp add: mask_eq_exp_minus_1)
  then show ?thesis by (simp add: unsigned_and_eq take_bit_eq_mod)
qed

text \<open>One step of the loops on the value read so far.\<close>

lemma varint_or:
  fixes v :: "'a::len word"
  assumes "unat v < 2 ^ s" "2 ^ s * (unat b mod 128) < 2 ^ LENGTH('a)" "8 \<le> LENGTH('a)"
  shows "unat (v OR push_bit s (ucast (b AND 0x7F :: byte))) = unat v + 2 ^ s * (unat b mod 128)"
proof -
  have "unat (ucast (b AND 0x7F) :: 'a word) = unat b mod 128"
  proof -
    have "unat b mod 128 < 2 ^ 8" by (simp add: order.strict_trans [of _ 128])
    also have "\<dots> \<le> 2 ^ LENGTH('a)" using assms(3) power_increasing [of 8 "LENGTH('a)" "2 :: nat"] by simp
    finally show ?thesis by (simp add: unsigned_ucast_eq byte_low7 take_bit_eq_mod)
  qed
  then have "unat (push_bit s (ucast (b AND 0x7F)) :: 'a word) = push_bit s (unat b mod 128)"
    using assms(2) unfolding unsigned_push_bit_eq by (simp add: push_bit_eq_mult take_bit_eq_mod mult.commute)
  then show ?thesis by (simp add: unsigned_or_eq or_shift_add [OF assms(1)])
qed

lemma unat_word: "unat w = m \<Longrightarrow> w = word_of_nat m"
  by auto

lemma unat_byte: "n < 256 \<Longrightarrow> unat (word_of_nat n :: byte) = n"
  by (simp add: unsigned_of_nat take_bit_eq_mod)

lemma byte_less: "n < 256 \<Longrightarrow> (word_of_nat n :: byte) < 0x80 \<longleftrightarrow> n < 128"
  by (simp add: word_less_nat_alt unat_byte)

text \<open>The bounds of the loops on a number that still fits.\<close>

lemma varint_bounds:
  fixes v n s l :: nat
  assumes "v + 2 ^ s * n < 2 ^ l"
  shows "2 ^ s * (n mod 128) < 2 ^ l" and "v + 2 ^ s * (n mod 128) + 2 ^ (s + 7) * (n div 128) = v + 2 ^ s * n"
    and "128 \<le> n \<Longrightarrow> s + 7 < l"
proof -
  have "2 ^ s * (n mod 128) \<le> 2 ^ s * n" by simp
  then show "2 ^ s * (n mod 128) < 2 ^ l" using assms by linarith
  have "2 ^ (s + 7) * (n div 128) = 2 ^ s * (128 * (n div 128))" by (simp add: power_add)
  then have "2 ^ s * (n mod 128) + 2 ^ (s + 7) * (n div 128) = 2 ^ s * (n mod 128 + 128 * (n div 128))"
    by (simp only: distrib_left)
  then show "v + 2 ^ s * (n mod 128) + 2 ^ (s + 7) * (n div 128) = v + 2 ^ s * n" by simp
  show "s + 7 < l" if "128 \<le> n"
  proof -
    have "2 ^ (s + 7) = 2 ^ s * (128 :: nat)" by (simp add: power_add)
    also have "\<dots> \<le> 2 ^ s * n" using that by simp
    finally have "2 ^ (s + 7) < (2 :: nat) ^ l" using assms by linarith
    then show ?thesis by (rule power_less_imp_less_exp [rotated]) simp
  qed
qed

lemma varint_step_bound: "v < 2 ^ s \<Longrightarrow> v + 2 ^ s * (n mod 128) < 2 ^ (s + 7)" for v n s :: nat
proof -
  assume "v < 2 ^ s"
  then have "v + 2 ^ s * (n mod 128) < 2 ^ s * (1 + n mod 128)" by (simp add: algebra_simps)
  also have "\<dots> \<le> 2 ^ s * 128" by (intro mult_le_mono2) (simp add: Suc_le_eq)
  finally show ?thesis by (simp add: power_add)
qed

lemma varint_loop_put:
  "unat v + 2 ^ s * n < 2 ^ 64 \<Longrightarrow> unat v < 2 ^ s \<Longrightarrow> s \<le> 63 \<Longrightarrow> 7 dvd s \<Longrightarrow>
   varint_loop s v (put_varint n @ rest) = Inr (word_of_nat (unat v + 2 ^ s * n), rest)"
proof (induction n arbitrary: s v rule: put_varint.induct)
  case (1 n)
  define c where "c = (if n < 128 then n else 128 + n mod 128)"
  define v' where "v' = v OR push_bit s (ucast (word_of_nat c AND 0x7F :: byte))"
  have c: "c < 256" "c mod 128 = n mod 128" "c < 128 \<longleftrightarrow> n < 128" by (auto simp: c_def)
  note b = varint_bounds [OF 1(2)]
  have v': "unat v' = unat v + 2 ^ s * (n mod 128)"
    unfolding v'_def using 1(2,3) b(1) c by (subst varint_or) (simp_all add: unat_byte)
  have top: "s \<noteq> 63 \<or> (word_of_nat c :: byte) \<le> 1"
  proof (cases "s = 63")
    case True
    then have "n \<le> 1" using 1(2) by simp
    then show ?thesis by (simp add: c_def word_le_nat_alt unat_byte)
  qed simp
  have step: "varint_loop s v (word_of_nat c # xs) =
      (if n < 128 then Inr (v', xs) else varint_loop (s + 7) v' xs)" for xs
    using 1(4) top c by (simp add: varint_loop.simps [of s v] byte_less v'_def Let_def ensure_def)
  show ?case
  proof (cases "n < 128")
    case True
    then have "v' = word_of_nat (unat v + 2 ^ s * n)" using v' by (intro unat_word) simp
    with True step show ?thesis by (simp add: put_varint.simps [of n] c_def)
  next
    case False
    have "s + 7 \<le> 63" using b(3) False by simp
    moreover have "unat v' < 2 ^ (s + 7)" unfolding v' by (rule varint_step_bound [OF 1(3)])
    moreover have dvd: "7 dvd s + 7" using 1(5) by simp
    moreover have eq: "unat v' + 2 ^ (s + 7) * (n div 128) = unat v + 2 ^ s * n"
      using b(2) v' by simp
    ultimately have "varint_loop (s + 7) v' (put_varint (n div 128) @ rest) =
        Inr (word_of_nat (unat v + 2 ^ s * n), rest)"
      using 1(1) [OF False, of v' "s + 7", unfolded eq] 1(2) dvd by blast
    with False step show ?thesis
      by (simp add: put_varint.simps [of n] c_def del: of_nat_add of_nat_mult)
  qed
qed

lemma varint32_loop_put:
  "unat v + 2 ^ s * n < 2 ^ 32 \<Longrightarrow> unat v < 2 ^ s \<Longrightarrow> s \<le> 28 \<Longrightarrow> 7 dvd s \<Longrightarrow>
   varint32_loop s v (put_varint n @ rest) = Inr (word_of_nat (unat v + 2 ^ s * n), rest)"
proof (induction n arbitrary: s v rule: put_varint.induct)
  case (1 n)
  define c where "c = (if n < 128 then n else 128 + n mod 128)"
  define v' where "v' = v OR push_bit s (ucast (word_of_nat c AND 0x7F :: byte))"
  have c: "c < 256" "c mod 128 = n mod 128" "c < 128 \<longleftrightarrow> n < 128" by (auto simp: c_def)
  note b = varint_bounds [OF 1(2)]
  have v': "unat v' = unat v + 2 ^ s * (n mod 128)"
    unfolding v'_def using 1(2,3) b(1) c by (subst varint_or) (simp_all add: unat_byte)
  have top: "s \<noteq> 28 \<or> (word_of_nat c :: byte) \<le> 0x0F"
  proof (cases "s = 28")
    case True
    then have "n \<le> 15" using 1(2) by simp
    then show ?thesis by (simp add: c_def word_le_nat_alt unat_byte)
  qed simp
  have step: "varint32_loop s v (word_of_nat c # xs) =
      (if n < 128 then Inr (v', xs) else varint32_loop (s + 7) v' xs)" for xs
    using 1(4) top c by (simp add: varint32_loop.simps [of s v] byte_less v'_def Let_def ensure_def)
  show ?case
  proof (cases "n < 128")
    case True
    then have "v' = word_of_nat (unat v + 2 ^ s * n)" using v' by (intro unat_word) simp
    with True step show ?thesis by (simp add: put_varint.simps [of n] c_def)
  next
    case False
    have "s + 7 \<le> 28" using b(3) 1(5) False by (simp add: dvd_def) presburger
    moreover have "unat v' < 2 ^ (s + 7)" unfolding v' by (rule varint_step_bound [OF 1(3)])
    moreover have dvd: "7 dvd s + 7" using 1(5) by simp
    moreover have eq: "unat v' + 2 ^ (s + 7) * (n div 128) = unat v + 2 ^ s * n"
      using b(2) v' by simp
    ultimately have "varint32_loop (s + 7) v' (put_varint (n div 128) @ rest) =
        Inr (word_of_nat (unat v + 2 ^ s * n), rest)"
      using 1(1) [OF False, of v' "s + 7", unfolded eq] 1(2) dvd by blast
    with False step show ?thesis
      by (simp add: put_varint.simps [of n] c_def del: of_nat_add of_nat_mult)
  qed
qed

interpretation varint64: codec put_varint varint "\<lambda>n. n < 2 ^ 64" word_of_nat
  by unfold_locales (use varint_loop_put [of 0 0] in \<open>simp add: varint_def\<close>)

interpretation varint32c: codec put_varint varint32 "\<lambda>n. n < 2 ^ 32" word_of_nat
  by unfold_locales (use varint32_loop_put [of 0 0] in \<open>simp add: varint32_def\<close>)

interpretation slicec: codec put_slice slice "\<lambda>bs. length bs < 2 ^ 32" id
proof
  fix x rest :: bytes
  assume len: "length x < 2 ^ 32"
  have "unat (word_of_nat (length x) :: 32 word) = length x"
    using len by (simp add: unsigned_of_nat take_bit_eq_mod)
  then show "slice (put_slice x @ rest) = Inr (id x, rest)"
    using varint32c.dec_enc [OF len, of "x @ rest"] by (simp add: slice_def put_slice_def)
qed

end
