(* ===== verification/Leveldb_Log.thy ===== *)
theory Leveldb_Log
  imports Leveldb_Coding
begin

section \<open>LevelDB: log files (moli-leveldb-parser, log.rs)\<close>

text \<open>
  The reader of write-ahead logs and manifests, \<^verbatim>\<open>read_records_from\<close>: a file is read in blocks
  of 32 KiB, each block holds physical records, and a logical record is one FULL physical
  record or a run FIRST, MIDDLE, ..., LAST.  The visitor closure is a function on a state of
  its own.  The third-party checksum and the allocator are fields of an environment.

  The lemmas relate the reader to a writer of the format: it reads back every record that was
  appended, and an append cut at any byte leaves exactly the records before it.
\<close>

record leveldb_env =
  crc32c :: "bytes \<Rightarrow> 32 word"
  try_reserve :: "nat \<Rightarrow> bool"
  decompress_len :: "bytes \<Rightarrow> nat option"
  decompress :: "bytes \<Rightarrow> nat \<Rightarrow> bytes option"

type_synonym 's visitor = "bytes \<Rightarrow> 's \<Rightarrow> 's result"

definition BLOCK_SIZE :: nat where
  "BLOCK_SIZE = 32 * 1024"

definition HEADER_SIZE :: nat where
  "HEADER_SIZE = 7"

record log_header =
  checksum :: nat
  len :: nat
  record_type :: byte

definition read_log_header :: "log_header decoder" where
  "read_log_header bs =
     res_bind (fixed_le 4 bs) (\<lambda>(c, bs).
     res_bind (fixed_le 2 bs) (\<lambda>(l, bs).
     res_bind (take_bytes 1 bs) (\<lambda>(k, bs).
       Inr (\<lparr>checksum = c, len = l, record_type = hd k\<rparr>, bs))))"

record 's log_state =
  fragment :: bytes
  fragmented :: bool
  visited :: 's

datatype flow = Next_Block | Return_Ok

text \<open>The \<^verbatim>\<open>match kind\<close> of the loop body, for a record whose checksum has been verified.\<close>

definition log_record ::
  "leveldb_env \<Rightarrow> 's visitor \<Rightarrow> byte \<Rightarrow> bytes \<Rightarrow> 's log_state \<Rightarrow> 's log_state result" where
  "log_record E visit kind payload st =
     (if kind = 1 then
        ensure (fragment st = []) UnfinishedBeforeFull
          (res_bind (visit payload (visited st)) (\<lambda>s.
             Inr (st\<lparr>fragmented := False, visited := s\<rparr>)))
      else if kind = 2 then
        ensure (fragment st = []) UnfinishedBeforeFirst
          (ensure (try_reserve E (length payload)) RecordTooLarge
             (Inr (st\<lparr>fragment := payload, fragmented := True\<rparr>)))
      else if kind = 3 \<or> kind = 4 then
        ensure (fragmented st) FragmentWithoutFirst
          (ensure (try_reserve E (length (fragment st) + length payload)) RecordTooLarge
             (let fragment' = fragment st @ payload in
              if kind = 4 then
                res_bind (visit fragment' (visited st)) (\<lambda>s.
                  Inr (st\<lparr>fragment := [], fragmented := False, visited := s\<rparr>))
              else Inr (st\<lparr>fragment := fragment'\<rparr>)))
      else Inl UnsupportedRecordType)"

text \<open>
  The inner loop over the rest of one block; \<^term>\<open>short\<close> tells that the block has fewer than
  \<^const>\<open>BLOCK_SIZE\<close> bytes, that is, that the file ends in it.
\<close>

function scan_block ::
  "leveldb_env \<Rightarrow> 's visitor \<Rightarrow> bool \<Rightarrow> 's log_state \<Rightarrow> bytes \<Rightarrow> (flow \<times> 's log_state) result" where
  "scan_block E visit short st remaining =
     (if remaining = [] then Inr (Next_Block, st)
      else if length remaining < HEADER_SIZE then
        ensure (short \<or> list_all (\<lambda>b. b = 0) remaining) NonzeroTrailer (Inr (Next_Block, st))
      else
        res_bind (read_log_header remaining) (\<lambda>(header, _).
          if record_type header = 0 \<and> len header = 0 then
            ensure (list_all (\<lambda>b. b = 0) remaining) InvalidPadding
              (Inr (Next_Block, st\<lparr>fragment := [], fragmented := False\<rparr>))
          else if HEADER_SIZE + len header > length remaining then
            ensure short RecordCrossesBlock (Inr (Return_Ok, st))
          else
            ensure (unat (masked_crc (crc32c E) (take (1 + len header) (drop 6 remaining)))
                    = checksum header) LogChecksumMismatch
              (res_bind (log_record E visit (record_type header)
                           (take (len header) (drop HEADER_SIZE remaining)) st) (\<lambda>st'.
                 scan_block E visit short st' (drop (HEADER_SIZE + len header) remaining)))))"
  by pat_completeness auto
termination
  by (relation "measure (\<lambda>(E, visit, short, st, remaining). length remaining)")
    (auto simp: HEADER_SIZE_def)

function read_blocks :: "leveldb_env \<Rightarrow> 's visitor \<Rightarrow> 's log_state \<Rightarrow> bytes \<Rightarrow> 's log_state result" where
  "read_blocks E visit st bs =
     (if bs = [] then Inr st
      else
        (let block = take BLOCK_SIZE bs in
         res_bind (scan_block E visit (length block < BLOCK_SIZE) st block) (\<lambda>(flow, st').
           case flow of
             Return_Ok \<Rightarrow> Inr st'
           | Next_Block \<Rightarrow> read_blocks E visit st' (drop BLOCK_SIZE bs))))"
  by pat_completeness auto
termination
  by (relation "measure (\<lambda>(E, visit, st, bs). length bs)") (auto simp: BLOCK_SIZE_def)

declare scan_block.simps [simp del] read_blocks.simps [simp del]

definition read_records_from :: "leveldb_env \<Rightarrow> 's visitor \<Rightarrow> bytes \<Rightarrow> 's \<Rightarrow> 's result" where
  "read_records_from E visit file s =
     res_bind (read_blocks E visit \<lparr>fragment = [], fragmented = False, visited = s\<rparr> file)
       (\<lambda>st. Inr (visited st))"


subsection \<open>A writer of the format\<close>

text \<open>A physical record and the fragments of a logical record, starting \<open>left\<close> bytes before a
  block boundary.\<close>

definition put_physical :: "leveldb_env \<Rightarrow> byte \<Rightarrow> bytes \<Rightarrow> bytes" where
  "put_physical E kind payload =
     le_bytes 4 (unat (masked_crc (crc32c E) (kind # payload))) @ le_bytes 2 (length payload)
       @ kind # payload"

function put_logical :: "leveldb_env \<Rightarrow> nat \<Rightarrow> bool \<Rightarrow> bytes \<Rightarrow> bytes \<times> nat" where
  "put_logical E left first record =
     (if left < HEADER_SIZE then
        map_prod (\<lambda>out. replicate left 0 @ out) id (put_logical E BLOCK_SIZE first record)
      else if length record \<le> left - HEADER_SIZE then
        (put_physical E (if first then 1 else 4) record, left - HEADER_SIZE - length record)
      else
        map_prod (\<lambda>out. put_physical E (if first then 2 else 3) (take (left - HEADER_SIZE) record) @ out) id
          (put_logical E 0 False (drop (left - HEADER_SIZE) record)))"
  by pat_completeness auto
termination
  by (relation "measures [\<lambda>(E, left, first, record). length record,
        \<lambda>(E, left, first, record). if left < HEADER_SIZE then 1 else if left = HEADER_SIZE then 2 else 0]")
    (auto simp: HEADER_SIZE_def BLOCK_SIZE_def)

declare put_logical.simps [simp del]

fun put_log :: "leveldb_env \<Rightarrow> nat \<Rightarrow> bytes list \<Rightarrow> bytes" where
  "put_log E left [] = []"
| "put_log E left (r # rs) = (let (out, left') = put_logical E left True r in out @ put_log E left' rs)"

fun visit_all :: "'s visitor \<Rightarrow> bytes list \<Rightarrow> 's \<Rightarrow> 's result" where
  "visit_all visit [] s = Inr s"
| "visit_all visit (r # rs) s = res_bind (visit r s) (visit_all visit rs)"


subsection \<open>Reading from the middle of a block\<close>

definition resume :: "leveldb_env \<Rightarrow> 's visitor \<Rightarrow> nat \<Rightarrow> 's log_state \<Rightarrow> bytes \<Rightarrow> 's log_state result" where
  "resume E visit left st bs =
     res_bind (scan_block E visit (length bs < left) st (take left bs)) (\<lambda>(flow, st').
       case flow of Return_Ok \<Rightarrow> Inr st' | Next_Block \<Rightarrow> read_blocks E visit st' (drop left bs))"

lemma scan_block_Nil [simp]: "scan_block E visit short st [] = Inr (Next_Block, st)"
  by (simp add: scan_block.simps)

lemma read_blocks_Nil [simp]: "read_blocks E visit st [] = Inr st"
  by (simp add: read_blocks.simps)

lemma BLOCK_SIZE_bounds [simp]: "HEADER_SIZE < BLOCK_SIZE" "0 < BLOCK_SIZE" "BLOCK_SIZE \<noteq> 0"
    "n \<le> BLOCK_SIZE \<Longrightarrow> n < 65536"
  by (simp_all add: BLOCK_SIZE_def HEADER_SIZE_def)

lemma read_blocks_resume: "read_blocks E visit st bs = resume E visit BLOCK_SIZE st bs"
  by (cases "bs = []") (simp_all add: resume_def read_blocks.simps [of E visit st bs] Let_def min_def)

lemma resume_0: "resume E visit 0 st bs = resume E visit BLOCK_SIZE st bs"
  by (simp add: resume_def [of E visit 0] read_blocks_resume)

lemma physical_length [simp]: "length (put_physical E k p) = HEADER_SIZE + length p"
  by (simp add: put_physical_def HEADER_SIZE_def)

lemma read_log_header_put:
  assumes "length p < 65536"
  shows "read_log_header (le_bytes 4 (unat (c :: 32 word)) @ le_bytes 2 (length p) @ k # rest)
    = Inr (\<lparr>checksum = unat c, len = length p, record_type = k\<rparr>, rest)"
proof -
  have "unat c < 256 ^ 4" using unsigned_less [of c] by simp
  with assms show ?thesis
    by (simp add: read_log_header_def fixed.dec_enc take_bytes_def)
qed

lemma resume_padding:
  "left < HEADER_SIZE \<Longrightarrow> resume E visit left st (replicate left 0 @ bs) = resume E visit BLOCK_SIZE st bs"
  by (cases "left = 0")
    (simp_all add: resume_0 resume_def [of E visit left] scan_block.simps [of _ _ _ _ "replicate left 0"]
       read_blocks_resume list_all_iff)

lemma resume_short:
  assumes "length bs < HEADER_SIZE" "length bs < left"
  shows "resume E visit left st bs = Inr st"
  using assms by (cases "bs = []") (simp_all add: resume_def scan_block.simps [of _ _ _ _ bs])

lemma physical_parts:
  "take (length p) (drop HEADER_SIZE (put_physical E k p @ bs)) = p"
  "take (1 + length p) (drop 6 (put_physical E k p @ bs)) = k # p"
  "drop (HEADER_SIZE + length p) (put_physical E k p @ bs) = bs"
  by (simp_all add: put_physical_def HEADER_SIZE_def)

lemma scan_block_physical:
  assumes "k \<noteq> 0" "length p < 65536"
  shows "scan_block E visit short st (put_physical E k p @ bs) =
    res_bind (log_record E visit k p st) (\<lambda>st'. scan_block E visit short st' bs)"
proof -
  let ?r = "put_physical E k p @ bs"
  have h: "read_log_header ?r =
      Inr (\<lparr>checksum = unat (masked_crc (crc32c E) (k # p)), len = length p, record_type = k\<rparr>, p @ bs)"
    using read_log_header_put [OF assms(2)] by (simp add: put_physical_def)
  have "?r \<noteq> []" "\<not> length ?r < HEADER_SIZE" "\<not> HEADER_SIZE + length p > length ?r"
    by (simp_all add: put_physical_def HEADER_SIZE_def)
  then show ?thesis
    using assms(1) unfolding scan_block.simps [of _ _ _ _ ?r] h by (simp only: physical_parts if_False
        res_bind_simps prod.case log_header.simps ensure_simps simp_thms)
qed

lemma resume_physical:
  assumes "k \<noteq> 0" "length p < 65536" "HEADER_SIZE + length p \<le> left"
  shows "resume E visit left st (put_physical E k p @ bs) =
    res_bind (log_record E visit k p st) (\<lambda>st'. resume E visit (left - HEADER_SIZE - length p) st' bs)"
proof -
  let ?rec = "put_physical E k p"
  have "take left (?rec @ bs) = ?rec @ take (left - HEADER_SIZE - length p) bs"
    using assms(3) by simp
  moreover have "drop left (?rec @ bs) = drop (left - HEADER_SIZE - length p) bs"
    using assms(3) by simp
  moreover have "length (?rec @ bs) < left \<longleftrightarrow> length bs < left - HEADER_SIZE - length p"
    using assms(3) by auto
  ultimately show ?thesis
    by (simp only: resume_def scan_block_physical [OF assms(1,2)] res_bind_assoc)
qed

lemma resume_unfinished:
  assumes "k \<noteq> 0" "length p < 65536" "HEADER_SIZE + length p \<le> left"
    and pre: "strict_prefix bs (put_physical E k p)"
  shows "resume E visit left st bs = Inr st"
proof -
  have less: "length bs < HEADER_SIZE + length p"
    using prefix_length_less [OF pre] by simp
  show ?thesis
  proof (cases "length bs < HEADER_SIZE")
    case True
    then show ?thesis using less assms(3) by (intro resume_short) simp_all
  next
    case False
    let ?c = "masked_crc (crc32c E) (k # p)"
    define q where "q = drop HEADER_SIZE bs"
    obtain r where r: "put_physical E k p = bs @ r" using pre by (auto simp: strict_prefix_def prefix_def)
    have "take HEADER_SIZE bs = take HEADER_SIZE (put_physical E k p)" using False r by simp
    also have "\<dots> = le_bytes 4 (unat ?c) @ le_bytes 2 (length p) @ [k]"
      by (simp add: put_physical_def HEADER_SIZE_def)
    finally have "bs = le_bytes 4 (unat ?c) @ le_bytes 2 (length p) @ k # q"
      using append_take_drop_id [of HEADER_SIZE bs] by (simp add: q_def)
    then have h: "read_log_header bs = Inr (\<lparr>checksum = unat ?c, len = length p, record_type = k\<rparr>, q)"
      using read_log_header_put [OF assms(2)] by simp
    have "length bs < left" using less assms(3) by simp
    then show ?thesis
      using False less assms(1) by (simp add: resume_def scan_block.simps [of _ _ _ _ bs] h)
  qed
qed


subsection \<open>Reading back what the writer appends\<close>

text \<open>Where a record may start or go on, and what the visitor gets of it.\<close>

definition ready :: "bool \<Rightarrow> 's log_state \<Rightarrow> bool" where
  "ready first st \<longleftrightarrow> (if first then fragment st = [] else fragmented st)"

definition can_hold :: "leveldb_env \<Rightarrow> nat \<Rightarrow> bool" where
  "can_hold E n \<longleftrightarrow> (\<forall>m \<le> n. try_reserve E m)"

lemma log_record_last:
  assumes "ready first st" "can_hold E (length (fragment st) + length r)"
  shows "log_record E visit (if first then 1 else 4) r st =
    res_bind (visit (fragment st @ r) (visited st)) (\<lambda>s.
      Inr \<lparr>fragment = [], fragmented = False, visited = s\<rparr>)"
  using assms by (cases st; cases first) (simp_all add: log_record_def ready_def can_hold_def)

lemma log_record_more:
  assumes "ready first st" "can_hold E (length (fragment st) + length r)"
  shows "log_record E visit (if first then 2 else 3) r st = Inr (st\<lparr>fragment := fragment st @ r, fragmented := True\<rparr>)"
  using assms by (cases first) (simp_all add: log_record_def ready_def can_hold_def)

lemma can_hold_mono: "can_hold E n \<Longrightarrow> m \<le> n \<Longrightarrow> can_hold E m"
  by (simp add: can_hold_def)

lemma put_logical_left: "left \<le> BLOCK_SIZE \<Longrightarrow> snd (put_logical E left first r) \<le> BLOCK_SIZE"
proof (induction E left first r rule: put_logical.induct)
  case (1 E left first r)
  then show ?case by (auto simp: put_logical.simps [of E left first r])
qed

lemma resume_more:
  assumes "left \<le> BLOCK_SIZE" "HEADER_SIZE \<le> left"
    and "ready first st" "can_hold E (length (fragment st) + length r)"
  shows "resume E visit left st
      (put_physical E (if first then 2 else 3) (take (left - HEADER_SIZE) r) @ xs) =
    (if length r \<le> left - HEADER_SIZE then resume E visit (left - HEADER_SIZE - length r)
       (st\<lparr>fragment := fragment st @ r, fragmented := True\<rparr>) xs
     else resume E visit 0
       (st\<lparr>fragment := fragment st @ take (left - HEADER_SIZE) r, fragmented := True\<rparr>) xs)"
proof -
  have "left - HEADER_SIZE < 65536" using assms(1) by (intro BLOCK_SIZE_bounds(4)) simp
  then show ?thesis
    using assms(2) log_record_more [OF assms(3) can_hold_mono [OF assms(4)], of "take (left - HEADER_SIZE) r"]
    by (subst resume_physical) simp_all
qed

lemma resume_logical:
  "left \<le> BLOCK_SIZE \<Longrightarrow> ready first st \<Longrightarrow> can_hold E (length (fragment st) + length r) \<Longrightarrow>
   resume E visit left st (fst (put_logical E left first r) @ bs) =
   res_bind (visit (fragment st @ r) (visited st)) (\<lambda>s.
     resume E visit (snd (put_logical E left first r)) \<lparr>fragment = [], fragmented = False, visited = s\<rparr> bs)"
proof (induction E left first r arbitrary: st rule: put_logical.induct)
  case (1 E left first r)
  consider (pad) "left < HEADER_SIZE" | (last) "HEADER_SIZE \<le> left" "length r \<le> left - HEADER_SIZE"
    | (more) "HEADER_SIZE \<le> left" "\<not> length r \<le> left - HEADER_SIZE" by linarith
  then show ?case
  proof cases
    case pad
    then show ?thesis
      using 1(1) 1(4,5) by (simp add: put_logical.simps [of E left first r] resume_padding)
  next
    case last
    then have "HEADER_SIZE + length r \<le> left" by simp
    moreover from this have "length r < 65536" using 1(3) by (intro BLOCK_SIZE_bounds(4)) simp
    ultimately show ?thesis
      using last log_record_last [OF 1(4,5)]
      by (simp add: put_logical.simps [of E left first r] resume_physical res_bind_assoc)
  next
    case more
    let ?n = "left - HEADER_SIZE" and ?k = "if first then 2 else 3 :: byte"
    let ?st = "st\<lparr>fragment := fragment st @ take ?n r, fragmented := True\<rparr>"
    note resume_more [OF 1(3) more(1) 1(4,5)]
    moreover have "ready False ?st" "can_hold E (length (fragment ?st) + length (drop ?n r))"
      using 1(5) more by (simp_all add: ready_def)
    ultimately show ?thesis
      using 1(2) [of ?st] more by (simp add: put_logical.simps [of E left first r])
  qed
qed

lemma strict_prefix_append:
  "strict_prefix x (a @ b) \<Longrightarrow> strict_prefix x a \<or> (\<exists>y. x = a @ y \<and> strict_prefix y b)"
  by (auto simp: strict_prefix_def prefix_append)

lemma resume_logical_unfinished:
  "left \<le> BLOCK_SIZE \<Longrightarrow> ready first st \<Longrightarrow> can_hold E (length (fragment st) + length r) \<Longrightarrow>
   strict_prefix x (fst (put_logical E left first r)) \<Longrightarrow>
   \<exists>st'. resume E visit left st x = Inr st' \<and> visited st' = visited st"
proof (induction E left first r arbitrary: st x rule: put_logical.induct)
  case (1 E left first r)
  consider (pad) "left < HEADER_SIZE" | (last) "HEADER_SIZE \<le> left" "length r \<le> left - HEADER_SIZE"
    | (more) "HEADER_SIZE \<le> left" "\<not> length r \<le> left - HEADER_SIZE" by linarith
  then show ?case
  proof cases
    case pad
    with 1(6) strict_prefix_append [of x "replicate left 0"] consider
      "strict_prefix x (replicate left 0)" |
      y where "x = replicate left 0 @ y" "strict_prefix y (fst (put_logical E BLOCK_SIZE first r))"
      by (auto simp: put_logical.simps [of E left first r])
    then show ?thesis
    proof cases
      case 1
      then show ?thesis using pad prefix_length_less [OF 1] by (simp add: resume_short)
    next
      case 2
      then show ?thesis using 1(1) [OF pad, of st y] 1(4,5) by (simp add: resume_padding pad)
    qed
  next
    case last
    moreover from this have "length r < 65536" using 1(3) by (intro BLOCK_SIZE_bounds(4)) simp
    ultimately show ?thesis
      using 1(6) resume_unfinished [of "if first then 1 else 4" r left x E visit st]
      by (auto simp: put_logical.simps [of E left first r] split: if_splits)
  next
    case more
    let ?n = "left - HEADER_SIZE" and ?k = "if first then 2 else 3 :: byte"
    let ?st = "st\<lparr>fragment := fragment st @ take ?n r, fragmented := True\<rparr>"
    have n: "?n < 65536" using 1(3) by (intro BLOCK_SIZE_bounds(4)) simp
    note step = resume_more [OF 1(3) more(1) 1(4,5)]
    have rd: "ready False ?st" "can_hold E (length (fragment ?st) + length (drop ?n r))"
      using 1(5) more by (simp_all add: ready_def)
    from more 1(6) strict_prefix_append [of x "put_physical E ?k (take ?n r)"] consider
      "strict_prefix x (put_physical E ?k (take ?n r))" |
      y where "x = put_physical E ?k (take ?n r) @ y"
        "strict_prefix y (fst (put_logical E 0 False (drop ?n r)))"
      by (auto simp: put_logical.simps [of E left first r])
    then show ?thesis
    proof cases
      case 1
      then show ?thesis using more n resume_unfinished [of ?k "take ?n r" left x E visit st] by simp
    next
      case 2
      then show ?thesis using 1(2) [of ?st y] more rd by (simp add: step)
    qed
  qed
qed


text \<open>The bytes left in the last block after a list of records.\<close>

fun log_left :: "leveldb_env \<Rightarrow> nat \<Rightarrow> bytes list \<Rightarrow> nat" where
  "log_left E left [] = left"
| "log_left E left (r # rs) = log_left E (snd (put_logical E left True r)) rs"

lemma log_left_le: "left \<le> BLOCK_SIZE \<Longrightarrow> log_left E left rs \<le> BLOCK_SIZE"
  by (induction rs arbitrary: left) (simp_all add: put_logical_left)

lemma put_log_append:
  "put_log E left (rs @ [r]) = put_log E left rs @ fst (put_logical E (log_left E left rs) True r)"
  by (induction rs arbitrary: left) (simp_all add: split_beta)

abbreviation between :: "'s \<Rightarrow> 's log_state" where
  "between s \<equiv> \<lparr>fragment = [], fragmented = False, visited = s\<rparr>"

lemma resume_log:
  "left \<le> BLOCK_SIZE \<Longrightarrow> \<forall>r \<in> set rs. can_hold E (length r) \<Longrightarrow>
   resume E visit left (between s) (put_log E left rs @ x) =
   res_bind (visit_all visit rs s) (\<lambda>s'. resume E visit (log_left E left rs) (between s') x)"
proof (induction rs arbitrary: left s)
  case (Cons r rs)
  have "put_log E left (r # rs) @ x =
      fst (put_logical E left True r) @ put_log E (snd (put_logical E left True r)) rs @ x"
    by (simp add: split_beta)
  moreover have "ready True (between s)" "can_hold E (length (fragment (between s)) + length r)"
    using Cons.prems by (simp_all add: ready_def)
  ultimately show ?case
    using resume_logical [OF Cons.prems(1), of True "between s" E r] Cons
    by (simp add: res_bind_assoc put_logical_left)
qed simp

lemma read_records_from_log:
  assumes "\<forall>r \<in> set rs. can_hold E (length r)"
  shows "read_records_from E visit (put_log E BLOCK_SIZE rs @ x) s =
    res_bind (visit_all visit rs s) (\<lambda>s'.
      res_bind (resume E visit (log_left E BLOCK_SIZE rs) (between s') x) (\<lambda>st. Inr (visited st)))"
  using resume_log [OF order.refl assms, of visit s x]
  by (simp add: read_records_from_def read_blocks_resume res_bind_assoc)

lemma resume_Nil [simp]: "resume E visit left st [] = Inr st"
  by (simp add: resume_def)

lemma res_bind_Inr_id [simp]: "res_bind m Inr = m" "res_bind m (\<lambda>x. Inr x) = m"
  by (cases m; simp)+

lemma resume_bad_checksum:
  assumes "k \<noteq> 0 \<or> p \<noteq> []" "length p < 65536" "HEADER_SIZE + length p \<le> left"
    and "unat c \<noteq> unat (masked_crc (crc32c E) (k # p))"
  shows "resume E visit left st (le_bytes 4 (unat (c :: 32 word)) @ le_bytes 2 (length p) @ k # p @ bs) =
    Inl LogChecksumMismatch"
proof -
  let ?r = "le_bytes 4 (unat c) @ le_bytes 2 (length p) @ k # p @ take (left - HEADER_SIZE - length p) bs"
  have h: "read_log_header ?r = Inr (\<lparr>checksum = unat c, len = length p, record_type = k\<rparr>,
      p @ take (left - HEADER_SIZE - length p) bs)"
    by (rule read_log_header_put [OF assms(2)])
  have l: "length (le_bytes 4 (unat c) @ le_bytes 2 (length p) @ k # p) = HEADER_SIZE + length p"
    by (simp add: HEADER_SIZE_def)
  have take: "take left (le_bytes 4 (unat c) @ le_bytes 2 (length p) @ k # p @ bs) = ?r"
    using take_append [of left "le_bytes 4 (unat c) @ le_bytes 2 (length p) @ k # p" bs] assms(3)
    unfolding l by (simp only: l take_all diff_diff_left append_assoc append_Cons)
  have "drop 6 ?r = k # p @ take (left - HEADER_SIZE - length p) bs" by simp
  moreover have "?r \<noteq> []" "\<not> length ?r < HEADER_SIZE" "\<not> HEADER_SIZE + length p > length ?r"
    by (simp_all add: HEADER_SIZE_def)
  ultimately show ?thesis
    using assms(1,4) unfolding resume_def take scan_block.simps [of _ _ _ _ ?r] h
    by auto
qed


subsection \<open>The reader against the writer\<close>

definition log_env :: leveldb_env where
  "log_env = \<lparr>crc32c = (\<lambda>bs. word_of_nat (length bs)), try_reserve = (\<lambda>n. True),
     decompress_len = (\<lambda>bs. None), decompress = (\<lambda>bs n. None)\<rparr>"

lemma can_hold_log_env [simp]: "can_hold log_env n"
  by (simp add: can_hold_def log_env_def)

text \<open>C25: the log reader gives its visitor exactly the records that were appended to the log, each
  once, in order and with its own bytes, however they were split over blocks; it stops with the
  visitor's error if there is one.\<close>

theorem log_reads_back:
  assumes "\<forall>r \<in> set rs. can_hold E (length r)"
  shows "read_records_from E visit (put_log E BLOCK_SIZE rs) s = visit_all visit rs s"
  using read_records_from_log [OF assms, of visit "[]" s] by simp

lemma log_reads_back_witness:
  "read_records_from log_env (\<lambda>r s. Inr (s @ [r])) (put_log log_env BLOCK_SIZE [[1, 2], replicate 40000 7]) []
   = Inr [[1, 2], replicate 40000 7]"
  using log_reads_back [of "[[1, 2], replicate 40000 7]" log_env "\<lambda>r s. Inr (s @ [r])" "[]"]
  by simp

text \<open>C19: a log whose last append was cut at any byte, its padding and its headers included, is read
  without an error and gives the visitor exactly the records before that append.\<close>

theorem log_ignores_unfinished_append:
  assumes "\<forall>r \<in> set (rs @ [r]). can_hold E (length r)"
    and "prefix (put_log E BLOCK_SIZE rs) file" "strict_prefix file (put_log E BLOCK_SIZE (rs @ [r]))"
  shows "read_records_from E visit file s = visit_all visit rs s"
proof -
  from assms(2) obtain x where x: "file = put_log E BLOCK_SIZE rs @ x" by (auto simp: prefix_def)
  then have pre: "strict_prefix x (fst (put_logical E (log_left E BLOCK_SIZE rs) True r))"
    using assms(3) by (simp add: put_log_append strict_prefix_def)
  have "\<exists>st'. resume E visit (log_left E BLOCK_SIZE rs) (between s') x = Inr st' \<and> visited st' = s'" for s'
    using resume_logical_unfinished [OF log_left_le [OF order.refl] _ _ pre, of "between s'" visit] assms(1)
    by (simp add: ready_def)
  then have "res_bind (resume E visit (log_left E BLOCK_SIZE rs) (between s') x) (\<lambda>st. Inr (visited st)) = Inr s'" for s'
    by (metis res_bind_simps(2))
  then show ?thesis using assms(1) by (simp add: x read_records_from_log)
qed

lemma log_ignores_unfinished_append_witness:
  "read_records_from log_env (\<lambda>r s. Inr (s @ [r])) (take 16 (put_log log_env BLOCK_SIZE [[5], [6, 7]])) [] = Inr [[5]]"
  using log_ignores_unfinished_append [of "[[5]]" "[6, 7]" log_env
      "take 16 (put_log log_env BLOCK_SIZE [[5], [6, 7]])" "\<lambda>r s. Inr (s @ [r])" "[]"]
  by (simp add: put_logical.simps [of log_env "32768"] put_logical.simps [of log_env "32760"]
      HEADER_SIZE_def BLOCK_SIZE_def put_physical_def strict_prefix_def)

text \<open>a complete physical record whose stored checksum is not the masked checksum of its type and
  payload makes the reader fail with a checksum error, after the records before it were visited.\<close>

lemma log_rejects_bad_checksum:
  assumes "\<forall>r \<in> set rs. can_hold E (length r)"
    and "k \<noteq> 0 \<or> p \<noteq> []" "HEADER_SIZE + length p \<le> log_left E BLOCK_SIZE rs"
    and "c \<noteq> masked_crc (crc32c E) (k # p)"
  shows "read_records_from E visit (put_log E BLOCK_SIZE rs
      @ le_bytes 4 (unat c) @ le_bytes 2 (length p) @ k # p @ rest) s =
    res_bind (visit_all visit rs s) (\<lambda>_. Inl LogChecksumMismatch)"
proof -
  have "length p < 65536"
    using assms(3) log_left_le [of BLOCK_SIZE E rs] by (intro BLOCK_SIZE_bounds(4)) simp
  moreover have "unat c \<noteq> unat (masked_crc (crc32c E) (k # p))" using assms(4) by (simp add: word_unat_eq_iff)
  ultimately have "resume E visit (log_left E BLOCK_SIZE rs) st
      (le_bytes 4 (unat c) @ le_bytes 2 (length p) @ k # p @ rest) = Inl LogChecksumMismatch" for st
    using resume_bad_checksum [OF assms(2) _ assms(3)] by simp
  then show ?thesis by (simp add: read_records_from_log [OF assms(1)])
qed

lemma log_rejects_bad_checksum_example:
  "read_records_from log_env (\<lambda>r s. Inr (s @ [r]))
     (put_log log_env BLOCK_SIZE [[5]] @ le_bytes 4 (unat (masked_crc (crc32c log_env) [1, 6] + 1)) @ le_bytes 2 (length [6]) @ 1 # [6] @ []) []
   = Inl LogChecksumMismatch"
  using log_rejects_bad_checksum [of "[[5]]" log_env 1 "[6]" "masked_crc (crc32c log_env) [1, 6] + 1"
      "\<lambda>r s. Inr (s @ [r])" "[]" "[]"]
  by (simp add: put_logical.simps [of log_env "32768"] HEADER_SIZE_def BLOCK_SIZE_def)

end
