(* ===== verification/Leveldb_Table.thy ===== *)
theory Leveldb_Table
  imports Leveldb_Log
begin

section \<open>LevelDB: sorted tables (moli-leveldb-parser, table.rs)\<close>

text \<open>
  The reader of table files: the footer, the index block and the data blocks it points to, and
  the prefix-compressed entries of a block with its restart array.  A file is its bytes; the
  Snappy decoder is part of the environment, given by the claimed length and the bytes it
  writes.

  The lemmas show that a block and a whole table written in the format are read back entry by
  entry, and that a block is only ever read inside the part of the file its handle may address.
\<close>

type_synonym 's entry_visitor = "bytes \<Rightarrow> bytes \<Rightarrow> 's \<Rightarrow> 's result"
type_synonym block_handle = "64 word \<times> 64 word"

definition FOOTER_SIZE :: nat where
  "FOOTER_SIZE = 48"

definition TRAILER_SIZE :: nat where
  "TRAILER_SIZE = 5"

definition TABLE_MAGIC :: nat where
  "TABLE_MAGIC = 0xdb4775248b80fb57"

definition read_handle :: "block_handle decoder" where
  "read_handle bs =
     res_bind (varint bs) (\<lambda>(offset, bs). res_bind (varint bs) (\<lambda>(size, bs). Inr ((offset, size), bs)))"

text \<open>\<^verbatim>\<open>seek\<close> and \<^verbatim>\<open>read_exact\<close> on the bytes of a file.\<close>

definition read_exact :: "bytes \<Rightarrow> nat \<Rightarrow> nat \<Rightarrow> bytes result" where
  "read_exact file offset n = ensure (offset + n \<le> length file) IoError (Inr (take n (drop offset file)))"

record block_trailer =
  compression :: byte
  block_checksum :: nat

definition read_block_trailer :: "block_trailer decoder" where
  "read_block_trailer bs =
     res_bind (take_bytes 1 bs) (\<lambda>(c, bs).
     res_bind (fixed_le 4 bs) (\<lambda>(crc, bs).
       Inr (\<lparr>compression = hd c, block_checksum = crc\<rparr>, bs)))"

definition snappy_block :: "leveldb_env \<Rightarrow> bytes \<Rightarrow> bytes result" where
  "snappy_block E block =
     (case decompress_len E block of
        None \<Rightarrow> Inl SnappyError
      | Some n \<Rightarrow>
          ensure (n \<le> min (length block * 64) u64_max) InvalidSnappyLength
            (ensure (try_reserve E n) BlockTooLarge
               (case decompress E block n of
                  None \<Rightarrow> Inl SnappyError
                | Some decoded \<Rightarrow> ensure (length decoded = n) InvalidSnappyLength (Inr decoded))))"

definition read_block :: "leveldb_env \<Rightarrow> bytes \<Rightarrow> nat \<Rightarrow> block_handle \<Rightarrow> bytes result" where
  "read_block E file limit handle =
     (let offset = unat (fst handle); size = unat (snd handle) in
      ensure (offset \<le> limit \<and> limit - offset \<ge> TRAILER_SIZE \<and> size \<le> limit - offset - TRAILER_SIZE)
        BlockOutsideTable
        (case checked_add size TRAILER_SIZE of
           None \<Rightarrow> Inl BlockTooLarge
         | Some n \<Rightarrow>
             ensure (try_reserve E n) BlockTooLarge
               (res_bind (read_exact file offset n) (\<lambda>block.
                res_bind (read_block_trailer (drop size block)) (\<lambda>(trailer, _).
                  ensure (unat (masked_crc (crc32c E) (take (size + 1) block)) = block_checksum trailer)
                    BlockChecksumMismatch
                    (if compression trailer = 0 then Inr (take size block)
                     else if compression trailer = 1 then snappy_block E (take size block)
                     else Inl UnsupportedCompression))))))"

text \<open>The restart array: the last four bytes count the offsets before them.\<close>

fun u32_list :: "nat \<Rightarrow> bytes \<Rightarrow> nat list" where
  "u32_list 0 bs = []"
| "u32_list (Suc n) bs = le_nat (take 4 bs) # u32_list n (drop 4 bs)"

definition split_restarts :: "bytes \<Rightarrow> (bytes \<times> nat list) result" where
  "split_restarts block =
     ensure (4 \<le> length block) TruncatedRestarts
       (let body = take (length block - 4) block;
            count = le_nat (drop (length block - 4) block) in
        ensure (4 * count \<le> length body) InvalidRestartCount
          (let entries = take (length body - 4 * count) body;
               restarts = u32_list count (drop (length body - 4 * count) body) in
           ensure (restarts \<noteq> [] \<or> entries = []) NoRestartPoints (Inr (entries, restarts))))"

fun check_restarts :: "nat \<Rightarrow> nat \<Rightarrow> nat option \<Rightarrow> nat list \<Rightarrow> unit result" where
  "check_restarts entries_end count previous [] = Inr ()"
| "check_restarts entries_end count previous (offset # rest) =
     ensure (offset < entries_end \<or> entries_end = 0 \<and> count = 1 \<and> offset = 0) RestartOutOfBounds
       (case previous of
          Some p \<Rightarrow> ensure (p < offset) UnorderedRestarts
            (check_restarts entries_end count (Some offset) rest)
        | None \<Rightarrow> ensure (offset = 0) FirstRestartNotZero
            (check_restarts entries_end count (Some offset) rest))"

text \<open>The three lengths an entry starts with, and the check of an entry against the next restart
  point.\<close>

definition entry_lengths :: "(nat \<times> nat \<times> nat) decoder" where
  "entry_lengths bs =
     res_bind (varint32 bs) (\<lambda>(shared, bs).
     res_bind (varint32 bs) (\<lambda>(unshared, bs).
     res_bind (varint32 bs) (\<lambda>(value_length, bs).
       Inr ((unat shared, unat unshared, unat value_length), bs))))"

definition restart_step :: "nat list \<Rightarrow> nat \<Rightarrow> nat \<Rightarrow> nat \<Rightarrow> nat result" where
  "restart_step restarts next_restart offset shared =
     (if next_restart < length restarts then
        (let restart = restarts ! next_restart in
         ensure (restart \<ge> offset) RestartInsideEntry
           (if restart = offset then ensure (shared = 0) RestartSharedPrefix (Inr (next_restart + 1))
            else Inr next_restart))
      else Inr next_restart)"

lemma entry_lengths_shorter: "entry_lengths bs = Inr (x, rest) \<Longrightarrow> length rest < length bs"
  by (fastforce simp: entry_lengths_def res_bind_Inr dest!: varint32_shorter)

function entries_loop ::
  "'s entry_visitor \<Rightarrow> nat \<Rightarrow> nat list \<Rightarrow> nat \<Rightarrow> bytes \<Rightarrow> bytes \<Rightarrow> 's \<Rightarrow> (nat \<times> 's) result" where
  "entries_loop visit entries_end restarts next_restart key input s =
     (if input = [] then Inr (next_restart, s)
      else
        res_bind (entry_lengths input) (\<lambda>(lengths, rest).
        case lengths of (shared, unshared, value_length) \<Rightarrow>
          ensure (shared \<le> length key) InvalidPrefixLength
            (res_bind (restart_step restarts next_restart (entries_end - length input) shared) (\<lambda>next_restart'.
             res_bind (take_bytes unshared rest) (\<lambda>(suffix, rest).
             res_bind (take_bytes value_length rest) (\<lambda>(value, rest).
               let key' = take shared key @ suffix in
               res_bind (visit key' value s) (\<lambda>s'.
                 entries_loop visit entries_end restarts next_restart' key' rest s')))))))"
  by pat_completeness auto
termination
  by (relation "measure (\<lambda>(visit, entries_end, restarts, next_restart, key, input, s). length input)")
    (fastforce simp: take_bytes_Inr dest: entry_lengths_shorter)+

declare entries_loop.simps [simp del]

definition read_entries :: "'s entry_visitor \<Rightarrow> bytes \<Rightarrow> 's \<Rightarrow> 's result" where
  "read_entries visit block s =
     res_bind (split_restarts block) (\<lambda>(entries, restarts).
     res_bind (check_restarts (length entries) (length restarts) None restarts) (\<lambda>_.
     res_bind (entries_loop visit (length entries) restarts 0 [] entries s) (\<lambda>(next_restart, s).
       ensure (length entries = 0 \<or> next_restart = length restarts) RestartInsideEntry (Inr s))))"

definition read_table :: "leveldb_env \<Rightarrow> bytes \<Rightarrow> nat \<Rightarrow> 's entry_visitor \<Rightarrow> 's \<Rightarrow> 's result" where
  "read_table E file expected_size visit s =
     (let size = length file in
      ensure (size = expected_size \<and> size \<ge> FOOTER_SIZE) InvalidTableSize
        (res_bind (read_exact file (size - FOOTER_SIZE) FOOTER_SIZE) (\<lambda>footer.
         ensure (le_nat (drop 40 footer) = TABLE_MAGIC) InvalidTableMagic
           (res_bind (read_handle (take 40 footer)) (\<lambda>(_, rest).
            res_bind (read_handle rest) (\<lambda>(index_handle, _).
            res_bind (read_block E file (size - FOOTER_SIZE) index_handle) (\<lambda>index.
              read_entries (\<lambda>_ handle s.
                res_bind (read_handle handle) (\<lambda>(handle, _).
                res_bind (read_block E file (unat (fst index_handle)) handle) (\<lambda>block.
                  read_entries visit block s))) index s)))))))"


subsection \<open>A writer of blocks\<close>

text \<open>
  An entry is a key and a value, and whether it is a restart point, where the key is stored
  whole; elsewhere the key shares its longest common prefix with the key before it.
\<close>

type_synonym block_entry = "bool \<times> bytes \<times> bytes"

definition shared_length :: "bool \<Rightarrow> bytes \<Rightarrow> bytes \<Rightarrow> nat" where
  "shared_length restart prev key = (if restart then 0 else length (longest_common_prefix prev key))"

definition put_entry :: "nat \<Rightarrow> bytes \<Rightarrow> bytes \<Rightarrow> bytes" where
  "put_entry shared key value =
     put_varint shared @ put_varint (length key - shared) @ put_varint (length value) @ drop shared key @ value"

fun put_entries :: "nat \<Rightarrow> bytes \<Rightarrow> block_entry list \<Rightarrow> bytes \<times> nat list" where
  "put_entries offset prev [] = ([], [])"
| "put_entries offset prev ((restart, key, value) # es) =
     (let e = put_entry (shared_length restart prev key) key value;
          (out, restarts) = put_entries (offset + length e) key es in
      (e @ out, if restart then offset # restarts else restarts))"

definition put_block :: "block_entry list \<Rightarrow> bytes" where
  "put_block es =
     (let (out, restarts) = put_entries 0 [] es in
      out @ concat (map (le_bytes 4) restarts) @ le_bytes 4 (length restarts))"

fun visit_entries :: "'s entry_visitor \<Rightarrow> block_entry list \<Rightarrow> 's \<Rightarrow> 's result" where
  "visit_entries visit [] s = Inr s"
| "visit_entries visit ((restart, key, value) # es) s = res_bind (visit key value s) (visit_entries visit es)"

definition entry_ok :: "block_entry \<Rightarrow> bool" where
  "entry_ok e \<longleftrightarrow> length (fst (snd e)) < 2 ^ 32 \<and> length (snd (snd e)) < 2 ^ 32"

definition entries_ok :: "block_entry list \<Rightarrow> bool" where
  "entries_ok es \<longleftrightarrow> (es \<noteq> [] \<longrightarrow> fst (hd es)) \<and> list_all entry_ok es \<and> length (put_block es) < 2 ^ 32"


subsection \<open>Reading a block back\<close>

lemma put_entry_nonempty [simp]: "0 < length (put_entry sh k v)" "put_entry sh k v \<noteq> []"
  by (simp_all add: put_entry_def)

lemma unat_word32 [simp]: "n < 2 ^ 32 \<Longrightarrow> unat (word_of_nat n :: 32 word) = n"
  by (simp add: unsigned_of_nat take_bit_eq_mod)

lemma shared_length_le: "shared_length restart prev key \<le> length prev" "shared_length restart prev key \<le> length key"
  by (simp_all add: shared_length_def prefix_length_le longest_common_prefix_prefix1 longest_common_prefix_prefix2)

lemma shared_length_take: "take (shared_length restart prev key) prev = take (shared_length restart prev key) key"
proof -
  obtain a b where "prev = longest_common_prefix prev key @ a" "key = longest_common_prefix prev key @ b"
    using longest_common_prefix_prefix1 longest_common_prefix_prefix2 by (metis prefixE)
  then show ?thesis by (cases restart) (simp_all add: shared_length_def, metis append_eq_conv_conj)
qed

lemma entry_lengths_put:
  "sh < 2 ^ 32 \<Longrightarrow> ul < 2 ^ 32 \<Longrightarrow> vl < 2 ^ 32 \<Longrightarrow>
   entry_lengths (put_varint sh @ put_varint ul @ put_varint vl @ rest) = Inr ((sh, ul, vl), rest)"
  by (simp add: entry_lengths_def varint32c.dec_enc)

lemma entries_loop_put:
  assumes "entry_ok (restart, key, value)"
    and "restart_step restarts n (limit - length (put_entry (shared_length restart prev key) key value @ rest))
      (shared_length restart prev key) = Inr n'"
  shows "entries_loop visit limit restarts n prev (put_entry (shared_length restart prev key) key value @ rest) s =
    res_bind (visit key value s) (entries_loop visit limit restarts n' key rest)"
proof -
  let ?sh = "shared_length restart prev key"
  have "?sh < 2 ^ 32" "length key - ?sh < 2 ^ 32" "length value < 2 ^ 32"
    using assms(1) shared_length_le(2) [of restart prev key] by (auto simp: entry_ok_def)
  then have "entry_lengths (put_entry ?sh key value @ rest) =
      Inr ((?sh, length key - ?sh, length value), drop ?sh key @ value @ rest)"
    using entry_lengths_put by (simp add: put_entry_def)
  moreover have "take_bytes (length key - ?sh) (drop ?sh key @ value @ rest) = Inr (drop ?sh key, value @ rest)"
    using take_bytes_append [of "drop ?sh key"] by simp
  ultimately show ?thesis
    using assms(2) shared_length_le(1) [of restart prev key]
    by (simp add: entries_loop.simps [of _ _ _ _ _ "put_entry ?sh key value @ rest"] Let_def shared_length_take)
qed

lemma put_entries_restarts:
  "r \<in> set (snd (put_entries off prev es)) \<Longrightarrow> off \<le> r \<and> r < off + length (fst (put_entries off prev es))"
proof (induction off prev es rule: put_entries.induct)
  case (2 off prev restart key val es)
  define e where "e = put_entry (shared_length restart prev key) key val"
  have "0 < length e" by (simp add: e_def)
  with 2 show ?case by (fastforce simp: e_def [symmetric] Let_def split_beta split: if_splits)
qed simp

lemma put_entries_sorted: "sorted_wrt (<) (snd (put_entries off prev es))"
proof (induction off prev es rule: put_entries.induct)
  case (2 off prev restart key val es)
  define e where "e = put_entry (shared_length restart prev key) key val"
  have "0 < length e" by (simp add: e_def)
  then have "off < r" if "r \<in> set (snd (put_entries (off + length e) key es))" for r
    using put_entries_restarts [OF that] by linarith
  with 2 show ?case by (simp add: e_def [symmetric] Let_def split_beta)
qed simp

lemma entries_loop_entries:
  "list_all entry_ok es \<Longrightarrow> limit = off + length (fst (put_entries off prev es)) \<Longrightarrow>
   restarts = before @ snd (put_entries off prev es) \<Longrightarrow>
   entries_loop visit limit restarts (length before) prev (fst (put_entries off prev es)) s =
   res_bind (visit_entries visit es s) (\<lambda>s. Inr (length restarts, s))"
proof (induction off prev es arbitrary: before s rule: put_entries.induct)
  case (1 off prev)
  then show ?case by (simp add: entries_loop.simps)
next
  case (2 off prev restart key val es)
  define sh where "sh = shared_length restart prev key"
  define e where "e = put_entry sh key val"
  define out where "out = put_entries (off + length e) key es"
  have put: "put_entries off prev ((restart, key, val) # es) =
      (e @ fst out, if restart then off # snd out else snd out)"
    by (simp add: e_def out_def sh_def Let_def split_beta)
  let ?before = "if restart then before @ [off] else before"
  have "0 < length e" by (simp add: e_def)
  then have "off < r" if "r \<in> set (snd out)" for r
    using put_entries_restarts [of r "off + length e" key es] that unfolding out_def by linarith
  then have next_: "snd out \<noteq> [] \<Longrightarrow> off < snd out ! 0" by (cases "snd out") simp_all
  have off: "limit - length (e @ fst out) = off" using 2(3) by (simp only: put) simp
  have rs: "restarts = before @ (if restart then off # snd out else snd out)"
    using 2(4) by (simp only: put snd_conv)
  then have "restart_step restarts (length before) off sh = Inr (length ?before)"
    using next_ by (cases restart; cases "snd out") (auto simp: restart_step_def nth_append sh_def shared_length_def)
  then have step: "entries_loop visit limit restarts (length before) prev (e @ fst out) s =
      res_bind (visit key val s) (entries_loop visit limit restarts (length ?before) key (fst out))"
    unfolding e_def sh_def using 2(2) off by (intro entries_loop_put) (simp_all add: e_def sh_def)
  have "entries_loop visit limit restarts (length ?before) key (fst out) s' =
      res_bind (visit_entries visit es s') (\<lambda>s. Inr (length restarts, s))" for s'
  proof (rule 2(1) [of e ?before s', folded out_def])
    show "limit = off + length e + length (fst out)" using 2(3) by (simp only: put) simp
  qed (use 2(2) rs in \<open>simp_all add: e_def sh_def\<close>)
  then have "entries_loop visit limit restarts (length ?before) key (fst out) =
      (\<lambda>s'. res_bind (visit_entries visit es s') (\<lambda>s. Inr (length restarts, s)))"
    by (rule ext)
  then show ?case unfolding put fst_conv step by (simp only: visit_entries.simps res_bind_assoc)
qed


lemma u32_list_put: "list_all (\<lambda>r. r < 2 ^ 32) rs \<Longrightarrow> u32_list (length rs) (concat (map (le_bytes 4) rs)) = rs"
  by (induction rs) simp_all

lemma length_restarts [simp]: "length (concat (map (le_bytes 4) rs)) = 4 * length rs"
  by (induction rs) simp_all

lemma split_restarts_put:
  assumes "list_all (\<lambda>r. r < 2 ^ 32) rs" "length rs < 2 ^ 32" "rs \<noteq> [] \<or> entries = []"
  shows "split_restarts (entries @ concat (map (le_bytes 4) rs) @ le_bytes 4 (length rs)) = Inr (entries, rs)"
  using assms by (simp add: split_restarts_def Let_def u32_list_put)

lemma check_restarts_ok:
  "sorted_wrt (<) rs \<Longrightarrow> \<forall>r \<in> set rs. r < limit \<Longrightarrow>
   (case prev of None \<Rightarrow> rs \<noteq> [] \<longrightarrow> hd rs = 0 | Some p \<Rightarrow> \<forall>r \<in> set rs. p < r) \<Longrightarrow>
   check_restarts limit count prev rs = Inr ()"
  by (induction limit count prev rs rule: check_restarts.induct) (auto split: option.splits)

lemma put_entries_first:
  assumes "es \<noteq> []" "fst (hd es)"
  shows "\<exists>rs. snd (put_entries off prev es) = off # rs"
  using assms by (cases es) (auto simp: Let_def split_beta)

lemma read_entries_put:
  assumes "entries_ok es"
  shows "read_entries visit (put_block es) s = visit_entries visit es s"
proof -
  let ?out = "fst (put_entries 0 [] es)" and ?rs = "snd (put_entries 0 [] es)"
  have block: "put_block es = ?out @ concat (map (le_bytes 4) ?rs) @ le_bytes 4 (length ?rs)"
    by (simp add: put_block_def split_beta)
  have len: "length ?out + 4 * length ?rs + 4 < 2 ^ 32"
    using assms unfolding entries_ok_def block by simp
  have rs: "\<forall>r \<in> set ?rs. r < length ?out" using put_entries_restarts by fastforce
  have empty: "?rs \<noteq> [] \<or> ?out = []"
    using assms put_entries_first [of es 0 "[]"] by (cases "es = []") (auto simp: entries_ok_def)
  have "split_restarts (put_block es) = Inr (?out, ?rs)"
    unfolding block using rs len empty by (intro split_restarts_put) (auto simp: list_all_iff)
  moreover have "check_restarts (length ?out) (length ?rs) None ?rs = Inr ()"
    using assms put_entries_first [of es 0 "[]"] put_entries_sorted rs
    by (intro check_restarts_ok; cases "es = []") (auto simp: entries_ok_def)
  moreover have "entries_loop visit (length ?out) ?rs 0 [] ?out s =
      res_bind (visit_entries visit es s) (\<lambda>s. Inr (length ?rs, s))"
    using entries_loop_entries [of es "length ?out" 0 "[]" ?rs "[]"] assms by (simp add: entries_ok_def)
  ultimately show ?thesis by (simp add: read_entries_def res_bind_assoc split_beta)
qed


subsection \<open>A writer of tables\<close>

definition put_file_block :: "leveldb_env \<Rightarrow> bytes \<Rightarrow> bytes" where
  "put_file_block E block = block @ 0 # le_bytes 4 (unat (masked_crc (crc32c E) (block @ [0])))"

definition put_handle :: "nat \<Rightarrow> nat \<Rightarrow> bytes" where
  "put_handle offset n = put_varint offset @ put_varint n"

text \<open>The data blocks with the index entries that point to them.\<close>

fun put_data :: "leveldb_env \<Rightarrow> nat \<Rightarrow> (bytes \<times> block_entry list) list \<Rightarrow> bytes \<times> block_entry list" where
  "put_data E offset [] = ([], [])"
| "put_data E offset ((index_key, es) # bs) =
     (let b = put_block es; (out, index) = put_data E (offset + length b + TRAILER_SIZE) bs in
      (put_file_block E b @ out, (True, index_key, put_handle offset (length b)) # index))"

definition put_table :: "leveldb_env \<Rightarrow> (bytes \<times> block_entry list) list \<Rightarrow> bytes" where
  "put_table E blocks =
     (let (data, index) = put_data E 0 blocks; ib = put_block index in
      data @ put_file_block E ib
        @ take 40 (put_handle 0 0 @ put_handle (length data) (length ib) @ replicate 40 0)
        @ le_bytes 8 TABLE_MAGIC)"

lemma read_handle_put:
  assumes "off < 2 ^ 64" "n < 2 ^ 64"
  shows "read_handle (put_handle off n @ rest) = Inr ((word_of_nat off, word_of_nat n), rest)"
  using assms by (simp add: read_handle_def put_handle_def varint64.dec_enc)

lemma put_file_block_length [simp]: "length (put_file_block E b) = length b + TRAILER_SIZE"
  by (simp add: put_file_block_def TRAILER_SIZE_def)

lemma unat_word64 [simp]: "n < 2 ^ 64 \<Longrightarrow> unat (word_of_nat n :: 64 word) = n"
  by (simp add: unsigned_of_nat take_bit_eq_mod)

lemma read_block_put:
  assumes "length (pre @ put_file_block E b @ post) < 2 ^ 64" "can_hold E (length (put_file_block E b))"
    and "length pre + length (put_file_block E b) \<le> limit"
  shows "read_block E (pre @ put_file_block E b @ post) limit (word_of_nat (length pre), word_of_nat (length b)) = Inr b"
proof -
  let ?c = "masked_crc (crc32c E) (b @ [0])"
  have n: "length pre < 2 ^ 64" "length b < 2 ^ 64" "length b + 5 \<le> u64_max"
    using assms(1) by (simp_all add: TRAILER_SIZE_def u64_max_eq)
  have g: "length pre \<le> limit" "TRAILER_SIZE \<le> limit - length pre" "length b \<le> limit - length pre - TRAILER_SIZE"
    using assms(3) by simp_all
  have "unat ?c < 256 ^ 4" using unsigned_less [of ?c] by simp
  then have "fixed_le 4 (le_bytes 4 (unat ?c)) = Inr (unat ?c, [])"
    using fixed.dec_enc [of "unat ?c" 4 "[]"] by simp
  then have "read_block_trailer (drop (length b) (put_file_block E b)) =
      Inr (\<lparr>compression = 0, block_checksum = unat ?c\<rparr>, [])"
    by (simp add: read_block_trailer_def put_file_block_def take_bytes_def)
  moreover have "take (length b + 1) (put_file_block E b) = b @ [0]" "take (length b) (put_file_block E b) = b"
    by (simp_all add: put_file_block_def)
  moreover have "read_exact (pre @ put_file_block E b @ post) (length pre) (length b + TRAILER_SIZE) =
      Inr (put_file_block E b)"
    by (simp add: read_exact_def)
  ultimately show ?thesis
    using n g assms(2) by (simp add: read_block_def Let_def can_hold_def checked_add_def TRAILER_SIZE_def)
qed


lemma put_varint_length: "n < 128 ^ k \<Longrightarrow> 0 < k \<Longrightarrow> length (put_varint n) \<le> k"
proof (induction n arbitrary: k rule: put_varint.induct)
  case (1 n)
  show ?case
  proof (cases "n < 128")
    case True
    then show ?thesis using 1(3) by (simp add: put_varint.simps [of n])
  next
    case False
    obtain j where k: "k = Suc j" using 1(3) by (cases k) simp_all
    have "n div 128 < 128 ^ j" using 1(2) by (simp add: k less_mult_imp_div_less mult.commute)
    moreover have "0 < j" using 1(2) False by (cases j) (simp_all add: k)
    ultimately show ?thesis using 1(1) [OF False] False by (simp add: put_varint.simps [of n] k)
  qed
qed

lemma put_handle_length: "off < 2 ^ 64 \<Longrightarrow> n < 2 ^ 64 \<Longrightarrow> length (put_handle off n) \<le> 20"
  using put_varint_length [of off 10] put_varint_length [of n 10] by (simp add: put_handle_def)

lemma visit_entries_append:
  "visit_entries visit (xs @ ys) s = res_bind (visit_entries visit xs s) (visit_entries visit ys)"
  by (induction visit xs s rule: visit_entries.induct) (auto simp: res_bind_assoc intro!: res_bind_cong)

text \<open>What the visitor of the index does with an entry.\<close>

definition visit_block :: "leveldb_env \<Rightarrow> bytes \<Rightarrow> nat \<Rightarrow> 's entry_visitor \<Rightarrow> 's entry_visitor" where
  "visit_block E file limit visit key handle s =
     res_bind (read_handle handle) (\<lambda>(handle, _).
     res_bind (read_block E file limit handle) (\<lambda>block. read_entries visit block s))"

lemma visit_data:
  "length (pre @ fst (put_data E (length pre) bs) @ post) < 2 ^ 64 \<Longrightarrow>
   can_hold E (length (pre @ fst (put_data E (length pre) bs))) \<Longrightarrow>
   length (pre @ fst (put_data E (length pre) bs)) \<le> limit \<Longrightarrow>
   list_all (entries_ok \<circ> snd) bs \<Longrightarrow>
   visit_entries (visit_block E (pre @ fst (put_data E (length pre) bs) @ post) limit visit)
     (snd (put_data E (length pre) bs)) s = visit_entries visit (concat (map snd bs)) s"
proof (induction bs arbitrary: pre s)
  case (Cons b bs)
  obtain k es where b: "b = (k, es)" by (cases b)
  let ?f = "put_file_block E (put_block es)"
  define rest where "rest = put_data E (length (pre @ ?f)) bs"
  have put: "put_data E (length pre) (b # bs) =
      (?f @ fst rest, (True, k, put_handle (length pre) (length (put_block es))) # snd rest)"
    by (simp add: b rest_def Let_def split_beta add.assoc)
  let ?file = "pre @ ?f @ fst rest @ post"
  have file_eq: "pre @ fst (put_data E (length pre) (b # bs)) @ post = ?file" by (simp only: put) simp
  have size: "length ?file < 2 ^ 64" "can_hold E (length (pre @ ?f @ fst rest))"
      "length (pre @ ?f @ fst rest) \<le> limit"
    using Cons.prems(1-3) unfolding put by simp_all
  have "read_handle (put_handle (length pre) (length (put_block es))) =
      Inr ((word_of_nat (length pre), word_of_nat (length (put_block es))), [])"
    using size(1) read_handle_put [of "length pre" "length (put_block es)" "[]"] by simp
  moreover have "read_block E ?file limit (word_of_nat (length pre), word_of_nat (length (put_block es))) = Inr (put_block es)"
    using size by (intro read_block_put) (auto intro: can_hold_mono)
  ultimately have head: "visit_block E ?file limit visit k (put_handle (length pre) (length (put_block es))) s' =
      visit_entries visit es s'" for s'
    using Cons.prems(4) by (simp add: visit_block_def read_entries_put b)
  have "visit_entries (visit_block E ?file limit visit) (snd rest) = visit_entries visit (concat (map snd bs))"
    using Cons.IH [of "pre @ ?f"] Cons.prems(4) size by (intro ext) (simp add: rest_def)
  then show ?case unfolding file_eq unfolding put by (simp add: head b visit_entries_append)
qed simp

lemma read_table_put:
  assumes "list_all (entries_ok \<circ> snd) blocks" "entries_ok (snd (put_data E 0 blocks))"
    and "length (put_table E blocks) < 2 ^ 64" "can_hold E (length (put_table E blocks))"
  shows "read_table E (put_table E blocks) (length (put_table E blocks)) visit s =
    visit_entries visit (concat (map snd blocks)) s"
proof -
  define data where "data = fst (put_data E 0 blocks)"
  define ib where "ib = put_block (snd (put_data E 0 blocks))"
  define hs where "hs = put_handle 0 0 @ put_handle (length data) (length ib)"
  define footer where "footer = take 40 (hs @ replicate 40 0) @ le_bytes 8 TABLE_MAGIC"
  have file_eq: "put_table E blocks = data @ put_file_block E ib @ footer"
    by (simp add: put_table_def Let_def split_beta data_def ib_def hs_def footer_def)
  have footer_len: "length footer = FOOTER_SIZE" by (simp add: footer_def FOOTER_SIZE_def)
  have len: "length data < 2 ^ 64" "length ib < 2 ^ 64" using assms(3) by (simp_all add: file_eq)
  have hold: "can_hold E (length data)" by (rule can_hold_mono [OF assms(4)]) (simp add: file_eq)
  have "length hs \<le> 40"
    using put_handle_length [of 0 0] put_handle_length [OF len] by (simp add: hs_def)
  then have hs40: "take 40 footer = hs @ replicate (40 - length hs) 0" by (simp add: footer_def)
  have magic: "le_nat (drop 40 footer) = TABLE_MAGIC" by (simp add: footer_def TABLE_MAGIC_def)
  have meta: "read_handle (take 40 footer) =
      Inr ((0, 0), put_handle (length data) (length ib) @ replicate (40 - length hs) 0)"
    using read_handle_put [of 0 0] by (simp add: hs40 hs_def)
  note index = read_handle_put [OF len, of "replicate (40 - length hs) 0"]
  have block: "read_block E (put_table E blocks) (length (put_table E blocks) - FOOTER_SIZE)
      (word_of_nat (length data), word_of_nat (length ib)) = Inr ib"
    using assms(3,4) unfolding file_eq
    by (intro read_block_put) (auto simp: footer_len intro: can_hold_mono)
  have "visit_entries (visit_block E (put_table E blocks) (length data) visit) (snd (put_data E 0 blocks)) s =
      visit_entries visit (concat (map snd blocks)) s"
    using visit_data [of "[]" E blocks "put_file_block E ib @ footer" "length data" visit s] assms(1,3) hold
    by (simp add: file_eq data_def)
  then have "read_entries (visit_block E (put_table E blocks) (length data) visit) ib s =
      visit_entries visit (concat (map snd blocks)) s"
    using assms(2) by (simp add: ib_def read_entries_put)
  moreover have "read_exact (put_table E blocks) (length (put_table E blocks) - FOOTER_SIZE) FOOTER_SIZE = Inr footer"
    by (simp add: read_exact_def file_eq footer_len)
  moreover have "FOOTER_SIZE \<le> length (put_table E blocks)" by (simp add: file_eq footer_len)
  ultimately show ?thesis
    using len by (simp add: read_table_def Let_def magic meta index block visit_block_def [abs_def])
qed


lemma read_block_bounds:
  assumes "read_block E file limit handle = Inr b"
  shows "unat (fst handle) + unat (snd handle) + TRAILER_SIZE \<le> limit"
    and "unat (fst handle) + unat (snd handle) + TRAILER_SIZE \<le> length file"
    and "length b \<le> 64 * unat (snd handle)"
  using assms
  by (auto simp: read_block_def Let_def ensure_Inr res_bind_Inr read_exact_def snappy_block_def TRAILER_SIZE_def
      split: option.splits if_splits)


subsection \<open>The reader against the writer\<close>

text \<open>C26: reading a table written in the format gives the visitor exactly the entries of its data
  blocks, with the keys restored from their shared prefixes, in the order of the index; it
  stops with the visitor's error if there is one.\<close>

theorem table_reads_back:
  assumes "list_all (entries_ok \<circ> snd) blocks" "entries_ok (snd (put_data E 0 blocks))"
    and "length (put_table E blocks) < 2 ^ 64" "can_hold E (length (put_table E blocks))"
  shows "read_table E (put_table E blocks) (length (put_table E blocks)) visit s =
    visit_entries visit (concat (map snd blocks)) s"
  by (rule read_table_put [OF assms])

lemma table_reads_back_witness:
  "read_table log_env (put_table log_env [([9], [(True, [1, 2], [3]), (False, [1, 4], [])])])
     (length (put_table log_env [([9], [(True, [1, 2], [3]), (False, [1, 4], [])])]))
     (\<lambda>k v s. Inr (s @ [(k, v)])) []
   = Inr [([1, 2], [3]), ([1, 4], [])]"
  using table_reads_back [of "[([9], [(True, [1, 2], [3]), (False, [1, 4], [])])]" log_env
      "\<lambda>k v s. Inr (s @ [(k, v)])" "[]"]
  by (simp add: entries_ok_def entry_ok_def put_block_def put_entry_def put_varint_small shared_length_def
      put_handle_def put_table_def TRAILER_SIZE_def Let_def)

text \<open>a block that is read lies with its trailer inside the part of the file its reader allows
  and inside the file, and its contents are at most 64 times as long as its stored bytes, so that a
  forged length cannot make the reader allocate more.\<close>

lemma read_block_in_bounds:
  assumes "read_block E file limit handle = Inr b"
  shows "unat (fst handle) + unat (snd handle) + TRAILER_SIZE \<le> min limit (length file)
    \<and> length b \<le> 64 * unat (snd handle)"
  using read_block_bounds [OF assms] by simp

lemma read_block_in_bounds_example:
  "unat (fst (0 :: 64 word, 1 :: 64 word)) + unat (snd (0 :: 64 word, 1 :: 64 word)) + TRAILER_SIZE
     \<le> min 6 (length (put_file_block log_env [7]))
   \<and> length [7 :: byte] \<le> 64 * unat (snd (0 :: 64 word, 1 :: 64 word))"
  by (rule read_block_in_bounds [of log_env "put_file_block log_env [7]"])
    (use read_block_put [of "[]" log_env "[7]" "[]" 6] in \<open>simp add: TRAILER_SIZE_def\<close>)

end
