(* ===== verification/Leveldb_Manifest.thy ===== *)
theory Leveldb_Manifest
  imports Leveldb_Log Text_Prelude "HOL-Library.Product_Lexorder"
begin

section \<open>LevelDB: manifests (moli-leveldb-parser, manifest.rs)\<close>

text \<open>
  The manifest a directory's \<^verbatim>\<open>CURRENT\<close> file names is a log of version edits: tagged fields that
  set the log numbers and the last sequence, and add and delete tables.  A directory is the list
  of its files in the order \<^verbatim>\<open>read_dir\<close> lists them.  Every way the text of \<^verbatim>\<open>CURRENT\<close> can be
  refused, its decoding included, is the one error \<^verbatim>\<open>InvalidCurrent\<close>.
\<close>

type_synonym directory = "(string \<times> bytes) list"
type_synonym table_key = "nat \<times> nat"

definition MAX_SEQUENCE :: nat where
  "MAX_SEQUENCE = 2 ^ 56 - 1"

record manifest =
  tables :: "(table_key, nat) btree_map"
  log_number :: nat
  previous_log_number :: nat
  last_sequence :: nat

record manifest_reader = manifest +
  has_log :: bool
  has_next_file :: bool
  has_last_sequence :: bool

definition manifest_default :: manifest_reader where
  "manifest_default = \<lparr>tables = [], log_number = 0, previous_log_number = 0, last_sequence = 0,
     has_log = False, has_next_file = False, has_last_sequence = False\<rparr>"

definition read_level :: "nat decoder" where
  "read_level bs =
     res_bind (varint32 bs) (\<lambda>(level, bs). ensure (level < 7) UnsupportedLevel (Inr (unat level, bs)))"

definition varint_nat :: "nat decoder" where
  "varint_nat bs = res_bind (varint bs) (\<lambda>(n, bs). Inr (unat n, bs))"

text \<open>A slice that must be at least as long as the tag of an internal key.\<close>

definition read_key :: "unit decoder" where
  "read_key bs = res_bind (slice bs) (\<lambda>(key, bs). ensure (8 \<le> length key) InvalidKey (Inr ((), bs)))"

definition comparator_name :: bytes where
  "comparator_name = map (\<lambda>c. word_of_nat (of_char c)) ''leveldb.BytewiseComparator''"

text \<open>The state of one edit: what it set, and the tables it deletes and adds.\<close>

record version_edit =
  reader :: manifest_reader
  deleted :: "table_key list"
  added :: "(table_key \<times> nat) list"

definition manifest_field :: "nat \<Rightarrow> bytes \<Rightarrow> version_edit \<Rightarrow> (version_edit \<times> bytes) result" where
  "manifest_field tag bs ed =
     (if tag = 1 then
        res_bind (slice bs) (\<lambda>(name, bs).
          ensure (name = comparator_name) UnsupportedComparator (Inr (ed, bs)))
      else if tag = 2 then
        res_bind (varint_nat bs) (\<lambda>(n, bs).
          Inr (ed\<lparr>reader := (reader ed)\<lparr>log_number := n, has_log := True\<rparr>\<rparr>, bs))
      else if tag = 3 then
        res_bind (varint_nat bs) (\<lambda>(n, bs). Inr (ed\<lparr>reader := (reader ed)\<lparr>has_next_file := True\<rparr>\<rparr>, bs))
      else if tag = 4 then
        res_bind (varint_nat bs) (\<lambda>(n, bs).
          ensure (n \<le> MAX_SEQUENCE) InvalidSequence
            (Inr (ed\<lparr>reader := (reader ed)\<lparr>last_sequence := n, has_last_sequence := True\<rparr>\<rparr>, bs)))
      else if tag = 5 then
        res_bind (read_level bs) (\<lambda>(level, bs). res_bind (read_key bs) (\<lambda>(_, bs). Inr (ed, bs)))
      else if tag = 6 then
        res_bind (read_level bs) (\<lambda>(level, bs). res_bind (varint_nat bs) (\<lambda>(n, bs).
          Inr (ed\<lparr>deleted := deleted ed @ [(level, n)]\<rparr>, bs)))
      else if tag = 7 then
        res_bind (read_level bs) (\<lambda>(level, bs). res_bind (varint_nat bs) (\<lambda>(n, bs).
        res_bind (varint_nat bs) (\<lambda>(sz, bs). res_bind (read_key bs) (\<lambda>(_, bs). res_bind (read_key bs) (\<lambda>(_, bs).
          Inr (ed\<lparr>added := added ed @ [((level, n), sz)]\<rparr>, bs))))))
      else if tag = 9 then
        res_bind (varint_nat bs) (\<lambda>(n, bs). Inr (ed\<lparr>reader := (reader ed)\<lparr>previous_log_number := n\<rparr>\<rparr>, bs))
      else Inl UnsupportedTag)"

lemma read_level_shorter: "read_level bs = Inr (x, rest) \<Longrightarrow> length rest < length bs"
  by (auto simp: read_level_def res_bind_Inr ensure_Inr dest: varint32_shorter)

lemma varint_nat_shorter: "varint_nat bs = Inr (x, rest) \<Longrightarrow> length rest < length bs"
  by (auto simp: varint_nat_def res_bind_Inr dest: varint_shorter)

lemma read_key_shorter: "read_key bs = Inr (x, rest) \<Longrightarrow> length rest < length bs"
  by (auto simp: read_key_def res_bind_Inr ensure_Inr dest: slice_shorter)

lemma manifest_field_shorter: "manifest_field tag bs ed = Inr (ed', rest) \<Longrightarrow> length rest < length bs"
  by (fastforce simp: manifest_field_def res_bind_Inr ensure_Inr split: if_splits
      dest: read_level_shorter varint_nat_shorter read_key_shorter slice_shorter)

function edit_loop :: "bytes \<Rightarrow> version_edit \<Rightarrow> version_edit result" where
  "edit_loop input ed =
     (if input = [] then Inr ed
      else
        res_bind (varint32 input) (\<lambda>(tag, rest).
        res_bind (manifest_field (unat tag) rest ed) (\<lambda>(ed', rest'). edit_loop rest' ed')))"
  by pat_completeness auto
termination
  by (relation "measure (\<lambda>(input, ed). length input)")
    (fastforce dest: varint32_shorter manifest_field_shorter)+

declare edit_loop.simps [simp del]

text \<open>The visitor of the manifest's records: deletions apply before additions.\<close>

definition apply_edit :: "version_edit \<Rightarrow> manifest_reader" where
  "apply_edit ed =
     (let m = reader ed in
      m\<lparr>tables := fold (\<lambda>(k, v) t. bt_insert k v t) (added ed) (fold bt_remove (deleted ed) (tables m))\<rparr>)"

definition read_edit :: "manifest_reader visitor" where
  "read_edit record m =
     res_bind (edit_loop record \<lparr>reader = m, deleted = [], added = []\<rparr>) (\<lambda>ed. Inr (apply_edit ed))"

definition text_of :: "bytes \<Rightarrow> string" where
  "text_of bs = map (\<lambda>b. char_of (unat b)) bs"

definition is_ascii_digit :: "char \<Rightarrow> bool" where
  "is_ascii_digit c \<longleftrightarrow> char_digit c \<noteq> None"

definition all_digits :: "string \<Rightarrow> bool" where
  "all_digits s \<longleftrightarrow> s \<noteq> [] \<and> list_all is_ascii_digit s"

definition strip_suffix :: "'a list \<Rightarrow> 'a list \<Rightarrow> 'a list option" where
  "strip_suffix suf s = map_option rev (strip_prefix (rev suf) (rev s))"

definition current_manifest :: "bytes \<Rightarrow> string result" where
  "current_manifest current =
     (case strip_suffix [CHR 10] (text_of current) of
        None \<Rightarrow> Inl InvalidCurrent
      | Some name \<Rightarrow>
          (case strip_prefix ''MANIFEST-'' name of
             None \<Rightarrow> Inl InvalidCurrent
           | Some number \<Rightarrow> ensure (all_digits number) InvalidCurrent (Inr name)))"

definition open_file :: "directory \<Rightarrow> string \<Rightarrow> bytes result" where
  "open_file dir name = (case map_of dir name of None \<Rightarrow> Inl IoError | Some bs \<Rightarrow> Inr bs)"

definition read_manifest :: "leveldb_env \<Rightarrow> directory \<Rightarrow> manifest_reader result" where
  "read_manifest E dir =
     res_bind (open_file dir ''CURRENT'') (\<lambda>current.
     res_bind (current_manifest current) (\<lambda>name.
     res_bind (open_file dir name) (\<lambda>records.
     res_bind (read_records_from E read_edit records manifest_default) (\<lambda>m.
       ensure (has_log m \<and> has_next_file m \<and> has_last_sequence m) IncompleteManifest (Inr m)))))"


subsection \<open>A writer of version edits\<close>

datatype edit_field =
    Comparator
  | LogNumber nat
  | NextFile nat
  | LastSequence nat
  | CompactPointer nat bytes
  | DeletedFile nat nat
  | NewFile nat nat nat bytes bytes
  | PrevLogNumber nat

fun put_field :: "edit_field \<Rightarrow> bytes" where
  "put_field Comparator = put_varint 1 @ put_slice comparator_name"
| "put_field (LogNumber n) = put_varint 2 @ put_varint n"
| "put_field (NextFile n) = put_varint 3 @ put_varint n"
| "put_field (LastSequence n) = put_varint 4 @ put_varint n"
| "put_field (CompactPointer l k) = put_varint 5 @ put_varint l @ put_slice k"
| "put_field (DeletedFile l n) = put_varint 6 @ put_varint l @ put_varint n"
| "put_field (NewFile l n sz a b) =
     put_varint 7 @ put_varint l @ put_varint n @ put_varint sz @ put_slice a @ put_slice b"
| "put_field (PrevLogNumber n) = put_varint 9 @ put_varint n"

definition key_ok :: "bytes \<Rightarrow> bool" where
  "key_ok k \<longleftrightarrow> 8 \<le> length k \<and> length k < 2 ^ 32"

fun field_ok :: "edit_field \<Rightarrow> bool" where
  "field_ok Comparator \<longleftrightarrow> True"
| "field_ok (LogNumber n) \<longleftrightarrow> n < 2 ^ 64"
| "field_ok (NextFile n) \<longleftrightarrow> n < 2 ^ 64"
| "field_ok (LastSequence n) \<longleftrightarrow> n \<le> MAX_SEQUENCE"
| "field_ok (CompactPointer l k) \<longleftrightarrow> l < 7 \<and> key_ok k"
| "field_ok (DeletedFile l n) \<longleftrightarrow> l < 7 \<and> n < 2 ^ 64"
| "field_ok (NewFile l n sz a b) \<longleftrightarrow> l < 7 \<and> n < 2 ^ 64 \<and> sz < 2 ^ 64 \<and> key_ok a \<and> key_ok b"
| "field_ok (PrevLogNumber n) \<longleftrightarrow> n < 2 ^ 64"

text \<open>What a field means for the manifest; tables are treated by the whole edit.\<close>

fun set_field :: "edit_field \<Rightarrow> manifest_reader \<Rightarrow> manifest_reader" where
  "set_field (LogNumber n) m = m\<lparr>log_number := n, has_log := True\<rparr>"
| "set_field (NextFile n) m = m\<lparr>has_next_file := True\<rparr>"
| "set_field (LastSequence n) m = m\<lparr>last_sequence := n, has_last_sequence := True\<rparr>"
| "set_field (PrevLogNumber n) m = m\<lparr>previous_log_number := n\<rparr>"
| "set_field f m = m"

fun deleted_tables :: "edit_field list \<Rightarrow> table_key list" where
  "deleted_tables [] = []"
| "deleted_tables (DeletedFile l n # fs) = (l, n) # deleted_tables fs"
| "deleted_tables (f # fs) = deleted_tables fs"

fun added_tables :: "edit_field list \<Rightarrow> (table_key \<times> nat) list" where
  "added_tables [] = []"
| "added_tables (NewFile l n sz a b # fs) = ((l, n), sz) # added_tables fs"
| "added_tables (f # fs) = added_tables fs"

definition put_edit :: "edit_field list \<Rightarrow> bytes" where
  "put_edit fs = concat (map put_field fs)"

definition edit_result :: "edit_field list \<Rightarrow> manifest_reader \<Rightarrow> manifest_reader" where
  "edit_result fs m =
     apply_edit \<lparr>reader = fold set_field fs m, deleted = deleted_tables fs, added = added_tables fs\<rparr>"


subsection \<open>Reading edits back\<close>

interpretation levelc: codec put_varint read_level "\<lambda>n. n < 7" id
proof
  fix n :: nat and rest assume n: "n < 7"
  then have "(word_of_nat n :: 32 word) < 7" by (simp add: word_less_nat_alt unsigned_of_nat take_bit_eq_mod)
  with n varint32c.dec_enc [of n rest] show "read_level (put_varint n @ rest) = Inr (id n, rest)"
    by (simp add: read_level_def unsigned_of_nat take_bit_eq_mod)
qed

interpretation natc: codec put_varint varint_nat "\<lambda>n. n < 2 ^ 64" id
  by unfold_locales (simp add: varint_nat_def varint64.dec_enc unsigned_of_nat take_bit_eq_mod)

interpretation keyc: codec put_slice read_key key_ok "\<lambda>_. ()"
  by unfold_locales (simp add: read_key_def key_ok_def slicec.dec_enc)

definition field_step :: "edit_field \<Rightarrow> version_edit \<Rightarrow> version_edit" where
  "field_step f ed =
     \<lparr>reader = set_field f (reader ed), deleted = deleted ed @ deleted_tables [f], added = added ed @ added_tables [f]\<rparr>"

lemma comparator_name_length: "length comparator_name = 26"
  by (simp add: comparator_name_def)

lemma MAX_SEQUENCE_less: "n \<le> MAX_SEQUENCE \<Longrightarrow> n < 18446744073709551616"
  by (simp add: MAX_SEQUENCE_def)

lemma edit_loop_tag:
  "tag < 128 \<Longrightarrow> edit_loop (put_varint tag @ rest) ed =
    res_bind (manifest_field tag rest ed) (\<lambda>(ed', rest'). edit_loop rest' ed')"
  using varint32c.dec_enc [of tag rest]
  by (simp add: edit_loop.simps [of "put_varint tag @ rest"] unsigned_of_nat take_bit_eq_mod)

lemma edit_loop_field:
  "field_ok f \<Longrightarrow> edit_loop (put_field f @ rest) ed = edit_loop rest (field_step f ed)"
  using comparator_name_length
  by (cases ed; cases f) (simp_all add: edit_loop_tag manifest_field_def field_step_def slicec.dec_enc natc.dec_enc
      levelc.dec_enc keyc.dec_enc MAX_SEQUENCE_less)

lemma edit_loop_put:
  "list_all field_ok fs \<Longrightarrow> edit_loop (concat (map put_field fs)) ed = Inr (fold field_step fs ed)"
  by (induction fs arbitrary: ed) (simp_all add: edit_loop_field edit_loop.simps [of "[]"])

lemma fold_field_step:
  "fold field_step fs ed =
     \<lparr>reader = fold set_field fs (reader ed), deleted = deleted ed @ deleted_tables fs, added = added ed @ added_tables fs\<rparr>"
proof (induction fs arbitrary: ed)
  case (Cons f fs)
  then show ?case by (cases f) (simp_all add: field_step_def)
qed simp

lemma read_edit_put: "list_all field_ok fs \<Longrightarrow> read_edit (put_edit fs) m = Inr (edit_result fs m)"
  by (simp add: read_edit_def put_edit_def edit_loop_put fold_field_step edit_result_def)

lemma set_field_tables [simp]: "tables (fold set_field fs m) = tables m"
proof (induction fs arbitrary: m)
  case (Cons f fs)
  then show ?case by (cases f) simp_all
qed simp

lemma edit_result_tables:
  assumes "bt_sorted (tables m)"
  shows "bt_sorted (tables (edit_result fs m))"
    and "map_of (tables (edit_result fs m)) =
      (\<lambda>k. if k \<in> set (deleted_tables fs) then None else map_of (tables m) k) ++ map_of (rev (added_tables fs))"
proof -
  let ?t = "fold bt_remove (deleted_tables fs) (tables m)"
  have t: "bt_sorted ?t" "map_of ?t = (\<lambda>k. if k \<in> set (deleted_tables fs) then None else map_of (tables m) k)"
    using bt.fold_remove [OF assms] by (auto simp: fun_eq_iff)
  show "bt_sorted (tables (edit_result fs m))"
    using bt.fold_insert [OF t(1)] by (simp add: edit_result_def apply_edit_def)
  show "map_of (tables (edit_result fs m)) = (\<lambda>k. if k \<in> set (deleted_tables fs) then None
      else map_of (tables m) k) ++ map_of (rev (added_tables fs))"
    using bt.fold_insert [OF t(1)] t(2) by (simp add: edit_result_def apply_edit_def)
qed

lemma visit_edits:
  "list_all (list_all field_ok) edits \<Longrightarrow>
   visit_all read_edit (map put_edit edits) m = Inr (fold edit_result edits m)"
  by (induction edits arbitrary: m) (simp_all add: read_edit_put)

lemma edit_results_sorted:
  "bt_sorted (tables m) \<Longrightarrow> bt_sorted (tables (fold edit_result edits m))"
  by (induction edits arbitrary: m) (simp_all add: edit_result_tables)


subsection \<open>Version edits\<close>

text \<open>reading one version edit leaves a table in the manifest exactly when the edit adds it, with
  the size it last gives, or when it was there and the edit does not delete it: deletions apply
  before additions, wherever the fields stand in the edit.\<close>

lemma manifest_deletes_before_adds:
  assumes "list_all field_ok fs" "bt_sorted (tables m)"
  shows "\<exists>m'. read_edit (put_edit fs) m = Inr m' \<and> bt_sorted (tables m') \<and>
    map_of (tables m') = (\<lambda>k. if k \<in> set (deleted_tables fs) then None else map_of (tables m) k)
      ++ map_of (rev (added_tables fs))"
  by (intro exI [of _ "edit_result fs m"] conjI read_edit_put [OF assms(1)] edit_result_tables [OF assms(2)])

lemma manifest_deletes_before_adds_example:
  "\<exists>m'. read_edit (put_edit [NewFile 1 5 80 (replicate 8 0) (replicate 8 0), DeletedFile 0 5, DeletedFile 1 5])
      (manifest_default\<lparr>tables := [((0, 5), 80)]\<rparr>) = Inr m'
    \<and> map_of (tables m') (0, 5) = None \<and> map_of (tables m') (1, 5) = Some 80"
  using manifest_deletes_before_adds [of "[NewFile 1 5 80 (replicate 8 0) (replicate 8 0), DeletedFile 0 5, DeletedFile 1 5]"
      "manifest_default\<lparr>tables := [((0, 5), 80)]\<rparr>"]
  by (auto simp: key_ok_def)

end
