(* ===== verification/Leveldb_Snapshot.thy ===== *)
theory Leveldb_Snapshot
  imports Leveldb_Table Leveldb_Manifest
begin

section \<open>LevelDB: snapshots (moli-leveldb-parser, lib.rs)\<close>

text \<open>
  \<^verbatim>\<open>read_snapshot\<close>: the manifest selects the write-ahead logs to replay and the live tables; every
  version they hold is applied to a map from keys to the newest version seen, and the deleted
  keys are dropped at the end.  File system failures other than a missing file are not
  modelled, nor are file names that are not text.

  The lemmas show that the map holds the newest version of every key whatever the order the
  versions come in, and that a directory written in the format is read as the newest visible
  writes of its logs and tables.
\<close>

type_synonym versions = "bytes \<rightharpoonup> (nat \<times> bytes option)"
type_synonym version_write = "bytes \<times> nat \<times> bytes option"

definition apply_version :: "versions \<Rightarrow> bytes \<Rightarrow> nat \<Rightarrow> bytes option \<Rightarrow> versions result" where
  "apply_version versions key sequence val =
     (case versions key of
        None \<Rightarrow> Inr (versions(key \<mapsto> (sequence, val)))
      | Some (previous_sequence, previous_value) \<Rightarrow>
          if previous_sequence = sequence then
            ensure (previous_value = val) ConflictingValues (Inr versions)
          else if previous_sequence < sequence then Inr (versions(key \<mapsto> (sequence, val)))
          else Inr versions)"

definition read_batch_header :: "(nat \<times> nat) decoder" where
  "read_batch_header bs =
     res_bind (fixed_le 8 bs) (\<lambda>(sequence, bs). res_bind (fixed_le 4 bs) (\<lambda>(count, bs).
       Inr ((sequence, count), bs)))"

definition batch_value :: "byte \<Rightarrow> (bytes option) decoder" where
  "batch_value kind bs =
     (if kind = 0 then Inr (None, bs)
      else if kind = 1 then res_bind (slice bs) (\<lambda>(val, bs). Inr (Some val, bs))
      else Inl UnsupportedValueType)"

text \<open>The loop over the operations of a batch; \<^term>\<open>sequence\<close> is that of the next operation.\<close>

fun batch_loop :: "nat \<Rightarrow> nat \<Rightarrow> bytes \<Rightarrow> versions \<Rightarrow> (versions \<times> bytes) result" where
  "batch_loop 0 sequence input versions = Inr (versions, input)"
| "batch_loop (Suc n) sequence input versions =
     res_bind (take_bytes 1 input) (\<lambda>(kind, input).
     res_bind (slice input) (\<lambda>(key, input).
     res_bind (batch_value (hd kind) input) (\<lambda>(val, input).
     res_bind (apply_version versions key sequence val) (\<lambda>versions.
       batch_loop n (sequence + 1) input versions))))"

definition read_batch :: "bytes \<Rightarrow> versions \<Rightarrow> (nat option \<times> versions) result" where
  "read_batch record versions =
     res_bind (read_batch_header record) (\<lambda>((sequence, count), input).
       ensure (sequence \<le> MAX_SEQUENCE \<and> count - 1 \<le> MAX_SEQUENCE - sequence) BatchSequenceOverflow
         (res_bind (batch_loop count sequence input versions) (\<lambda>(versions, input).
            ensure (input = []) BatchCountMismatch
              (Inr (if count > 0 then Some (sequence + (count - 1)) else None, versions)))))"

text \<open>The selection of the logs among the files of the directory.\<close>

fun select_logs ::
  "manifest_reader \<Rightarrow> directory \<Rightarrow> (nat, bytes) btree_map \<Rightarrow> (nat, bytes) btree_map result" where
  "select_logs m [] logs = Inr logs"
| "select_logs m ((name, contents) # dir) logs =
     (case strip_suffix ''.log'' name of
        None \<Rightarrow> select_logs m dir logs
      | Some name \<Rightarrow>
          if \<not> all_digits name then select_logs m dir logs
          else
            (case parse_u64 name of
               None \<Rightarrow> Inl InvalidLogNumber
             | Some number \<Rightarrow>
                 if number \<ge> log_number m \<or> number = previous_log_number m then
                   ensure (map_of logs number = None) DuplicateLog
                     (select_logs m dir (bt_insert number contents logs))
                 else select_logs m dir logs))"

record replay =
  versions :: versions
  latest_sequence :: nat

definition replay_record :: "replay visitor" where
  "replay_record record r =
     res_bind (read_batch record (versions r)) (\<lambda>(sequence, vs).
       Inr (case sequence of
              Some n \<Rightarrow> r\<lparr>versions := vs, latest_sequence := max (latest_sequence r) n\<rparr>
            | None \<Rightarrow> r\<lparr>versions := vs\<rparr>))"

fun replay_logs :: "leveldb_env \<Rightarrow> bytes list \<Rightarrow> replay \<Rightarrow> replay result" where
  "replay_logs E [] r = Inr r"
| "replay_logs E (file # files) r =
     res_bind (read_records_from E replay_record file r) (replay_logs E files)"

definition padded_number :: "nat \<Rightarrow> string" where
  "padded_number n = replicate (6 - length (show_nat n)) CHR ''0'' @ show_nat n"

definition table_file :: "directory \<Rightarrow> nat \<Rightarrow> bytes result" where
  "table_file dir number =
     (case map_of dir (padded_number number @ ''.ldb'') of
        Some bs \<Rightarrow> Inr bs
      | None \<Rightarrow> open_file dir (padded_number number @ ''.sst''))"

definition apply_table_entry :: "nat \<Rightarrow> versions entry_visitor" where
  "apply_table_entry latest key val vs =
     ensure (8 \<le> length key) TruncatedInternalKey
       (let tag = le_nat (drop (length key - 8) key); key = take (length key - 8) key in
        res_bind (if tag mod 256 = 0 then Inr None
                  else if tag mod 256 = 1 then Inr (Some val) else Inl UnsupportedValueType) (\<lambda>val.
          if tag div 256 \<le> latest then apply_version vs key (tag div 256) val else Inr vs))"

fun apply_tables ::
  "leveldb_env \<Rightarrow> directory \<Rightarrow> nat \<Rightarrow> (table_key, nat) btree_map \<Rightarrow> versions \<Rightarrow> versions result" where
  "apply_tables E dir latest [] vs = Inr vs"
| "apply_tables E dir latest (((level, number), sz) # ts) vs =
     res_bind (table_file dir number) (\<lambda>file.
     res_bind (read_table E file sz (apply_table_entry latest) vs) (apply_tables E dir latest ts))"

definition live_entries :: "versions \<Rightarrow> bytes \<rightharpoonup> bytes" where
  "live_entries vs key = Option.bind (vs key) snd"

definition read_snapshot :: "leveldb_env \<Rightarrow> directory \<Rightarrow> (bytes \<rightharpoonup> bytes) result" where
  "read_snapshot E dir =
     res_bind (read_manifest E dir) (\<lambda>m.
     res_bind (select_logs m dir []) (\<lambda>logs.
     res_bind (replay_logs E (map snd logs) \<lparr>versions = Map.empty, latest_sequence = last_sequence m\<rparr>) (\<lambda>r.
     res_bind (apply_tables E dir (latest_sequence r) (tables m) (versions r)) (\<lambda>vs.
       Inr (live_entries vs)))))"


subsection \<open>The newest version of every key\<close>

text \<open>What a version map should be after a set of writes, and the writes it can hold without a
  conflict.\<close>

definition newest :: "version_write set \<Rightarrow> bytes \<Rightarrow> nat \<times> bytes option \<Rightarrow> bool" where
  "newest W key v \<longleftrightarrow> (key, fst v, snd v) \<in> W \<and> (\<forall>n x. (key, n, x) \<in> W \<longrightarrow> n \<le> fst v)"

definition holds :: "versions \<Rightarrow> version_write set \<Rightarrow> bool" where
  "holds vs W \<longleftrightarrow> (\<forall>key. case vs key of None \<Rightarrow> \<forall>n x. (key, n, x) \<notin> W | Some v \<Rightarrow> newest W key v)"

definition consistent :: "version_write set \<Rightarrow> bool" where
  "consistent W \<longleftrightarrow> (\<forall>key n x y. (key, n, x) \<in> W \<longrightarrow> (key, n, y) \<in> W \<longrightarrow> x = y)"

definition apply_write :: "version_write \<Rightarrow> versions \<Rightarrow> versions result" where
  "apply_write w vs = apply_version vs (fst w) (fst (snd w)) (snd (snd w))"

fun apply_writes :: "version_write list \<Rightarrow> versions \<Rightarrow> versions result" where
  "apply_writes [] vs = Inr vs"
| "apply_writes (w # ws) vs = res_bind (apply_write w vs) (apply_writes ws)"

lemma holds_empty [simp]: "holds Map.empty {}"
  by (simp add: holds_def)

lemma consistent_mono: "consistent W \<Longrightarrow> V \<subseteq> W \<Longrightarrow> consistent V"
  unfolding consistent_def by blast

lemma holds_mem: "holds vs W \<Longrightarrow> vs key = Some (n, x) \<Longrightarrow> (key, n, x) \<in> W"
  unfolding holds_def newest_def by (drule spec [of _ key]) simp

lemma holds_max: "holds vs W \<Longrightarrow> vs key = Some (n, x) \<Longrightarrow> (key, m, y) \<in> W \<Longrightarrow> m \<le> n"
  unfolding holds_def newest_def by (drule spec [of _ key]) auto

lemma holds_none: "holds vs W \<Longrightarrow> vs key = None \<Longrightarrow> (key, m, y) \<notin> W"
  unfolding holds_def by (drule spec [of _ key]) simp

lemma holdsI:
  assumes "\<And>key n x. vs key = Some (n, x) \<Longrightarrow> (key, n, x) \<in> W"
    and "\<And>key n x m y. vs key = Some (n, x) \<Longrightarrow> (key, m, y) \<in> W \<Longrightarrow> m \<le> n"
    and "\<And>key m y. vs key = None \<Longrightarrow> (key, m, y) \<notin> W"
  shows "holds vs W"
  unfolding holds_def newest_def
proof
  fix key
  show "case vs key of None \<Rightarrow> \<forall>n x. (key, n, x) \<notin> W
    | Some v \<Rightarrow> (key, fst v, snd v) \<in> W \<and> (\<forall>n x. (key, n, x) \<in> W \<longrightarrow> n \<le> fst v)"
  proof (cases "vs key")
    case None
    then show ?thesis using assms(3) by simp
  next
    case (Some v)
    then show ?thesis using assms(1) [of key "fst v" "snd v"] assms(2) [of key "fst v" "snd v"] by auto
  qed
qed

lemma holds_update:
  assumes "holds vs W" "\<And>m y. (k, m, y) \<in> W \<Longrightarrow> m \<le> n"
  shows "holds (vs(k \<mapsto> (n, x))) (insert (k, n, x) W)"
proof (rule holdsI)
  fix key m y assume "(vs(k \<mapsto> (n, x))) key = Some (m, y)"
  then show "(key, m, y) \<in> insert (k, n, x) W" using holds_mem [OF assms(1)] by (auto split: if_splits)
next
  fix key m y l z assume a: "(vs(k \<mapsto> (n, x))) key = Some (m, y)" "(key, l, z) \<in> insert (k, n, x) W"
  show "l \<le> m"
  proof (cases "key = k")
    case True
    then show ?thesis using a assms(2) by auto
  next
    case False
    then show ?thesis using a holds_max [OF assms(1), of key m y l z] by auto
  qed
next
  fix key m y assume "(vs(k \<mapsto> (n, x))) key = None"
  then show "(key, m, y) \<notin> insert (k, n, x) W" using holds_none [OF assms(1)] by (auto split: if_splits)
qed

lemma holds_skip:
  assumes "holds vs W" "vs k = Some (m, y)" "n < m"
  shows "holds vs (insert (k, n, x) W)"
proof (rule holdsI)
  fix key l z j u assume a: "vs key = Some (l, z)" "(key, j, u) \<in> insert (k, n, x) W"
  then show "j \<le> l" using assms holds_max [OF assms(1) a(1), of j u] by auto
qed (use assms holds_mem [OF assms(1)] holds_none [OF assms(1)] in auto)

lemma apply_write_holds:
  assumes "holds vs W" "consistent (insert w W)"
  shows "\<exists>vs'. apply_write w vs = Inr vs' \<and> holds vs' (insert w W)"
proof -
  obtain k n x where w: "w = (k, n, x)" by (cases w) auto
  show ?thesis
  proof (cases "vs k")
    case None
    then have "holds (vs(k \<mapsto> (n, x))) (insert w W)"
      unfolding w using holds_none [OF assms(1)] by (intro holds_update [OF assms(1)]) auto
    with None show ?thesis by (simp add: apply_write_def apply_version_def w)
  next
    case (Some v)
    obtain m y where v: "v = (m, y)" by (cases v)
    note old = holds_mem [OF assms(1) Some [unfolded v]] holds_max [OF assms(1) Some [unfolded v]]
    consider "m = n" | "m < n" | "n < m" by linarith
    then show ?thesis
    proof cases
      case 1
      then have "y = x" using assms(2) old(1) unfolding consistent_def w by blast
      moreover have "insert w W = W" using old(1) 1 \<open>y = x\<close> by (auto simp: w)
      ultimately show ?thesis using 1 Some assms(1) by (simp add: apply_write_def apply_version_def w v)
    next
      case 2
      then have "holds (vs(k \<mapsto> (n, x))) (insert w W)"
        unfolding w by (intro holds_update [OF assms(1)]) (auto dest: old(2))
      with 2 Some show ?thesis by (simp add: apply_write_def apply_version_def w v)
    next
      case 3
      then have "holds vs (insert w W)" unfolding w by (rule holds_skip [OF assms(1) Some [unfolded v]])
      with 3 Some show ?thesis by (simp add: apply_write_def apply_version_def w v)
    qed
  qed
qed

lemma apply_writes_holds:
  "holds vs W \<Longrightarrow> consistent (W \<union> set ws) \<Longrightarrow> \<exists>vs'. apply_writes ws vs = Inr vs' \<and> holds vs' (W \<union> set ws)"
proof (induction ws arbitrary: vs W)
  case (Cons w ws)
  have "consistent (insert w W)" by (rule consistent_mono [OF Cons.prems(2)]) auto
  then obtain vs1 where "apply_write w vs = Inr vs1" "holds vs1 (insert w W)"
    using apply_write_holds [OF Cons.prems(1)] by blast
  with Cons.IH [of vs1 "insert w W"] Cons.prems(2) show ?case by simp
qed simp

lemma holds_unique:
  assumes "consistent W" "holds vs W" "holds vs' W"
  shows "vs = vs'"
proof
  fix key
  show "vs key = vs' key"
  proof (cases "vs key")
    case None
    show ?thesis
    proof (cases "vs' key")
      case (Some v)
      then show ?thesis using holds_mem [OF assms(3), of key "fst v" "snd v"] holds_none [OF assms(2) None]
        by (cases v) simp
    qed (simp add: None)
  next
    case (Some v)
    obtain n x where v: "v = (n, x)" by (cases v)
    note a = holds_mem [OF assms(2) Some [unfolded v]] holds_max [OF assms(2) Some [unfolded v]]
    obtain m y where b: "vs' key = Some (m, y)"
      using holds_none [OF assms(3)] a(1) by (cases "vs' key") auto
    have "m = n" using holds_max [OF assms(3) b a(1)] a(2) [OF holds_mem [OF assms(3) b]] by simp
    then have "y = x"
      using assms(1) a(1) holds_mem [OF assms(3) b] unfolding consistent_def by blast
    with b Some \<open>m = n\<close> show ?thesis by (simp add: v)
  qed
qed



subsection \<open>Batches\<close>

type_synonym batch = "nat \<times> (bytes \<times> bytes option) list"

fun put_op :: "bytes \<times> bytes option \<Rightarrow> bytes" where
  "put_op (key, None) = 0 # put_slice key"
| "put_op (key, Some val) = 1 # put_slice key @ put_slice val"

definition put_batch :: "batch \<Rightarrow> bytes" where
  "put_batch b = le_bytes 8 (fst b) @ le_bytes 4 (length (snd b)) @ concat (map put_op (snd b))"

fun op_ok :: "bytes \<times> bytes option \<Rightarrow> bool" where
  "op_ok (key, v) \<longleftrightarrow> length key < 2 ^ 32 \<and> (case v of None \<Rightarrow> True | Some val \<Rightarrow> length val < 2 ^ 32)"

definition batch_ok :: "batch \<Rightarrow> bool" where
  "batch_ok b \<longleftrightarrow> fst b + (length (snd b) - 1) \<le> MAX_SEQUENCE \<and> length (snd b) < 2 ^ 32 \<and> list_all op_ok (snd b)"

text \<open>The operations of a batch get consecutive sequence numbers.\<close>

fun batch_writes :: "nat \<Rightarrow> (bytes \<times> bytes option) list \<Rightarrow> version_write list" where
  "batch_writes n [] = []"
| "batch_writes n ((key, v) # ops) = (key, n, v) # batch_writes (n + 1) ops"

definition batch_end :: "batch \<Rightarrow> nat \<Rightarrow> nat" where
  "batch_end b n = (if snd b = [] then n else max n (fst b + (length (snd b) - 1)))"

lemma take_bytes_Cons [simp]: "take_bytes 1 (b # bs) = Inr ([b], bs)" "take_bytes (Suc 0) (b # bs) = Inr ([b], bs)"
  by (simp_all add: take_bytes_def)

lemma batch_loop_put:
  "list_all op_ok ops \<Longrightarrow>
   batch_loop (length ops) n (concat (map put_op ops) @ rest) vs =
   res_bind (apply_writes (batch_writes n ops) vs) (\<lambda>vs. Inr (vs, rest))"
proof (induction ops arbitrary: n vs)
  case (Cons e ops)
  obtain key v where e: "e = (key, v)" by (cases e)
  have "batch_loop (length ops) m (concat (map put_op ops) @ rest) =
      (\<lambda>vs. res_bind (apply_writes (batch_writes m ops) vs) (\<lambda>vs. Inr (vs, rest)))" for m
    using Cons by (intro ext) simp
  with Cons.prems show ?case
    by (cases v) (simp_all add: e slicec.dec_enc batch_value_def apply_write_def res_bind_assoc)
qed simp

lemma read_batch_put:
  assumes "batch_ok b"
  shows "read_batch (put_batch b) vs =
    res_bind (apply_writes (batch_writes (fst b) (snd b)) vs) (\<lambda>vs.
      Inr (if snd b = [] then None else Some (fst b + (length (snd b) - 1)), vs))"
proof -
  have "fst b < 256 ^ 8" "length (snd b) < 256 ^ 4"
    using assms by (simp_all add: batch_ok_def MAX_SEQUENCE_def)
  then have "read_batch_header (put_batch b) = Inr ((fst b, length (snd b)), concat (map put_op (snd b)))"
    by (simp add: read_batch_header_def put_batch_def fixed.dec_enc)
  moreover have "fst b \<le> MAX_SEQUENCE" "length (snd b) - 1 \<le> MAX_SEQUENCE - fst b"
    using assms by (auto simp: batch_ok_def)
  ultimately show ?thesis
    using assms batch_loop_put [of "snd b" "fst b" "[]" vs]
    by (simp add: read_batch_def batch_ok_def res_bind_assoc)
qed

lemma replay_record_put:
  assumes "batch_ok b" "holds (versions r) W" "consistent (W \<union> set (batch_writes (fst b) (snd b)))"
  shows "\<exists>vs. replay_record (put_batch b) r =
      Inr \<lparr>versions = vs, latest_sequence = batch_end b (latest_sequence r)\<rparr>
    \<and> holds vs (W \<union> set (batch_writes (fst b) (snd b)))"
proof -
  obtain vs where "apply_writes (batch_writes (fst b) (snd b)) (versions r) = Inr vs"
      "holds vs (W \<union> set (batch_writes (fst b) (snd b)))"
    using apply_writes_holds [OF assms(2,3)] by blast
  then show ?thesis
    by (cases r) (auto simp: replay_record_def read_batch_put [OF assms(1)] batch_end_def)
qed

definition batches_writes :: "batch list \<Rightarrow> version_write set" where
  "batches_writes bs = (\<Union>b \<in> set bs. set (batch_writes (fst b) (snd b)))"

lemma replay_records_put:
  "list_all batch_ok bs \<Longrightarrow> holds (versions r) W \<Longrightarrow> consistent (W \<union> batches_writes bs) \<Longrightarrow>
   \<exists>vs. visit_all replay_record (map put_batch bs) r =
       Inr \<lparr>versions = vs, latest_sequence = fold batch_end bs (latest_sequence r)\<rparr>
     \<and> holds vs (W \<union> batches_writes bs)"
proof (induction bs arbitrary: r W)
  case Nil
  then show ?case by (cases r) (simp add: batches_writes_def)
next
  case (Cons b bs)
  let ?W = "W \<union> set (batch_writes (fst b) (snd b))"
  have split: "W \<union> batches_writes (b # bs) = ?W \<union> batches_writes bs" by (auto simp: batches_writes_def)
  have "consistent ?W" by (rule consistent_mono [OF Cons.prems(3)]) (auto simp: batches_writes_def)
  then obtain vs where vs: "replay_record (put_batch b) r =
      Inr \<lparr>versions = vs, latest_sequence = batch_end b (latest_sequence r)\<rparr>" "holds vs ?W"
    using replay_record_put [of b r W] Cons.prems(1,2) by auto
  then show ?case
    using Cons.IH [of "\<lparr>versions = vs, latest_sequence = batch_end b (latest_sequence r)\<rparr>" ?W] Cons.prems(1,3)
    by (simp add: split)
qed

definition log_file :: "leveldb_env \<Rightarrow> batch list \<Rightarrow> bytes" where
  "log_file E bs = put_log E BLOCK_SIZE (map put_batch bs)"

lemma replay_logs_put:
  "\<forall>bs \<in> set logs. list_all batch_ok bs \<and> (\<forall>b \<in> set bs. can_hold E (length (put_batch b))) \<Longrightarrow>
   holds (versions r) W \<Longrightarrow> consistent (W \<union> batches_writes (concat logs)) \<Longrightarrow>
   \<exists>vs. replay_logs E (map (log_file E) logs) r =
       Inr \<lparr>versions = vs, latest_sequence = fold batch_end (concat logs) (latest_sequence r)\<rparr>
     \<and> holds vs (W \<union> batches_writes (concat logs))"
proof (induction logs arbitrary: r W)
  case Nil
  then show ?case by (cases r) (simp add: batches_writes_def)
next
  case (Cons bs logs)
  let ?W = "W \<union> batches_writes bs"
  have split: "W \<union> batches_writes (bs @ concat logs) = ?W \<union> batches_writes (concat logs)"
    by (auto simp: batches_writes_def)
  have "read_records_from E replay_record (log_file E bs) r = visit_all replay_record (map put_batch bs) r"
    using read_records_from_log [of "map put_batch bs" E replay_record "[]" r] Cons.prems(1)
    by (simp add: log_file_def)
  moreover have "consistent ?W" by (rule consistent_mono [OF Cons.prems(3)]) (auto simp: batches_writes_def)
  ultimately obtain vs where "read_records_from E replay_record (log_file E bs) r =
      Inr \<lparr>versions = vs, latest_sequence = fold batch_end bs (latest_sequence r)\<rparr>" "holds vs ?W"
    using replay_records_put [of bs r W] Cons.prems(1,2) by auto
  then show ?case
    using Cons.IH [of "\<lparr>versions = vs, latest_sequence = fold batch_end bs (latest_sequence r)\<rparr>" ?W] Cons.prems(1,3)
    by (simp add: split)
qed



subsection \<open>Tables\<close>

type_synonym table_block = "bytes \<times> (bool \<times> version_write) list"

text \<open>A table stores a version under its key followed by its sequence number and its type.\<close>

fun internal_entry :: "bool \<times> version_write \<Rightarrow> block_entry" where
  "internal_entry (restart, key, n, None) = (restart, key @ le_bytes 8 (n * 256), [])"
| "internal_entry (restart, key, n, Some val) = (restart, key @ le_bytes 8 (n * 256 + 1), val)"

definition internal_blocks :: "table_block list \<Rightarrow> (bytes \<times> block_entry list) list" where
  "internal_blocks bs = map (map_prod id (map internal_entry)) bs"

definition table_bytes :: "leveldb_env \<Rightarrow> table_block list \<Rightarrow> bytes" where
  "table_bytes E bs = put_table E (internal_blocks bs)"

definition table_writes :: "table_block list \<Rightarrow> version_write list" where
  "table_writes bs = map snd (concat (map snd bs))"

definition table_ok :: "leveldb_env \<Rightarrow> table_block list \<Rightarrow> bool" where
  "table_ok E bs \<longleftrightarrow> list_all (entries_ok \<circ> snd) (internal_blocks bs)
     \<and> entries_ok (snd (put_data E 0 (internal_blocks bs)))
     \<and> length (table_bytes E bs) < 2 ^ 64 \<and> can_hold E (length (table_bytes E bs))
     \<and> list_all (\<lambda>w. fst (snd w) \<le> MAX_SEQUENCE) (table_writes bs)"

definition visible :: "nat \<Rightarrow> version_write \<Rightarrow> bool" where
  "visible latest w \<longleftrightarrow> fst (snd w) \<le> latest"

lemma apply_table_entry_put:
  assumes "n \<le> MAX_SEQUENCE"
  shows "visit_entries (apply_table_entry latest) (internal_entry (r, key, n, v) # es) vs =
    res_bind (if visible latest (key, n, v) then apply_write (key, n, v) vs else Inr vs)
      (visit_entries (apply_table_entry latest) es)"
proof -
  have "n * 256 + 1 < 256 ^ 8" using assms by (simp add: MAX_SEQUENCE_def)
  then have "le_nat (le_bytes 8 (n * 256)) = n * 256" "le_nat (le_bytes 8 (n * 256 + 1)) = n * 256 + 1"
    by (simp_all only: le_nat_bytes)
  moreover have "Suc (n * 256) mod 256 = Suc 0" "Suc (n * 256) div 256 = n" by presburger+
  ultimately show ?thesis
    by (cases v) (simp_all add: apply_table_entry_def visible_def apply_write_def)
qed

lemma visit_internal:
  "list_all (\<lambda>e. fst (snd (snd e)) \<le> MAX_SEQUENCE) es \<Longrightarrow>
   visit_entries (apply_table_entry latest) (map internal_entry es) vs =
   apply_writes (filter (visible latest) (map snd es)) vs"
proof (induction es arbitrary: vs)
  case (Cons e es)
  obtain r key n v where e: "e = (r, key, n, v)" by (cases e) auto
  have "visit_entries (apply_table_entry latest) (map internal_entry es) =
      apply_writes (filter (visible latest) (map snd es))"
    using Cons by (intro ext) simp
  with Cons.prems show ?case
    by (simp add: e apply_table_entry_put del: internal_entry.simps visit_entries.simps)
qed simp

lemma read_table_bytes:
  assumes "table_ok E bs"
  shows "read_table E (table_bytes E bs) (length (table_bytes E bs)) (apply_table_entry latest) vs =
    apply_writes (filter (visible latest) (table_writes bs)) vs"
proof -
  have "concat (map snd (internal_blocks bs)) = map internal_entry (concat (map snd bs))"
    by (simp add: internal_blocks_def map_concat o_def)
  moreover have "list_all (\<lambda>e. fst (snd (snd e)) \<le> MAX_SEQUENCE) (concat (map snd bs))"
    using assms by (simp add: table_ok_def table_writes_def list_all_iff)
  ultimately show ?thesis
    using assms read_table_put [of "internal_blocks bs" E "apply_table_entry latest" vs]
    by (simp add: table_ok_def table_bytes_def visit_internal table_writes_def)
qed

definition tables_writes :: "nat \<Rightarrow> (nat \<Rightarrow> table_block list) \<Rightarrow> (table_key, nat) btree_map \<Rightarrow> version_write set" where
  "tables_writes latest content ts =
     (\<Union>t \<in> set ts. set (filter (visible latest) (table_writes (content (snd (fst t))))))"

definition table_stored :: "leveldb_env \<Rightarrow> directory \<Rightarrow> (nat \<Rightarrow> table_block list) \<Rightarrow> table_key \<times> nat \<Rightarrow> bool" where
  "table_stored E dir content t \<longleftrightarrow> table_ok E (content (snd (fst t)))
     \<and> table_file dir (snd (fst t)) = Inr (table_bytes E (content (snd (fst t))))
     \<and> snd t = length (table_bytes E (content (snd (fst t))))"

lemma apply_tables_put:
  "list_all (table_stored E dir content) ts \<Longrightarrow> holds vs W \<Longrightarrow>
   consistent (W \<union> tables_writes latest content ts) \<Longrightarrow>
   \<exists>vs'. apply_tables E dir latest ts vs = Inr vs' \<and> holds vs' (W \<union> tables_writes latest content ts)"
proof (induction ts arbitrary: vs W)
  case Nil
  then show ?case by (simp add: tables_writes_def)
next
  case (Cons t ts)
  obtain l num sz where t: "t = ((l, num), sz)" by (cases t) auto
  let ?ws = "filter (visible latest) (table_writes (content num))"
  have split: "W \<union> tables_writes latest content (t # ts) = (W \<union> set ?ws) \<union> tables_writes latest content ts"
    by (auto simp: tables_writes_def t)
  have "consistent (W \<union> set ?ws)" by (rule consistent_mono [OF Cons.prems(3)]) (auto simp: tables_writes_def t)
  then obtain vs1 where "apply_writes ?ws vs = Inr vs1" "holds vs1 (W \<union> set ?ws)"
    using apply_writes_holds [OF Cons.prems(2)] by blast
  moreover from this(1) have "apply_tables E dir latest (t # ts) vs = apply_tables E dir latest ts vs1"
    using Cons.prems(1) by (simp add: t table_stored_def read_table_bytes)
  ultimately show ?case using Cons.IH [of vs1 "W \<union> set ?ws"] Cons.prems(1,3) unfolding split by simp
qed

lemma live_entries_holds:
  assumes "holds vs W" "consistent W"
  shows "live_entries vs key = Some v \<longleftrightarrow> (\<exists>n. newest W key (n, Some v))"
proof
  assume "live_entries vs key = Some v"
  then obtain n where n: "vs key = Some (n, Some v)" by (auto simp: live_entries_def bind_eq_Some_conv)
  show "\<exists>n. newest W key (n, Some v)"
    using holds_mem [OF assms(1) n] holds_max [OF assms(1) n] by (auto simp: newest_def)
next
  assume "\<exists>n. newest W key (n, Some v)"
  then obtain n where n: "(key, n, Some v) \<in> W" "\<And>m y. (key, m, y) \<in> W \<Longrightarrow> m \<le> n" by (auto simp: newest_def)
  obtain m y where my: "vs key = Some (m, y)"
    using holds_none [OF assms(1)] n(1) by (cases "vs key") auto
  have "m = n" using n(2) [OF holds_mem [OF assms(1) my]] holds_max [OF assms(1) my n(1)] by simp
  then have "y = Some v"
    using assms(2) n(1) holds_mem [OF assms(1) my] unfolding consistent_def by blast
  with my show "live_entries vs key = Some v" by (simp add: live_entries_def)
qed



subsection \<open>The snapshot\<close>

definition snapshot_writes ::
  "manifest_reader \<Rightarrow> (nat \<times> batch list) list \<Rightarrow> (nat \<Rightarrow> table_block list) \<Rightarrow> version_write set" where
  "snapshot_writes m logs content =
     (let bs = concat (map snd logs) in
      batches_writes bs \<union> tables_writes (fold batch_end bs (last_sequence m)) content (tables m))"

lemma read_manifest_put:
  assumes "map_of dir ''CURRENT'' = Some current" "current_manifest current = Inr name"
    and "map_of dir name = Some (put_log E BLOCK_SIZE (map put_edit edits))"
    and "list_all (list_all field_ok) edits" "\<forall>e \<in> set edits. can_hold E (length (put_edit e))"
  shows "read_manifest E dir =
    (let m = fold edit_result edits manifest_default in
     ensure (has_log m \<and> has_next_file m \<and> has_last_sequence m) IncompleteManifest (Inr m))"
  using assms read_records_from_log [of "map put_edit edits" E read_edit "[]" manifest_default]
  by (simp add: read_manifest_def open_file_def visit_edits Let_def)

text \<open>C3: a directory whose selected logs and live tables were written in the format is read without
  an error, and the result holds a value for a key exactly when that value is the newest version of
  the key among the writes of the logs and the table versions up to the recovered sequence number;
  a key whose newest version is a deletion is absent.\<close>

theorem snapshot_newest_visible:
  assumes "read_manifest E dir = Inr m"
    and "select_logs m dir [] = Inr (map (map_prod id (log_file E)) logs)"
    and "\<forall>bs \<in> set (map snd logs). list_all batch_ok bs \<and> (\<forall>b \<in> set bs. can_hold E (length (put_batch b)))"
    and "list_all (table_stored E dir content) (tables m)"
    and "consistent (snapshot_writes m logs content)"
  shows "\<exists>snapshot. read_snapshot E dir = Inr snapshot \<and>
    (\<forall>key v. snapshot key = Some v \<longleftrightarrow> (\<exists>n. newest (snapshot_writes m logs content) key (n, Some v)))"
proof -
  let ?bs = "concat (map snd logs)"
  let ?last = "fold batch_end ?bs (last_sequence m)"
  let ?W = "batches_writes ?bs" and ?T = "tables_writes ?last content (tables m)"
  have W: "snapshot_writes m logs content = ?W \<union> ?T" by (simp add: snapshot_writes_def Let_def)
  have "consistent ?W" by (rule consistent_mono [OF assms(5)]) (simp add: W)
  then obtain vs where vs: "replay_logs E (map (log_file E) (map snd logs))
      \<lparr>versions = Map.empty, latest_sequence = last_sequence m\<rparr> = Inr \<lparr>versions = vs, latest_sequence = ?last\<rparr>"
      "holds vs ?W"
    using replay_logs_put [OF assms(3), of "\<lparr>versions = Map.empty, latest_sequence = last_sequence m\<rparr>" "{}"] by auto
  obtain vs' where vs': "apply_tables E dir ?last (tables m) vs = Inr vs'" "holds vs' (?W \<union> ?T)"
    using apply_tables_put [OF assms(4) vs(2)] assms(5) unfolding W by blast
  have "map snd (map (map_prod id (log_file E)) logs) = map (log_file E) (map snd logs)" by simp
  then have "read_snapshot E dir = Inr (live_entries vs')"
    using vs(1) vs'(1) by (simp only: read_snapshot_def assms(1,2) res_bind_simps replay.simps)
  then show ?thesis using live_entries_holds [OF vs'(2)] assms(5) unfolding W by simp
qed

definition example_dir :: directory where
  "example_dir =
     [(''CURRENT'', map (\<lambda>c. word_of_nat (of_char c)) (''MANIFEST-000001'' @ [CHR 10])),
      (''MANIFEST-000001'', put_log log_env BLOCK_SIZE (map put_edit [[LogNumber 3, NextFile 5, LastSequence 0]])),
      (''LOG'', []),
      (''000003.log'', log_file log_env [(1, [([7], Some [8]), ([9], None)]), (3, [([9], Some [4])])])]"

lemma example_current: "current_manifest (map (\<lambda>c. word_of_nat (of_char c)) (''MANIFEST-000001'' @ [CHR 10])) = Inr ''MANIFEST-000001''"
  by code_simp

lemma example_manifest:
  "read_manifest log_env example_dir =
     Inr (manifest_default\<lparr>log_number := 3, has_log := True, has_next_file := True, has_last_sequence := True\<rparr>)"
  using read_manifest_put [OF _ example_current, of example_dir log_env "[[LogNumber 3, NextFile 5, LastSequence 0]]"]
  by (simp add: example_dir_def edit_result_def apply_edit_def manifest_default_def)

lemma example_names:
  "strip_suffix ''.log'' ''CURRENT'' = None" "strip_suffix ''.log'' ''MANIFEST-000001'' = None"
  "strip_suffix ''.log'' ''LOG'' = None" "strip_suffix ''.log'' ''000003.log'' = Some ''000003''"
  "all_digits ''000003''" "digits_value 0 ''000003'' = Some 3"
  by code_simp+

lemma example_logs:
  "select_logs (manifest_default\<lparr>log_number := 3, has_log := True, has_next_file := True, has_last_sequence := True\<rparr>)
     example_dir [] =
   Inr (map (map_prod id (log_file log_env)) [(3, [(1, [([7], Some [8]), ([9], None)]), (3, [([9], Some [4])])])])"
proof -
  have "parse_u64 ''000003'' = Some 3"
    using example_names(6) by (simp add: parse_u64_def u64_max_def)
  with example_names(1-5) show ?thesis by (simp add: example_dir_def)
qed

lemma snapshot_newest_visible_witness:
  "\<exists>snapshot. read_snapshot log_env example_dir = Inr snapshot \<and> snapshot [7] = Some [8] \<and> snapshot [9] = Some [4]"
proof -
  let ?m = "manifest_default\<lparr>log_number := 3, has_log := True, has_next_file := True, has_last_sequence := True\<rparr>"
  let ?logs = "[(3 :: nat, [(1 :: nat, [([7], Some [8]), ([9], None)]), (3, [([9], Some [4])])])]
    :: (nat \<times> batch list) list"
  let ?W = "{([7], 1, Some [8]), ([9], 2, None), ([9], 3, Some [4])} :: version_write set"
  have W: "snapshot_writes ?m ?logs (\<lambda>_. []) = ?W"
    by (auto simp: snapshot_writes_def batches_writes_def tables_writes_def manifest_default_def)
  have ok: "\<forall>bs \<in> set (map snd ?logs). list_all batch_ok bs \<and> (\<forall>b \<in> set bs. can_hold log_env (length (put_batch b)))"
    by (simp add: batch_ok_def MAX_SEQUENCE_def)
  have tables: "list_all (table_stored log_env example_dir (\<lambda>_. [])) (tables ?m)"
    by (simp add: manifest_default_def)
  have consistent: "consistent ?W" by (auto simp: consistent_def)
  obtain snapshot where "read_snapshot log_env example_dir = Inr snapshot"
      and s: "\<And>key v. snapshot key = Some v \<longleftrightarrow> (\<exists>n. newest ?W key (n, Some v))"
    using snapshot_newest_visible [OF example_manifest example_logs ok tables, unfolded W] consistent by blast
  moreover have "newest ?W [7] (1, Some [8])" "newest ?W [9] (3, Some [4])" by (auto simp: newest_def)
  ultimately show ?thesis by blast
qed

text \<open>applying versions in any order and any number of times gives the same map, provided no two
  versions of a key with one sequence number differ.\<close>

lemma apply_versions_order:
  assumes "consistent (set ws)" "set ws = set ws'"
  shows "apply_writes ws Map.empty = apply_writes ws' Map.empty \<and> (\<exists>vs. apply_writes ws Map.empty = Inr vs)"
proof -
  obtain vs where vs: "apply_writes ws Map.empty = Inr vs" "holds vs (set ws)"
    using apply_writes_holds [OF holds_empty, of ws] assms(1) by auto
  obtain vs' where vs': "apply_writes ws' Map.empty = Inr vs'" "holds vs' (set ws)"
    using apply_writes_holds [OF holds_empty, of ws'] assms by auto
  show ?thesis using vs(1) vs'(1) holds_unique [OF assms(1) vs(2) vs'(2)] by simp
qed

lemma apply_versions_order_example:
  "apply_writes [([1], 4, Some [9]), ([1], 7, None)] Map.empty
     = apply_writes [([1], 7, None), ([1], 4, Some [9]), ([1], 7, None)] Map.empty
   \<and> (\<exists>vs. apply_writes [([1], 4, Some [9]), ([1], 7, None)] Map.empty = Inr vs)"
  by (rule apply_versions_order) (auto simp: consistent_def)

end
