(* ===== verification/Robots.thy ===== *)
theory Robots
  imports Text_Prelude
begin

section \<open>The Robots Exclusion Protocol (moli-robots)\<close>

text \<open>
  \<^verbatim>\<open>pattern.rs\<close>, \<^verbatim>\<open>robots_txt.rs\<close> and the policy of \<^verbatim>\<open>lib.rs\<close>: percent-encoding normalisation,
  rule patterns with \<^verbatim>\<open>*\<close> and \<^verbatim>\<open>$\<close>, the parser of \<^verbatim>\<open>robots.txt\<close> and the decision for a user agent
  and a request target.  A string is the list of its UTF-8 bytes.  The Unicode tables behind
  \<^verbatim>\<open>to_lowercase\<close> and \<^verbatim>\<open>trim\<close> are fields of an environment.  The two functions of \<^verbatim>\<open>lib.rs\<close> that only
  call setters of the \<^verbatim>\<open>url\<close> crate are left out.

  The lemmas show that the segment search decides the wildcard semantics of patterns, that the
  loop over the rules picks the longest match with allow winning ties, and that the parser
  reads back the groups of a document.
\<close>

record unicode =
  to_lowercase :: "string \<Rightarrow> string"
  trim :: "string \<Rightarrow> string"

subsection \<open>Patterns (pattern.rs)\<close>

definition byte_of :: "char \<Rightarrow> nat" where
  "byte_of c = of_char c"

definition is_ascii :: "char \<Rightarrow> bool" where
  "is_ascii c \<longleftrightarrow> byte_of c < 128"

definition is_ascii_hexdigit :: "char \<Rightarrow> bool" where
  "is_ascii_hexdigit c \<longleftrightarrow> 48 \<le> byte_of c \<and> byte_of c \<le> 57 \<or> 65 \<le> byte_of c \<and> byte_of c \<le> 70
     \<or> 97 \<le> byte_of c \<and> byte_of c \<le> 102"

definition to_ascii_uppercase :: "char \<Rightarrow> char" where
  "to_ascii_uppercase c = (if 97 \<le> byte_of c \<and> byte_of c \<le> 122 then char_of (byte_of c - 32) else c)"

definition HEX_DIGITS :: string where
  "HEX_DIGITS = ''0123456789ABCDEF''"

definition push_percent_encoded :: "char \<Rightarrow> string" where
  "push_percent_encoded c = [CHR ''%'', HEX_DIGITS ! (byte_of c div 16), HEX_DIGITS ! (byte_of c mod 16)]"

fun normalize_percent_encoding :: "string \<Rightarrow> string" where
  "normalize_percent_encoding [] = []"
| "normalize_percent_encoding (c # cs) =
     (case (c = CHR ''%'', cs) of
        (True, a # b # rest) \<Rightarrow>
          if is_ascii_hexdigit a \<and> is_ascii_hexdigit b
          then CHR ''%'' # to_ascii_uppercase a # to_ascii_uppercase b # normalize_percent_encoding rest
          else c # normalize_percent_encoding cs
      | _ \<Rightarrow> (if is_ascii c then [c] else push_percent_encoded c) @ normalize_percent_encoding cs)"

text \<open>\<^verbatim>\<open>str::find\<close> with what follows the occurrence it finds, and \<^verbatim>\<open>ends_with\<close>.\<close>

definition after_find :: "string \<Rightarrow> string \<Rightarrow> string option" where
  "after_find seg s = map_option snd (split_once seg s)"

definition strip_suffix_char :: "char \<Rightarrow> string \<Rightarrow> string option" where
  "strip_suffix_char c s = (if s \<noteq> [] \<and> last s = c then Some (butlast s) else None)"

fun match_segments :: "bool \<Rightarrow> string list \<Rightarrow> string \<Rightarrow> bool" where
  "match_segments anchored [] rest \<longleftrightarrow> True"
| "match_segments anchored (seg # segs) rest \<longleftrightarrow>
     (if segs = [] \<and> anchored then suffix seg rest
      else (case after_find seg rest of None \<Rightarrow> False | Some rest' \<Rightarrow> match_segments anchored segs rest'))"

definition pattern_matches :: "string \<Rightarrow> string \<Rightarrow> bool" where
  "pattern_matches pattern request_target \<longleftrightarrow>
     (let (body, anchored) =
            (case strip_suffix_char (CHR ''$'') pattern of Some body \<Rightarrow> (body, True) | None \<Rightarrow> (pattern, False));
          segments = split_on (CHR ''*'') body in
      case strip_prefix (hd segments) request_target of
        None \<Rightarrow> False
      | Some rest \<Rightarrow>
          if tl segments = [] then \<not> anchored \<or> rest = []
          else match_segments anchored (tl segments) rest)"

definition contains :: "string \<Rightarrow> string \<Rightarrow> bool" where
  "contains s pat \<longleftrightarrow> split_once pat s \<noteq> None"

definition agent_specificity :: "string \<Rightarrow> string \<Rightarrow> nat option" where
  "agent_specificity group_agent lowercase_user_agent =
     (if group_agent = ''*'' then Some 0
      else if group_agent = [] then None
      else if contains lowercase_user_agent group_agent then Some (length group_agent) else None)"


subsection \<open>Documents (robots_txt.rs)\<close>

record rule =
  allow :: bool
  pattern :: string

record group =
  agents :: "string list"
  rules :: "rule list"

record robots_txt =
  groups :: "group list"

text \<open>\<^verbatim>\<open>str::lines\<close>: a line ends at a line feed, a carriage return before it is dropped.\<close>

definition strip_cr :: "string \<Rightarrow> string" where
  "strip_cr l = (case strip_suffix_char (CHR 13) l of Some l' \<Rightarrow> l' | None \<Rightarrow> l)"

fun lines_of :: "string list \<Rightarrow> string list" where
  "lines_of [] = []"
| "lines_of [l] = (if l = [] then [] else [l])"
| "lines_of (l # ls) = strip_cr l # lines_of ls"

definition lines :: "string \<Rightarrow> string list" where
  "lines s = lines_of (split_on (CHR 10) s)"

text \<open>\<^verbatim>\<open>trim_start_matches\<close> on the byte order mark.\<close>

fun trim_bom :: "string \<Rightarrow> string" where
  "trim_bom (a # b # c # s) =
     (if a = CHR 239 \<and> b = CHR 187 \<and> c = CHR 191 then trim_bom s else a # b # c # s)"
| "trim_bom s = s"

definition split_field :: "unicode \<Rightarrow> string \<Rightarrow> (string \<times> string) option" where
  "split_field U line =
     (let line = (case split_once ''#'' line of Some (before, _) \<Rightarrow> before | None \<Rightarrow> line) in
      case split_once '':'' line of
        None \<Rightarrow> None
      | Some (field, val) \<Rightarrow>
          (let field = to_lowercase U (trim U field) in
           if field = [] then None else Some (field, trim U val)))"

text \<open>The parser's state: the groups so far, the last one open, and whether the next
  \<^verbatim>\<open>User-agent\<close> line starts a new group.\<close>

record parser =
  parsed :: "group list"
  start_new_group :: bool

definition add_agent :: "string \<Rightarrow> group list \<Rightarrow> group list" where
  "add_agent a gs =
     (if gs = [] then [] else butlast gs @ [(last gs)\<lparr>agents := agents (last gs) @ [a]\<rparr>])"

definition add_rule :: "rule \<Rightarrow> group list \<Rightarrow> group list" where
  "add_rule r gs =
     (if gs = [] then [] else butlast gs @ [(last gs)\<lparr>rules := rules (last gs) @ [r]\<rparr>])"

definition parse_line :: "unicode \<Rightarrow> string \<Rightarrow> parser \<Rightarrow> parser" where
  "parse_line U line p =
     (case split_field U line of
        None \<Rightarrow> p
      | Some (field, val) \<Rightarrow>
          if field = ''user-agent'' \<or> field = ''useragent'' then
            (let gs = (if start_new_group p then parsed p @ [\<lparr>agents = [], rules = []\<rparr>] else parsed p) in
             \<lparr>parsed = add_agent (to_lowercase U val) gs, start_new_group = False\<rparr>)
          else if field = ''allow'' \<or> field = ''disallow'' then
            (if parsed p = [] then p
             else if val = [] then p\<lparr>start_new_group := True\<rparr>
             else \<lparr>parsed = add_rule \<lparr>allow = (field = ''allow''), pattern = normalize_percent_encoding val\<rparr> (parsed p),
                   start_new_group = True\<rparr>)
          else p)"

definition parse :: "unicode \<Rightarrow> string \<Rightarrow> robots_txt" where
  "parse U text =
     \<lparr>groups = parsed (fold (parse_line U) (lines (trim_bom text)) \<lparr>parsed = [], start_new_group = True\<rparr>)\<rparr>"

definition max_option :: "nat list \<Rightarrow> nat option" where
  "max_option xs = (if xs = [] then None else Some (fold max xs 0))"

definition group_specificity :: "string \<Rightarrow> group \<Rightarrow> nat option" where
  "group_specificity ua g = max_option (List.map_filter (\<lambda>a. agent_specificity a ua) (agents g))"

definition best_specificity :: "robots_txt \<Rightarrow> string \<Rightarrow> nat option" where
  "best_specificity r ua = max_option (List.map_filter (group_specificity ua) (groups r))"

definition matching_rules :: "robots_txt \<Rightarrow> string \<Rightarrow> nat \<Rightarrow> rule list" where
  "matching_rules r ua n = concat (map rules (filter (\<lambda>g. group_specificity ua g = Some n) (groups r)))"

definition decide_rule :: "string \<Rightarrow> rule \<Rightarrow> (nat \<times> bool) option \<Rightarrow> (nat \<times> bool) option" where
  "decide_rule target r decision =
     (if \<not> pattern_matches (pattern r) target then decision
      else
        (let n = length (pattern r) in
         case decision of
           Some (best, a) \<Rightarrow> if best > n \<or> best = n \<and> a then Some (best, a) else Some (n, allow r)
         | None \<Rightarrow> Some (n, allow r)))"

definition robots_allows :: "unicode \<Rightarrow> robots_txt \<Rightarrow> string \<Rightarrow> string \<Rightarrow> bool" where
  "robots_allows U r user_agent request_target =
     (let target = normalize_percent_encoding request_target; ua = to_lowercase U user_agent in
      case best_specificity r ua of
        None \<Rightarrow> True
      | Some n \<Rightarrow>
          (case fold (decide_rule target) (matching_rules r ua n) None of
             None \<Rightarrow> True
           | Some (_, a) \<Rightarrow> a))"


subsection \<open>Policies (lib.rs)\<close>

datatype robots_policy = Rules robots_txt | AllowAll | DisallowAll

definition from_http_status :: "unicode \<Rightarrow> nat \<Rightarrow> string \<Rightarrow> robots_policy" where
  "from_http_status U status body =
     (if 200 \<le> status \<and> status \<le> 299 then Rules (parse U body)
      else if 400 \<le> status \<and> status \<le> 499 then AllowAll
      else if 500 \<le> status \<and> status \<le> 599 then DisallowAll
      else AllowAll)"

definition unreachable :: robots_policy where
  "unreachable = DisallowAll"

fun policy_allows :: "unicode \<Rightarrow> robots_policy \<Rightarrow> string \<Rightarrow> string \<Rightarrow> bool" where
  "policy_allows U (Rules r) user_agent target = robots_allows U r user_agent target"
| "policy_allows U AllowAll user_agent target = True"
| "policy_allows U DisallowAll user_agent target = False"

definition robots_request_target :: "string \<Rightarrow> string option \<Rightarrow> string" where
  "robots_request_target path query = (case query of Some q \<Rightarrow> path @ ''?'' @ q | None \<Rightarrow> path)"



subsection \<open>What a pattern means\<close>

text \<open>
  The declarative reading of RFC 9309: a star stands for any run of characters, every other
  character for itself, and the target may go on after the pattern unless it is anchored.
\<close>

fun wild :: "bool \<Rightarrow> string \<Rightarrow> string \<Rightarrow> bool" where
  "wild anchored [] t \<longleftrightarrow> \<not> anchored \<or> t = []"
| "wild anchored (c # p) t \<longleftrightarrow>
     (if c = CHR ''*'' then \<exists>u. suffix u t \<and> wild anchored p u
      else case t of [] \<Rightarrow> False | d # t' \<Rightarrow> c = d \<and> wild anchored p t')"

definition pattern_means :: "string \<Rightarrow> string \<Rightarrow> bool" where
  "pattern_means p t \<longleftrightarrow>
     (case strip_suffix_char (CHR ''$'') p of Some body \<Rightarrow> wild True body t | None \<Rightarrow> wild False p t)"

text \<open>The same on the segments between the stars.\<close>

fun wild_segments :: "bool \<Rightarrow> string list \<Rightarrow> string \<Rightarrow> bool" where
  "wild_segments anchored [] t \<longleftrightarrow> True"
| "wild_segments anchored (seg # segs) t \<longleftrightarrow>
     (\<exists>r. t = seg @ r \<and> (if segs = [] then \<not> anchored \<or> r = []
       else \<exists>u. suffix u r \<and> wild_segments anchored segs u))"

lemma wild_split: "wild anchored body t \<longleftrightarrow> wild_segments anchored (split_on (CHR ''*'') body) t"
proof (induction body arbitrary: t)
  case (Cons c body)
  obtain x xs where sp: "split_on (CHR ''*'') body = x # xs"
    by (cases "split_on (CHR ''*'') body") simp_all
  show ?case
  proof (cases "c = CHR ''*''")
    case True
    then show ?thesis using Cons.IH sp by simp
  next
    case False
    then show ?thesis using Cons.IH sp by (cases t) auto
  qed
qed simp

text \<open>\<^verbatim>\<open>find\<close> returns the leftmost occurrence.\<close>

lemma after_find_leftmost:
  "t = a @ seg @ r \<Longrightarrow> \<exists>r'. after_find seg t = Some r' \<and> suffix r r'"
proof (induction t arbitrary: a)
  case Nil
  then show ?case by (simp add: after_find_def)
next
  case (Cons c t)
  show ?case
  proof (cases "strip_prefix seg (c # t)")
    case (Some r')
    then have eq: "c # t = seg @ r'" by (simp add: strip_prefix_iff)
    have "length r \<le> length r'" using arg_cong [OF eq, of length] arg_cong [OF Cons.prems, of length] by simp
    moreover have "suffix r (seg @ r')" using Cons.prems eq by (auto simp: suffix_def)
    ultimately have "suffix r r'" by (meson suffix_length_suffix suffix_def)
    then show ?thesis using Some by (simp add: after_find_def)
  next
    case None
    then obtain d a' where a: "a = d # a'"
      using Cons.prems by (cases a) (auto simp: strip_prefix_None prefix_def)
    then have "t = a' @ seg @ r" using Cons.prems by simp
    from Cons.IH [OF this] None show ?thesis by (auto simp: after_find_def)
  qed
qed

lemma after_find_Some: "after_find seg t = Some r \<Longrightarrow> \<exists>a. t = a @ seg @ r"
  by (auto simp: after_find_def dest: split_once_Some)

lemma after_find_iff: "after_find seg t \<noteq> None \<longleftrightarrow> (\<exists>a r. t = a @ seg @ r)"
  using after_find_leftmost after_find_Some by (metis not_None_eq)

lemma match_segments_iff:
  "segs \<noteq> [] \<Longrightarrow> match_segments anchored segs t \<longleftrightarrow> (\<exists>u. suffix u t \<and> wild_segments anchored segs u)"
proof (induction segs arbitrary: t)
  case (Cons seg segs)
  consider (anchor) "segs = []" "anchored" | (free) "segs = []" "\<not> anchored" | (more) "segs \<noteq> []" by blast
  then show ?case
  proof cases
    case anchor
    then show ?thesis by (auto simp: suffix_def)
  next
    case free
    then have "match_segments anchored (seg # segs) t \<longleftrightarrow> after_find seg t \<noteq> None"
      by (auto split: option.splits)
    also have "\<dots> \<longleftrightarrow> (\<exists>u. suffix u t \<and> wild_segments anchored (seg # segs) u)"
      unfolding after_find_iff using free by (auto simp: suffix_def)
    finally show ?thesis .
  next
    case more
    show ?thesis
    proof
      assume "match_segments anchored (seg # segs) t"
      then obtain r where r: "after_find seg t = Some r" "match_segments anchored segs r"
        using more by (auto split: option.splits)
      then obtain u where "suffix u r" "wild_segments anchored segs u" using Cons.IH [OF more] by blast
      moreover obtain a where "t = a @ seg @ r" using after_find_Some [OF r(1)] by blast
      ultimately show "\<exists>u. suffix u t \<and> wild_segments anchored (seg # segs) u"
        using more by (intro exI [of _ "seg @ r"]) (auto simp: suffix_def)
    next
      assume "\<exists>u. suffix u t \<and> wild_segments anchored (seg # segs) u"
      then obtain a r u where "t = a @ seg @ r" "suffix u r" "wild_segments anchored segs u"
        using more by (auto simp: suffix_def)
      moreover from this(1) obtain r' where "after_find seg t = Some r'" "suffix r r'"
        using after_find_leftmost by blast
      ultimately show "match_segments anchored (seg # segs) t"
        using Cons.IH [OF more, of r'] more by (auto intro: suffix_order.trans)
    qed
  qed
qed simp

lemma pattern_segments:
  "(case strip_prefix seg t of None \<Rightarrow> False
    | Some rest \<Rightarrow> if segs = [] then \<not> anchored \<or> rest = [] else match_segments anchored segs rest)
   \<longleftrightarrow> wild_segments anchored (seg # segs) t"
  by (auto simp: strip_prefix_iff strip_prefix_None prefix_def match_segments_iff split: option.splits)

lemma pattern_matches_iff: "pattern_matches p t \<longleftrightarrow> pattern_means p t"
proof -
  have "pattern_matches p t \<longleftrightarrow> wild_segments anchored (split_on (CHR ''*'') body) t"
    if "(case strip_suffix_char (CHR ''$'') p of Some body \<Rightarrow> (body, True) | None \<Rightarrow> (p, False)) = (body, anchored)"
    for body anchored
    using pattern_segments [where seg = "hd (split_on (CHR ''*'') body)" and segs = "tl (split_on (CHR ''*'') body)"
        and t = t and anchored = anchored] that
    by (simp add: pattern_matches_def del: wild_segments.simps)
  then show ?thesis by (simp add: pattern_means_def wild_split split: option.splits)
qed

text \<open>C21: the pattern matcher, which searches the segments between the stars from left to right and
  always takes the first occurrence, decides exactly the declarative meaning of the pattern.\<close>

theorem pattern_matches_means: "pattern_matches p t \<longleftrightarrow> pattern_means p t"
  by (rule pattern_matches_iff)


text \<open>A pattern that begins neither with a slash nor with a star matches no request target,
  since these begin with a slash.\<close>

lemma pattern_needs_slash_or_star:
  assumes "p \<noteq> []" "hd p \<noteq> CHR ''/''" "hd p \<noteq> CHR ''*''"
  shows "\<not> pattern_matches p (CHR ''/'' # t)"
proof -
  have "\<not> wild anchored q (CHR ''/'' # t)" if "q = [] \<Longrightarrow> anchored" "q \<noteq> [] \<Longrightarrow> hd q = hd p" for anchored q
    using that assms(2,3) by (cases q) auto
  then show ?thesis
    using assms(1) by (auto simp: pattern_matches_iff pattern_means_def strip_suffix_char_def hd_append
        split: option.splits if_splits) (metis append_butlast_last_id hd_append2)
qed


subsection \<open>The decision\<close>

definition matching :: "string \<Rightarrow> rule set \<Rightarrow> rule set" where
  "matching t R = {r \<in> R. pattern_matches (pattern r) t}"

definition decided :: "rule set \<Rightarrow> (nat \<times> bool) option \<Rightarrow> bool" where
  "decided M d \<longleftrightarrow>
     (case d of
        None \<Rightarrow> M = {}
      | Some (n, a) \<Rightarrow> (\<forall>r \<in> M. length (pattern r) \<le> n) \<and> (\<exists>r \<in> M. length (pattern r) = n \<and> allow r = a)
          \<and> (\<not> a \<longrightarrow> (\<forall>r \<in> M. length (pattern r) = n \<longrightarrow> \<not> allow r)))"

lemma decided_step:
  assumes "decided M d" "pattern_matches (pattern r) t"
  shows "decided (insert r M) (decide_rule t r d)"
proof (cases d)
  case None
  with assms show ?thesis by (simp add: decided_def decide_rule_def)
next
  case (Some v)
  obtain n a where d: "d = Some (n, a)" using Some by (cases v) simp
  note old = assms(1) [unfolded d decided_def, simplified]
  consider "length (pattern r) < n" | "length (pattern r) = n" "a" | "length (pattern r) = n" "\<not> a"
    | "n < length (pattern r)" by linarith
  then show ?thesis
    using assms(2) old by cases (fastforce simp: d decided_def decide_rule_def)+
qed

lemma decide_rule_skip: "\<not> pattern_matches (pattern r) t \<Longrightarrow> decide_rule t r d = d"
  by (simp add: decide_rule_def)

lemma fold_decide: "decided (matching t (set rs)) (fold (decide_rule t) rs None)"
proof (induction rs rule: rev_induct)
  case Nil
  then show ?case by (simp add: matching_def decided_def)
next
  case (snoc r rs)
  have "matching t (set (rs @ [r])) =
      (if pattern_matches (pattern r) t then insert r (matching t (set rs)) else matching t (set rs))"
    by (auto simp: matching_def)
  with snoc decided_step [OF snoc, of r] show ?case
    by (cases "pattern_matches (pattern r) t") (simp_all add: decide_rule_skip)
qed

lemma decided_iff:
  assumes "decided M d"
  shows "(case d of None \<Rightarrow> True | Some (_, a) \<Rightarrow> a) \<longleftrightarrow>
    \<not> (\<exists>d \<in> M. \<not> allow d \<and> (\<forall>a \<in> M. allow a \<longrightarrow> length (pattern a) < length (pattern d)))"
proof (cases d)
  case None
  with assms show ?thesis by (simp add: decided_def)
next
  case (Some v)
  obtain k a where d: "d = Some (k, a)" using Some by (cases v) simp
  note M = assms [unfolded d decided_def, simplified]
  show ?thesis
  proof (cases a)
    case True
    then obtain r where "r \<in> M" "length (pattern r) = k" "allow r" using M by auto
    then show ?thesis using M True by (auto simp: d not_less intro!: bexI [of _ r])
  next
    case False
    then obtain r where r: "r \<in> M" "length (pattern r) = k" "\<not> allow r" using M by auto
    have "length (pattern x) < k" if "x \<in> M" "allow x" for x
      using M False that by (metis le_neq_implies_less)
    with r False show ?thesis by (auto simp: d)
  qed
qed

lemma fold_max: "fold max xs (a :: nat) = Max (insert a (set xs))"
proof (induction xs arbitrary: a)
  case (Cons x xs)
  have "Max (insert (max x a) (set xs)) = Max (insert a (insert x (set xs)))"
    by (cases "xs = []") (simp_all add: ac_simps)
  with Cons show ?case by simp
qed simp

lemma max_option_Some: "max_option xs = Some n \<longleftrightarrow> n \<in> set xs \<and> (\<forall>x \<in> set xs. x \<le> n)"
proof (cases "xs = []")
  case False
  then have "fold max xs 0 = Max (set xs)"
    unfolding fold_max by (subst Max_insert) simp_all
  with False show ?thesis
    by (auto simp: max_option_def Max_eq_iff)
qed (simp add: max_option_def)

lemma max_option_None: "max_option xs = None \<longleftrightarrow> xs = []"
  by (simp add: max_option_def)

lemma set_map_filter: "set (List.map_filter f xs) = {y. \<exists>x \<in> set xs. f x = Some y}"
  by (auto simp: List.map_filter_def image_iff) (metis option.sel option.distinct(1))

text \<open>The rules that bind a user agent: those of the groups that name it most specifically.\<close>

definition binding_rules :: "robots_txt \<Rightarrow> string \<Rightarrow> rule set" where
  "binding_rules r ua =
     {x. \<exists>g \<in> set (groups r). x \<in> set (rules g) \<and> (\<exists>n. group_specificity ua g = Some n
        \<and> (\<forall>g' \<in> set (groups r). \<forall>n'. group_specificity ua g' = Some n' \<longrightarrow> n' \<le> n))}"

lemma best_specificity_rules:
  assumes "best_specificity r ua = Some n"
  shows "set (matching_rules r ua n) = binding_rules r ua"
proof -
  have n: "\<exists>g \<in> set (groups r). group_specificity ua g = Some n"
      "\<And>g n'. g \<in> set (groups r) \<Longrightarrow> group_specificity ua g = Some n' \<Longrightarrow> n' \<le> n"
    using assms by (auto simp: best_specificity_def max_option_Some set_map_filter)
  have "(\<exists>m. group_specificity ua g = Some m \<and> (\<forall>g' \<in> set (groups r). \<forall>n'. group_specificity ua g' = Some n' \<longrightarrow> n' \<le> m))
      \<longleftrightarrow> group_specificity ua g = Some n" if "g \<in> set (groups r)" for g
    using n that by (metis le_antisym)
  then show ?thesis unfolding matching_rules_def binding_rules_def by auto
qed

lemma no_specificity_rules: "best_specificity r ua = None \<Longrightarrow> binding_rules r ua = {}"
  by (auto simp: best_specificity_def max_option_None binding_rules_def List.map_filter_def filter_empty_conv)

text \<open>C37: a request is refused exactly when some rule that binds the user agent forbids it and is
  longer than every binding rule that allows it; so the longest match wins, an allow rule wins a
  tie, groups for one agent count as one, and the order of the rules does not matter.\<close>

theorem robots_allows_iff:
  "robots_allows U r ua target \<longleftrightarrow>
    \<not> (\<exists>d \<in> matching (normalize_percent_encoding target) (binding_rules r (to_lowercase U ua)). \<not> allow d
       \<and> (\<forall>a \<in> matching (normalize_percent_encoding target) (binding_rules r (to_lowercase U ua)).
             allow a \<longrightarrow> length (pattern a) < length (pattern d)))"
proof (cases "best_specificity r (to_lowercase U ua)")
  case None
  then show ?thesis by (simp add: robots_allows_def no_specificity_rules matching_def)
next
  case (Some n)
  let ?t = "normalize_percent_encoding target" and ?rs = "matching_rules r (to_lowercase U ua) n"
  let ?M = "matching ?t (set ?rs)"
  have "robots_allows U r ua target \<longleftrightarrow>
      \<not> (\<exists>d \<in> ?M. \<not> allow d \<and> (\<forall>a \<in> ?M. allow a \<longrightarrow> length (pattern a) < length (pattern d)))"
    using decided_iff [OF fold_decide [of ?t ?rs]] Some by (simp add: robots_allows_def)
  then show ?thesis by (simp only: best_specificity_rules [OF Some])
qed

definition example_robots :: robots_txt where
  "example_robots = \<lparr>groups = [\<lparr>agents = [''*''],
     rules = [\<lparr>allow = False, pattern = ''/a''\<rparr>, \<lparr>allow = True, pattern = ''/a/b''\<rparr>]\<rparr>]\<rparr>"

lemma example_robots_refuses: "\<not> robots_allows \<lparr>to_lowercase = id, trim = id\<rparr> example_robots ''x'' ''/a/c''"
  by code_simp

lemma robots_allows_iff_witness:
  "\<exists>d \<in> matching (normalize_percent_encoding ''/a/c'') (binding_rules example_robots ''x''). \<not> allow d
     \<and> (\<forall>a \<in> matching (normalize_percent_encoding ''/a/c'') (binding_rules example_robots ''x'').
           allow a \<longrightarrow> length (pattern a) < length (pattern d))"
  using robots_allows_iff [of "\<lparr>to_lowercase = id, trim = id\<rparr>" example_robots "''x''" "''/a/c''"] example_robots_refuses
  by simp


subsection \<open>Percent-encoding\<close>

fun hex_pair :: "string \<Rightarrow> bool" where
  "hex_pair (a # b # s) \<longleftrightarrow> is_ascii_hexdigit a \<and> is_ascii_hexdigit b"
| "hex_pair _ \<longleftrightarrow> False"

lemma byte_of_char_of [simp]: "n < 256 \<Longrightarrow> byte_of (char_of n) = n"
  by (simp add: byte_of_def)

lemma byte_of_less: "byte_of c < 256"
  using range_nat_of_char by (auto simp: byte_of_def)

lemma hex_uppercase:
  assumes "is_ascii_hexdigit a"
  shows "is_ascii_hexdigit (to_ascii_uppercase a)" "is_ascii (to_ascii_uppercase a)"
    "to_ascii_uppercase (to_ascii_uppercase a) = to_ascii_uppercase a"
  using assms by (auto simp: is_ascii_hexdigit_def to_ascii_uppercase_def is_ascii_def)

lemma hex_digits:
  assumes "k < 16"
  shows "is_ascii_hexdigit (HEX_DIGITS ! k)" "is_ascii (HEX_DIGITS ! k)"
    "to_ascii_uppercase (HEX_DIGITS ! k) = HEX_DIGITS ! k"
proof -
  have "list_all (\<lambda>c. is_ascii_hexdigit c \<and> is_ascii c \<and> to_ascii_uppercase c = c) HEX_DIGITS"
    by code_simp
  moreover have "HEX_DIGITS ! k \<in> set HEX_DIGITS" using assms by (intro nth_mem) (simp add: HEX_DIGITS_def)
  ultimately show "is_ascii_hexdigit (HEX_DIGITS ! k)" "is_ascii (HEX_DIGITS ! k)"
      "to_ascii_uppercase (HEX_DIGITS ! k) = HEX_DIGITS ! k"
    by (simp_all add: list_all_iff)
qed

declare normalize_percent_encoding.simps(2) [simp del]

lemma normalize_escape:
  "is_ascii_hexdigit a \<Longrightarrow> is_ascii_hexdigit b \<Longrightarrow> normalize_percent_encoding (CHR ''%'' # a # b # s) =
     CHR ''%'' # to_ascii_uppercase a # to_ascii_uppercase b # normalize_percent_encoding s"
  by (simp add: normalize_percent_encoding.simps(2) [of _ "a # b # s"])

lemma percent_ascii [simp]: "is_ascii (CHR ''%'')" "\<not> is_ascii_hexdigit (CHR ''%'')"
  by (simp_all add: is_ascii_def is_ascii_hexdigit_def byte_of_def)

lemma normalize_other:
  "\<not> (c = CHR ''%'' \<and> hex_pair s) \<Longrightarrow> normalize_percent_encoding (c # s) =
     (if is_ascii c then [c] else push_percent_encoded c) @ normalize_percent_encoding s"
  unfolding normalize_percent_encoding.simps(2) [of c s]
  by (cases "c = CHR ''%''"; cases s rule: hex_pair.cases) auto

lemma escape_cases [case_names Nil escape other]:
  assumes "s = [] \<Longrightarrow> P"
    and "\<And>a b r. s = CHR ''%'' # a # b # r \<Longrightarrow> is_ascii_hexdigit a \<Longrightarrow> is_ascii_hexdigit b \<Longrightarrow> P"
    and "\<And>c r. s = c # r \<Longrightarrow> \<not> (c = CHR ''%'' \<and> hex_pair r) \<Longrightarrow> P"
  shows P
proof (cases s)
  case Nil
  then show ?thesis by (rule assms(1))
next
  case (Cons c r)
  show ?thesis
  proof (cases "c = CHR ''%'' \<and> hex_pair r")
    case True
    then show ?thesis using Cons assms(2) by (cases r rule: hex_pair.cases) auto
  next
    case False
    with Cons show ?thesis by (rule assms(3))
  qed
qed

lemma normalize_hd:
  "s \<noteq> [] \<Longrightarrow> normalize_percent_encoding s \<noteq> []
    \<and> hd (normalize_percent_encoding s) = (if is_ascii (hd s) then hd s else CHR ''%'')"
  by (cases s rule: escape_cases)
    (simp_all add: normalize_escape normalize_other push_percent_encoded_def)

lemma normalize_hex_pair: "\<not> hex_pair s \<Longrightarrow> \<not> hex_pair (normalize_percent_encoding s)"
proof (cases s rule: escape_cases)
  case (other c r)
  assume s: "\<not> hex_pair s"
  show ?thesis
  proof (cases "is_ascii c \<and> is_ascii_hexdigit c")
    case True
    have "\<not> is_ascii_hexdigit (hd r)" if "r \<noteq> []" using s other True that by (cases r) auto
    then have "\<not> hex_pair (c # normalize_percent_encoding r)"
      using normalize_hd [of r] by (cases "normalize_percent_encoding r"; cases "r = []") auto
    with True other show ?thesis by (simp add: normalize_other)
  next
    case False
    have "normalize_percent_encoding s \<noteq> []" "\<not> is_ascii_hexdigit (hd (normalize_percent_encoding s))"
      using normalize_hd [of s] other False by auto
    then show ?thesis by (cases "normalize_percent_encoding s" rule: hex_pair.cases) auto
  qed
qed (simp_all add: normalize_escape)

lemma normalize_ascii: "list_all is_ascii (normalize_percent_encoding s)"
proof (induction s rule: length_induct)
  case (1 s)
  show ?case
  proof (cases s rule: escape_cases)
    case (escape a b r)
    then show ?thesis using 1 by (simp add: normalize_escape hex_uppercase)
  next
    case (other c r)
    moreover have "list_all is_ascii (push_percent_encoded c)"
      using byte_of_less [of c] by (simp add: push_percent_encoded_def hex_digits less_mult_imp_div_less)
    ultimately show ?thesis using 1 by (simp add: normalize_other)
  qed simp
qed

text \<open>normalisation gives ASCII text, which escapes and literals share, and normalising twice is
  normalising once, so that a pattern and a target compare equal however often they were escaped.\<close>

lemma normalize_idempotent:
  "list_all is_ascii (normalize_percent_encoding s)
   \<and> normalize_percent_encoding (normalize_percent_encoding s) = normalize_percent_encoding s"
proof
  show "normalize_percent_encoding (normalize_percent_encoding s) = normalize_percent_encoding s"
  proof (induction s rule: length_induct)
    case (1 s)
    show ?case
    proof (cases s rule: escape_cases)
      case (escape a b r)
      then show ?thesis using 1 by (simp add: normalize_escape hex_uppercase)
    next
      case (other c r)
      then have IH: "normalize_percent_encoding (normalize_percent_encoding r) = normalize_percent_encoding r"
        using 1 by simp
      show ?thesis
      proof (cases "is_ascii c")
        case True
        have "\<not> (c = CHR ''%'' \<and> hex_pair (normalize_percent_encoding r))"
          using other(2) normalize_hex_pair by blast
        then show ?thesis using True other IH by (simp add: normalize_other)
      next
        case False
        then show ?thesis
          using other IH byte_of_less [of c]
          by (simp add: normalize_other push_percent_encoded_def normalize_escape hex_digits less_mult_imp_div_less)
      qed
    qed simp
  qed
qed (rule normalize_ascii)



subsection \<open>Documents read back\<close>

text \<open>The lines of a document that says what a list of groups says.\<close>

definition agent_line :: "string \<Rightarrow> string" where
  "agent_line a = ''User-agent'' @ '': '' @ a"

definition rule_line :: "rule \<Rightarrow> string" where
  "rule_line r = (if allow r then ''Allow'' else ''Disallow'') @ '': '' @ pattern r"

definition group_lines :: "group \<Rightarrow> string list" where
  "group_lines g = map agent_line (agents g) @ map rule_line (rules g)"

definition render :: "group list \<Rightarrow> string" where
  "render gs = concat (map (\<lambda>l. l @ [CHR 10]) (concat (map group_lines gs)))"

text \<open>What is asked of the Unicode tables: the field names are lowercased as ASCII text, and white
  space at the ends of a value is dropped.\<close>

definition ascii_fields :: "unicode \<Rightarrow> bool" where
  "ascii_fields U \<longleftrightarrow>
     (\<forall>(name, lower) \<in> {(''User-agent'', ''user-agent''), (''Allow'', ''allow''), (''Disallow'', ''disallow'')}.
        trim U name = name \<and> to_lowercase U name = lower)"

definition token_ok :: "unicode \<Rightarrow> string \<Rightarrow> bool" where
  "token_ok U s \<longleftrightarrow> s \<noteq> [] \<and> CHR ''#'' \<notin> set s \<and> CHR 10 \<notin> set s \<and> last s \<noteq> CHR 13 \<and> trim U (CHR '' '' # s) = s"

definition group_ok :: "unicode \<Rightarrow> group \<Rightarrow> bool" where
  "group_ok U g \<longleftrightarrow> agents g \<noteq> [] \<and> rules g \<noteq> []
     \<and> list_all (\<lambda>a. token_ok U a \<and> to_lowercase U a = a) (agents g)
     \<and> list_all (\<lambda>r. token_ok U (pattern r) \<and> normalize_percent_encoding (pattern r) = pattern r) (rules g)"

lemma split_once_absent: "c \<notin> set s \<Longrightarrow> split_once [c] s = None"
  by (induction s) auto

lemma split_field_line:
  assumes "CHR '':'' \<notin> set name" "CHR ''#'' \<notin> set name" "token_ok U v"
    and "trim U name = name" "to_lowercase U name = lower" "lower \<noteq> []"
  shows "split_field U (name @ '': '' @ v) = Some (lower, v)"
proof -
  have "split_once ''#'' (name @ '': '' @ v) = None"
    using assms(2,3) by (intro split_once_absent) (auto simp: token_ok_def)
  moreover have "split_once '':'' (name @ '': '' @ v) = Some (name, CHR '' '' # v)"
    using split_once_found [OF assms(1), of "[]" "CHR '' '' # v"] by simp
  ultimately show ?thesis using assms by (simp add: split_field_def token_ok_def)
qed

lemma parse_agent_line:
  assumes "ascii_fields U" "token_ok U a" "to_lowercase U a = a"
  shows "parse_line U (agent_line a) \<lparr>parsed = gs, start_new_group = b\<rparr> =
    \<lparr>parsed = add_agent a (if b then gs @ [\<lparr>agents = [], rules = []\<rparr>] else gs), start_new_group = False\<rparr>"
proof -
  have "split_field U (agent_line a) = Some (''user-agent'', a)"
    unfolding agent_line_def using assms(1,2) by (intro split_field_line) (simp_all add: ascii_fields_def)
  then show ?thesis using assms(3) by (simp add: parse_line_def)
qed

lemma parse_rule_line:
  assumes "ascii_fields U" "token_ok U (pattern r)" "normalize_percent_encoding (pattern r) = pattern r" "gs \<noteq> []"
  shows "parse_line U (rule_line r) \<lparr>parsed = gs, start_new_group = b\<rparr> =
    \<lparr>parsed = add_rule r gs, start_new_group = True\<rparr>"
proof -
  have "split_field U (rule_line r) = Some (if allow r then ''allow'' else ''disallow'', pattern r)"
    unfolding rule_line_def using assms(1,2) by (intro split_field_line) (simp_all add: ascii_fields_def)
  then show ?thesis using assms(2-4) by (cases r) (simp add: parse_line_def token_ok_def)
qed

lemma parse_agent_lines:
  "ascii_fields U \<Longrightarrow> list_all (\<lambda>a. token_ok U a \<and> to_lowercase U a = a) as \<Longrightarrow>
   fold (parse_line U) (map agent_line as) \<lparr>parsed = gs @ [\<lparr>agents = bs, rules = []\<rparr>], start_new_group = False\<rparr> =
   \<lparr>parsed = gs @ [\<lparr>agents = bs @ as, rules = []\<rparr>], start_new_group = False\<rparr>"
  by (induction as arbitrary: bs) (simp_all add: parse_agent_line add_agent_def)

lemma parse_rule_lines:
  "ascii_fields U \<Longrightarrow>
   list_all (\<lambda>r. token_ok U (pattern r) \<and> normalize_percent_encoding (pattern r) = pattern r) rs \<Longrightarrow>
   fold (parse_line U) (map rule_line rs) \<lparr>parsed = gs @ [\<lparr>agents = as, rules = qs\<rparr>], start_new_group = b\<rparr> =
   \<lparr>parsed = gs @ [\<lparr>agents = as, rules = qs @ rs\<rparr>], start_new_group = b \<or> rs \<noteq> []\<rparr>"
  by (induction rs arbitrary: qs b) (simp_all add: parse_rule_line add_rule_def)

lemma parse_group_lines:
  assumes "ascii_fields U" "group_ok U g"
  shows "fold (parse_line U) (group_lines g) \<lparr>parsed = gs, start_new_group = True\<rparr> =
    \<lparr>parsed = gs @ [g], start_new_group = True\<rparr>"
proof -
  obtain a as rs where g: "g = \<lparr>agents = a # as, rules = rs\<rparr>"
    using assms(2) by (cases g; cases "agents g") (auto simp: group_ok_def)
  have "fold (parse_line U) (map agent_line (a # as)) \<lparr>parsed = gs, start_new_group = True\<rparr> =
      \<lparr>parsed = gs @ [\<lparr>agents = a # as, rules = []\<rparr>], start_new_group = False\<rparr>"
    using assms parse_agent_lines [of U as gs "[a]"] by (simp add: g group_ok_def parse_agent_line add_agent_def)
  then show ?thesis
    using assms parse_rule_lines [of U rs gs "a # as" "[]" False] by (simp add: g group_ok_def group_lines_def)
qed

lemma parse_groups_lines:
  "ascii_fields U \<Longrightarrow> list_all (group_ok U) gs \<Longrightarrow>
   fold (parse_line U) (concat (map group_lines gs)) \<lparr>parsed = hs, start_new_group = True\<rparr> =
   \<lparr>parsed = hs @ gs, start_new_group = True\<rparr>"
  by (induction gs arbitrary: hs) (simp_all add: parse_group_lines)

lemma lines_render:
  "list_all (\<lambda>l. CHR 10 \<notin> set l \<and> l \<noteq> [] \<and> last l \<noteq> CHR 13) ls \<Longrightarrow> lines (concat (map (\<lambda>l. l @ [CHR 10]) ls)) = ls"
proof (induction ls)
  case (Cons l ls)
  obtain x xs where sp: "split_on (CHR 10) (concat (map (\<lambda>l. l @ [CHR 10]) ls)) = x # xs"
    by (cases "split_on (CHR 10) (concat (map (\<lambda>l. l @ [CHR 10]) ls))") simp_all
  have "strip_cr l = l" using Cons.prems by (simp add: strip_cr_def strip_suffix_char_def)
  with Cons sp show ?case by (simp add: lines_def)
qed (simp add: lines_def)

lemma group_lines_ok:
  assumes "group_ok U g" "l \<in> set (group_lines g)"
  shows "CHR 10 \<notin> set l \<and> l \<noteq> [] \<and> last l \<noteq> CHR 13"
  using assms by (auto simp: group_lines_def agent_line_def rule_line_def group_ok_def list_all_iff token_ok_def
      split: if_splits)

text \<open>C38: parsing a document that lists groups, each with its agents and then its rules, gives back
  exactly those groups with their agents and rules in order.\<close>

theorem robots_parse_render:
  assumes "ascii_fields U" "list_all (group_ok U) gs"
  shows "parse U (render gs) = \<lparr>groups = gs\<rparr>"
proof -
  have "list_all (\<lambda>l. CHR 10 \<notin> set l \<and> l \<noteq> [] \<and> last l \<noteq> CHR 13) (concat (map group_lines gs))"
    using assms(2) group_lines_ok by (fastforce simp: list_all_iff)
  then have "lines (render gs) = concat (map group_lines gs)" unfolding render_def by (rule lines_render)
  moreover have "trim_bom (render gs) = render gs"
  proof (cases gs)
    case (Cons g hs)
    obtain a as where "agents g = a # as" using assms(2) Cons by (cases "agents g") (auto simp: group_ok_def)
    then show ?thesis by (simp add: Cons render_def group_lines_def agent_line_def)
  qed (simp add: render_def)
  ultimately show ?thesis using parse_groups_lines [OF assms, of "[]"] by (simp add: parse_def)
qed

definition ascii_unicode :: unicode where
  "ascii_unicode = \<lparr>to_lowercase = map (\<lambda>c. if c = CHR ''U'' then CHR ''u'' else if c = CHR ''A'' then CHR ''a''
       else if c = CHR ''D'' then CHR ''d'' else c), trim = dropWhile (\<lambda>c. c = CHR '' '')\<rparr>"

lemma robots_parse_render_witness:
  "parse ascii_unicode (render [\<lparr>agents = [''molibot''], rules = [\<lparr>allow = False, pattern = ''/a''\<rparr>]\<rparr>])
   = \<lparr>groups = [\<lparr>agents = [''molibot''], rules = [\<lparr>allow = False, pattern = ''/a''\<rparr>]\<rparr>]\<rparr>"
proof -
  have "ascii_fields ascii_unicode" by code_simp
  moreover have "list_all (group_ok ascii_unicode) [\<lparr>agents = [''molibot''], rules = [\<lparr>allow = False, pattern = ''/a''\<rparr>]\<rparr>]"
    by code_simp
  ultimately show ?thesis by (rule robots_parse_render)
qed

end
