(* ===== verification/Timers.thy ===== *)
theory Timers
  imports Moli_Prelude
begin

section \<open>The timer scheduler (moli-time, timers.rs)\<close>

text \<open>
  \<^verbatim>\<open>TimerScheduler\<close>: a heap of scheduled timers ordered by deadline and sequence number, and the sets
  of active, running and cancelled-while-running timer ids.  Cancelling a waiting timer only
  removes its id from the active set; its heap entry stays until it is popped.  Instants are
  counts of nanoseconds.  The heap is the list of its elements, whose order the code never
  relies on; \<^verbatim>\<open>peek\<close> is the element that precedes all others.  Ids are 32-bit numbers that wrap
  around, and the search for a free id is a partial function.

  The lemmas are stated over the states reachable by any sequence of operations.
\<close>

type_synonym instant = nat
type_synonym timer_id = nat

definition u32_max :: nat where
  "u32_max = 4294967295"

record 'a scheduled_timer =
  timer_id :: timer_id
  sequence :: nat
  run_at :: instant
  delay_ms :: nat
  payload :: 'a

record 'a ready_timer =
  ready_id :: timer_id
  ready_delay_ms :: nat
  ready_payload :: 'a

definition is_ready_at :: "instant \<Rightarrow> 'a scheduled_timer \<Rightarrow> bool" where
  "is_ready_at now t \<longleftrightarrow> run_at t \<le> now"

definition timer_precedes :: "'a scheduled_timer \<Rightarrow> 'a scheduled_timer \<Rightarrow> bool" where
  "timer_precedes l r \<longleftrightarrow> run_at l < run_at r \<or> run_at l = run_at r \<and> sequence l < sequence r"

record 'a scheduler =
  pending :: "'a scheduled_timer list"
  active :: "timer_id set"
  running :: "timer_id set"
  cancelled_running :: "timer_id set"
  next_id :: nat
  next_sequence :: nat

definition scheduler_default :: "'a scheduler" where
  "scheduler_default = \<lparr>pending = [], active = {}, running = {}, cancelled_running = {}, next_id = 1, next_sequence = 0\<rparr>"

text \<open>The greatest element of the heap, whose order reverses \<^const>\<open>timer_precedes\<close>.\<close>

fun peek :: "'a scheduled_timer list \<Rightarrow> 'a scheduled_timer option" where
  "peek [] = None"
| "peek (t # ts) = (case peek ts of None \<Rightarrow> Some t | Some u \<Rightarrow> if timer_precedes u t then Some u else Some t)"

definition ready_of :: "'a scheduled_timer \<Rightarrow> 'a ready_timer" where
  "ready_of t = \<lparr>ready_id = timer_id t, ready_delay_ms = delay_ms t, ready_payload = payload t\<rparr>"

definition schedule_existing_after ::
  "timer_id \<Rightarrow> 'a \<Rightarrow> nat \<Rightarrow> instant \<Rightarrow> 'a scheduler \<Rightarrow> 'a scheduler" where
  "schedule_existing_after i p delay now s =
     s\<lparr>next_sequence := min (next_sequence s + 1) u64_max,
       active := insert i (active s),
       pending := \<lparr>timer_id = i, sequence = next_sequence s, run_at = now + delay * 1000000,
                   delay_ms = delay, payload = p\<rparr> # pending s\<rparr>"

definition wrapping_next :: "nat \<Rightarrow> nat" where
  "wrapping_next n = max ((n + 1) mod (u32_max + 1)) 1"

partial_function (option) allocate_id :: "'a scheduler \<Rightarrow> (timer_id \<times> 'a scheduler) option" where
  "allocate_id s =
     (let i = max (next_id s) 1; s = s\<lparr>next_id := wrapping_next (next_id s)\<rparr> in
      if i \<notin> active s \<and> i \<notin> running s then Some (i, s) else allocate_id s)"

definition schedule_after :: "'a \<Rightarrow> nat \<Rightarrow> instant \<Rightarrow> 'a scheduler \<Rightarrow> (timer_id \<times> 'a scheduler) option" where
  "schedule_after p delay now s =
     Option.bind (allocate_id s) (\<lambda>(i, s). Some (i, schedule_existing_after i p delay now s))"

definition cancel :: "timer_id \<Rightarrow> 'a scheduler \<Rightarrow> bool \<times> 'a scheduler" where
  "cancel i s =
     (if i \<in> active s then (True, s\<lparr>active := active s - {i}\<rparr>)
      else if i \<in> running s then
        (i \<notin> cancelled_running s, s\<lparr>cancelled_running := insert i (cancelled_running s)\<rparr>)
      else (False, s))"

fun cancel_matching_loop :: "('a \<Rightarrow> bool) \<Rightarrow> 'a scheduled_timer list \<Rightarrow> timer_id set \<Rightarrow> nat \<Rightarrow> nat \<times> timer_id set" where
  "cancel_matching_loop pred [] act n = (n, act)"
| "cancel_matching_loop pred (t # ts) act n =
     (if timer_id t \<in> act \<and> pred (payload t) then cancel_matching_loop pred ts (act - {timer_id t}) (n + 1)
      else cancel_matching_loop pred ts act n)"

definition cancel_matching :: "('a \<Rightarrow> bool) \<Rightarrow> 'a scheduler \<Rightarrow> nat \<times> 'a scheduler" where
  "cancel_matching pred s =
     (let (n, act) = cancel_matching_loop pred (pending s) (active s) 0 in (n, s\<lparr>active := act\<rparr>))"

definition active_payload :: "timer_id \<Rightarrow> 'a scheduler \<Rightarrow> 'a option" where
  "active_payload i s =
     (if i \<in> active s then map_option payload (find (\<lambda>t. timer_id t = i) (pending s)) else None)"

definition start_timer :: "'a scheduled_timer \<Rightarrow> 'a scheduler \<Rightarrow> 'a scheduler" where
  "start_timer t s = s\<lparr>active := active s - {timer_id t}, running := insert (timer_id t) (running s)\<rparr>"

lemma peek_mem: "peek ts = Some t \<Longrightarrow> t \<in> set ts"
  by (induction ts arbitrary: t) (auto split: option.splits if_splits)

function take_next_ready :: "instant \<Rightarrow> 'a scheduler \<Rightarrow> 'a ready_timer option \<times> 'a scheduler" where
  "take_next_ready now s =
     (case peek (pending s) of
        None \<Rightarrow> (None, s)
      | Some t \<Rightarrow>
          if timer_id t \<notin> active s then take_next_ready now (s\<lparr>pending := remove1 t (pending s)\<rparr>)
          else if \<not> is_ready_at now t then (None, s)
          else (Some (ready_of t), start_timer t (s\<lparr>pending := remove1 t (pending s)\<rparr>)))"
  by pat_completeness auto
termination
  by (relation "measure (\<lambda>(now, s). length (pending s))")
    (auto simp: length_remove1 dest!: peek_mem intro!: diff_less length_pos_if_in_set)

declare take_next_ready.simps [simp del]

fun next_ready_matching_loop ::
  "timer_id set \<Rightarrow> instant \<Rightarrow> ('a \<Rightarrow> bool) \<Rightarrow> 'a scheduled_timer list \<Rightarrow> 'a scheduled_timer option \<Rightarrow> 'a scheduled_timer option"
where
  "next_ready_matching_loop act now pred [] selected = selected"
| "next_ready_matching_loop act now pred (t # ts) selected =
     next_ready_matching_loop act now pred ts
       (if timer_id t \<in> act \<and> is_ready_at now t \<and> pred (payload t)
          \<and> (case selected of None \<Rightarrow> True | Some current \<Rightarrow> timer_precedes t current)
        then Some t else selected)"

definition next_ready_matching_timer :: "instant \<Rightarrow> ('a \<Rightarrow> bool) \<Rightarrow> 'a scheduler \<Rightarrow> 'a scheduled_timer option" where
  "next_ready_matching_timer now pred s = next_ready_matching_loop (active s) now pred (pending s) None"

text \<open>The rebuilding of the heap without the selected timer and without the inactive ones.\<close>

fun retain_active :: "timer_id \<Rightarrow> nat \<Rightarrow> timer_id set \<Rightarrow> 'a scheduled_timer list \<Rightarrow>
    'a scheduled_timer option \<Rightarrow> 'a scheduled_timer option \<times> 'a scheduled_timer list" where
  "retain_active i sq act [] selected = (selected, [])"
| "retain_active i sq act (t # ts) selected =
     (if selected = None \<and> timer_id t = i \<and> sequence t = sq then retain_active i sq act ts (Some t)
      else if timer_id t \<in> act then map_prod id (\<lambda>r. t # r) (retain_active i sq act ts selected)
      else retain_active i sq act ts selected)"

definition take_next_ready_matching ::
  "instant \<Rightarrow> ('a \<Rightarrow> bool) \<Rightarrow> 'a scheduler \<Rightarrow> 'a ready_timer option \<times> 'a scheduler" where
  "take_next_ready_matching now pred s =
     (case next_ready_matching_timer now pred s of
        None \<Rightarrow> (None, s)
      | Some sel \<Rightarrow>
          (let (selected, retained) = retain_active (timer_id sel) (sequence sel) (active s) (pending s) None;
               s = s\<lparr>pending := retained\<rparr> in
           case selected of
             None \<Rightarrow> (None, s)
           | Some t \<Rightarrow> (Some (ready_of t), start_timer t s)))"

definition has_ready_matching :: "instant \<Rightarrow> ('a \<Rightarrow> bool) \<Rightarrow> 'a scheduler \<Rightarrow> bool" where
  "has_ready_matching now pred s \<longleftrightarrow>
     list_ex (\<lambda>t. timer_id t \<in> active s \<and> is_ready_at now t \<and> pred (payload t)) (pending s)"

definition finish_running :: "timer_id \<Rightarrow> 'a scheduler \<Rightarrow> 'a scheduler" where
  "finish_running i s = s\<lparr>running := running s - {i}, cancelled_running := cancelled_running s - {i}\<rparr>"

definition reschedule_running_after ::
  "timer_id \<Rightarrow> 'a \<Rightarrow> nat \<Rightarrow> instant \<Rightarrow> 'a scheduler \<Rightarrow> bool \<times> 'a scheduler" where
  "reschedule_running_after i p delay now s =
     (let s = s\<lparr>running := running s - {i}\<rparr> in
      if i \<in> cancelled_running s then (False, s\<lparr>cancelled_running := cancelled_running s - {i}\<rparr>)
      else (True, schedule_existing_after i p delay now s))"

definition has_ready_timer :: "instant \<Rightarrow> 'a scheduler \<Rightarrow> bool" where
  "has_ready_timer now s \<longleftrightarrow> list_ex (\<lambda>t. timer_id t \<in> active s \<and> is_ready_at now t) (pending s)"

definition next_ready_deadline_matching :: "instant \<Rightarrow> ('a \<Rightarrow> bool) \<Rightarrow> 'a scheduler \<Rightarrow> instant option" where
  "next_ready_deadline_matching now pred s = map_option run_at (next_ready_matching_timer now pred s)"

definition timers_next_deadline :: "'a scheduler \<Rightarrow> instant option" where
  "timers_next_deadline s =
     (let ds = map run_at (filter (\<lambda>t. timer_id t \<in> active s) (pending s)) in
      if ds = [] then None else Some (foldr min (tl ds) (hd ds)))"

definition ms_to_next :: "instant \<Rightarrow> 'a scheduler \<Rightarrow> nat option" where
  "ms_to_next now s =
     map_option (\<lambda>deadline. if deadline \<le> now then 0
       else max (((deadline - now) div 1000000) mod (u64_max + 1)) 1) (timers_next_deadline s)"

definition pending_count :: "'a scheduler \<Rightarrow> nat" where
  "pending_count s = card (active s)"


subsection \<open>Reachable states\<close>

text \<open>
  \<^term>\<open>reach n s\<close>: \<^term>\<open>s\<close> is reached from the empty scheduler with \<^term>\<open>n\<close> calls of
  \<^const>\<open>schedule_after\<close>.  A timer is only rescheduled while it runs, as the callers do.
\<close>

inductive reach :: "nat \<Rightarrow> 'a scheduler \<Rightarrow> bool" where
  empty: "reach 0 scheduler_default"
| schedule: "reach n s \<Longrightarrow> schedule_after p delay now s = Some (i, s') \<Longrightarrow> reach (Suc n) s'"
| cancel: "reach n s \<Longrightarrow> reach n (snd (cancel i s))"
| cancel_matching: "reach n s \<Longrightarrow> reach n (snd (cancel_matching pred s))"
| take: "reach n s \<Longrightarrow> reach n (snd (take_next_ready now s))"
| take_matching: "reach n s \<Longrightarrow> reach n (snd (take_next_ready_matching now pred s))"
| finish: "reach n s \<Longrightarrow> reach n (finish_running i s)"
| reschedule: "reach n s \<Longrightarrow> i \<in> running s \<Longrightarrow> reach n (snd (reschedule_running_after i p delay now s))"


subsection \<open>The invariant\<close>

definition live :: "'a scheduler \<Rightarrow> 'a scheduled_timer set" where
  "live s = {t \<in> set (pending s). timer_id t \<in> active s}"

text \<open>Every active id has exactly one entry, no entry has the id of a running timer, and sequence
  numbers are unique.\<close>

definition core :: "'a scheduler \<Rightarrow> bool" where
  "core s \<longleftrightarrow> (\<forall>t \<in> set (pending s). timer_id t \<notin> running s \<and> sequence t < next_sequence s)
     \<and> distinct (map sequence (pending s)) \<and> inj_on timer_id (live s) \<and> active s = timer_id ` live s
     \<and> cancelled_running s \<subseteq> running s"

definition bounded_ids :: "nat \<Rightarrow> 'a scheduler \<Rightarrow> bool" where
  "bounded_ids n s \<longleftrightarrow> next_id s = n + 1 \<and> (\<forall>t \<in> set (pending s). timer_id t \<le> n) \<and> (\<forall>i \<in> running s. i \<le> n)"

lemma coreD:
  assumes "core s"
  shows "t \<in> set (pending s) \<Longrightarrow> timer_id t \<notin> running s" "t \<in> set (pending s) \<Longrightarrow> sequence t < next_sequence s"
    "distinct (map sequence (pending s))" "inj_on timer_id (live s)" "active s = timer_id ` live s"
    "cancelled_running s \<subseteq> running s"
  using assms by (auto simp: core_def)

lemma live_pending: "t \<in> live s \<Longrightarrow> t \<in> set (pending s)"
  by (simp add: live_def)

lemma core_active_running: "core s \<Longrightarrow> i \<in> active s \<Longrightarrow> i \<notin> running s"
proof -
  assume s: "core s" "i \<in> active s"
  then obtain t where "t \<in> live s" "i = timer_id t" using coreD(5) by auto
  then show "i \<notin> running s" using coreD(1) [OF s(1)] live_pending by blast
qed

lemma live_simps [simp]:
  "live (s\<lparr>cancelled_running := C\<rparr>) = live s" "live (s\<lparr>running := R\<rparr>) = live s" "live (s\<lparr>next_id := k\<rparr>) = live s"
  by (simp_all add: live_def)

lemma core_cancelled: "core s \<Longrightarrow> i \<in> running s \<Longrightarrow> core (s\<lparr>cancelled_running := insert i (cancelled_running s)\<rparr>)"
  by (simp add: core_def)

lemma core_default: "core scheduler_default" "bounded_ids 0 scheduler_default"
  by (simp_all add: core_def bounded_ids_def scheduler_default_def live_def)

lemma live_schedule:
  assumes "i \<notin> timer_id ` set (pending s)"
  shows "live (schedule_existing_after i p delay now s) =
    insert \<lparr>timer_id = i, sequence = next_sequence s, run_at = now + delay * 1000000, delay_ms = delay, payload = p\<rparr> (live s)"
  using assms by (auto simp: live_def schedule_existing_after_def)

lemma core_schedule:
  assumes "core s" "i \<notin> timer_id ` set (pending s)" "i \<notin> running s" "next_sequence s < u64_max"
  shows "core (schedule_existing_after i p delay now s)"
proof -
  let ?s = "schedule_existing_after i p delay now s"
  have "next_sequence s \<notin> sequence ` set (pending s)" using coreD(2) [OF assms(1)] by (metis imageE less_irrefl)
  then have "distinct (map sequence (pending ?s))"
    using coreD(3) [OF assms(1)] by (simp add: schedule_existing_after_def)
  moreover have "inj_on timer_id (live ?s)"
    using coreD(4) [OF assms(1)] assms(2) unfolding live_schedule [OF assms(2)]
    by (auto simp: inj_on_insert dest: live_pending)
  moreover have "active ?s = timer_id ` live ?s"
    using coreD(5) [OF assms(1)] unfolding live_schedule [OF assms(2)] by (simp add: schedule_existing_after_def)
  moreover have "\<forall>t \<in> set (pending ?s). timer_id t \<notin> running ?s \<and> sequence t < next_sequence ?s"
  proof
    fix t assume "t \<in> set (pending ?s)"
    then consider "timer_id t = i" "sequence t = next_sequence s" | "t \<in> set (pending s)"
      by (auto simp: schedule_existing_after_def)
    then show "timer_id t \<notin> running ?s \<and> sequence t < next_sequence ?s"
      using coreD(1,2) [OF assms(1), of t] assms(3,4) by cases (auto simp: schedule_existing_after_def)
  qed
  ultimately show ?thesis
    using coreD(6) [OF assms(1)] unfolding core_def by (simp add: schedule_existing_after_def)
qed

lemma live_restrict: "live (s\<lparr>active := active s - X\<rparr>) = {t \<in> live s. timer_id t \<notin> X}"
  by (auto simp: live_def)

lemma core_restrict:
  assumes "core s"
  shows "core (s\<lparr>active := active s - X\<rparr>)"
proof -
  have "inj_on timer_id {t \<in> live s. timer_id t \<notin> X}"
    by (rule inj_on_subset [OF coreD(4) [OF assms]]) auto
  moreover have "active s - X = timer_id ` {t \<in> live s. timer_id t \<notin> X}"
    using coreD(5) [OF assms] by auto
  ultimately show ?thesis using assms unfolding core_def live_restrict by simp
qed

text \<open>Dropping entries that are not live changes nothing.\<close>

definition prunes :: "'a scheduled_timer list \<Rightarrow> 'a scheduler \<Rightarrow> bool" where
  "prunes ts s \<longleftrightarrow> set ts \<subseteq> set (pending s) \<and> live s \<subseteq> set ts \<and> distinct (map sequence ts)"

lemma live_prune: "prunes ts s \<Longrightarrow> live (s\<lparr>pending := ts\<rparr>) = live s"
  by (auto simp: prunes_def live_def)

lemma core_prune: "core s \<Longrightarrow> prunes ts s \<Longrightarrow> core (s\<lparr>pending := ts\<rparr>)"
proof -
  assume "core s" and p: "prunes ts s"
  then show ?thesis unfolding core_def live_prune [OF p] by (auto simp: prunes_def)
qed

lemma distinct_map_remove1: "distinct (map f xs) \<Longrightarrow> distinct (map f (remove1 x xs))"
  by (induction xs) (auto dest: notin_set_remove1 set_remove1_subset [THEN subsetD])

lemma sequence_distinct: "core s \<Longrightarrow> distinct (pending s)"
  using coreD(3) [of s] by (simp add: distinct_map)

lemma live_unique: "core s \<Longrightarrow> t \<in> live s \<Longrightarrow> u \<in> set (pending s) \<Longrightarrow> timer_id u = timer_id t \<Longrightarrow> u = t"
  by (rule inj_onD [OF coreD(4)]) (auto simp: live_def)

text \<open>Starting a live timer, with its entry and any dead entries removed.\<close>

lemma live_start:
  assumes "core s" "t \<in> live s" "set ts \<subseteq> set (pending s) - {t}" "live s - {t} \<subseteq> set ts"
  shows "live (start_timer t (s\<lparr>pending := ts\<rparr>)) = live s - {t}"
proof -
  have "timer_id u \<noteq> timer_id t" if "u \<in> set ts" for u
    using live_unique [OF assms(1,2), of u] assms(3) that by auto
  then show ?thesis using assms(2-4) by (auto simp: live_def start_timer_def)
qed

lemma core_start:
  assumes "core s" "t \<in> live s" "set ts \<subseteq> set (pending s) - {t}" "live s - {t} \<subseteq> set ts"
    and "distinct (map sequence ts)"
  shows "core (start_timer t (s\<lparr>pending := ts\<rparr>))"
proof -
  let ?s = "start_timer t (s\<lparr>pending := ts\<rparr>)"
  have ids: "timer_id u \<noteq> timer_id t" if "u \<in> set ts" for u
    using live_unique [OF assms(1,2), of u] assms(3) that by auto
  have "inj_on timer_id (live ?s)" unfolding live_start [OF assms(1-4)]
    by (rule inj_on_subset [OF coreD(4) [OF assms(1)]]) auto
  moreover have "active ?s = timer_id ` live ?s"
  proof -
    have "timer_id ` (live s - {t}) = timer_id ` live s - timer_id ` {t}"
      by (rule inj_on_image_set_diff [OF coreD(4) [OF assms(1)]]) (use assms(2) in auto)
    then show ?thesis unfolding live_start [OF assms(1-4)]
      using coreD(5) [OF assms(1)] by (simp add: start_timer_def)
  qed
  moreover have "\<forall>u \<in> set (pending ?s). timer_id u \<notin> running ?s \<and> sequence u < next_sequence ?s"
    using coreD(1,2) [OF assms(1)] ids assms(3) by (auto simp: start_timer_def)
  ultimately show ?thesis
    using coreD(6) [OF assms(1)] assms(5) unfolding core_def by (auto simp: start_timer_def)
qed



subsection \<open>Taking timers\<close>

lemma precedes_asym: "timer_precedes t u \<Longrightarrow> \<not> timer_precedes u t"
  by (auto simp: timer_precedes_def)

lemma precedes_negtrans: "\<not> timer_precedes u v \<Longrightarrow> \<not> timer_precedes v t \<Longrightarrow> \<not> timer_precedes u t"
  by (auto simp: timer_precedes_def)

lemma precedes_total:
  assumes "distinct (map sequence ts)" "t \<in> set ts" "u \<in> set ts" "\<not> timer_precedes u t" "u \<noteq> t"
  shows "timer_precedes t u"
proof -
  have "sequence u \<noteq> sequence t" using assms(1,2,3,5) by (auto simp: distinct_map inj_on_def)
  then show ?thesis using assms(4) by (auto simp: timer_precedes_def)
qed

lemma not_precedes_deadline: "\<not> timer_precedes u t \<Longrightarrow> run_at t \<le> run_at u"
  by (auto simp: timer_precedes_def)

lemma peek_None: "peek ts = None \<longleftrightarrow> ts = []"
  by (cases ts) (auto split: option.splits)

lemma peek_least: "peek ts = Some t \<Longrightarrow> u \<in> set ts \<Longrightarrow> \<not> timer_precedes u t"
proof (induction ts arbitrary: t u)
  case (Cons a ts)
  show ?case
  proof (cases "peek ts")
    case None
    with Cons.prems show ?thesis by (auto simp: peek_None timer_precedes_def)
  next
    case (Some v)
    show ?thesis
    proof (cases "timer_precedes v a")
      case True
      then show ?thesis using Cons.prems Some Cons.IH [OF Some] precedes_asym [OF True] by auto
    next
      case False
      then have "t = a" using Cons.prems(1) Some by simp
      then show ?thesis
        using Cons.prems(2) Cons.IH [OF Some] precedes_negtrans [OF _ False] by (auto simp: timer_precedes_def)
    qed
  qed
qed simp

text \<open>
  What taking a timer means: the first of the live timers that are due and wanted becomes a
  running timer, or there is none.
\<close>

definition wanted :: "instant \<Rightarrow> ('a \<Rightarrow> bool) \<Rightarrow> 'a scheduler \<Rightarrow> 'a scheduled_timer set" where
  "wanted now pred s = {t \<in> live s. is_ready_at now t \<and> pred (payload t)}"

definition taken :: "instant \<Rightarrow> ('a \<Rightarrow> bool) \<Rightarrow> 'a scheduler \<Rightarrow> 'a ready_timer option \<times> 'a scheduler \<Rightarrow> bool" where
  "taken now pred s res \<longleftrightarrow>
     (case fst res of
        None \<Rightarrow> wanted now pred s = {} \<and> live (snd res) = live s \<and> running (snd res) = running s
      | Some r \<Rightarrow> \<exists>t \<in> wanted now pred s. r = ready_of t \<and> (\<forall>u \<in> wanted now pred s. u \<noteq> t \<longrightarrow> timer_precedes t u)
          \<and> live (snd res) = live s - {t} \<and> running (snd res) = insert (timer_id t) (running s))"

definition frame :: "'a scheduler \<Rightarrow> 'a scheduler \<Rightarrow> bool" where
  "frame s s' \<longleftrightarrow> next_id s' = next_id s \<and> next_sequence s' = next_sequence s \<and> set (pending s') \<subseteq> set (pending s)
     \<and> running s' \<subseteq> running s \<union> timer_id ` set (pending s)"

lemma frame_bounded: "bounded_ids n s \<Longrightarrow> frame s s' \<Longrightarrow> bounded_ids n s'"
  by (auto simp: bounded_ids_def frame_def)

lemma frame_refl [simp]: "frame s s"
  by (simp add: frame_def)

lemma frame_start:
  "set ts \<subseteq> set (pending s) \<Longrightarrow> t \<in> set (pending s) \<Longrightarrow> frame s (start_timer t (s\<lparr>pending := ts\<rparr>))"
  by (auto simp: frame_def start_timer_def)

lemma start_taken:
  assumes "core s" "t \<in> wanted now pred s" "\<And>u. u \<in> wanted now pred s \<Longrightarrow> \<not> timer_precedes u t"
    and "set ts \<subseteq> set (pending s) - {t}" "live s - {t} \<subseteq> set ts"
  shows "taken now pred s (Some (ready_of t), start_timer t (s\<lparr>pending := ts\<rparr>))"
proof -
  have t: "t \<in> live s" using assms(2) by (simp add: wanted_def)
  have "timer_precedes t u" if "u \<in> wanted now pred s" "u \<noteq> t" for u
    using precedes_total [OF coreD(3) [OF assms(1)], of t u] assms(3) [OF that(1)] that t live_pending
    by (auto simp: wanted_def)
  with assms(2) live_start [OF assms(1) t assms(4,5)] show ?thesis
    by (auto simp: taken_def start_timer_def)
qed

lemma taken_prune:
  assumes "prunes ts s"
  shows "taken now pred (s\<lparr>pending := ts\<rparr>) res \<longleftrightarrow> taken now pred s res"
  unfolding taken_def wanted_def live_prune [OF assms] by (cases "fst res") simp_all

lemma take_next_ready_ok:
  "core s \<Longrightarrow> taken now (\<lambda>_. True) s (take_next_ready now s) \<and> core (snd (take_next_ready now s))
    \<and> frame s (snd (take_next_ready now s))"
proof (induction now s rule: take_next_ready.induct)
  case (1 now s)
  show ?case
  proof (cases "peek (pending s)")
    case None
    then have "live s = {}" by (simp add: peek_None live_def)
    then show ?thesis using None 1(2) by (simp add: take_next_ready.simps [of now s] taken_def wanted_def)
  next
    case (Some t)
    note least = peek_least [OF Some] and mem = peek_mem [OF Some]
    have dist: "distinct (map sequence (remove1 t (pending s)))"
      by (rule distinct_map_remove1 [OF coreD(3) [OF 1(2)]])
    have rem: "set (remove1 t (pending s)) = set (pending s) - {t}"
      by (rule set_remove1_eq [OF sequence_distinct [OF 1(2)]])
    consider (stale) "timer_id t \<notin> active s" | (early) "timer_id t \<in> active s" "\<not> is_ready_at now t"
      | (ready) "timer_id t \<in> active s" "is_ready_at now t" by blast
    then show ?thesis
    proof cases
      case stale
      let ?s = "s\<lparr>pending := remove1 t (pending s)\<rparr>"
      have pr: "prunes (remove1 t (pending s)) s" using stale dist rem by (auto simp: prunes_def live_def)
      have "take_next_ready now s = take_next_ready now ?s"
        using Some stale by (simp add: take_next_ready.simps [of now s])
      moreover have "frame s s'" if "frame ?s s'" for s' using that rem by (auto simp: frame_def)
      ultimately show ?thesis using 1(1) [OF Some stale core_prune [OF 1(2) pr]] taken_prune [OF pr] by metis
    next
      case early
      have "now < run_at u" if "u \<in> live s" for u
        using early(2) not_precedes_deadline [OF least [OF live_pending [OF that]]] by (simp add: is_ready_at_def)
      then have "wanted now (\<lambda>_. True) s = {}" by (fastforce simp: wanted_def is_ready_at_def)
      then show ?thesis using Some early 1(2) by (simp add: take_next_ready.simps [of now s] taken_def)
    next
      case ready
      then have t: "t \<in> wanted now (\<lambda>_. True) s" "t \<in> live s" using mem by (auto simp: wanted_def live_def)
      have eq: "take_next_ready now s = (Some (ready_of t), start_timer t (s\<lparr>pending := remove1 t (pending s)\<rparr>))"
        using Some ready by (simp add: take_next_ready.simps [of now s])
      have sub: "set (remove1 t (pending s)) \<subseteq> set (pending s) - {t}" "live s - {t} \<subseteq> set (remove1 t (pending s))"
        using rem live_pending by auto
      have "\<not> timer_precedes u t" if "u \<in> wanted now (\<lambda>_. True) s" for u
        using least [OF live_pending] that by (simp add: wanted_def)
      note this [THEN start_taken [OF 1(2) t(1) _ sub]] core_start [OF 1(2) t(2) sub dist]
      moreover have "frame s (start_timer t (s\<lparr>pending := remove1 t (pending s)\<rparr>))"
        using sub(1) mem by (intro frame_start) auto
      ultimately show ?thesis unfolding eq snd_conv by simp
    qed
  qed
qed


lemma next_ready_matching_loop_ok:
  "case next_ready_matching_loop act now pred ts sel of
     None \<Rightarrow> sel = None \<and> (\<forall>u \<in> set ts. \<not> (timer_id u \<in> act \<and> is_ready_at now u \<and> pred (payload u)))
   | Some t \<Rightarrow> (sel = Some t \<or> t \<in> set ts \<and> timer_id t \<in> act \<and> is_ready_at now t \<and> pred (payload t))
       \<and> (\<forall>u. sel = Some u \<longrightarrow> \<not> timer_precedes u t)
       \<and> (\<forall>u \<in> set ts. timer_id u \<in> act \<and> is_ready_at now u \<and> pred (payload u) \<longrightarrow> \<not> timer_precedes u t)"
proof (induction ts arbitrary: sel)
  case Nil
  then show ?case by (auto split: option.splits simp: timer_precedes_def)
next
  case (Cons a ts)
  let ?c = "timer_id a \<in> act \<and> is_ready_at now a \<and> pred (payload a)"
  let ?sel = "if ?c \<and> (case sel of None \<Rightarrow> True | Some current \<Rightarrow> timer_precedes a current) then Some a else sel"
  note IH = Cons.IH [of ?sel]
  show ?case
  proof (cases "next_ready_matching_loop act now pred ts ?sel")
    case None
    then show ?thesis using IH by (auto split: if_splits option.splits)
  next
    case (Some t)
    have t: "?sel = Some t \<or> t \<in> set ts \<and> timer_id t \<in> act \<and> is_ready_at now t \<and> pred (payload t)"
      and sel: "\<And>u. ?sel = Some u \<Longrightarrow> \<not> timer_precedes u t"
      and ts: "\<And>u. u \<in> set ts \<Longrightarrow> timer_id u \<in> act \<and> is_ready_at now u \<and> pred (payload u) \<Longrightarrow> \<not> timer_precedes u t"
      using IH unfolding Some by auto
    have "\<not> timer_precedes u t" if u: "sel = Some u" for u
    proof (cases "?c \<and> timer_precedes a u")
      case True
      then have "\<not> timer_precedes a t" "\<not> timer_precedes u a" using sel [of a] precedes_asym u by auto
      then show ?thesis using precedes_negtrans by blast
    next
      case False
      then have "?sel = Some u" using u by auto
      then show ?thesis by (rule sel)
    qed
    moreover have "\<not> timer_precedes a t" if c: ?c
    proof (cases "sel = None \<or> (\<exists>u. sel = Some u \<and> timer_precedes a u)")
      case True
      then show ?thesis using sel [of a] c by auto
    next
      case False
      then obtain u where "sel = Some u" "\<not> timer_precedes a u" by auto
      then show ?thesis using sel [of u] precedes_negtrans [of a u t] by simp
    qed
    ultimately show ?thesis using Some t ts by (auto split: if_splits)
  qed
qed

lemma next_ready_matching_ok:
  "case next_ready_matching_timer now pred s of
     None \<Rightarrow> wanted now pred s = {}
   | Some t \<Rightarrow> t \<in> wanted now pred s \<and> (\<forall>u \<in> wanted now pred s. \<not> timer_precedes u t)"
  using next_ready_matching_loop_ok [where act = "active s" and now = now and pred = pred and ts = "pending s" and sel = None]
  by (auto simp: next_ready_matching_timer_def wanted_def live_def split: option.splits)

lemma retain_active_rest: "retain_active i sq act ts (Some x) = (Some x, filter (\<lambda>t. timer_id t \<in> act) ts)"
  by (induction ts) simp_all

lemma retain_active_ok:
  "distinct (map sequence ts) \<Longrightarrow> t \<in> set ts \<Longrightarrow>
   retain_active (timer_id t) (sequence t) act ts None = (Some t, filter (\<lambda>u. timer_id u \<in> act) (remove1 t ts))"
proof (induction ts)
  case (Cons a ts)
  then show ?case by (cases "a = t") (auto simp: retain_active_rest)
qed simp

lemma take_next_ready_matching_ok:
  assumes "core s"
  shows "taken now pred s (take_next_ready_matching now pred s) \<and> core (snd (take_next_ready_matching now pred s))
    \<and> frame s (snd (take_next_ready_matching now pred s))"
proof (cases "next_ready_matching_timer now pred s")
  case None
  then show ?thesis
    using assms next_ready_matching_ok [of now pred s] by (simp add: take_next_ready_matching_def taken_def)
next
  case (Some t)
  have t: "t \<in> wanted now pred s" "\<And>u. u \<in> wanted now pred s \<Longrightarrow> \<not> timer_precedes u t"
    using next_ready_matching_ok [of now pred s] Some by auto
  then have live: "t \<in> live s" by (simp add: wanted_def)
  let ?ts = "filter (\<lambda>u. timer_id u \<in> active s) (remove1 t (pending s))"
  have eq: "take_next_ready_matching now pred s = (Some (ready_of t), start_timer t (s\<lparr>pending := ?ts\<rparr>))"
    using Some retain_active_ok [OF coreD(3) [OF assms] live_pending [OF live], of "active s"]
    by (simp add: take_next_ready_matching_def)
  have rem: "set (remove1 t (pending s)) = set (pending s) - {t}"
    by (rule set_remove1_eq [OF sequence_distinct [OF assms]])
  then have sub: "set ?ts \<subseteq> set (pending s) - {t}" "live s - {t} \<subseteq> set ?ts" by (auto simp: live_def)
  have dist: "distinct (map sequence ?ts)"
    using distinct_map_remove1 [OF coreD(3) [OF assms], of t] by (rule distinct_map_filter)
  have "frame s (start_timer t (s\<lparr>pending := ?ts\<rparr>))"
    using sub(1) live_pending [OF live] by (intro frame_start) auto
  then show ?thesis
    unfolding eq snd_conv using start_taken [OF assms t sub] core_start [OF assms live sub dist] by simp
qed



subsection \<open>Every reachable state\<close>

lemma allocate_fresh:
  assumes "core s" "bounded_ids n s"
  shows "allocate_id s = Some (n + 1, s\<lparr>next_id := wrapping_next (n + 1)\<rparr>)"
proof -
  have "i \<le> n" if "i \<in> active s" for i
  proof -
    from that obtain t where "t \<in> live s" "i = timer_id t" using coreD(5) [OF assms(1)] by auto
    then show ?thesis using assms(2) live_pending by (auto simp: bounded_ids_def)
  qed
  from this [of "n + 1"] have "n + 1 \<notin> active s" "n + 1 \<notin> running s" "next_id s = n + 1"
    using assms(2) by (auto simp: bounded_ids_def)
  then show ?thesis by (subst allocate_id.simps) (simp add: Let_def)
qed

lemma wrapping_next_less: "n < u32_max \<Longrightarrow> wrapping_next n = n + 1"
  by (simp add: wrapping_next_def)

lemma core_next_id: "core (s\<lparr>next_id := k\<rparr>) \<longleftrightarrow> core s"
  by (simp add: core_def live_def)

lemma inv_schedule_after:
  assumes "core s" "bounded_ids n s" "Suc n < u32_max" "next_sequence s < u64_max"
    and "schedule_after p delay now s = Some (i, s')"
  shows "core s' \<and> bounded_ids (Suc n) s'"
proof -
  let ?s = "s\<lparr>next_id := n + 2\<rparr>"
  have s': "s' = schedule_existing_after (n + 1) p delay now ?s"
    using assms(3,5) allocate_fresh [OF assms(1,2)] by (auto simp: schedule_after_def wrapping_next_less)
  have "n + 1 \<notin> timer_id ` set (pending ?s)" "n + 1 \<notin> running ?s"
    using assms(2) by (auto simp: bounded_ids_def)
  then have "core s'" unfolding s' using assms(1,4) by (intro core_schedule) (simp_all add: core_next_id)
  moreover have "bounded_ids (Suc n) s'"
    using assms(2) by (auto simp: s' bounded_ids_def schedule_existing_after_def)
  ultimately show ?thesis by simp
qed

lemma cancel_matching_restricts: "\<exists>X. snd (cancel_matching_loop pred ts act n) = act - X"
proof (induction pred ts act n rule: cancel_matching_loop.induct)
  case (2 pred t ts act n)
  then show ?case by (auto simp: Diff_insert2 [symmetric] Diff_insert [symmetric] split: if_splits)
qed (auto intro: exI [of _ "{}"])

lemma inv_finish: "core s \<Longrightarrow> core (finish_running i s)"
  by (auto simp: core_def finish_running_def live_def)

lemma inv_reschedule:
  assumes "core s" "bounded_ids n s" "i \<in> running s" "next_sequence s < u64_max"
  shows "core (snd (reschedule_running_after i p delay now s)) \<and> bounded_ids n (snd (reschedule_running_after i p delay now s))"
proof -
  let ?s = "s\<lparr>running := running s - {i}\<rparr>"
  have i: "i \<notin> timer_id ` set (pending s)" "i \<le> n" using coreD(1) [OF assms(1)] assms(2,3) by (auto simp: bounded_ids_def)
  have sub: "core (s\<lparr>running := running s - {i}, cancelled_running := cancelled_running s - {i}\<rparr>)"
    using inv_finish [OF assms(1), of i] by (simp add: finish_running_def)
  show ?thesis
  proof (cases "i \<in> cancelled_running s")
    case True
    then show ?thesis using sub assms(2) by (auto simp: reschedule_running_after_def bounded_ids_def)
  next
    case False
    then have "core ?s" using sub by simp
    then have "core (schedule_existing_after i p delay now ?s)"
      using i(1) assms(4) by (intro core_schedule) simp_all
    moreover have "bounded_ids n (schedule_existing_after i p delay now ?s)"
      using assms(2) i(2) by (auto simp: bounded_ids_def schedule_existing_after_def)
    ultimately show ?thesis using False by (simp add: reschedule_running_after_def Let_def)
  qed
qed

lemma allocate_frame:
  assumes "allocate_id s = Some r"
  shows "fst r \<notin> active s \<and> fst r \<notin> running s \<and> (\<exists>k. snd r = s\<lparr>next_id := wrapping_next k\<rparr>)"
proof (rule allocate_id.raw_induct [OF _ assms,
      where P = "\<lambda>s r. fst r \<notin> active s \<and> fst r \<notin> running s \<and> (\<exists>k. snd r = s\<lparr>next_id := wrapping_next k\<rparr>)"])
  fix alloc and s :: "'a scheduler" and r
  assume IH: "\<And>s r. alloc s = Some r \<Longrightarrow> fst r \<notin> active s \<and> fst r \<notin> running s \<and> (\<exists>k. snd r = s\<lparr>next_id := wrapping_next k\<rparr>)"
    and step: "(let i = max (next_id s) 1; s = s\<lparr>next_id := wrapping_next (next_id s)\<rparr> in
      if i \<notin> active s \<and> i \<notin> running s then Some (i, s) else alloc s) = Some r"
  show "fst r \<notin> active s \<and> fst r \<notin> running s \<and> (\<exists>k. snd r = s\<lparr>next_id := wrapping_next k\<rparr>)"
  proof (cases "max (next_id s) 1 \<notin> active s \<and> max (next_id s) 1 \<notin> running s")
    case True
    then show ?thesis using step by (auto simp: Let_def)
  next
    case False
    then have "alloc (s\<lparr>next_id := wrapping_next (next_id s)\<rparr>) = Some r"
      using step by (simp add: Let_def split: if_splits)
    from IH [OF this] show ?thesis by auto
  qed
qed

lemma next_sequence_schedule:
  assumes "schedule_after p delay now s = Some (i, s')" "next_sequence s' < u64_max"
  shows "next_sequence s < u64_max"
proof -
  obtain s1 where s1: "allocate_id s = Some (i, s1)" "s' = schedule_existing_after i p delay now s1"
    using assms(1) by (auto simp: schedule_after_def bind_eq_Some_conv)
  from allocate_frame [OF s1(1)] assms(2) show ?thesis by (auto simp: s1(2) schedule_existing_after_def)
qed

lemma take_next_ready_seq: "next_sequence (snd (take_next_ready now s)) = next_sequence s"
proof (induction now s rule: take_next_ready.induct)
  case (1 now s)
  then show ?case
    by (cases "peek (pending s)") (simp_all add: take_next_ready.simps [of now s] start_timer_def)
qed

lemma take_next_ready_matching_seq: "next_sequence (snd (take_next_ready_matching now pred s)) = next_sequence s"
  by (simp add: take_next_ready_matching_def start_timer_def split_beta Let_def split: option.split)

lemma bounded_restrict: "bounded_ids n s \<Longrightarrow> bounded_ids n (s\<lparr>active := A\<rparr>)"
  by (simp add: bounded_ids_def)

lemma reach_inv: "reach n s \<Longrightarrow> n < u32_max \<Longrightarrow> next_sequence s < u64_max \<Longrightarrow> core s \<and> bounded_ids n s"
proof (induction rule: reach.induct)
  case empty
  show ?case by (simp add: core_default)
next
  case (schedule n s p delay now i s')
  have "next_sequence s < u64_max" by (rule next_sequence_schedule [OF schedule.hyps(2) schedule.prems(2)])
  then show ?case
    using inv_schedule_after [OF _ _ schedule.prems(1) _ schedule.hyps(2)] schedule.IH schedule.prems(1) by simp
next
  case (cancel n s i)
  have inv: "core s" "bounded_ids n s" using cancel by (auto simp: cancel_def split: if_splits)
  consider "snd (cancel i s) = s\<lparr>active := active s - {i}\<rparr>"
    | "i \<in> running s" "snd (cancel i s) = s\<lparr>cancelled_running := insert i (cancelled_running s)\<rparr>" | "snd (cancel i s) = s"
    by (cases "i \<in> active s"; cases "i \<in> running s") (simp_all add: cancel_def)
  then show ?case
    using inv core_restrict [OF inv(1), of "{i}"] core_cancelled [OF inv(1)] by cases (simp_all add: bounded_ids_def)
next
  case (cancel_matching n s pred)
  obtain X where X: "snd (cancel_matching pred s) = s\<lparr>active := active s - X\<rparr>"
    using cancel_matching_restricts [of pred "pending s" "active s" 0] by (auto simp: cancel_matching_def split_beta)
  then show ?case using cancel_matching core_restrict bounded_restrict by auto
next
  case (take n s now)
  then show ?case using take_next_ready_seq take_next_ready_ok [of s now] frame_bounded by metis
next
  case (take_matching n s now pred)
  then show ?case using take_next_ready_matching_seq take_next_ready_matching_ok [of s now pred] frame_bounded by metis
next
  case (finish n s i)
  then show ?case using inv_finish by (auto simp: finish_running_def bounded_ids_def)
next
  case (reschedule n s i p delay now)
  have "next_sequence s < u64_max"
    using reschedule.prems(2)
    by (auto simp: reschedule_running_after_def schedule_existing_after_def Let_def split: if_splits)
  then show ?case using inv_reschedule [of s n i p delay now] reschedule by simp
qed



subsection \<open>What the scheduler promises\<close>

text \<open>In every state reached with fewer scheduling calls than there are timer ids, taking a timer
  starts the live timer that is due, is wanted by the filter and precedes all others such by
  deadline and then by scheduling order, and no other; it takes none only if none is due.\<close>

lemma timer_take_first:
  assumes "reach n s" "n < u32_max" "next_sequence s < u64_max"
  shows "taken now (\<lambda>_. True) s (take_next_ready now s) \<and> taken now pred s (take_next_ready_matching now pred s)"
  using reach_inv [OF assms] take_next_ready_ok take_next_ready_matching_ok by blast

text \<open>Taking timers until none is due.\<close>

lemma take_next_ready_length:
  "take_next_ready now s = (Some r, s') \<Longrightarrow> length (pending s') < length (pending s)"
proof (induction now s rule: take_next_ready.induct)
  case (1 now s)
  show ?case
  proof (cases "peek (pending s)")
    case None
    then show ?thesis using 1(2) by (simp add: take_next_ready.simps [of now s])
  next
    case (Some t)
    have "length (remove1 t (pending s)) < length (pending s)"
      using peek_mem [OF Some] by (auto simp: length_remove1 intro!: diff_less length_pos_if_in_set)
    then show ?thesis
      using 1(2) 1(1) [OF Some] Some
      by (cases "timer_id t \<in> active s"; cases "is_ready_at now t")
        (auto simp: take_next_ready.simps [of now s] start_timer_def)
  qed
qed

function drain :: "instant \<Rightarrow> 'a scheduler \<Rightarrow> 'a ready_timer list \<times> 'a scheduler" where
  "drain now s =
     (case take_next_ready now s of
        (None, s') \<Rightarrow> ([], s')
      | (Some r, s') \<Rightarrow> map_prod (\<lambda>rs. r # rs) id (drain now s'))"
  by pat_completeness auto
termination
  by (relation "measure (\<lambda>(now, s). length (pending s))") (auto dest: take_next_ready_length sym)

declare drain.simps [simp del]

lemma drain_ok:
  "core s \<Longrightarrow> \<exists>ts. fst (drain now s) = map ready_of ts \<and> sorted_wrt timer_precedes ts
     \<and> set ts = wanted now (\<lambda>_. True) s \<and> live (snd (drain now s)) = live s - set ts"
proof (induction now s rule: drain.induct)
  case (1 now s)
  obtain res s' where res: "take_next_ready now s = (res, s')" by fastforce
  note ok = take_next_ready_ok [OF 1(2), of now, unfolded res]
  show ?case
  proof (cases res)
    case None
    then show ?thesis using ok res by (intro exI [of _ "[]"]) (simp add: drain.simps [of now s] taken_def)
  next
    case (Some r)
    then obtain t where t: "t \<in> wanted now (\<lambda>_. True) s" "r = ready_of t" "live s' = live s - {t}"
        "\<And>u. u \<in> wanted now (\<lambda>_. True) s \<Longrightarrow> u \<noteq> t \<Longrightarrow> timer_precedes t u"
      using ok by (auto simp: taken_def)
    have w: "wanted now (\<lambda>_. True) s' = wanted now (\<lambda>_. True) s - {t}" using t(3) by (auto simp: wanted_def)
    obtain ts where ts: "fst (drain now s') = map ready_of ts" "sorted_wrt timer_precedes ts"
        "set ts = wanted now (\<lambda>_. True) s'" "live (snd (drain now s')) = live s' - set ts"
      using 1(1) [OF res [unfolded Some, symmetric] refl] ok by (auto simp: Some)
    have "drain now s = map_prod (\<lambda>rs. r # rs) id (drain now s')"
      using res Some by (simp add: drain.simps [of now s])
    then show ?thesis
      using ts t w by (intro exI [of _ "t # ts"]) (auto simp: wanted_def)
  qed
qed

text \<open>taking timers at one instant until none is left starts every live timer that is due exactly
  once, in the order of deadlines and, for equal deadlines, of scheduling, and leaves the
  others.\<close>

lemma timer_drain:
  assumes "reach n s" "n < u32_max" "next_sequence s < u64_max"
  shows "\<exists>ts. fst (drain now s) = map ready_of ts \<and> sorted_wrt timer_precedes ts
     \<and> set ts = wanted now (\<lambda>_. True) s \<and> live (snd (drain now s)) = live s - set ts"
  using reach_inv [OF assms] drain_ok by blast



subsection \<open>The search for a free id\<close>

lemma wrapping_next_range: "1 \<le> wrapping_next k \<and> wrapping_next k \<le> u32_max"
proof -
  have "(k + 1) mod (u32_max + 1) < u32_max + 1" by (rule mod_less_divisor) simp
  then show ?thesis by (simp add: wrapping_next_def u32_max_def)
qed

lemma wrapping_next_cases: "1 \<le> n \<Longrightarrow> n \<le> u32_max \<Longrightarrow> wrapping_next n = (if n = u32_max then 1 else n + 1)"
  by (simp add: wrapping_next_def u32_max_def)

definition id_distance :: "nat \<Rightarrow> nat \<Rightarrow> nat" where
  "id_distance n j = (if n \<le> j then j - n else u32_max - n + j)"

lemma allocate_finds:
  "id_distance (next_id s) j = d \<Longrightarrow> 1 \<le> next_id s \<Longrightarrow> next_id s \<le> u32_max \<Longrightarrow> 1 \<le> j \<Longrightarrow> j \<le> u32_max \<Longrightarrow>
   j \<notin> active s \<Longrightarrow> j \<notin> running s \<Longrightarrow> \<exists>r. allocate_id s = Some r \<and> 1 \<le> fst r \<and> fst r \<le> u32_max"
proof (induction d arbitrary: s)
  case 0
  then have "next_id s = j" by (simp add: id_distance_def split: if_splits)
  with 0 show ?case by (simp add: allocate_id.simps [of s] Let_def)
next
  case (Suc d)
  let ?s = "s\<lparr>next_id := wrapping_next (next_id s)\<rparr>"
  show ?case
  proof (cases "next_id s \<notin> active s \<and> next_id s \<notin> running s")
    case True
    then show ?thesis using Suc.prems by (simp add: allocate_id.simps [of s] Let_def max_def)
  next
    case False
    have "id_distance (wrapping_next (next_id s)) j = d"
      using Suc.prems by (auto simp: id_distance_def wrapping_next_cases split: if_splits)
    then have "\<exists>r. allocate_id ?s = Some r \<and> 1 \<le> fst r \<and> fst r \<le> u32_max"
      using Suc.prems(4-7) wrapping_next_range [of "next_id s"] by (intro Suc.IH) simp_all
    moreover have "allocate_id s = allocate_id ?s"
      using False Suc.prems(2) by (auto simp: allocate_id.simps [of s] Let_def max_def)
    ultimately show ?thesis by simp
  qed
qed

lemma take_next_ready_sets:
  "next_id (snd (take_next_ready now s)) = next_id s \<and> active (snd (take_next_ready now s)) \<subseteq> active s
    \<and> (finite (running s) \<longrightarrow> finite (running (snd (take_next_ready now s))))"
proof (induction now s rule: take_next_ready.induct)
  case (1 now s)
  then show ?case
    by (cases "peek (pending s)") (auto simp: take_next_ready.simps [of now s] start_timer_def)
qed

lemma reach_ids: "reach n s \<Longrightarrow> 1 \<le> next_id s \<and> next_id s \<le> u32_max \<and> finite (active s) \<and> finite (running s)"
proof (induction rule: reach.induct)
  case empty
  then show ?case by (simp add: scheduler_default_def u32_max_def)
next
  case (schedule n s p delay now i s')
  obtain s1 where s1: "allocate_id s = Some (i, s1)" "s' = schedule_existing_after i p delay now s1"
    using schedule.hyps(2) by (auto simp: schedule_after_def bind_eq_Some_conv)
  from allocate_frame [OF s1(1)] obtain k where "s1 = s\<lparr>next_id := wrapping_next k\<rparr>" by auto
  then show ?case using schedule.IH wrapping_next_range [of k] by (simp add: s1(2) schedule_existing_after_def)
next
  case (cancel n s i)
  then show ?case by (simp add: cancel_def)
next
  case (cancel_matching n s pred)
  then show ?case
    using cancel_matching_restricts [of pred "pending s" "active s" 0] by (auto simp: cancel_matching_def split_beta)
next
  case (take n s now)
  then show ?case using take_next_ready_sets [of now s] finite_subset by auto
next
  case (take_matching n s now pred)
  then show ?case by (simp add: take_next_ready_matching_def start_timer_def split_beta Let_def split: option.split)
next
  case (finish n s i)
  then show ?case by (simp add: finish_running_def)
next
  case (reschedule n s i p delay now)
  then show ?case by (simp add: reschedule_running_after_def schedule_existing_after_def Let_def)
qed

text \<open>whenever not all timer ids are in use, the search for a free id ends, and scheduling gives
  the new timer a nonzero 32-bit id that no active or running timer has.\<close>

lemma timer_id_search_ends:
  assumes "reach n s" "card (active s \<union> running s) < u32_max"
  shows "\<exists>i s'. schedule_after p delay now s = Some (i, s') \<and> 1 \<le> i \<and> i \<le> u32_max \<and> i \<notin> active s \<and> i \<notin> running s"
proof -
  note ids = reach_ids [OF assms(1)]
  have "\<exists>j \<in> {1..u32_max}. j \<notin> active s \<union> running s"
  proof (rule ccontr)
    assume "\<not> ?thesis"
    then have "{1..u32_max} \<subseteq> active s \<union> running s" by blast
    then have "card {1..u32_max} \<le> card (active s \<union> running s)" using ids by (intro card_mono) simp_all
    with assms(2) show False by simp
  qed
  then obtain j where "1 \<le> j" "j \<le> u32_max" "j \<notin> active s" "j \<notin> running s" by auto
  then obtain r where r: "allocate_id s = Some r" "1 \<le> fst r" "fst r \<le> u32_max"
    using allocate_finds [OF refl] ids by blast
  then show ?thesis using allocate_frame [OF r(1)] by (cases r) (auto simp: schedule_after_def)
qed


subsection \<open>Examples\<close>

lemma allocate_first: "allocate_id scheduler_default = Some (1, scheduler_default\<lparr>next_id := 2\<rparr>)"
  using allocate_fresh [OF core_default] by (simp add: wrapping_next_def u32_max_def numeral_2_eq_2)

definition example_scheduler :: "string scheduler" where
  "example_scheduler = schedule_existing_after 1 ''a'' 5 0 (scheduler_default\<lparr>next_id := 2\<rparr>)"

lemma example_reach: "reach 1 example_scheduler"
  using reach.schedule [OF reach.empty, of "''a''" 5 0 1 example_scheduler]
  by (simp add: schedule_after_def example_scheduler_def allocate_first [simplified])

lemma example_sequence: "next_sequence example_scheduler < u64_max"
  by (simp add: example_scheduler_def schedule_existing_after_def scheduler_default_def u64_max_def)

lemma timer_take_first_example:
  "taken 5000000 (\<lambda>_. True) example_scheduler (take_next_ready 5000000 example_scheduler)
   \<and> taken 5000000 (\<lambda>p. p = ''a'') example_scheduler (take_next_ready_matching 5000000 (\<lambda>p. p = ''a'') example_scheduler)"
  by (rule timer_take_first [OF example_reach _ example_sequence]) (simp add: u32_max_def)

lemma timer_drain_example:
  "\<exists>ts. fst (drain 5000000 example_scheduler) = map ready_of ts \<and> sorted_wrt timer_precedes ts
     \<and> set ts = wanted 5000000 (\<lambda>_. True) example_scheduler
     \<and> live (snd (drain 5000000 example_scheduler)) = live example_scheduler - set ts"
  by (rule timer_drain [OF example_reach _ example_sequence]) (simp add: u32_max_def)

lemma timer_id_search_ends_example:
  "\<exists>i s'. schedule_after ''b'' 0 0 example_scheduler = Some (i, s') \<and> 1 \<le> i \<and> i \<le> u32_max
     \<and> i \<notin> active example_scheduler \<and> i \<notin> running example_scheduler"
  by (rule timer_id_search_ends [OF example_reach])
    (simp add: example_scheduler_def schedule_existing_after_def scheduler_default_def u32_max_def)



subsection \<open>Ids that wrap around\<close>

text \<open>
  A cancelled timer keeps its heap entry until the entry comes up.  If all ids have been given out
  in between, a new timer gets the same id, and the old entry counts as active again: the bound on
  the number of scheduling calls above is needed.
\<close>

definition old_entry :: "string scheduled_timer" where
  "old_entry = \<lparr>timer_id = 1, sequence = 0, run_at = 0, delay_ms = 0, payload = ''old''\<rparr>"

lemma allocate_idle:
  assumes "active s = {}" "running s = {}" "1 \<le> next_id s"
  shows "allocate_id s = Some (next_id s, s\<lparr>next_id := wrapping_next (next_id s)\<rparr>)"
  using assms by (simp add: allocate_id.simps [of s] Let_def max_def)

lemma schedule_and_cancel:
  assumes "reach n s" "active s = {}" "running s = {}" "1 \<le> next_id s"
  shows "\<exists>s'. reach (Suc n) s' \<and> active s' = {} \<and> running s' = {} \<and> next_id s' = wrapping_next (next_id s)
    \<and> pending s' = \<lparr>timer_id = next_id s, sequence = next_sequence s, run_at = now, delay_ms = 0, payload = p\<rparr> # pending s"
proof -
  define s1 where "s1 = schedule_existing_after (next_id s) p 0 now (s\<lparr>next_id := wrapping_next (next_id s)\<rparr>)"
  have "schedule_after p 0 now s = Some (next_id s, s1)"
    using allocate_idle [OF assms(2-4)] by (simp add: schedule_after_def s1_def)
  then have "reach (Suc n) (snd (cancel (next_id s) s1))" by (intro reach.cancel reach.schedule [OF assms(1)])
  moreover have "snd (cancel (next_id s) s1) = s1\<lparr>active := {}\<rparr>"
    using assms(2) by (simp add: cancel_def s1_def schedule_existing_after_def)
  ultimately show ?thesis
    using assms(3) by (intro exI [of _ "s1\<lparr>active := {}\<rparr>"]) (simp add: s1_def schedule_existing_after_def)
qed

lemma all_ids_given:
  assumes "1 \<le> k" "k \<le> u32_max"
  shows "\<exists>s ts. reach k s \<and> active s = {} \<and> running s = {} \<and> next_id s = (if k = u32_max then 1 else k + 1)
    \<and> pending s = ts @ [old_entry] \<and> (\<forall>t \<in> set ts. run_at t = 1)"
  using assms
proof (induction k rule: nat_induct_at_least)
  case base
  show ?case
    using schedule_and_cancel [OF reach.empty, of 0 "''old''"]
    by (auto simp: scheduler_default_def wrapping_next_def u32_max_def old_entry_def intro!: exI [of _ "[]"])
next
  case (Suc k)
  then obtain s ts where s: "reach k s" "active s = {}" "running s = {}" "next_id s = k + 1"
      "pending s = ts @ [old_entry]" "\<forall>t \<in> set ts. run_at t = 1" by auto
  obtain s' where s': "reach (Suc k) s'" "active s' = {}" "running s' = {}" "next_id s' = wrapping_next (k + 1)"
      "pending s' = \<lparr>timer_id = next_id s, sequence = next_sequence s, run_at = 1, delay_ms = 0, payload = ''x''\<rparr> # pending s"
    using schedule_and_cancel [OF s(1-3), of 1 "''x''"] s(4) by auto
  have "next_id s' = (if Suc k = u32_max then 1 else Suc k + 1)"
    using s'(4) Suc.prems wrapping_next_cases [of "k + 1"] by simp
  with s s' show ?case by (intro exI [of _ s'] exI [of _ "_ # ts"]) auto
qed

lemma peek_old_entry:
  assumes "\<forall>t \<in> set ts. 1 \<le> run_at t"
  shows "peek (ts @ [old_entry]) = Some old_entry"
proof (cases "peek (ts @ [old_entry])")
  case None
  then show ?thesis by (simp add: peek_None)
next
  case (Some t)
  have "\<not> timer_precedes old_entry t" using peek_least [OF Some] by simp
  then have "run_at t = 0" by (simp add: timer_precedes_def old_entry_def split: if_splits)
  then show ?thesis using peek_mem [OF Some] assms Some by force
qed

text \<open>C40: once all timer ids have been given out, scheduling can hand the id of a cancelled timer, whose
  entry still waits in the heap, to a new timer, and the next timer taken is then the cancelled
  one, at once and in place of the new one, which is not due: a sequence of calls that leads there
  exists.\<close>

theorem timer_id_wrap_revives_cancelled:
  "\<exists>n s i s'. reach n s \<and> active s = {} \<and> running s = {} \<and> schedule_after ''new'' 5 1 s = Some (i, s')
    \<and> fst (take_next_ready 1 s') = Some \<lparr>ready_id = i, ready_delay_ms = 0, ready_payload = ''old''\<rparr>"
proof -
  obtain s ts where s: "reach u32_max s" "active s = {}" "running s = {}" "next_id s = 1"
      "pending s = ts @ [old_entry]" "\<forall>t \<in> set ts. run_at t = 1"
    using all_ids_given [of u32_max] by (auto simp: u32_max_def)
  define s' where "s' = schedule_existing_after 1 ''new'' 5 1 (s\<lparr>next_id := wrapping_next 1\<rparr>)"
  have sched: "schedule_after ''new'' 5 1 s = Some (1, s')"
    using allocate_idle [OF s(2,3)] s(4) by (simp add: schedule_after_def s'_def)
  obtain t where "pending s' = (t # ts) @ [old_entry]" "1 \<le> run_at t"
    by (simp add: s'_def schedule_existing_after_def s(5))
  then have "peek (pending s') = Some old_entry" using peek_old_entry [of "t # ts"] s(6) by simp
  moreover have "active s' = {1}" by (simp add: s'_def schedule_existing_after_def s(2))
  ultimately have "fst (take_next_ready 1 s') = Some \<lparr>ready_id = 1, ready_delay_ms = 0, ready_payload = ''old''\<rparr>"
    by (simp add: take_next_ready.simps [of "Suc 0" s'] is_ready_at_def ready_of_def old_entry_def)
  with s(1-3) sched show ?thesis by blast
qed

end
