(* ===== verification/Timer_Agenda.thy ===== *)
theory Timer_Agenda
  imports Timers
begin

section \<open>The scheduler implements an agenda\<close>

text \<open>
  \<^verbatim>\<open>TimerScheduler\<close> (moli-time, timers.rs) against an abstract agenda: the waiting timers in the order in
  which they will start, the ids of the running timers, and those of them that were cancelled.
  The agenda has no heap, no sequence numbers and no stale entries; cancelling a timer removes it
  at once.  The two give the same answers to every sequence of calls that does not use up the ids.
\<close>

subsection \<open>Calls\<close>

datatype 'a timer_op =
    Schedule 'a nat instant
  | Cancel timer_id
  | CancelMatching "'a \<Rightarrow> bool"
  | TakeNext instant
  | TakeMatching instant "'a \<Rightarrow> bool"
  | FinishRunning timer_id
  | Reschedule timer_id 'a nat instant

datatype 'a timer_result =
    Scheduled timer_id
  | Cancelled bool
  | CancelledMany nat
  | Started "'a ready_timer option"
  | Done
  | Rescheduled bool

text \<open>A timer is only rescheduled while it runs, as the caller does (moli-renderer-v8, host/timers.rs); the step is
  undefined otherwise.\<close>

fun timer_step :: "'a timer_op \<Rightarrow> 'a scheduler \<Rightarrow> ('a timer_result list \<times> 'a scheduler) option" where
  "timer_step (Schedule p delay now) s = map_option (\<lambda>(i, s). ([Scheduled i], s)) (schedule_after p delay now s)"
| "timer_step (Cancel i) s = (let (b, s) = cancel i s in Some ([Cancelled b], s))"
| "timer_step (CancelMatching pred) s = (let (n, s) = cancel_matching pred s in Some ([CancelledMany n], s))"
| "timer_step (TakeNext now) s = (let (r, s) = take_next_ready now s in Some ([Started r], s))"
| "timer_step (TakeMatching now pred) s = (let (r, s) = take_next_ready_matching now pred s in Some ([Started r], s))"
| "timer_step (FinishRunning i) s = Some ([Done], finish_running i s)"
| "timer_step (Reschedule i p delay now) s =
     (if i \<in> running s then let (b, s) = reschedule_running_after i p delay now s in Some ([Rescheduled b], s) else None)"


subsection \<open>The agenda\<close>

record 'a appointment =
  due_id :: timer_id
  due_at :: instant
  due_delay :: nat
  due_payload :: 'a

record 'a agenda =
  appointments :: "'a appointment list"
  started :: "timer_id set"
  stopped :: "timer_id set"
  given :: nat

definition agenda_default :: "'a agenda" where
  "agenda_default = \<lparr>appointments = [], started = {}, stopped = {}, given = 0\<rparr>"

text \<open>An appointment goes after those that are due no later.\<close>

definition place :: "'a appointment \<Rightarrow> 'a appointment list \<Rightarrow> 'a appointment list" where
  "place t ts = takeWhile (\<lambda>u. due_at u \<le> due_at t) ts @ t # dropWhile (\<lambda>u. due_at u \<le> due_at t) ts"

definition appointment :: "timer_id \<Rightarrow> 'a \<Rightarrow> nat \<Rightarrow> instant \<Rightarrow> 'a appointment" where
  "appointment i p delay now = \<lparr>due_id = i, due_at = now + delay * 1000000, due_delay = delay, due_payload = p\<rparr>"

definition agenda_start :: "instant \<Rightarrow> ('a \<Rightarrow> bool) \<Rightarrow> 'a agenda \<Rightarrow> ('a timer_result list \<times> 'a agenda) option" where
  "agenda_start now pred a =
     (case List.find (\<lambda>t. due_at t \<le> now \<and> pred (due_payload t)) (appointments a) of
        None \<Rightarrow> Some ([Started None], a)
      | Some t \<Rightarrow>
          Some ([Started (Some \<lparr>ready_id = due_id t, ready_delay_ms = due_delay t, ready_payload = due_payload t\<rparr>)],
            a\<lparr>appointments := filter (\<lambda>u. due_id u \<noteq> due_id t) (appointments a), started := insert (due_id t) (started a)\<rparr>))"

fun agenda_step :: "'a timer_op \<Rightarrow> 'a agenda \<Rightarrow> ('a timer_result list \<times> 'a agenda) option" where
  "agenda_step (Schedule p delay now) a =
     (let i = given a + 1 in
      Some ([Scheduled i], a\<lparr>appointments := place (appointment i p delay now) (appointments a), given := i\<rparr>))"
| "agenda_step (Cancel i) a =
     (if i \<in> due_id ` set (appointments a)
      then Some ([Cancelled True], a\<lparr>appointments := filter (\<lambda>t. due_id t \<noteq> i) (appointments a)\<rparr>)
      else if i \<in> started a then Some ([Cancelled (i \<notin> stopped a)], a\<lparr>stopped := insert i (stopped a)\<rparr>)
      else Some ([Cancelled False], a))"
| "agenda_step (CancelMatching pred) a =
     Some ([CancelledMany (length (filter (\<lambda>t. pred (due_payload t)) (appointments a)))],
       a\<lparr>appointments := filter (\<lambda>t. \<not> pred (due_payload t)) (appointments a)\<rparr>)"
| "agenda_step (TakeNext now) a = agenda_start now (\<lambda>_. True) a"
| "agenda_step (TakeMatching now pred) a = agenda_start now pred a"
| "agenda_step (FinishRunning i) a = Some ([Done], a\<lparr>started := started a - {i}, stopped := stopped a - {i}\<rparr>)"
| "agenda_step (Reschedule i p delay now) a =
     (if i \<notin> started a then None
      else if i \<in> stopped a then Some ([Rescheduled False], a\<lparr>started := started a - {i}, stopped := stopped a - {i}\<rparr>)
      else Some ([Rescheduled True],
        a\<lparr>appointments := place (appointment i p delay now) (appointments a), started := started a - {i}\<rparr>))"


subsection \<open>The correspondence\<close>

definition appointment_of :: "'a scheduled_timer \<Rightarrow> 'a appointment" where
  "appointment_of t = \<lparr>due_id = timer_id t, due_at = run_at t, due_delay = delay_ms t, due_payload = payload t\<rparr>"

definition in_order :: "'a scheduled_timer list \<Rightarrow> 'a scheduler \<Rightarrow> bool" where
  "in_order ts s \<longleftrightarrow> sorted_wrt timer_precedes ts \<and> set ts = live s"

definition agenda_matches :: "'a scheduler \<Rightarrow> 'a agenda \<Rightarrow> bool" where
  "agenda_matches s a \<longleftrightarrow> (\<exists>ts. in_order ts s \<and> appointments a = map appointment_of ts)
     \<and> started a = running s \<and> stopped a = cancelled_running s \<and> given a + 1 = next_id s"

fun schedules :: "'a timer_op list \<Rightarrow> nat" where
  "schedules [] = 0"
| "schedules (Schedule p delay now # ops) = schedules ops + 1"
| "schedules (_ # ops) = schedules ops"

fun placements :: "'a timer_op list \<Rightarrow> nat" where
  "placements [] = 0"
| "placements (Schedule p delay now # ops) = placements ops + 1"
| "placements (Reschedule i p delay now # ops) = placements ops + 1"
| "placements (_ # ops) = placements ops"

definition timers_fit :: "'a timer_op list \<Rightarrow> 'a scheduler \<Rightarrow> bool" where
  "timers_fit ops s \<longleftrightarrow> core s \<and> bounded_ids (next_id s - 1) s \<and> next_id s + schedules ops \<le> u32_max
     \<and> next_sequence s + placements ops \<le> u64_max"

lemma appointment_of_simps [simp]:
  "due_id (appointment_of t) = timer_id t" "due_at (appointment_of t) = run_at t" "due_delay (appointment_of t) = delay_ms t"
  "due_payload (appointment_of t) = payload t"
  by (simp_all add: appointment_of_def)

lemma precedes_trans: "timer_precedes t u \<Longrightarrow> timer_precedes u v \<Longrightarrow> timer_precedes t v"
  by (auto simp: timer_precedes_def)

lemma sorted_distinct: "sorted_wrt timer_precedes ts \<Longrightarrow> distinct ts"
  by (induction ts) (auto simp: timer_precedes_def)

lemma sorted_first_due: "sorted_wrt timer_precedes (u # us) \<Longrightarrow> v \<in> set us \<Longrightarrow> run_at u \<le> run_at v"
  by (auto simp: timer_precedes_def)

text \<open>A timer with the greatest sequence number goes where the agenda places it.\<close>

lemma place_in_order:
  assumes "sorted_wrt timer_precedes ts" "\<forall>u\<in>set ts. sequence u < sequence t"
  shows "\<exists>us. sorted_wrt timer_precedes us \<and> set us = insert t (set ts)
    \<and> map appointment_of us = place (appointment_of t) (map appointment_of ts)"
proof -
  let ?P = "\<lambda>u. run_at u \<le> run_at t" and ?us = "takeWhile (\<lambda>u. run_at u \<le> run_at t) ts @ t # dropWhile (\<lambda>u. run_at u \<le> run_at t) ts"
  have split: "ts = takeWhile ?P ts @ dropWhile ?P ts" by simp
  have sorted: "sorted_wrt timer_precedes (takeWhile ?P ts @ dropWhile ?P ts)" using assms(1) by simp
  have before: "timer_precedes u t" if "u \<in> set (takeWhile ?P ts)" for u
    using set_takeWhileD [OF that] assms(2) by (auto simp: timer_precedes_def)
  have after: "timer_precedes t u" if u: "u \<in> set (dropWhile ?P ts)" for u
  proof (cases "dropWhile ?P ts")
    case (Cons v vs)
    then have "run_at t < run_at v" using hd_dropWhile [of ?P ts] by simp
    moreover have "sorted_wrt timer_precedes (v # vs)" using sorted unfolding Cons sorted_wrt_append by blast
    ultimately have "run_at t < run_at u" using u Cons sorted_first_due [of v vs u] by auto
    then show ?thesis by (simp add: timer_precedes_def)
  next
    case Nil
    with u show ?thesis by (simp only: Nil list.set empty_iff)
  qed
  have "sorted_wrt timer_precedes ?us"
    using sorted before after unfolding sorted_wrt_append by (auto intro: precedes_trans)
  moreover have "set ts = set (takeWhile ?P ts) \<union> set (dropWhile ?P ts)" by (metis set_append split)
  then have "set ?us = insert t (set ts)" by simp
  moreover have "map appointment_of ?us = place (appointment_of t) (map appointment_of ts)"
    by (simp add: place_def takeWhile_map dropWhile_map comp_def)
  ultimately show ?thesis by blast
qed

lemma find_first:
  assumes "sorted_wrt timer_precedes ts" "t \<in> set ts" "P t" "\<And>u. u \<in> set ts \<Longrightarrow> P u \<Longrightarrow> u \<noteq> t \<Longrightarrow> timer_precedes t u"
  shows "List.find P ts = Some t"
  using assms
proof (induction ts)
  case (Cons v ts)
  show ?case
  proof (cases "v = t")
    case False
    then have "timer_precedes v t" using Cons.prems(1,2) by simp
    then have "\<not> P v" using Cons.prems(4) [of v] False precedes_asym by auto
    then show ?thesis using Cons False by simp
  qed (use Cons.prems(3) in simp)
qed simp

lemma find_map: "List.find P (map f xs) = map_option f (List.find (\<lambda>x. P (f x)) xs)"
  by (induction xs) simp_all


subsection \<open>Every call keeps the correspondence\<close>

lemma matches_ids:
  assumes "core s" "in_order ts s" "appointments a = map appointment_of ts"
  shows "due_id ` set (appointments a) = active s"
  using assms by (simp add: in_order_def coreD(5) [OF assms(1)] image_image)

lemma agenda_matchesI:
  "in_order ts s \<Longrightarrow> appointments a = map appointment_of ts \<Longrightarrow> started a = running s \<Longrightarrow> stopped a = cancelled_running s \<Longrightarrow>
   given a + 1 = next_id s \<Longrightarrow> agenda_matches s a"
  by (auto simp: agenda_matches_def)

lemma agenda_matchesE:
  assumes "agenda_matches s a"
  obtains ts where "in_order ts s" "appointments a = map appointment_of ts" "started a = running s"
    "stopped a = cancelled_running s" "given a + 1 = next_id s"
  using assms by (auto simp: agenda_matches_def)

definition step_agrees :: "'a timer_op \<Rightarrow> 'a scheduler \<Rightarrow> 'a agenda \<Rightarrow> bool" where
  "step_agrees x s a \<longleftrightarrow> rel_option (rel_prod (=) agenda_matches) (timer_step x s) (agenda_step x a)"

lemma step_agreesI:
  "timer_step x s = Some (out, s') \<Longrightarrow> agenda_step x a = Some (out, a') \<Longrightarrow> agenda_matches s' a' \<Longrightarrow> step_agrees x s a"
  by (simp add: step_agrees_def)

lemma agrees_place:
  assumes "core s" "in_order ts s" "i \<notin> timer_id ` set (pending s)" "i \<notin> running s"
  shows "\<exists>us. in_order us (schedule_existing_after i p delay now s)
    \<and> place (appointment i p delay now) (map appointment_of ts) = map appointment_of us"
proof -
  let ?t = "\<lparr>timer_id = i, sequence = next_sequence s, run_at = now + delay * 1000000, delay_ms = delay, payload = p\<rparr>"
  have "\<forall>u\<in>set ts. sequence u < sequence ?t"
    using assms(1,2) coreD(2) live_pending by (fastforce simp: in_order_def)
  from place_in_order [OF _ this] assms(2) show ?thesis
    unfolding in_order_def live_schedule [OF assms(3)] by (auto simp: appointment_of_def appointment_def)
qed

lemma agrees_schedule:
  assumes "core s" "bounded_ids n s" "n + 1 < u32_max" "agenda_matches s a"
  shows "step_agrees (Schedule p delay now) s a"
proof -
  from assms(4) obtain ts where ts: "in_order ts s" "appointments a = map appointment_of ts" "started a = running s"
      "stopped a = cancelled_running s" "given a + 1 = next_id s" by (rule agenda_matchesE)
  let ?s = "s\<lparr>next_id := n + 2\<rparr>"
  have n: "given a = n" using assms(2) ts(5) by (simp add: bounded_ids_def)
  have sched: "schedule_after p delay now s = Some (n + 1, schedule_existing_after (n + 1) p delay now ?s)"
    using allocate_fresh [OF assms(1,2)] assms(3) by (simp add: schedule_after_def wrapping_next_less)
  have fresh: "n + 1 \<notin> timer_id ` set (pending ?s)" "n + 1 \<notin> running ?s" using assms(2) by (auto simp: bounded_ids_def)
  have "core ?s" "in_order ts ?s" using assms(1) ts(1) by (simp_all add: core_next_id in_order_def)
  from agrees_place [OF this fresh, of p delay now] obtain us where us: "in_order us (schedule_existing_after (n + 1) p delay now ?s)"
    "place (appointment (n + 1) p delay now) (map appointment_of ts) = map appointment_of us" by blast
  show ?thesis
  proof (rule step_agreesI)
    show "timer_step (Schedule p delay now) s = Some ([Scheduled (n + 1)], schedule_existing_after (n + 1) p delay now ?s)"
      by (simp add: sched)
    show "agenda_step (Schedule p delay now) a = Some ([Scheduled (n + 1)],
        a\<lparr>appointments := map appointment_of us, given := n + 1\<rparr>)"
      using us(2) by (simp add: n ts(2))
    show "agenda_matches (schedule_existing_after (n + 1) p delay now ?s) (a\<lparr>appointments := map appointment_of us, given := n + 1\<rparr>)"
      using ts(3,4) by (intro agenda_matchesI [OF us(1)]) (simp_all add: schedule_existing_after_def)
  qed
qed

lemma in_order_filter:
  assumes "in_order ts s" "live s' = {t \<in> live s. P t}"
  shows "in_order (filter P ts) s'"
  using assms by (auto simp: in_order_def intro: sorted_wrt_filter)

lemma map_filter_appointments: "filter P (map appointment_of ts) = map appointment_of (filter (\<lambda>t. P (appointment_of t)) ts)"
  by (simp add: filter_map comp_def)

lemma agrees_cancel:
  assumes "core s" "agenda_matches s a"
  shows "step_agrees (Cancel i) s a"
proof -
  from assms(2) obtain ts where ts: "in_order ts s" "appointments a = map appointment_of ts" "started a = running s"
      "stopped a = cancelled_running s" "given a + 1 = next_id s" by (rule agenda_matchesE)
  note ids = matches_ids [OF assms(1) ts(1,2)]
  show ?thesis
  proof (cases "i \<in> active s")
    case True
    have "in_order (filter (\<lambda>t. timer_id t \<noteq> i) ts) (s\<lparr>active := active s - {i}\<rparr>)"
      using in_order_filter [OF ts(1)] live_restrict [of s "{i}"] by simp
    then have "agenda_matches (s\<lparr>active := active s - {i}\<rparr>) (a\<lparr>appointments := filter (\<lambda>t. due_id t \<noteq> i) (appointments a)\<rparr>)"
      using ts by (intro agenda_matchesI) (simp_all add: map_filter_appointments)
    with True ids show ?thesis by (intro step_agreesI) (simp_all add: cancel_def)
  next
    case False
    then show ?thesis
    proof (cases "i \<in> running s")
      case True
      have "agenda_matches (s\<lparr>cancelled_running := insert i (cancelled_running s)\<rparr>) (a\<lparr>stopped := insert i (stopped a)\<rparr>)"
        using ts by (intro agenda_matchesI [of ts]) (simp_all add: in_order_def)
      with False True ids ts(3,4) show ?thesis by (intro step_agreesI) (simp_all add: cancel_def)
    next
      case stopped: False
      with False ids ts(3) assms(2) show ?thesis by (intro step_agreesI) (simp_all add: cancel_def)
    qed
  qed
qed

lemma cancel_matching_exact:
  "distinct ts \<Longrightarrow> inj_on timer_id {t \<in> set ts. timer_id t \<in> act} \<Longrightarrow>
   cancel_matching_loop pred ts act n =
     (n + card {t \<in> set ts. timer_id t \<in> act \<and> pred (payload t)}, act - timer_id ` {t \<in> set ts. pred (payload t)})"
proof (induction pred ts act n rule: cancel_matching_loop.induct)
  case (2 pred t ts act n)
  show ?case
  proof (cases "timer_id t \<in> act \<and> pred (payload t)")
    case True
    let ?act = "act - {timer_id t}"
    have other: "timer_id u \<noteq> timer_id t" if "u \<in> set ts" "timer_id u \<in> act" for u
      using 2(4) that True 2(3) by (auto simp: inj_on_def)
    have inj: "inj_on timer_id {u \<in> set ts. timer_id u \<in> ?act}" by (rule inj_on_subset [OF 2(4)]) auto
    have "{u \<in> set (t # ts). timer_id u \<in> act \<and> pred (payload u)} = insert t {u \<in> set ts. timer_id u \<in> ?act \<and> pred (payload u)}"
      using True other by auto
    moreover have "t \<notin> set ts" using 2(3) by simp
    ultimately show ?thesis using True 2(1) [OF True _ inj] 2(3) by (auto simp: card_insert_if)
  next
    case False
    have inj: "inj_on timer_id {u \<in> set ts. timer_id u \<in> act}" by (rule inj_on_subset [OF 2(4)]) auto
    have "{u \<in> set (t # ts). timer_id u \<in> act \<and> pred (payload u)} = {u \<in> set ts. timer_id u \<in> act \<and> pred (payload u)}"
      using False by auto
    moreover have "act - timer_id ` {u \<in> set (t # ts). pred (payload u)} = act - timer_id ` {u \<in> set ts. pred (payload u)}"
      using False by auto
    ultimately show ?thesis using False 2(2) [OF False _ inj] 2(3) by auto
  qed
qed simp

lemma agrees_cancel_matching:
  assumes "core s" "agenda_matches s a"
  shows "step_agrees (CancelMatching pred) s a"
proof -
  from assms(2) obtain ts where ts: "in_order ts s" "appointments a = map appointment_of ts" "started a = running s"
      "stopped a = cancelled_running s" "given a + 1 = next_id s" by (rule agenda_matchesE)
  let ?X = "timer_id ` {t \<in> set (pending s). pred (payload t)}"
  have inj: "inj_on timer_id {t \<in> set (pending s). timer_id t \<in> active s}" using coreD(4) [OF assms(1)] by (simp add: live_def)
  have c: "cancel_matching pred s =
      (card {t \<in> set (pending s). timer_id t \<in> active s \<and> pred (payload t)}, s\<lparr>active := active s - ?X\<rparr>)"
    using cancel_matching_exact [OF sequence_distinct [OF assms(1)] inj, of pred 0] by (simp add: cancel_matching_def)
  have "{t \<in> set (pending s). timer_id t \<in> active s \<and> pred (payload t)} = set (filter (\<lambda>t. pred (payload t)) ts)"
    using ts(1) by (auto simp: in_order_def live_def)
  moreover have dist: "distinct ts"
    using ts(1) by (simp add: in_order_def sorted_distinct)
  ultimately have "card {t \<in> set (pending s). timer_id t \<in> active s \<and> pred (payload t)} = length (filter (\<lambda>t. pred (payload t)) ts)"
    using distinct_card [OF distinct_filter [OF dist]] by metis
  moreover have "timer_id t \<in> ?X \<longleftrightarrow> pred (payload t)" if "t \<in> live s" for t
    using live_unique [OF assms(1) that] live_pending [OF that] by auto
  then have "{t \<in> live s. timer_id t \<notin> ?X} = {t \<in> live s. \<not> pred (payload t)}" by blast
  then have "in_order (filter (\<lambda>t. \<not> pred (payload t)) ts) (s\<lparr>active := active s - ?X\<rparr>)"
    using in_order_filter [OF ts(1)] live_restrict [of s ?X] by simp
  then have "agenda_matches (s\<lparr>active := active s - ?X\<rparr>)
      (a\<lparr>appointments := filter (\<lambda>t. \<not> pred (due_payload t)) (appointments a)\<rparr>)"
    using ts by (intro agenda_matchesI) (simp_all add: map_filter_appointments)
  ultimately show ?thesis
    using c ts(2) by (intro step_agreesI) (simp_all add: map_filter_appointments)
qed


lemma agrees_taken:
  assumes "core s" "agenda_matches s a" "taken now pred s (r, s')" "next_id s' = next_id s"
    "cancelled_running s' = cancelled_running s"
  shows "\<exists>a'. agenda_start now pred a = Some ([Started r], a') \<and> agenda_matches s' a'"
proof -
  from assms(2) obtain ts where ts: "in_order ts s" "appointments a = map appointment_of ts" "started a = running s"
      "stopped a = cancelled_running s" "given a + 1 = next_id s" by (rule agenda_matchesE)
  let ?P = "\<lambda>t. run_at t \<le> now \<and> pred (payload t)"
  have find: "List.find (\<lambda>t. due_at t \<le> now \<and> pred (due_payload t)) (appointments a) = map_option appointment_of (List.find ?P ts)"
    by (simp add: ts(2) find_map)
  have wanted: "wanted now pred s = {t \<in> set ts. ?P t}" using ts(1) by (simp add: wanted_def in_order_def is_ready_at_def)
  show ?thesis
  proof (cases r)
    case None
    with assms(3) have "wanted now pred s = {}" "live s' = live s" "running s' = running s" by (simp_all add: taken_def)
    moreover from this have "List.find ?P ts = None" by (auto simp: find_None_iff wanted)
    moreover have "agenda_matches s' a"
      using ts assms(4,5) calculation by (intro agenda_matchesI [of ts]) (simp_all add: in_order_def)
    ultimately show ?thesis using None find by (simp add: agenda_start_def)
  next
    case (Some x)
    with assms(3) obtain t where t: "t \<in> wanted now pred s" "x = ready_of t"
        "\<And>u. u \<in> wanted now pred s \<Longrightarrow> u \<noteq> t \<Longrightarrow> timer_precedes t u" "live s' = live s - {t}"
        "running s' = insert (timer_id t) (running s)"
      by (auto simp: taken_def)
    have f: "List.find ?P ts = Some t"
      using ts(1) t(1,3) by (intro find_first) (auto simp: wanted in_order_def)
    have "live s - {t} = {u \<in> live s. timer_id u \<noteq> timer_id t}"
      using live_unique [OF assms(1)] t(1) live_pending by (auto simp: wanted_def)
    then have "in_order (filter (\<lambda>u. timer_id u \<noteq> timer_id t) ts) s'"
      using in_order_filter [OF ts(1)] t(4) by simp
    then have "agenda_matches s' (a\<lparr>appointments := filter (\<lambda>u. due_id u \<noteq> timer_id t) (appointments a),
        started := insert (timer_id t) (started a)\<rparr>)"
      using ts t(5) assms(4,5) by (intro agenda_matchesI) (simp_all add: map_filter_appointments)
    then show ?thesis using find f Some t(2) by (simp add: agenda_start_def ready_of_def)
  qed
qed

lemma take_next_ready_cancelled: "cancelled_running (snd (take_next_ready now s)) = cancelled_running s"
proof (induction now s rule: take_next_ready.induct)
  case (1 now s)
  then show ?case
    by (cases "peek (pending s)") (simp_all add: take_next_ready.simps [of now s] start_timer_def)
qed

lemma take_next_ready_matching_cancelled:
  "cancelled_running (snd (take_next_ready_matching now pred s)) = cancelled_running s"
  by (simp add: take_next_ready_matching_def start_timer_def split_beta Let_def split: option.split)

lemma agrees_take:
  assumes "core s" "agenda_matches s a"
  shows "step_agrees (TakeNext now) s a" "step_agrees (TakeMatching now pred) s a"
proof -
  obtain r s' where r: "take_next_ready now s = (r, s')" by fastforce
  have "next_id s' = next_id s" "cancelled_running s' = cancelled_running s" "taken now (\<lambda>_. True) s (r, s')"
    using take_next_ready_ok [OF assms(1), of now] take_next_ready_cancelled [of now s] by (simp_all add: r frame_def)
  from agrees_taken [OF assms this(3,1,2)] r show "step_agrees (TakeNext now) s a" by (auto intro: step_agreesI)
next
  obtain r s' where r: "take_next_ready_matching now pred s = (r, s')" by fastforce
  have "next_id s' = next_id s" "cancelled_running s' = cancelled_running s" "taken now pred s (r, s')"
    using take_next_ready_matching_ok [OF assms(1), of now pred] take_next_ready_matching_cancelled [of now pred s]
    by (simp_all add: r frame_def)
  from agrees_taken [OF assms this(3,1,2)] r show "step_agrees (TakeMatching now pred) s a" by (auto intro: step_agreesI)
qed

lemma agrees_finish:
  assumes "agenda_matches s a"
  shows "step_agrees (FinishRunning i) s a"
proof -
  from assms obtain ts where ts: "in_order ts s" "appointments a = map appointment_of ts" "started a = running s"
      "stopped a = cancelled_running s" "given a + 1 = next_id s" by (rule agenda_matchesE)
  have "agenda_matches (finish_running i s) (a\<lparr>started := started a - {i}, stopped := stopped a - {i}\<rparr>)"
    using ts by (intro agenda_matchesI [of ts]) (simp_all add: in_order_def finish_running_def)
  then show ?thesis by (intro step_agreesI) simp_all
qed

lemma agrees_reschedule:
  assumes "core s" "agenda_matches s a"
  shows "step_agrees (Reschedule i p delay now) s a"
proof (cases "i \<in> running s")
  case False
  with assms(2) show ?thesis by (auto simp: step_agrees_def agenda_matches_def)
next
  case running: True
  from assms(2) obtain ts where ts: "in_order ts s" "appointments a = map appointment_of ts" "started a = running s"
      "stopped a = cancelled_running s" "given a + 1 = next_id s" by (rule agenda_matchesE)
  show ?thesis
  proof (cases "i \<in> cancelled_running s")
    case True
    have "agenda_matches (s\<lparr>running := running s - {i}, cancelled_running := cancelled_running s - {i}\<rparr>)
        (a\<lparr>started := started a - {i}, stopped := stopped a - {i}\<rparr>)"
      using ts by (intro agenda_matchesI [of ts]) (simp_all add: in_order_def)
    with True running ts show ?thesis by (intro step_agreesI) (simp_all add: reschedule_running_after_def)
  next
    case False
    let ?s = "s\<lparr>running := running s - {i}\<rparr>"
    have "core ?s" using False inv_finish [OF assms(1), of i] by (simp add: finish_running_def)
    moreover have "in_order ts ?s" using ts(1) by (simp add: in_order_def)
    moreover have "i \<notin> timer_id ` set (pending ?s)" "i \<notin> running ?s" using running coreD(1) [OF assms(1)] by auto
    ultimately obtain us where us: "in_order us (schedule_existing_after i p delay now ?s)"
      "place (appointment i p delay now) (map appointment_of ts) = map appointment_of us"
      using agrees_place [of ?s ts i p delay now] by blast
    have "agenda_matches (schedule_existing_after i p delay now ?s)
        (a\<lparr>appointments := map appointment_of us, started := started a - {i}\<rparr>)"
      using ts by (intro agenda_matchesI [OF us(1)]) (simp_all add: schedule_existing_after_def)
    with False running ts us(2) show ?thesis by (intro step_agreesI) (simp_all add: reschedule_running_after_def)
  qed
qed

lemma timer_step_agrees:
  assumes "timers_fit (x # xs) s" "agenda_matches s a"
  shows "step_agrees x s a"
proof -
  have c: "core s" using assms(1) by (simp add: timers_fit_def)
  show ?thesis
  proof (cases x)
    case (Schedule p delay now)
    then have "next_id s - 1 + 1 < u32_max" using assms(1) by (simp add: timers_fit_def bounded_ids_def)
    with Schedule show ?thesis using agrees_schedule [OF c, of "next_id s - 1" a] assms by (simp add: timers_fit_def)
  qed (use c assms(2) in \<open>simp_all add: agrees_cancel agrees_cancel_matching agrees_take agrees_finish agrees_reschedule\<close>)
qed


lemma fits_sequence:
  assumes "timers_fit (x # xs) s" "timer_step x s = Some (out, s')"
  shows "next_sequence s' + placements xs \<le> u64_max"
proof (cases x)
  case (Schedule p delay now)
  with assms obtain i s1 where s1: "allocate_id s = Some (i, s1)" "s' = schedule_existing_after i p delay now s1"
    by (auto simp: schedule_after_def bind_eq_Some_conv)
  from allocate_frame [OF s1(1)] assms(1) Schedule show ?thesis by (auto simp: s1(2) schedule_existing_after_def timers_fit_def)
next
  case (Reschedule i p delay now)
  with assms show ?thesis
    by (auto simp: timers_fit_def reschedule_running_after_def schedule_existing_after_def Let_def split: if_splits)
next
  case (TakeNext now)
  with assms take_next_ready_seq [of now s] show ?thesis by (auto simp: timers_fit_def split: prod.splits)
next
  case (TakeMatching now pred)
  with assms take_next_ready_matching_seq [of now pred s] show ?thesis by (auto simp: timers_fit_def split: prod.splits)
qed (use assms in \<open>auto simp: timers_fit_def cancel_def cancel_matching_def finish_running_def split: prod.splits if_splits\<close>)

lemma fits_core:
  assumes "timers_fit (x # xs) s" "timer_step x s = Some (out, s')"
  shows "\<exists>n. core s' \<and> bounded_ids n s' \<and> n + 1 + schedules xs \<le> u32_max"
proof -
  define n where "n = next_id s - 1"
  have inv: "core s" "bounded_ids n s" and n: "next_id s = n + 1" and room: "n + 1 + schedules (x # xs) \<le> u32_max"
    using assms(1) by (auto simp: timers_fit_def bounded_ids_def n_def)
  show ?thesis
  proof (cases x)
    case (Schedule p delay now)
    with assms obtain i where "schedule_after p delay now s = Some (i, s')" by auto
    from inv_schedule_after [OF inv _ _ this] room assms(1) Schedule show ?thesis
      by (intro exI [of _ "Suc n"]) (simp add: timers_fit_def)
  next
    case (Reschedule i p delay now)
    with assms have "i \<in> running s" "next_sequence s < u64_max" "s' = snd (reschedule_running_after i p delay now s)"
      by (auto simp: timers_fit_def split: if_splits prod.splits)
    with inv_reschedule [OF inv, of i p delay now] room Reschedule show ?thesis by auto
  next
    case (Cancel i)
    with assms have s': "s' = snd (cancel i s)" by (auto split: prod.splits)
    show ?thesis
      using core_restrict [OF inv(1), of "{i}"] core_cancelled [OF inv(1), of i] inv room Cancel
      by (intro exI [of _ n]) (auto simp: s' cancel_def bounded_ids_def)
  next
    case (CancelMatching pred)
    obtain X where X: "snd (cancel_matching pred s) = s\<lparr>active := active s - X\<rparr>"
      using cancel_matching_restricts [of pred "pending s" "active s" 0] by (auto simp: cancel_matching_def split_beta)
    with CancelMatching assms have "s' = s\<lparr>active := active s - X\<rparr>" by (auto split: prod.splits)
    with core_restrict [OF inv(1)] bounded_restrict [OF inv(2)] room CancelMatching show ?thesis by auto
  next
    case (TakeNext now)
    with assms take_next_ready_ok [OF inv(1), of now] frame_bounded [OF inv(2)] room show ?thesis
      by (auto split: prod.splits)
  next
    case (TakeMatching now pred)
    with assms take_next_ready_matching_ok [OF inv(1), of now pred] frame_bounded [OF inv(2)] room show ?thesis
      by (auto split: prod.splits)
  next
    case (FinishRunning i)
    with assms inv_finish [OF inv(1), of i] inv(2) room show ?thesis
      by (intro exI [of _ n]) (auto simp: finish_running_def bounded_ids_def)
  qed
qed

interpretation timer_agenda: matching_runs timer_step agenda_step agenda_matches timers_fit
proof
  show "rel_option (rel_prod (=) agenda_matches) (timer_step x s) (agenda_step x a)"
    if "timers_fit (x # xs) s" "agenda_matches s a" for x xs s and a :: "'a agenda"
    using timer_step_agrees [OF that] by (simp add: step_agrees_def)
  show "timers_fit xs s'" if "timers_fit (x # xs) s" "timer_step x s = Some (out, s')" for x xs s out and s' :: "'a scheduler"
    using fits_core [OF that] fits_sequence [OF that] by (auto simp: timers_fit_def bounded_ids_def)
qed

lemma scheduler_default_matches: "agenda_matches scheduler_default agenda_default"
  by (rule agenda_matchesI [of "[]"]) (simp_all add: in_order_def live_def scheduler_default_def agenda_default_def)

lemma scheduler_default_fits: "schedules ops < u32_max \<Longrightarrow> placements ops \<le> u64_max \<Longrightarrow> timers_fit ops scheduler_default"
  using core_default by (simp add: timers_fit_def scheduler_default_def)


subsection \<open>A cancelled timer on the agenda\<close>

definition agenda_ok :: "'a agenda \<Rightarrow> bool" where
  "agenda_ok a \<longleftrightarrow> (\<forall>t\<in>set (appointments a). due_id t \<le> given a \<and> due_id t \<notin> started a) \<and> (\<forall>i\<in>started a. i \<le> given a)
     \<and> stopped a \<subseteq> started a"

definition never_starts :: "timer_id \<Rightarrow> 'a agenda \<Rightarrow> bool" where
  "never_starts i a \<longleftrightarrow> i \<notin> due_id ` set (appointments a) \<and> (i \<in> started a \<longrightarrow> i \<in> stopped a) \<and> i \<le> given a"

lemma set_place: "set (place t ts) = insert t (set ts)"
proof -
  have "set ts = set (takeWhile (\<lambda>u. due_at u \<le> due_at t) ts) \<union> set (dropWhile (\<lambda>u. due_at u \<le> due_at t) ts)"
    by (metis set_append takeWhile_dropWhile_id)
  then show ?thesis by (simp add: place_def)
qed

lemma agenda_start_cases:
  assumes "agenda_start now pred a = Some (out, a')"
  obtains "out = [Started None]" "a' = a"
  | t where "t \<in> set (appointments a)" "out = [Started (Some \<lparr>ready_id = due_id t, ready_delay_ms = due_delay t, ready_payload = due_payload t\<rparr>)]"
      "a' = a\<lparr>appointments := filter (\<lambda>u. due_id u \<noteq> due_id t) (appointments a), started := insert (due_id t) (started a)\<rparr>"
proof (cases "List.find (\<lambda>t. due_at t \<le> now \<and> pred (due_payload t)) (appointments a)")
  case None
  with assms that(1) show ?thesis by (auto simp: agenda_start_def)
next
  case (Some t)
  then have "t \<in> set (appointments a)" by (auto simp: find_Some_iff in_set_conv_nth)
  with Some assms that(2) show ?thesis by (auto simp: agenda_start_def)
qed

lemma agenda_ok_start: "agenda_ok a \<Longrightarrow> agenda_start now pred a = Some (out, a') \<Longrightarrow> agenda_ok a'"
  by (erule agenda_start_cases) (auto simp: agenda_ok_def)

lemma agenda_ok_step: "agenda_ok a \<Longrightarrow> agenda_step x a = Some (out, a') \<Longrightarrow> agenda_ok a'"
proof (cases x)
  case (Schedule p delay now)
  then show "agenda_ok a \<Longrightarrow> agenda_step x a = Some (out, a') \<Longrightarrow> agenda_ok a'"
    by (fastforce simp: agenda_ok_def set_place appointment_def le_SucI)
next
  case (Reschedule i p delay now)
  then show "agenda_ok a \<Longrightarrow> agenda_step x a = Some (out, a') \<Longrightarrow> agenda_ok a'"
    by (auto simp: agenda_ok_def set_place appointment_def split: if_splits)
next
  case (TakeNext now)
  then show "agenda_ok a \<Longrightarrow> agenda_step x a = Some (out, a') \<Longrightarrow> agenda_ok a'" by (simp add: agenda_ok_start)
next
  case (TakeMatching now pred)
  then show "agenda_ok a \<Longrightarrow> agenda_step x a = Some (out, a') \<Longrightarrow> agenda_ok a'" by (simp add: agenda_ok_start)
qed (auto simp: agenda_ok_def split: if_splits)

lemma never_starts_step:
  assumes "agenda_ok a" "never_starts i a" "agenda_step x a = Some (out, a')"
  shows "never_starts i a' \<and> (\<forall>r. Started (Some r) \<in> set out \<longrightarrow> ready_id r \<noteq> i)"
proof -
  have start: "never_starts i a' \<and> (\<forall>r. Started (Some r) \<in> set out \<longrightarrow> ready_id r \<noteq> i)"
    if "agenda_start now pred a = Some (out, a')" for now pred
    using that assms(2) by (cases rule: agenda_start_cases) (auto simp: never_starts_def)
  show ?thesis
    using assms start
    by (cases x) (auto simp: never_starts_def set_place appointment_def agenda_ok_def split: if_splits)
qed


lemma agenda_ok_run: "agenda_ok a \<Longrightarrow> run_out agenda_step ops a = Some (outs, a') \<Longrightarrow> agenda_ok a'"
  by (induction ops arbitrary: a outs) (auto split: option.splits dest: agenda_ok_step)

lemma never_starts_run:
  "agenda_ok a \<Longrightarrow> never_starts i a \<Longrightarrow> run_out agenda_step ops a = Some (outs, a') \<Longrightarrow>
   Started (Some r) \<in> set outs \<Longrightarrow> ready_id r \<noteq> i"
proof (induction ops arbitrary: a outs)
  case (Cons x ops)
  then obtain o1 a1 o2 where r: "agenda_step x a = Some (o1, a1)" "run_out agenda_step ops a1 = Some (o2, a')" "outs = o1 @ o2"
    by (auto split: option.splits)
  from never_starts_step [OF Cons.prems(1,2) r(1)] Cons.IH [OF agenda_ok_step [OF Cons.prems(1) r(1)] _ r(2)] Cons.prems(4) r(3)
  show ?case by auto
qed simp

lemma cancelled_never_starts:
  assumes "agenda_ok a" "agenda_step (Cancel i) a = Some ([Cancelled True], a')"
  shows "never_starts i a'"
  using assms by (auto simp: agenda_ok_def never_starts_def split: if_splits)

lemma run_out_append:
  "run_out step (xs @ ys) s =
     (case run_out step xs s of None \<Rightarrow> None
      | Some (o1, s1) \<Rightarrow> map_option (\<lambda>r. (o1 @ fst r, snd r)) (run_out step ys s1))"
  by (induction xs arbitrary: s) (auto split: option.splits simp: option.map_ident map_option_case)

lemma agenda_one_output: "agenda_step x a = Some (out, a') \<Longrightarrow> length out = 1"
  by (cases x) (auto simp: agenda_start_def split: if_splits option.splits)

lemma agenda_outputs: "run_out agenda_step ops a = Some (outs, a') \<Longrightarrow> length outs = length ops"
  by (induction ops arbitrary: a outs) (auto split: option.splits dest: agenda_one_output)

lemma agenda_cancelled:
  assumes "run_out agenda_step (before @ Cancel i # after) agenda_default = Some (o1 @ Cancelled True # o2, a')"
    "length o1 = length before" "Started (Some r) \<in> set o2"
  shows "ready_id r \<noteq> i"
proof -
  from assms(1) obtain p1 a1 p2 where p: "run_out agenda_step before agenda_default = Some (p1, a1)"
      "run_out agenda_step (Cancel i # after) a1 = Some (p2, a')" "o1 @ Cancelled True # o2 = p1 @ p2"
    by (auto simp: run_out_append split: option.splits)
  have "o1 = p1" "p2 = Cancelled True # o2"
    using p(3) assms(2) agenda_outputs [OF p(1)] by (auto simp: append_eq_append_conv)
  with p(2) obtain a2 where a2: "agenda_step (Cancel i) a1 = Some ([Cancelled True], a2)" "run_out agenda_step after a2 = Some (o2, a')"
    by (auto split: option.splits if_splits)
  have ok: "agenda_ok a1" by (rule agenda_ok_run [OF _ p(1)]) (simp add: agenda_ok_def agenda_default_def)
  show ?thesis
    by (rule never_starts_run [OF agenda_ok_step [OF ok a2(1)] cancelled_never_starts [OF ok a2(1)] a2(2) assms(3)])
qed


subsection \<open>The property\<close>

text \<open>
  C13: As long as fewer timers are scheduled than there are ids, and the sequence numbers last, the scheduler answers
  every sequence of calls that reschedules only running timers as the agenda does: scheduling returns and gives the next id, taking starts
  the first due timer by deadline and then by scheduling order (among those the filter wants), and only
  that one, none only if none is due, cancelling takes a waiting timer off at once and keeps a running one
  from being rescheduled, and its answer says whether it did.  In particular a timer whose cancellation was confirmed never starts
  afterwards.
\<close>

theorem timer_refines_agenda:
  assumes "schedules ops < 2 ^ 32 - 1" "placements ops < 2 ^ 64"
  shows "map_option fst (run_out timer_step ops scheduler_default) = map_option fst (run_out agenda_step ops agenda_default)
    \<and> (\<forall>before i after o1 o2 s r.
         ops = before @ Cancel i # after \<longrightarrow> run_out timer_step ops scheduler_default = Some (o1 @ Cancelled True # o2, s) \<longrightarrow>
         length o1 = length before \<longrightarrow> Started (Some r) \<in> set o2 \<longrightarrow> ready_id r \<noteq> i)"
proof -
  have "timers_fit ops scheduler_default"
    by (rule scheduler_default_fits) (use assms in \<open>simp_all add: u32_max_def u64_max_def\<close>)
  from timer_agenda.run_same_outputs [OF this scheduler_default_matches]
  have same: "map_option fst (run_out timer_step ops scheduler_default) = map_option fst (run_out agenda_step ops agenda_default)" .
  moreover have "ready_id r \<noteq> i"
    if "ops = before @ Cancel i # after" "run_out timer_step ops scheduler_default = Some (o1 @ Cancelled True # o2, s)"
      "length o1 = length before" "Started (Some r) \<in> set o2" for before i after o1 o2 s r
  proof -
    from same that(2) obtain a' where "run_out agenda_step ops agenda_default = Some (o1 @ Cancelled True # o2, a')"
      by (cases "run_out agenda_step ops agenda_default") auto
    from agenda_cancelled [OF this [unfolded that(1)] that(3,4)] show ?thesis .
  qed
  ultimately show ?thesis by blast
qed

definition example_timers :: "string timer_op list" where
  "example_timers = [Schedule ''a'' 5 0, Schedule ''b'' 1 0, Schedule ''c'' 5 0, Cancel 2, TakeNext 9000000,
     Cancel 1, Reschedule 1 ''a'' 5 9000000, TakeMatching 9000000 (\<lambda>p. p = ''b''), TakeNext 9000000, TakeNext 99000000]"

theorem timer_refines_agenda_witness:
  "map_option fst (run_out timer_step example_timers scheduler_default) =
     Some [Scheduled 1, Scheduled 2, Scheduled 3, Cancelled True,
       Started (Some \<lparr>ready_id = 1, ready_delay_ms = 5, ready_payload = ''a''\<rparr>), Cancelled True, Rescheduled False,
       Started None, Started (Some \<lparr>ready_id = 3, ready_delay_ms = 5, ready_payload = ''c''\<rparr>), Started None]"
proof -
  have "schedules example_timers < 2 ^ 32 - 1" "placements example_timers < 2 ^ 64" by (simp_all add: example_timers_def)
  from timer_refines_agenda [OF this, THEN conjunct1] show ?thesis
    by (rule trans) (simp add: example_timers_def agenda_default_def agenda_start_def place_def appointment_def)
qed

end
