(* ===== verification/Dns_Resolver.thy ===== *)
theory Dns_Resolver
  imports Text_Prelude "HOL-Library.Multiset"
begin

section \<open>The DNS resolver (moli-dns-resolver)\<close>

text \<open>
  The positive cache with its expiration index, the table of lookups in flight, and the service
  that admits lookups and publishes their results.  Addresses, error texts and completions are
  type parameters; a completion is a value that is consumed when it is called.  Instants are
  numbers, and the system resolver's answer is a parameter.

  The resolver state is only touched under its lock, so every locked section is one step of the
  system; between them the threads interleave.  A caller that was told to start a lookup still
  has to send the command, and a worker that took a command still has to publish its result.
\<close>

type_synonym dns_instant = nat

subsection \<open>Identities (identity.rs)\<close>

record dns_target =
  host :: string
  port :: nat

record dns_key =
  partition :: nat
  target :: dns_target

definition partition_fresh :: "nat \<Rightarrow> (nat \<times> nat) option" where
  "partition_fresh next = (if next = 0 then None else Some (next, (next + 1) mod 2 ^ 64))"

definition dns_target_new :: "string \<Rightarrow> nat \<Rightarrow> dns_target option" where
  "dns_target_new h p = (if h = [] then None else Some \<lparr>host = h, port = p\<rparr>)"


subsection \<open>The positive cache (positive_cache.rs)\<close>

record 'a cached_answer =
  addresses :: 'a
  expires_at :: dns_instant

record 'a positive_cache =
  answers :: "dns_key \<rightharpoonup> 'a cached_answer"
  expirations :: "(dns_instant, dns_key list) btree_map"

definition retire_key :: "dns_instant \<Rightarrow> dns_key \<Rightarrow> (dns_key \<rightharpoonup> 'a cached_answer) \<Rightarrow> (dns_key \<rightharpoonup> 'a cached_answer)" where
  "retire_key now k ans =
     (case ans k of Some a \<Rightarrow> if expires_at a \<le> now then ans(k := None) else ans | None \<Rightarrow> ans)"

fun retire_loop :: "dns_instant \<Rightarrow> (dns_key \<rightharpoonup> 'a cached_answer) \<Rightarrow> (dns_instant, dns_key list) btree_map \<Rightarrow> 'a positive_cache" where
  "retire_loop now ans [] = \<lparr>answers = ans, expirations = []\<rparr>"
| "retire_loop now ans ((t, ks) # exps) =
     (if t > now then \<lparr>answers = ans, expirations = (t, ks) # exps\<rparr>
      else retire_loop now (fold (retire_key now) ks ans) exps)"

definition retire_expired :: "dns_instant \<Rightarrow> 'a positive_cache \<Rightarrow> 'a positive_cache" where
  "retire_expired now c = retire_loop now (answers c) (expirations c)"

definition cache_get :: "dns_key \<Rightarrow> dns_instant \<Rightarrow> 'a positive_cache \<Rightarrow> 'a option \<times> 'a positive_cache" where
  "cache_get k now c =
     (let c = retire_expired now c in
      case answers c k of
        None \<Rightarrow> (None, c)
      | Some a \<Rightarrow>
          if expires_at a \<le> now then (None, c\<lparr>answers := (answers c)(k := None)\<rparr>)
          else (Some (addresses a), c))"

definition cache_insert :: "dns_key \<Rightarrow> 'a \<Rightarrow> dns_instant \<Rightarrow> 'a positive_cache \<Rightarrow> 'a positive_cache" where
  "cache_insert k a e c =
     c\<lparr>answers := (answers c)(k \<mapsto> \<lparr>addresses = a, expires_at = e\<rparr>),
       expirations := bt_insert e ((case map_of (expirations c) e of None \<Rightarrow> [] | Some ks \<Rightarrow> ks) @ [k]) (expirations c)\<rparr>"


subsection \<open>Lookups in flight (state.rs)\<close>

record ('a, 'c) resolver_state =
  cache :: "'a positive_cache"
  in_flight :: "dns_key \<rightharpoonup> 'c list"

datatype ('a, 'c) admission = CompleteCached 'a 'c | Coalesced | Start dns_key

type_synonym ('a, 'e) lookup_result = "'e + 'a"

definition resolver_default :: "('a, 'c) resolver_state" where
  "resolver_default = \<lparr>cache = \<lparr>answers = Map.empty, expirations = []\<rparr>, in_flight = Map.empty\<rparr>"

definition admit ::
  "dns_key \<Rightarrow> 'c \<Rightarrow> dns_instant \<Rightarrow> ('a, 'c) resolver_state \<Rightarrow> ('a, 'c) admission \<times> ('a, 'c) resolver_state" where
  "admit k completion now s =
     (let (hit, c) = cache_get k now (cache s); s = s\<lparr>cache := c\<rparr> in
      case hit of
        Some a \<Rightarrow> (CompleteCached a completion, s)
      | None \<Rightarrow>
          (case in_flight s k of
             Some cs \<Rightarrow> (Coalesced, s\<lparr>in_flight := (in_flight s)(k \<mapsto> cs @ [completion])\<rparr>)
           | None \<Rightarrow> (Start k, s\<lparr>in_flight := (in_flight s)(k \<mapsto> [completion])\<rparr>)))"

definition finish ::
  "dns_key \<Rightarrow> ('a, 'e) lookup_result \<Rightarrow> dns_instant \<Rightarrow> ('a, 'c) resolver_state \<Rightarrow> 'c list \<times> ('a, 'c) resolver_state" where
  "finish k result expires s =
     (let cs = (case in_flight s k of Some cs \<Rightarrow> cs | None \<Rightarrow> []);
          s = s\<lparr>in_flight := (in_flight s)(k := None)\<rparr> in
      (cs, case result of
             Inr a \<Rightarrow> s\<lparr>cache := cache_insert k a expires (cache s)\<rparr>
           | Inl e \<Rightarrow> s))"


subsection \<open>Lookups (lookup.rs)\<close>

fun dedup_addresses :: "'ip list \<Rightarrow> 'ip set \<Rightarrow> 'ip list" where
  "dedup_addresses [] seen = []"
| "dedup_addresses (ip # ips) seen =
     (if ip \<in> seen then dedup_addresses ips seen else ip # dedup_addresses ips (insert ip seen))"

definition system_dns_lookup ::
  "(dns_target \<Rightarrow> 'e + 'ip list) \<Rightarrow> 'e \<Rightarrow> dns_target \<Rightarrow> ('ip list, 'e) lookup_result" where
  "system_dns_lookup to_socket_addrs no_addresses t =
     (case to_socket_addrs t of
        Inl e \<Rightarrow> Inl e
      | Inr ips \<Rightarrow> let ips = dedup_addresses ips {} in if ips = [] then Inl no_addresses else Inr ips)"


subsection \<open>The service and its workers (service.rs, worker_pool.rs)\<close>

definition target_is_reserved_invalid :: "dns_target \<Rightarrow> bool" where
  "target_is_reserved_invalid t \<longleftrightarrow>
     (let h = rev (dropWhile (\<lambda>c. c = CHR ''.'') (rev (host t))) in
      eq_ignore_ascii_case h ''invalid'' \<or> eq_ignore_ascii_case (drop (length h - 8) h) ''.invalid'')"

definition MAX_SHARED_DNS_WORKERS :: nat where
  "MAX_SHARED_DNS_WORKERS = 4"

definition shared_dns_worker_count :: "nat option \<Rightarrow> nat option" where
  "shared_dns_worker_count available_parallelism =
     (let available = (case available_parallelism of Some n \<Rightarrow> n | None \<Rightarrow> 1);
          count = min available MAX_SHARED_DNS_WORKERS in
      if count = 0 then None else Some count)"

datatype worker_command = Resolve dns_key | Shutdown

text \<open>
  The system: the resolver state, the lookups whose caller has yet to send the command, the
  command queue, the lookups a worker has taken, the number of running workers, whether the
  pool is being dropped, and a record of the completions submitted and of those called with
  their results.
\<close>

record ('a, 'e, 'c) service =
  state :: "('a, 'c) resolver_state"
  starting :: "dns_key list"
  commands :: "worker_command list"
  working :: "dns_key list"
  workers :: nat
  dropping :: bool
  submitted :: "'c list"
  called :: "('c \<times> ('a, 'e) lookup_result) list"

definition service_new :: "nat \<Rightarrow> ('a, 'e, 'c) service" where
  "service_new n = \<lparr>state = resolver_default, starting = [], commands = [], working = [],
     workers = n, dropping = False, submitted = [], called = []\<rparr>"

definition resolve ::
  "(dns_target \<Rightarrow> 'e) \<Rightarrow> nat \<Rightarrow> dns_target \<Rightarrow> 'c \<Rightarrow> dns_instant \<Rightarrow> ('a, 'e, 'c) service \<Rightarrow> ('a, 'e, 'c) service" where
  "resolve reserved p t completion now v =
     (let v = v\<lparr>submitted := submitted v @ [completion]\<rparr> in
      if target_is_reserved_invalid t then v\<lparr>called := called v @ [(completion, Inl (reserved t))]\<rparr>
      else
        (let (adm, s) = admit \<lparr>partition = p, target = t\<rparr> completion now (state v); v = v\<lparr>state := s\<rparr> in
         case adm of
           CompleteCached a c \<Rightarrow> v\<lparr>called := called v @ [(c, Inr a)]\<rparr>
         | Coalesced \<Rightarrow> v
         | Start k \<Rightarrow> v\<lparr>starting := starting v @ [k]\<rparr>))"

definition publish_lookup_result ::
  "dns_key \<Rightarrow> ('a, 'e) lookup_result \<Rightarrow> dns_instant \<Rightarrow> nat \<Rightarrow> ('a, 'e, 'c) service \<Rightarrow> ('a, 'e, 'c) service" where
  "publish_lookup_result k result now ttl v =
     (let (cs, s) = finish k result (now + ttl) (state v) in
      v\<lparr>state := s, called := called v @ map (\<lambda>c. (c, result)) cs\<rparr>)"

definition stop_workers :: "('a, 'e, 'c) service \<Rightarrow> ('a, 'e, 'c) service" where
  "stop_workers v = v\<lparr>dropping := True, commands := commands v @ replicate (workers v) Shutdown\<rparr>"

text \<open>
  The steps that carry a lookup to its end.  Sending fails when the channel has no receiver, which
  the steps allow at any time; any lookup result can be published, since the system resolver may answer differently each
  time.  A worker takes a command only when it is idle.
\<close>

inductive worker_step :: "nat \<Rightarrow> ('a, 'e, 'c) service \<Rightarrow> ('a, 'e, 'c) service \<Rightarrow> bool" for ttl where
  send: "starting v = xs @ k # ys \<Longrightarrow>
    worker_step ttl v (v\<lparr>starting := xs @ ys, commands := commands v @ [Resolve k]\<rparr>)"
| send_fails: "starting v = xs @ k # ys \<Longrightarrow>
    worker_step ttl v (publish_lookup_result k (Inl closed) now ttl (v\<lparr>starting := xs @ ys\<rparr>))"
| receive: "commands v = Resolve k # cs \<Longrightarrow> length (working v) < workers v \<Longrightarrow>
    worker_step ttl v (v\<lparr>commands := cs, working := working v @ [k]\<rparr>)"
| publish: "working v = xs @ k # ys \<Longrightarrow>
    worker_step ttl v (publish_lookup_result k result now ttl (v\<lparr>working := xs @ ys\<rparr>))"
| shutdown: "commands v = Shutdown # cs \<Longrightarrow> length (working v) < workers v \<Longrightarrow>
    worker_step ttl v (v\<lparr>commands := cs, workers := workers v - 1\<rparr>)"

text \<open>Dropping the pool needs exclusive access: no caller is inside \<^const>\<open>resolve\<close>, and none enters
  it afterwards.\<close>

inductive service_reach :: "nat \<Rightarrow> nat \<Rightarrow> ('a, 'e, 'c) service \<Rightarrow> bool" for n ttl where
  new: "service_reach n ttl (service_new n)"
| resolve: "service_reach n ttl v \<Longrightarrow> \<not> dropping v \<Longrightarrow> service_reach n ttl (resolve reserved p t c now v)"
| drop: "service_reach n ttl v \<Longrightarrow> \<not> dropping v \<Longrightarrow> starting v = [] \<Longrightarrow> service_reach n ttl (stop_workers v)"
| work: "service_reach n ttl v \<Longrightarrow> worker_step ttl v v' \<Longrightarrow> service_reach n ttl v'"


subsection \<open>Every completion is called once\<close>

fun command_keys :: "worker_command list \<Rightarrow> dns_key list" where
  "command_keys [] = []"
| "command_keys (Resolve k # cs) = k # command_keys cs"
| "command_keys (Shutdown # cs) = command_keys cs"

definition outstanding :: "('a, 'e, 'c) service \<Rightarrow> dns_key list" where
  "outstanding v = starting v @ command_keys (commands v) @ working v"

definition waiting :: "(dns_key \<rightharpoonup> 'c list) \<Rightarrow> dns_key list \<Rightarrow> 'c multiset" where
  "waiting f ks = (\<Sum>k \<in># mset ks. mset (case f k of Some cs \<Rightarrow> cs | None \<Rightarrow> []))"

text \<open>Each lookup in flight has exactly one command on its way, and the completions not yet called
  wait in its table.\<close>

definition service_ok :: "('a, 'e, 'c) service \<Rightarrow> bool" where
  "service_ok v \<longleftrightarrow> distinct (outstanding v) \<and> set (outstanding v) = dom (in_flight (state v))
     \<and> mset (submitted v) = mset (map fst (called v)) + waiting (in_flight (state v)) (outstanding v)"

text \<open>The shutdown commands come last, one for each running worker.\<close>

definition pool_ok :: "nat \<Rightarrow> ('a, 'e, 'c) service \<Rightarrow> bool" where
  "pool_ok n v \<longleftrightarrow> length (working v) \<le> workers v
     \<and> commands v = map Resolve (command_keys (commands v)) @ replicate (if dropping v then workers v else 0) Shutdown
     \<and> (dropping v \<longrightarrow> starting v = []) \<and> (workers v = n \<or> dropping v \<and> command_keys (commands v) = [])"

lemma waiting_simps [simp]:
  "waiting f [] = {#}" "waiting f (k # ks) = mset (case f k of Some cs \<Rightarrow> cs | None \<Rightarrow> []) + waiting f ks"
  "waiting f (ks @ ls) = waiting f ks + waiting f ls"
  by (simp_all add: waiting_def)

lemma waiting_update [simp]: "k \<notin> set ks \<Longrightarrow> waiting (f(k := x)) ks = waiting f ks"
  by (induction ks) auto

lemma command_keys_simps [simp]:
  "command_keys (cs @ ds) = command_keys cs @ command_keys ds"
  "command_keys (map Resolve ks) = ks" "command_keys (replicate m Shutdown) = []"
proof -
  show "command_keys (cs @ ds) = command_keys cs @ command_keys ds"
    by (induction cs rule: command_keys.induct) auto
  show "command_keys (map Resolve ks) = ks" by (induction ks) auto
  show "command_keys (replicate m Shutdown) = []" by (induction m) auto
qed

lemma waiting_mset: "mset ks = mset ls \<Longrightarrow> waiting f ks = waiting f ls"
  by (simp add: waiting_def)

lemma service_ok_move:
  assumes "service_ok v" "mset (outstanding w) = mset (outstanding v)" "state w = state v"
    "submitted w = submitted v" "called w = called v"
  shows "service_ok w"
  using assms waiting_mset [OF assms(2), of "in_flight (state v)"] mset_eq_setD [OF assms(2)]
  by (auto simp: service_ok_def mset_eq_imp_distinct_iff [OF assms(2)])

lemma publish_frame [simp]:
  "starting (publish_lookup_result k r now ttl v) = starting v"
  "commands (publish_lookup_result k r now ttl v) = commands v"
  "working (publish_lookup_result k r now ttl v) = working v"
  "workers (publish_lookup_result k r now ttl v) = workers v"
  "dropping (publish_lookup_result k r now ttl v) = dropping v"
  "submitted (publish_lookup_result k r now ttl v) = submitted v"
  by (simp_all add: publish_lookup_result_def split: prod.splits)

lemma publish_effect:
  assumes "in_flight (state v) k = Some cs"
  shows "called (publish_lookup_result k r now ttl v) = called v @ map (\<lambda>c. (c, r)) cs"
    "in_flight (state (publish_lookup_result k r now ttl v)) = (in_flight (state v))(k := None)"
  using assms by (simp_all add: publish_lookup_result_def finish_def Let_def split: sum.split)

lemma publish_outstanding [simp]: "outstanding (publish_lookup_result k r now ttl v) = outstanding v"
  by (simp add: outstanding_def)

lemma service_ok_publish:
  assumes "service_ok v" "mset (outstanding v) = add_mset k (mset (outstanding w))"
    "state w = state v" "submitted w = submitted v" "called w = called v"
  shows "service_ok (publish_lookup_result k result now ttl w)"
proof -
  have m: "mset (outstanding v) = mset (k # outstanding w)" using assms(2) by simp
  obtain cs where cs: "in_flight (state v) k = Some cs"
    using assms(1) mset_eq_setD [OF m] by (metis domD list.set_intros(1) service_ok_def)
  have "mset (submitted v) = mset (map fst (called v)) + mset cs + waiting (in_flight (state v)) (outstanding w)"
    using assms(1) waiting_mset [OF m, of "in_flight (state v)"] cs by (simp add: service_ok_def ac_simps)
  moreover have "distinct (k # outstanding w)" "set (k # outstanding w) = dom (in_flight (state v))"
    using assms(1) mset_eq_imp_distinct_iff [OF m] mset_eq_setD [OF m] by (simp_all add: service_ok_def)
  ultimately show ?thesis
    using assms(3-5) cs publish_effect [of w k cs] by (auto simp: service_ok_def comp_def)
qed

lemma admit_cases:
  assumes "admit k c now s = (adm, s')"
  obtains a where "adm = CompleteCached a c" "in_flight s' = in_flight s"
  | cs where "adm = Coalesced" "in_flight s k = Some cs" "in_flight s' = (in_flight s)(k \<mapsto> cs @ [c])"
  | "adm = Start k" "in_flight s k = None" "in_flight s' = (in_flight s)(k \<mapsto> [c])"
  using assms by (auto simp: admit_def Let_def split: prod.splits option.splits)

lemma service_ok_resolve:
  assumes "service_ok v" shows "service_ok (resolve reserved p t c now v)"
proof (cases "target_is_reserved_invalid t")
  case True
  then show ?thesis using assms by (simp add: resolve_def service_ok_def outstanding_def)
next
  case False
  define k where "k = \<lparr>partition = p, target = t\<rparr>"
  obtain adm s where a: "admit k c now (state v) = (adm, s)" by (cases "admit k c now (state v)")
  from a show ?thesis
  proof (cases rule: admit_cases)
    case (1 a')
    then show ?thesis using assms False a by (simp add: resolve_def service_ok_def outstanding_def k_def)
  next
    case (2 cs)
    then have "k \<in> set (outstanding v)" using assms by (auto simp: service_ok_def)
    then obtain xs ys where o: "outstanding v = xs @ k # ys" by (meson split_list)
    have "resolve reserved p t c now v = v\<lparr>submitted := submitted v @ [c], state := s\<rparr>"
      using False a 2 by (simp add: resolve_def k_def)
    then have "outstanding (resolve reserved p t c now v) = outstanding v"
      "state (resolve reserved p t c now v) = s" "submitted (resolve reserved p t c now v) = submitted v @ [c]"
      "called (resolve reserved p t c now v) = called v"
      by (simp_all add: outstanding_def)
    then show ?thesis using assms 2 o by (auto simp: service_ok_def)
  next
    case 3
    then have "k \<notin> set (outstanding v)" using assms by (auto simp: service_ok_def)
    moreover have "resolve reserved p t c now v = v\<lparr>submitted := submitted v @ [c], state := s, starting := starting v @ [k]\<rparr>"
      using False a 3 by (simp add: resolve_def k_def)
    ultimately show ?thesis using assms 3 by (auto simp: service_ok_def outstanding_def)
  qed
qed

lemma service_ok_worker:
  assumes "worker_step ttl v v'" "service_ok v" shows "service_ok v'"
  using assms(1)
proof cases
  case (send xs k ys)
  then show ?thesis using assms(2) by (auto intro: service_ok_move simp: outstanding_def)
next
  case (send_fails xs k ys closed now)
  then show ?thesis using assms(2) by (auto intro!: service_ok_publish simp: outstanding_def)
next
  case (receive k cs)
  then show ?thesis using assms(2) by (auto intro: service_ok_move simp: outstanding_def)
next
  case (publish xs k ys result now)
  then show ?thesis using assms(2) by (auto intro!: service_ok_publish simp: outstanding_def)
next
  case (shutdown cs)
  then show ?thesis using assms(2) by (auto intro: service_ok_move simp: outstanding_def)
qed

lemma resolve_frame [simp]:
  "commands (resolve reserved p t c now v) = commands v" "working (resolve reserved p t c now v) = working v"
  "workers (resolve reserved p t c now v) = workers v" "dropping (resolve reserved p t c now v) = dropping v"
  by (simp_all add: resolve_def Let_def split: prod.splits admission.splits)

lemma pool_ok_receive:
  assumes "pool_ok n v" "commands v = Resolve k # cs" "length (working v) < workers v"
  shows "pool_ok n (v\<lparr>commands := cs, working := working v @ [k]\<rparr>)"
  using assms by (auto simp: pool_ok_def)

lemma pool_ok_shutdown:
  assumes "pool_ok n v" "commands v = Shutdown # cs" "length (working v) < workers v"
  shows "pool_ok n (v\<lparr>commands := cs, workers := workers v - 1\<rparr>)"
proof -
  have keys: "command_keys (commands v) = []"
    using assms(1,2) by (cases "command_keys (commands v)") (auto simp: pool_ok_def)
  obtain m where m: "workers v = Suc m" using assms(3) by (cases "workers v") auto
  have "dropping v" "cs = replicate m Shutdown"
    using assms(1,2) keys m by (auto simp: pool_ok_def split: if_splits)
  then show ?thesis using assms keys m by (auto simp: pool_ok_def)
qed

lemma pool_ok_worker:
  assumes "worker_step ttl v v'" "pool_ok n v" shows "pool_ok n v'"
  using assms(1)
proof cases
  case (receive k cs)
  then show ?thesis using pool_ok_receive [OF assms(2)] by simp
next
  case (shutdown cs)
  then show ?thesis using pool_ok_shutdown [OF assms(2)] by simp
qed (use assms(2) in \<open>auto simp: pool_ok_def\<close>)

lemma service_reach_ok: "service_reach n ttl v \<Longrightarrow> service_ok v \<and> pool_ok n v"
proof (induction rule: service_reach.induct)
  case new
  then show ?case by (simp add: service_ok_def pool_ok_def service_new_def outstanding_def resolver_default_def)
next
  case (resolve v reserved p t c now)
  then show ?case by (auto simp: service_ok_resolve pool_ok_def)
next
  case (drop v)
  then have "service_ok (stop_workers v)"
    by (auto intro: service_ok_move simp: outstanding_def stop_workers_def)
  moreover have "pool_ok n (stop_workers v)" using drop by (simp add: pool_ok_def stop_workers_def)
  ultimately show ?case by simp
next
  case (work v v')
  then show ?case using service_ok_worker pool_ok_worker by blast
qed

lemma pool_ok_joined: "pool_ok n v \<Longrightarrow> 0 < n \<Longrightarrow> workers v = 0 \<Longrightarrow> outstanding v = []"
  by (auto simp: pool_ok_def outstanding_def)


subsection \<open>Workers finish\<close>

definition work_left :: "('a, 'e, 'c) service \<Rightarrow> nat" where
  "work_left v = 3 * length (starting v) + 2 * length (command_keys (commands v)) + length (working v)"

lemma worker_progress:
  assumes "pool_ok n v" "0 < n" "outstanding v \<noteq> []"
  shows "\<exists>v'. worker_step ttl v v' \<and> work_left v' < work_left v \<and> submitted v' = submitted v"
proof (cases "working v")
  case (Cons k ks)
  then have "worker_step ttl v (publish_lookup_result k result now ttl (v\<lparr>working := ks\<rparr>))" for result now
    using worker_step.publish [of v "[]" k ks] by simp
  then show ?thesis using Cons by (force simp: work_left_def)
next
  case idle: Nil
  show ?thesis
  proof (cases "starting v")
    case (Cons k ks)
    then have "worker_step ttl v (v\<lparr>starting := ks, commands := commands v @ [Resolve k]\<rparr>)"
      using worker_step.send [of v "[]" k ks] by simp
    then show ?thesis using Cons by (force simp: work_left_def)
  next
    case Nil
    then obtain k ks where k: "command_keys (commands v) = k # ks"
      using assms(3) idle by (cases "command_keys (commands v)") (auto simp: outstanding_def)
    then obtain cs where cs: "commands v = Resolve k # cs" "0 < workers v"
      using assms(1,2) by (cases "commands v" rule: command_keys.cases) (auto simp: pool_ok_def)
    then have "worker_step ttl v (v\<lparr>commands := cs, working := working v @ [k]\<rparr>)"
      using idle by (intro worker_step.receive) auto
    then show ?thesis using cs by (force simp: work_left_def)
  qed
qed

lemma workers_drain:
  assumes "pool_ok n v" "0 < n"
  shows "\<exists>v'. (worker_step ttl)\<^sup>*\<^sup>* v v' \<and> outstanding v' = [] \<and> submitted v' = submitted v"
  using assms
proof (induction "work_left v" arbitrary: v rule: less_induct)
  case less
  show ?case
  proof (cases "outstanding v = []")
    case False
    then obtain w where w: "worker_step ttl v w" "work_left w < work_left v" "submitted w = submitted v"
      using worker_progress [OF less.prems] by blast
    then show ?thesis using less.hyps [OF w(2) pool_ok_worker [OF w(1) less.prems(1)] less.prems(2)]
      by (metis converse_rtranclp_into_rtranclp)
  qed auto
qed

lemma service_ok_run:
  assumes "(worker_step ttl)\<^sup>*\<^sup>* v v'" "service_ok v" shows "service_ok v'"
  using assms by (induction rule: rtranclp_induct) (auto intro: service_ok_worker)

text \<open>Two callers ask for the same host; the second joins the lookup of the first.\<close>

definition two_callers :: "(nat list, string, nat) service" where
  "two_callers =
     resolve (\<lambda>_. ''reserved'') 1 \<lparr>host = ''a.test'', port = 443\<rparr> 8 5
       (resolve (\<lambda>_. ''reserved'') 1 \<lparr>host = ''a.test'', port = 443\<rparr> 7 5 (service_new 1))"

lemma two_callers_reach: "service_reach 1 60 two_callers"
  unfolding two_callers_def by (intro service_reach.resolve service_reach.new) (simp_all add: service_new_def)

lemma two_callers_state:
  "submitted two_callers = [7, 8]" "called two_callers = []"
  "outstanding two_callers = [\<lparr>partition = 1, target = \<lparr>host = ''a.test'', port = 443\<rparr>\<rparr>]"
  by (simp_all add: two_callers_def resolve_def target_is_reserved_invalid_def eq_ignore_ascii_case_def ascii_lower_def
      service_new_def resolver_default_def admit_def cache_get_def retire_expired_def outstanding_def Let_def)

text \<open>C12: Every completion given to the resolver is called at most once, and every one not called yet
  waits in the table of lookups in flight; each lookup in flight has exactly one command on its way
  to publishing a result, whatever the interleaving of callers and workers, so that nothing waits
  without a lookup under way.  Once a dropped pool has joined its workers, every completion has been
  called.\<close>

theorem dns_exactly_once:
  assumes "service_reach n ttl v" "0 < n"
  shows "mset (submitted v) = mset (map fst (called v)) + waiting (in_flight (state v)) (outstanding v)
    \<and> distinct (outstanding v) \<and> set (outstanding v) = dom (in_flight (state v))
    \<and> (workers v = 0 \<longrightarrow> mset (map fst (called v)) = mset (submitted v))"
  using service_reach_ok [OF assms(1)] pool_ok_joined [of n v] assms(2) by (auto simp: service_ok_def)

lemma dns_exactly_once_witness:
  "service_reach 1 60 two_callers \<and> mset (submitted two_callers) = {#7, 8#}
    \<and> waiting (in_flight (state two_callers)) (outstanding two_callers) = {#7, 8#}
    \<and> dom (in_flight (state two_callers)) = {\<lparr>partition = 1, target = \<lparr>host = ''a.test'', port = 443\<rparr>\<rparr>}"
  using dns_exactly_once [OF two_callers_reach] two_callers_reach by (simp add: two_callers_state)

text \<open>C36: From every state the resolver can reach, its callers and workers can, without any further
  request, run until every submitted completion has been called exactly once and no lookup is left
  in flight.\<close>

theorem dns_workers_finish:
  assumes "service_reach n ttl v" "0 < n"
  shows "\<exists>v'. (worker_step ttl)\<^sup>*\<^sup>* v v' \<and> submitted v' = submitted v
    \<and> mset (map fst (called v')) = mset (submitted v) \<and> in_flight (state v') = Map.empty"
proof -
  obtain v' where v: "(worker_step ttl)\<^sup>*\<^sup>* v v'" "outstanding v' = []" "submitted v' = submitted v"
    using workers_drain service_reach_ok [OF assms(1)] assms(2) by blast
  then have "service_ok v'" using service_ok_run service_reach_ok [OF assms(1)] by blast
  then show ?thesis using v by (auto simp: service_ok_def)
qed

lemma dns_workers_finish_witness:
  "service_reach 1 60 two_callers \<and> (\<exists>v'. (worker_step 60)\<^sup>*\<^sup>* two_callers v'
    \<and> mset (map fst (called v')) = {#7, 8#} \<and> in_flight (state v') = Map.empty)"
  using dns_workers_finish [OF two_callers_reach] two_callers_reach by (auto simp: two_callers_state)


subsection \<open>The cache answers like an expiring map\<close>

definition unexpired :: "dns_instant \<Rightarrow> (dns_key \<rightharpoonup> 'a cached_answer) \<Rightarrow> (dns_key \<rightharpoonup> 'a cached_answer)" where
  "unexpired now f = (\<lambda>k. case f k of Some a \<Rightarrow> if expires_at a \<le> now then None else Some a | None \<Rightarrow> None)"

datatype 'a cache_op = Lookup dns_key dns_instant | Store dns_key 'a dns_instant

text \<open>Operations on the cache with the time of the last one.  A clock that runs backwards, which
  \<^verbatim>\<open>Instant\<close> excludes, has no step.\<close>

fun cache_step :: "'a cache_op \<Rightarrow> 'a positive_cache \<times> dns_instant \<Rightarrow> ('a option list \<times> 'a positive_cache \<times> dns_instant) option" where
  "cache_step (Lookup k now) (c, clock) =
     (if now < clock then None else let r = cache_get k now c in Some ([fst r], snd r, now))"
| "cache_step (Store k a e) (c, clock) = Some ([], cache_insert k a e c, clock)"

text \<open>The specification forgets every answer at its deadline.\<close>

fun expiring_step :: "'a cache_op \<Rightarrow> (dns_key \<rightharpoonup> 'a cached_answer) \<times> dns_instant
    \<Rightarrow> ('a option list \<times> (dns_key \<rightharpoonup> 'a cached_answer) \<times> dns_instant) option" where
  "expiring_step (Lookup k now) (m, clock) =
     (if now < clock then None else Some ([map_option addresses (unexpired now m k)], unexpired now m, now))"
| "expiring_step (Store k a e) (m, clock) =
     Some ([], m(k := if e \<le> clock then None else Some \<lparr>addresses = a, expires_at = e\<rparr>), clock)"

definition abs_cache :: "'a positive_cache \<times> dns_instant \<Rightarrow> (dns_key \<rightharpoonup> 'a cached_answer) \<times> dns_instant" where
  "abs_cache s = (unexpired (snd s) (answers (fst s)), snd s)"

text \<open>Every answer is indexed under its deadline.\<close>

definition indexed :: "(dns_key \<rightharpoonup> 'a cached_answer) \<Rightarrow> (dns_instant, dns_key list) btree_map \<Rightarrow> bool" where
  "indexed ans exps \<longleftrightarrow>
     (\<forall>k a. ans k = Some a \<longrightarrow> (\<exists>ks. map_of exps (expires_at a) = Some ks \<and> k \<in> set ks))"

definition cache_ok :: "'a positive_cache \<times> dns_instant \<Rightarrow> bool" where
  "cache_ok s \<longleftrightarrow> bt_sorted (expirations (fst s)) \<and> indexed (answers (fst s)) (expirations (fst s))"

lemma unexpired_Some [simp]: "unexpired now f k = Some a \<longleftrightarrow> f k = Some a \<and> now < expires_at a"
  by (auto simp: unexpired_def split: option.splits)

lemma unexpired_later: "t \<le> now \<Longrightarrow> unexpired now (unexpired t f) = unexpired now f"
  by (auto simp: unexpired_def fun_eq_iff split: option.splits)

lemma unexpired_update:
  "unexpired now (f(k \<mapsto> a)) = (unexpired now f)(k := if expires_at a \<le> now then None else Some a)"
  by (auto simp: unexpired_def fun_eq_iff)

lemma fold_retire_key:
  "fold (retire_key now) ks ans = (\<lambda>k. if k \<in> set ks then unexpired now ans k else ans k)"
proof (induction ks arbitrary: ans)
  case (Cons k ks)
  have "retire_key now k ans = ans(k := unexpired now ans k)"
    by (auto simp: retire_key_def unexpired_def fun_eq_iff split: option.splits)
  with Cons show ?case by (auto simp: unexpired_def fun_eq_iff split: option.splits)
qed simp

lemma indexed_bucket:
  assumes "indexed ans ((t, ks) # exps)" "t \<le> now"
  shows "indexed (fold (retire_key now) ks ans) exps"
  unfolding indexed_def
proof (intro allI impI)
  fix k a
  assume "fold (retire_key now) ks ans k = Some a"
  then have a: "ans k = Some a" "k \<in> set ks \<Longrightarrow> now < expires_at a"
    by (auto simp: fold_retire_key split: if_splits)
  with assms obtain ls where "map_of ((t, ks) # exps) (expires_at a) = Some ls" "k \<in> set ls"
    unfolding indexed_def by blast
  then show "\<exists>ks. map_of exps (expires_at a) = Some ks \<and> k \<in> set ks"
    using a(2) assms(2) by (auto split: if_splits)
qed

lemma retire_loop_spec:
  assumes "bt_sorted exps" "indexed ans exps"
  shows "answers (retire_loop now ans exps) = unexpired now ans
    \<and> bt_sorted (expirations (retire_loop now ans exps))
    \<and> indexed (answers (retire_loop now ans exps)) (expirations (retire_loop now ans exps))"
  using assms
proof (induction now ans exps rule: retire_loop.induct)
  case (1 now ans)
  then show ?case by (auto simp: indexed_def unexpired_def fun_eq_iff split: option.splits)
next
  case (2 now ans t ks exps)
  show ?case
  proof (cases "now < t")
    case True
    have "now < expires_at a" if "ans k = Some a" for k a
    proof -
      have "expires_at a \<in> fst ` set ((t, ks) # exps)"
        using that 2(3) by (force simp: indexed_def dest: map_of_SomeD)
      then show ?thesis using 2(2) True by auto
    qed
    then have "unexpired now ans k = ans k" for k
      by (cases "ans k") (force simp: unexpired_def)+
    then have "unexpired now ans = ans" by (rule ext)
    with True 2(2,3) show ?thesis by simp
  next
    case False
    have "unexpired now (fold (retire_key now) ks ans) = unexpired now ans"
      by (auto simp: fold_retire_key unexpired_def fun_eq_iff split: option.splits)
    then show ?thesis using 2(1) [OF False] False 2(2) indexed_bucket [OF 2(3), of now] by auto
  qed
qed

lemma cache_get_spec:
  assumes "cache_ok (c, clock)"
  shows "fst (cache_get k now c) = map_option addresses (unexpired now (answers c) k)"
    "answers (snd (cache_get k now c)) = unexpired now (answers c)"
    "cache_ok (snd (cache_get k now c), now)"
proof -
  have r: "answers (retire_expired now c) = unexpired now (answers c)" "cache_ok (retire_expired now c, now)"
    using assms retire_loop_spec [of "expirations c" "answers c" now]
    by (auto simp: cache_ok_def retire_expired_def)
  have g: "cache_get k now c = (map_option addresses (unexpired now (answers c) k), retire_expired now c)"
    by (cases "answers c k") (auto simp: cache_get_def Let_def r(1) unexpired_def)
  from r show "fst (cache_get k now c) = map_option addresses (unexpired now (answers c) k)"
    "answers (snd (cache_get k now c)) = unexpired now (answers c)"
    "cache_ok (snd (cache_get k now c), now)"
    by (simp_all add: g)
qed

lemma cache_insert_ok: "cache_ok (c, clock) \<Longrightarrow> cache_ok (cache_insert k a e c, clock)"
  by (fastforce simp: cache_ok_def cache_insert_def indexed_def bt_get_insert split: option.splits if_splits)

interpretation cache_refines: refinement cache_step expiring_step abs_cache "\<lambda>h. h" cache_ok
proof (unfold_locales, goal_cases)
  case (1 s x)
  then show ?case
    by (cases s; cases x)
      (auto simp: abs_cache_def cache_get_spec unexpired_later unexpired_update cache_insert_def Let_def)
next
  case (2 s x r)
  then show ?case
    by (cases s; cases x) (auto simp: cache_insert_ok cache_get_spec Let_def split: if_splits)
qed

text \<open>C24: Over every sequence of lookups and stores the positive cache answers like a map that forgets
  each answer at its deadline: a lookup returns the addresses stored last for the very partition, host
  and port while they are not due, and nothing otherwise, even when an older deadline of a refreshed
  answer passes.\<close>

theorem dns_cache_expires:
  "map_option (\<lambda>r. (fst r, abs_cache (snd r)))
     (run_out cache_step ops (\<lparr>answers = Map.empty, expirations = []\<rparr>, 0)) =
   run_out expiring_step ops (Map.empty, 0)"
proof -
  have "cache_ok (\<lparr>answers = Map.empty, expirations = []\<rparr>, 0)"
    by (simp add: cache_ok_def indexed_def)
  from cache_refines.run_refines [OF this, of ops] show ?thesis
    by (simp add: abs_cache_def unexpired_def)
qed

lemma cache_retires: "cache_ok (c, clock) \<Longrightarrow> answers (snd (cache_get k now c)) j = Some a \<Longrightarrow> now < expires_at a"
  by (simp add: cache_get_spec)

end
