(* ===== verification/Owner_Queue.thy ===== *)
theory Owner_Queue
  imports Moli_Prelude
begin

section \<open>Owner task queues (moli-owner-queue)\<close>

text \<open>
  \<^verbatim>\<open>OwnerReadyTaskSource\<close>, whose producers wake the owner only when the source becomes nonempty, and
  \<^verbatim>\<open>OwnerTaskSource\<close> with its two wake channels.  Every operation on the ready source takes its lock
  once, so a sequence of operations is an interleaving of producers and owner.  A signal is an
  output of the step that publishes it.  Waiting for a channel takes the item that ends the
  wait as an argument.
\<close>

subsection \<open>The ready source (owner\_ready\_task\_source.rs)\<close>

record 'a ready_state =
  incoming :: "'a list"
  ready :: bool
  source_open :: bool

record 'a ready_source =
  tasks :: "'a list"
  shared :: "'a ready_state"

definition ready_state_default :: "'a ready_state" where
  "ready_state_default = \<lparr>incoming = [], ready = False, source_open = True\<rparr>"

definition ready_source_new :: "'a ready_source" where
  "ready_source_new = \<lparr>tasks = [], shared = ready_state_default\<rparr>"

datatype 'a sent = Sent nat | RouteClosed 'a

text \<open>A send returns its result and whether it published a wake.\<close>

definition send_and_signal_if_newly_ready :: "'a \<Rightarrow> 'a ready_state \<Rightarrow> ('a sent \<times> bool) \<times> 'a ready_state" where
  "send_and_signal_if_newly_ready t s =
     (if \<not> source_open s then ((RouteClosed t, False), s)
      else
        (let s = s\<lparr>incoming := incoming s @ [t]\<rparr> in
         if \<not> ready s then ((Sent 1, True), s\<lparr>ready := True\<rparr>) else ((Sent 1, False), s)))"

definition send_all_and_signal_if_newly_ready :: "'a list \<Rightarrow> 'a ready_state \<Rightarrow> ('a sent \<times> bool) \<times> 'a ready_state" where
  "send_all_and_signal_if_newly_ready ts s =
     (case ts of
        [] \<Rightarrow> ((Sent 0, False), s)
      | t # _ \<Rightarrow>
          if \<not> source_open s then ((RouteClosed t, False), s)
          else
            (let s = s\<lparr>incoming := incoming s @ ts\<rparr> in
             if \<not> ready s then ((Sent (length ts), True), s\<lparr>ready := True\<rparr>) else ((Sent (length ts), False), s)))"

definition ready_enqueue_local :: "'a \<Rightarrow> 'a ready_source \<Rightarrow> 'a ready_source" where
  "ready_enqueue_local t r = r\<lparr>tasks := tasks r @ [t], shared := (shared r)\<lparr>ready := True\<rparr>\<rparr>"

text \<open>Moving the arrivals into the local queue, the first act of every owner operation.\<close>

definition accept_incoming :: "'a ready_source \<Rightarrow> 'a ready_source" where
  "accept_incoming r = r\<lparr>tasks := tasks r @ incoming (shared r), shared := (shared r)\<lparr>incoming := []\<rparr>\<rparr>"

definition set_ready :: "bool \<Rightarrow> 'a ready_source \<Rightarrow> 'a ready_source" where
  "set_ready b r = r\<lparr>shared := (shared r)\<lparr>ready := b\<rparr>\<rparr>"

definition ready_front :: "'a ready_source \<Rightarrow> 'a option \<times> 'a ready_source" where
  "ready_front r =
     (let r = accept_incoming r; t = (case tasks r of [] \<Rightarrow> None | t # _ \<Rightarrow> Some t) in
      (t, set_ready (t \<noteq> None) r))"

definition ready_pop_front :: "'a ready_source \<Rightarrow> 'a option \<times> 'a ready_source" where
  "ready_pop_front r =
     (let r = accept_incoming r;
          (t, ts) = (case tasks r of [] \<Rightarrow> (None, []) | t # ts \<Rightarrow> (Some t, ts));
          r = r\<lparr>tasks := ts\<rparr> in
      (t, set_ready (ts \<noteq> []) r))"

definition ready_is_empty :: "'a ready_source \<Rightarrow> bool \<times> 'a ready_source" where
  "ready_is_empty r = (let r = accept_incoming r; e = (tasks r = []) in (e, set_ready (\<not> e) r))"

definition has_matching_task :: "('a \<Rightarrow> bool) \<Rightarrow> 'a ready_source \<Rightarrow> bool \<times> 'a ready_source" where
  "has_matching_task p r =
     (let r = accept_incoming r; m = list_ex p (tasks r) in (m, set_ready (tasks r \<noteq> []) r))"

definition ready_with_tasks_mut :: "('a list \<Rightarrow> 'b \<times> 'a list) \<Rightarrow> 'a ready_source \<Rightarrow> 'b \<times> 'a ready_source" where
  "ready_with_tasks_mut f r =
     (let r = accept_incoming r; (result, ts) = f (tasks r); r = r\<lparr>tasks := ts\<rparr> in
      (result, set_ready (ts \<noteq> []) r))"

definition ready_with_local_tasks :: "('a list \<Rightarrow> 'b) \<Rightarrow> 'a ready_source \<Rightarrow> 'b" where
  "ready_with_local_tasks f r = f (tasks r)"

definition ready_clear_local :: "'a ready_source \<Rightarrow> 'a ready_source" where
  "ready_clear_local r = r\<lparr>tasks := [], shared := (shared r)\<lparr>incoming := [], ready := False\<rparr>\<rparr>"

text \<open>Dropping the source closes the shared state, which the routes keep.\<close>

definition drop_source :: "'a ready_source \<Rightarrow> 'a ready_source" where
  "drop_source r = r\<lparr>tasks := [], shared := (shared r)\<lparr>source_open := False, ready := False, incoming := []\<rparr>\<rparr>"


subsection \<open>The wake queue (owner\_wake\_queue.rs)\<close>

record 'a wake_queue =
  buffered :: "'a list"
  rx :: "'a list"

definition wake_queue_new :: "'a wake_queue" where
  "wake_queue_new = \<lparr>buffered = [], rx = []\<rparr>"

definition wake_send :: "'a \<Rightarrow> 'a wake_queue \<Rightarrow> 'a wake_queue" where
  "wake_send t q = q\<lparr>rx := rx q @ [t]\<rparr>"

fun drain_incoming_loop :: "'a list \<Rightarrow> 'a list \<Rightarrow> 'a wake_queue" where
  "drain_incoming_loop buf [] = \<lparr>buffered = buf, rx = []\<rparr>"
| "drain_incoming_loop buf (t # ts) = drain_incoming_loop (buf @ [t]) ts"

definition drain_incoming :: "'a wake_queue \<Rightarrow> 'a wake_queue" where
  "drain_incoming q = drain_incoming_loop (buffered q) (rx q)"

definition try_drain_into :: "'a wake_queue \<Rightarrow> 'a list \<Rightarrow> 'a wake_queue \<times> 'a list" where
  "try_drain_into q dst = (let q = drain_incoming q in (q\<lparr>buffered := []\<rparr>, dst @ buffered q))"

definition wake_pop_front :: "'a wake_queue \<Rightarrow> 'a option \<times> 'a wake_queue" where
  "wake_pop_front q =
     (let q = drain_incoming q in
      case buffered q of [] \<Rightarrow> (None, q) | t # ts \<Rightarrow> (Some t, q\<lparr>buffered := ts\<rparr>))"

text \<open>Receiving waits when nothing is queued; \<^term>\<open>arrival\<close> is what the channel then delivers.\<close>

definition wake_recv :: "'a option \<Rightarrow> 'a wake_queue \<Rightarrow> 'a option \<times> 'a wake_queue" where
  "wake_recv arrival q =
     (let (t, q) = wake_pop_front q in
      case t of Some t \<Rightarrow> (Some t, q) | None \<Rightarrow> (arrival, q))"


subsection \<open>The task source with two wake channels (owner\_task\_source.rs)\<close>

record 'a task_source =
  local_tasks :: "'a list"
  parser_boundary_wake :: "'a wake_queue"
  wake :: "'a wake_queue"

definition task_source_new :: "'a task_source" where
  "task_source_new = \<lparr>local_tasks = [], parser_boundary_wake = wake_queue_new, wake = wake_queue_new\<rparr>"

definition enqueue_local :: "'a \<Rightarrow> 'a task_source \<Rightarrow> 'a task_source" where
  "enqueue_local t s = s\<lparr>local_tasks := local_tasks s @ [t]\<rparr>"

definition enqueue_parser_boundary_local :: "'a \<Rightarrow> 'a task_source \<Rightarrow> 'a task_source" where
  "enqueue_parser_boundary_local t s = s\<lparr>local_tasks := t # local_tasks s\<rparr>"

definition drain_wake :: "'a task_source \<Rightarrow> 'a task_source" where
  "drain_wake s =
     (let (pq, front) = try_drain_into (parser_boundary_wake s) [];
          s = s\<lparr>parser_boundary_wake := pq\<rparr>;
          s = (if front \<noteq> [] then s\<lparr>local_tasks := front @ local_tasks s\<rparr> else s);
          (q, ts) = try_drain_into (wake s) (local_tasks s) in
      s\<lparr>wake := q, local_tasks := ts\<rparr>)"

definition accept_ready_wakes :: "'a task_source \<Rightarrow> 'a task_source" where
  "accept_ready_wakes s = drain_wake s"

definition extend_local :: "'a list \<Rightarrow> 'a task_source \<Rightarrow> 'a task_source" where
  "extend_local ts s = s\<lparr>local_tasks := local_tasks s @ ts\<rparr>"

definition clear_local :: "'a task_source \<Rightarrow> 'a task_source" where
  "clear_local s = (drain_wake s)\<lparr>local_tasks := []\<rparr>"

definition with_tasks_mut :: "('a list \<Rightarrow> 'b \<times> 'a list) \<Rightarrow> 'a task_source \<Rightarrow> 'b \<times> 'a task_source" where
  "with_tasks_mut f s = (let s = drain_wake s; (result, ts) = f (local_tasks s) in (result, s\<lparr>local_tasks := ts\<rparr>))"

definition with_local_tasks :: "('a list \<Rightarrow> 'b) \<Rightarrow> 'a task_source \<Rightarrow> 'b" where
  "with_local_tasks f s = f (local_tasks s)"

definition pop_front_local_only :: "'a task_source \<Rightarrow> 'a option \<times> 'a task_source" where
  "pop_front_local_only s =
     (case local_tasks s of [] \<Rightarrow> (None, s) | t # ts \<Rightarrow> (Some t, s\<lparr>local_tasks := ts\<rparr>))"

definition pop_front :: "'a task_source \<Rightarrow> 'a option \<times> 'a task_source" where
  "pop_front s = pop_front_local_only (drain_wake s)"

definition front_local_only :: "'a task_source \<Rightarrow> 'a option" where
  "front_local_only s = (case local_tasks s of [] \<Rightarrow> None | t # _ \<Rightarrow> Some t)"

definition task_front :: "'a task_source \<Rightarrow> 'a option \<times> 'a task_source" where
  "task_front s = (let s = drain_wake s in (front_local_only s, s))"

definition is_empty_local_only :: "'a task_source \<Rightarrow> bool" where
  "is_empty_local_only s \<longleftrightarrow> local_tasks s = []"

definition task_is_empty :: "'a task_source \<Rightarrow> bool \<times> 'a task_source" where
  "task_is_empty s = (let s = drain_wake s in (is_empty_local_only s, s))"

definition wait_for_arrival :: "'a option \<Rightarrow> 'a task_source \<Rightarrow> bool \<times> 'a task_source" where
  "wait_for_arrival arrival s =
     (let s = drain_wake s in
      if local_tasks s \<noteq> [] then (True, s)
      else
        (let (t, q) = wake_recv arrival (wake s); s = s\<lparr>wake := q\<rparr> in
         case t of
           Some t \<Rightarrow> (True, drain_wake (s\<lparr>local_tasks := local_tasks s @ [t]\<rparr>))
         | None \<Rightarrow> (False, s)))"

definition wait_for_local_wake_arrival :: "'a option \<Rightarrow> 'a task_source \<Rightarrow> bool \<times> 'a task_source" where
  "wait_for_local_wake_arrival arrival s =
     (let s = drain_wake s in
      if local_tasks s \<noteq> [] then (True, s)
      else
        (let (t, q) = wake_recv arrival (wake s); s = s\<lparr>wake := q\<rparr> in
         case t of
           Some t \<Rightarrow> (True, drain_wake (s\<lparr>local_tasks := local_tasks s @ [t]\<rparr>))
         | None \<Rightarrow> (False, s)))"

text \<open>
  The biased wait for either channel: a queued boundary wake first, then a queued regular one, and
  otherwise whichever arrives.  The branches for closed channels cannot be taken, since each
  queue keeps a sender of its own.
\<close>

datatype 'a arrival = BoundaryArrival 'a | RegularArrival 'a

definition wait_for_wake_arrival :: "'a arrival \<Rightarrow> 'a task_source \<Rightarrow> bool \<times> 'a task_source" where
  "wait_for_wake_arrival arrival s =
     (let (b, pq) = wake_pop_front (parser_boundary_wake s); s = s\<lparr>parser_boundary_wake := pq\<rparr> in
      case b of
        Some t \<Rightarrow> (True, drain_wake (s\<lparr>local_tasks := t # local_tasks s\<rparr>))
      | None \<Rightarrow>
          (let (w, q) = wake_pop_front (wake s); s = s\<lparr>wake := q\<rparr> in
           case w of
             Some t \<Rightarrow> (True, drain_wake (s\<lparr>local_tasks := local_tasks s @ [t]\<rparr>))
           | None \<Rightarrow>
               (case arrival of
                  BoundaryArrival t \<Rightarrow> (True, drain_wake (s\<lparr>local_tasks := t # local_tasks s\<rparr>))
                | RegularArrival t \<Rightarrow> (True, drain_wake (s\<lparr>local_tasks := local_tasks s @ [t]\<rparr>)))))"


subsection \<open>The order of the two channels\<close>

definition queued :: "'a wake_queue \<Rightarrow> 'a list" where
  "queued q = buffered q @ rx q"

lemma drain_incoming_loop: "drain_incoming_loop buf ts = \<lparr>buffered = buf @ ts, rx = []\<rparr>"
  by (induction ts arbitrary: buf) auto

lemma drain_incoming_simps [simp]: "buffered (drain_incoming q) = queued q" "rx (drain_incoming q) = []"
  "queued (drain_incoming q) = queued q"
  by (simp_all add: drain_incoming_def drain_incoming_loop queued_def)

lemma drain_wake_order [simp]:
  "local_tasks (drain_wake s) = queued (parser_boundary_wake s) @ local_tasks s @ queued (wake s)"
  "queued (parser_boundary_wake (drain_wake s)) = []" "queued (wake (drain_wake s)) = []"
  by (auto simp: drain_wake_def try_drain_into_def queued_def Let_def)

text \<open>A task source as one queue, in the order the owner would take the tasks.\<close>

definition task_order :: "'a task_source \<Rightarrow> 'a list" where
  "task_order s = queued (parser_boundary_wake s) @ local_tasks s @ queued (wake s)"

lemma pop_front_order:
  "fst (pop_front s) = (case task_order s of [] \<Rightarrow> None | t # _ \<Rightarrow> Some t)"
  "task_order (snd (pop_front s)) = tl (task_order s)"
  by (auto simp: pop_front_def pop_front_local_only_def task_order_def split: list.split)

lemma wait_for_arrival_order:
  "task_order s \<noteq> [] \<Longrightarrow> fst (wait_for_arrival arrival s) \<and> task_order (snd (wait_for_arrival arrival s)) = task_order s"
  "task_order s = [] \<Longrightarrow> task_order (snd (wait_for_arrival (Some t) s)) = [t]"
  by (auto simp: wait_for_arrival_def task_order_def wake_recv_def wake_pop_front_def Let_def)

text \<open>Several boundary wakes that are queued together are taken in the order they were sent, except
  that \<^const>\<open>wait_for_wake_arrival\<close> puts the first behind the others.\<close>

lemma wait_reorders_boundary_wakes:
  assumes "queued (parser_boundary_wake s) = b # bs"
  shows "task_order s = b # bs @ local_tasks s @ queued (wake s)"
    "task_order (snd (wait_for_wake_arrival arrival s)) = bs @ b # local_tasks s @ queued (wake s)"
  using assms by (auto simp: task_order_def wait_for_wake_arrival_def wake_pop_front_def Let_def)
    (simp_all add: queued_def)


subsection \<open>Wakes are published on the edge\<close>

datatype 'a ready_op =
    Send 'a | SendAll "'a list" | EnqueueLocal 'a | Front | PopFront | IsEmpty
  | HasMatching "'a \<Rightarrow> bool" | WithTasksMut "'a list \<Rightarrow> 'a list" | ClearLocal | DropSource

datatype 'a ready_event = SendResult "'a sent" | Wake | Task "'a option" | Answer bool

definition send_events :: "'a sent \<times> bool \<Rightarrow> 'a ready_event list" where
  "send_events r = SendResult (fst r) # (if snd r then [Wake] else [])"

text \<open>A dropped source has no owner operations left; its routes still answer.\<close>

definition owner_step :: "'a ready_source \<Rightarrow> 'a ready_event list \<times> 'a ready_source \<Rightarrow>
    ('a ready_event list \<times> 'a ready_source) option" where
  "owner_step r x = (if source_open (shared r) then Some x else None)"

fun ready_step :: "'a ready_op \<Rightarrow> 'a ready_source \<Rightarrow> ('a ready_event list \<times> 'a ready_source) option" where
  "ready_step (Send t) r =
     (let (x, s) = send_and_signal_if_newly_ready t (shared r) in Some (send_events x, r\<lparr>shared := s\<rparr>))"
| "ready_step (SendAll ts) r =
     (let (x, s) = send_all_and_signal_if_newly_ready ts (shared r) in Some (send_events x, r\<lparr>shared := s\<rparr>))"
| "ready_step (EnqueueLocal t) r = owner_step r ([], ready_enqueue_local t r)"
| "ready_step Front r = owner_step r (let (t, r) = ready_front r in ([Task t], r))"
| "ready_step PopFront r = owner_step r (let (t, r) = ready_pop_front r in ([Task t], r))"
| "ready_step IsEmpty r = owner_step r (let (b, r) = ready_is_empty r in ([Answer b], r))"
| "ready_step (HasMatching p) r = owner_step r (let (b, r) = has_matching_task p r in ([Answer b], r))"
| "ready_step (WithTasksMut f) r = owner_step r ([], snd (ready_with_tasks_mut (\<lambda>ts. ((), f ts)) r))"
| "ready_step ClearLocal r = owner_step r ([], ready_clear_local r)"
| "ready_step DropSource r = owner_step r ([], drop_source r)"

text \<open>
  The specification has no readiness flag: the state is the accepted tasks, the arrived ones and
  whether the source is open, and a send wakes the owner exactly when there was no task at all.
\<close>

record 'a edge_queue =
  accepted :: "'a list"
  arrived :: "'a list"
  is_open :: bool

definition edge_send :: "'a list \<Rightarrow> 'a edge_queue \<Rightarrow> ('a ready_event list \<times> 'a edge_queue) option" where
  "edge_send ts q =
     (if ts \<noteq> [] \<and> \<not> is_open q then Some ([SendResult (RouteClosed (hd ts))], q)
      else Some (SendResult (Sent (length ts)) # (if ts \<noteq> [] \<and> accepted q @ arrived q = [] then [Wake] else []),
                 q\<lparr>arrived := arrived q @ ts\<rparr>))"

definition edge_owner :: "('a list \<Rightarrow> 'a ready_event list \<times> 'a list) \<Rightarrow> 'a edge_queue \<Rightarrow>
    ('a ready_event list \<times> 'a edge_queue) option" where
  "edge_owner f q =
     (if is_open q then Some (fst (f (accepted q @ arrived q)), q\<lparr>accepted := snd (f (accepted q @ arrived q)), arrived := []\<rparr>)
      else None)"

definition first_task :: "'a list \<Rightarrow> 'a ready_event list" where
  "first_task ts = [Task (case ts of [] \<Rightarrow> None | t # _ \<Rightarrow> Some t)]"

fun edge_step :: "'a ready_op \<Rightarrow> 'a edge_queue \<Rightarrow> ('a ready_event list \<times> 'a edge_queue) option" where
  "edge_step (Send t) q = edge_send [t] q"
| "edge_step (SendAll ts) q = edge_send ts q"
| "edge_step (EnqueueLocal t) q = (if is_open q then Some ([], q\<lparr>accepted := accepted q @ [t]\<rparr>) else None)"
| "edge_step Front q = edge_owner (\<lambda>ts. (first_task ts, ts)) q"
| "edge_step PopFront q = edge_owner (\<lambda>ts. (first_task ts, tl ts)) q"
| "edge_step IsEmpty q = edge_owner (\<lambda>ts. ([Answer (ts = [])], ts)) q"
| "edge_step (HasMatching p) q = edge_owner (\<lambda>ts. ([Answer (list_ex p ts)], ts)) q"
| "edge_step (WithTasksMut f) q = edge_owner (\<lambda>ts. ([], f ts)) q"
| "edge_step ClearLocal q = edge_owner (\<lambda>ts. ([], [])) q"
| "edge_step DropSource q = (if is_open q then Some ([], \<lparr>accepted = [], arrived = [], is_open = False\<rparr>) else None)"

definition abs_ready :: "'a ready_source \<Rightarrow> 'a edge_queue" where
  "abs_ready r = \<lparr>accepted = tasks r, arrived = incoming (shared r), is_open = source_open (shared r)\<rparr>"

definition ready_ok :: "'a ready_source \<Rightarrow> bool" where
  "ready_ok r \<longleftrightarrow> (ready (shared r) \<longleftrightarrow> tasks r @ incoming (shared r) \<noteq> [])"

lemmas owner_ops = ready_enqueue_local_def ready_front_def ready_pop_front_def ready_is_empty_def
  has_matching_task_def ready_with_tasks_mut_def ready_clear_local_def drop_source_def accept_incoming_def set_ready_def

lemmas send_ops = send_and_signal_if_newly_ready_def send_all_and_signal_if_newly_ready_def send_events_def

interpretation ready_refines: refinement ready_step edge_step abs_ready "\<lambda>e. e" ready_ok
proof (unfold_locales, goal_cases)
  case (1 r x)
  then show ?case
    by (cases x) (auto simp: abs_ready_def ready_ok_def owner_ops send_ops owner_step_def edge_send_def edge_owner_def
        first_task_def Let_def split: list.splits)
next
  case (2 r x r')
  then show ?case
    by (cases x) (auto simp: ready_ok_def owner_ops send_ops owner_step_def Let_def split: list.splits if_splits)
qed

text \<open>C20: Over every interleaving of its producers and its owner the ready source behaves like a queue
  without any readiness flag in which a send publishes exactly one wake when the source held no
  task, neither accepted nor arrived, and none otherwise: no wake is lost and none is spurious.
  After the source is dropped every nonempty send gets its first task back.\<close>

theorem owner_ready_wakes_on_edge:
  "map_option (\<lambda>r. (fst r, abs_ready (snd r))) (run_out ready_step ops ready_source_new) =
   run_out edge_step ops \<lparr>accepted = [], arrived = [], is_open = True\<rparr>"
proof -
  have "ready_ok (ready_source_new :: 'a ready_source)"
    by (simp add: ready_ok_def ready_source_new_def ready_state_default_def)
  from ready_refines.run_refines [OF this, of ops] show ?thesis
    by (simp add: abs_ready_def ready_source_new_def ready_state_default_def)
qed

end
