(* ===== verification/Header_Field.thy ===== *)
theory Header_Field
  imports Text_Prelude
begin

section \<open>Header fields (moli-header-field)\<close>

text \<open>
  The tokenizer for structured header fields, the splitting of parameters outside quoted values,
  and the ordered field list.  Text is a list of code points where the code walks over characters
  (tokenizer, unquoting, byte strings) and a list of bytes where it walks over bytes (splitting);
  the two readings agree on ASCII text.
\<close>

type_synonym code_points = "nat list"
type_synonym field_bytes = "nat list"

subsection \<open>The tokenizer (tokenizer.rs)\<close>

datatype token_mode = Normal | Relaxed

record tokenizer =
  input :: code_points
  rest :: code_points

definition len_utf8 :: "nat \<Rightarrow> nat" where
  "len_utf8 c = (if c < 128 then 1 else if c < 2048 then 2 else if c < 65536 then 3 else 4)"

definition byte_length :: "code_points \<Rightarrow> nat" where
  "byte_length s = sum_list (map len_utf8 s)"

definition byte_index :: "tokenizer \<Rightarrow> nat" where
  "byte_index t = byte_length (input t) - byte_length (rest t)"

definition is_consumed :: "tokenizer \<Rightarrow> bool" where
  "is_consumed t \<longleftrightarrow> byte_index t \<ge> byte_length (input t)"

definition skip_whitespace :: "code_points \<Rightarrow> code_points" where
  "skip_whitespace s = dropWhile (\<lambda>c. c = 32 \<or> c = 9) s"

definition skip_optional_whitespace :: "tokenizer \<Rightarrow> tokenizer" where
  "skip_optional_whitespace t = t\<lparr>rest := skip_whitespace (rest t)\<rparr>"

definition tokenizer_new :: "code_points \<Rightarrow> tokenizer" where
  "tokenizer_new s = skip_optional_whitespace \<lparr>input = s, rest = s\<rparr>"

definition current_character :: "tokenizer \<Rightarrow> nat option" where
  "current_character t = (case rest t of [] \<Rightarrow> None | c # _ \<Rightarrow> Some c)"

definition consume :: "nat \<Rightarrow> tokenizer \<Rightarrow> bool \<times> tokenizer" where
  "consume separator t =
     (case rest t of
        [] \<Rightarrow> (False, t)
      | c # cs \<Rightarrow> if c \<noteq> separator then (False, t) else (True, skip_optional_whitespace (t\<lparr>rest := cs\<rparr>)))"

text \<open>Parentheses, angle brackets, at sign, comma, colon, backslash, slash, brackets, question mark and
  equals sign.\<close>

definition relaxed_characters :: "nat list" where
  "relaxed_characters = [40, 41, 60, 62, 64, 44, 58, 92, 47, 91, 93, 63, 61]"

definition token_character_is_valid :: "token_mode \<Rightarrow> nat \<Rightarrow> bool" where
  "token_character_is_valid mode c =
     (if c \<ge> 128 \<or> c < 32 then False
      else if c \<in> {32, 59, 34} then False
      else if c \<in> set relaxed_characters then mode = Relaxed
      else True)"

fun token_loop :: "token_mode \<Rightarrow> code_points \<Rightarrow> code_points \<times> code_points" where
  "token_loop mode [] = ([], [])"
| "token_loop mode (c # cs) =
     (if \<not> token_character_is_valid mode c then ([], c # cs)
      else case token_loop mode cs of (tok, r) \<Rightarrow> (c # tok, r))"

definition consume_token :: "token_mode \<Rightarrow> tokenizer \<Rightarrow> code_points option \<times> tokenizer" where
  "consume_token mode t =
     (let (token, r) = token_loop mode (rest t); t' = t\<lparr>rest := r\<rparr> in
      if token = [] then (None, t') else (Some token, skip_optional_whitespace t'))"

text \<open>The loop returns the unquoted text, if the string is closed, and what is left unread.\<close>

fun quoted_loop :: "code_points \<Rightarrow> code_points \<Rightarrow> code_points option \<times> code_points" where
  "quoted_loop out [] = (None, [])"
| "quoted_loop out (c # cs) =
     (if c = 34 then (Some out, skip_whitespace cs)
      else if c = 92 then (case cs of [] \<Rightarrow> (None, []) | e # cs' \<Rightarrow> quoted_loop (out @ [e]) cs')
      else quoted_loop (out @ [c]) cs)"

definition consume_quoted_string :: "tokenizer \<Rightarrow> code_points option \<times> tokenizer" where
  "consume_quoted_string t =
     (case rest t of
        [] \<Rightarrow> (None, t)
      | c # cs \<Rightarrow>
          if c \<noteq> 34 then (None, t)
          else (let (out, r) = quoted_loop [] cs in (out, t\<lparr>rest := r\<rparr>)))"

definition consume_token_or_quoted_string :: "token_mode \<Rightarrow> tokenizer \<Rightarrow> code_points option \<times> tokenizer" where
  "consume_token_or_quoted_string mode t =
     (case current_character t of
        None \<Rightarrow> (None, t)
      | Some c \<Rightarrow> if c = 34 then consume_quoted_string t else consume_token mode t)"

definition consume_before_any_char_match :: "nat list \<Rightarrow> tokenizer \<Rightarrow> tokenizer" where
  "consume_before_any_char_match cs t = t\<lparr>rest := dropWhile (\<lambda>c. c \<notin> set cs) (rest t)\<rparr>"


subsection \<open>Parameters (parameters.rs)\<close>

datatype scan_state = BeforeValue | AtValueStart | UnquotedValue | QuotedValue | AfterQuotedValue

definition next_scan_state :: "scan_state \<Rightarrow> nat \<Rightarrow> scan_state" where
  "next_scan_state st b =
     (if st = BeforeValue \<and> b = 61 then AtValueStart
      else if st = AtValueStart \<and> (b = 32 \<or> b = 9) then st
      else if st = AtValueStart \<and> b = 34 then QuotedValue
      else if st = AtValueStart then UnquotedValue
      else st)"

function split_loop ::
  "field_bytes \<Rightarrow> nat \<Rightarrow> field_bytes list \<Rightarrow> nat \<Rightarrow> scan_state \<Rightarrow> nat \<Rightarrow> field_bytes list" where
  "split_loop bytes sep segments start st index =
     (if index < length bytes then
        (let b = bytes ! index in
         if st = QuotedValue then
           (if b = 92 then split_loop bytes sep segments start st (index + 2)
            else split_loop bytes sep segments start (if b = 34 then AfterQuotedValue else st) (index + 1))
         else if b = sep then
           split_loop bytes sep (segments @ [take (index - start) (drop start bytes)]) (index + 1) BeforeValue (index + 1)
         else split_loop bytes sep segments start (next_scan_state st b) (index + 1))
      else segments @ [drop (min start (length bytes)) bytes])"
  by pat_completeness auto
termination
  by (relation "measure (\<lambda>(bytes, sep, segments, start, st, index). length bytes - index)") auto

declare split_loop.simps [simp del]

definition split_outside_quoted_strings :: "field_bytes \<Rightarrow> nat \<Rightarrow> field_bytes list" where
  "split_outside_quoted_strings bytes sep = split_loop bytes sep [] 0 BeforeValue 0"

fun unquote_loop :: "code_points \<Rightarrow> code_points \<Rightarrow> code_points" where
  "unquote_loop out [] = out"
| "unquote_loop out (c # cs) =
     (if c = 34 then out
      else if c = 92 then (case cs of e # cs' \<Rightarrow> unquote_loop (out @ [e]) cs' | [] \<Rightarrow> out @ [92])
      else unquote_loop (out @ [c]) cs)"

definition unquote_parameter_value :: "code_points \<Rightarrow> code_points" where
  "unquote_parameter_value raw =
     (case strip_prefix [34] raw of None \<Rightarrow> raw | Some quoted \<Rightarrow> unquote_loop [] quoted)"


subsection \<open>Field lists (fields.rs)\<close>

type_synonym header_fields = "(string \<times> field_bytes) list"

definition decode_header_value :: "field_bytes \<Rightarrow> code_points" where
  "decode_header_value v = v"

definition headers_to_byte_strings :: "header_fields \<Rightarrow> (string \<times> code_points) list" where
  "headers_to_byte_strings hs = map (\<lambda>(n, v). (n, decode_header_value v)) hs"

fun header_value_from_byte_string :: "code_points \<Rightarrow> field_bytes option" where
  "header_value_from_byte_string [] = Some []"
| "header_value_from_byte_string (c # cs) =
     (if c < 256 then map_option (\<lambda>bs. c # bs) (header_value_from_byte_string cs) else None)"

fun headers_from_byte_strings :: "(string \<times> code_points) list \<Rightarrow> header_fields option" where
  "headers_from_byte_strings [] = Some []"
| "headers_from_byte_strings ((n, v) # hs) =
     Option.bind (header_value_from_byte_string v) (\<lambda>b. map_option (\<lambda>r. (n, b) # r) (headers_from_byte_strings hs))"

definition overlay :: "header_fields \<Rightarrow> header_fields \<Rightarrow> header_fields" where
  "overlay headers old = filter (\<lambda>h. \<not> list_ex (\<lambda>n. eq_ignore_ascii_case (fst h) (fst n)) headers) old @ headers"


subsection \<open>Splitting as a scan of the bytes\<close>

text \<open>The index loop reads the bytes from left to right; \<^term>\<open>seg\<close> is the segment read so far.\<close>

fun scan :: "nat \<Rightarrow> scan_state \<Rightarrow> field_bytes \<Rightarrow> field_bytes \<Rightarrow> field_bytes list" where
  "scan sep st seg [] = [seg]"
| "scan sep st seg (b # bs) =
     (if st = QuotedValue then
        (if b = 92 then (case bs of [] \<Rightarrow> [seg @ [b]] | e # bs' \<Rightarrow> scan sep st (seg @ [b, e]) bs')
         else scan sep (if b = 34 then AfterQuotedValue else st) (seg @ [b]) bs)
      else if b = sep then seg # scan sep BeforeValue [] bs
      else scan sep (next_scan_state st b) (seg @ [b]) bs)"

lemma segment_step:
  assumes "start \<le> index" "index < length bytes"
  shows "take (Suc index - start) (drop start bytes) = take (index - start) (drop start bytes) @ [bytes ! index]"
  using assms by (simp add: Suc_diff_le take_Suc_conv_app_nth)

lemma escape_step:
  assumes "start \<le> index" "index < length bytes"
  shows "case drop (Suc index) bytes of
      [] \<Rightarrow> take (index + 2 - start) (drop start bytes) = take (index - start) (drop start bytes) @ [bytes ! index]
        \<and> drop (index + 2) bytes = []
    | e # bs \<Rightarrow> take (index + 2 - start) (drop start bytes) = take (index - start) (drop start bytes) @ [bytes ! index, e]
        \<and> drop (index + 2) bytes = bs"
proof (cases "Suc index < length bytes")
  case True
  then have "drop (Suc index) bytes = bytes ! Suc index # drop (index + 2) bytes"
    using Cons_nth_drop_Suc [OF True] by simp
  moreover have "take (index + 2 - start) (drop start bytes) = take (Suc index - start) (drop start bytes) @ [bytes ! Suc index]"
    using segment_step [of start "Suc index" bytes] True assms(1) by simp
  ultimately show ?thesis using segment_step [OF assms] by simp
next
  case False
  then have "drop (Suc index) bytes = []" "drop (index + 2) bytes = []"
    "take (index + 2 - start) (drop start bytes) = take (Suc index - start) (drop start bytes)"
    using assms by simp_all
  then show ?thesis using segment_step [OF assms] by (simp only: list.case)
qed

lemma split_loop_scan:
  assumes "start \<le> index" "start \<le> length bytes"
  shows "split_loop bytes sep segments start st index =
    segments @ scan sep st (take (index - start) (drop start bytes)) (drop index bytes)"
  using assms
proof (induction bytes sep segments start st index rule: split_loop.induct)
  case (1 bytes sep segments start st index)
  show ?case
  proof (cases "index < length bytes")
    case False
    then show ?thesis using "1.prems" by (subst split_loop.simps) simp
  next
    case True
    let ?b = "bytes ! index" and ?seg = "take (index - start) (drop start bytes)"
    note d = Cons_nth_drop_Suc [OF True, symmetric]
    note seg = segment_step [OF "1.prems"(1) True]
    consider (esc) "st = QuotedValue" "?b = 92" | (quoted) "st = QuotedValue" "?b \<noteq> 92"
      | (sep) "st \<noteq> QuotedValue" "?b = sep" | (other) "st \<noteq> QuotedValue" "?b \<noteq> sep" by blast
    then show ?thesis
    proof cases
      case esc
      have "split_loop bytes sep segments start st index = split_loop bytes sep segments start st (index + 2)"
        by (subst split_loop.simps) (simp add: True esc)
      moreover have "split_loop bytes sep segments start st (index + 2) =
          segments @ scan sep st (take (index + 2 - start) (drop start bytes)) (drop (index + 2) bytes)"
        using "1.IH"(1) [OF True refl esc] "1.prems" by simp
      moreover have "scan sep st ?seg (drop index bytes) =
          scan sep st (take (index + 2 - start) (drop start bytes)) (drop (index + 2) bytes)"
      proof (cases "drop (Suc index) bytes")
        case Nil
        then have "take (index + 2 - start) (drop start bytes) = ?seg @ [?b]" "drop (index + 2) bytes = []"
          using escape_step [OF "1.prems"(1) True] by (simp_all only: list.case)
        then show ?thesis unfolding d Nil by (simp only: scan.simps esc simp_thms if_True list.case)
      next
        case (Cons e bs)
        then have "take (index + 2 - start) (drop start bytes) = ?seg @ [?b, e]" "drop (index + 2) bytes = bs"
          using escape_step [OF "1.prems"(1) True] by (simp_all only: list.case)
        then show ?thesis unfolding d Cons by (simp only: scan.simps esc simp_thms if_True list.case)
      qed
      ultimately show ?thesis by simp
    next
      case quoted
      have "split_loop bytes sep segments start st index =
          split_loop bytes sep segments start (if ?b = 34 then AfterQuotedValue else st) (index + 1)"
        by (subst split_loop.simps) (simp add: True quoted)
      with "1.IH"(2) [OF True refl quoted] "1.prems" seg show ?thesis by (simp add: d quoted)
    next
      case sep
      have "split_loop bytes sep segments start st index =
          split_loop bytes sep (segments @ [?seg]) (index + 1) BeforeValue (index + 1)"
        by (subst split_loop.simps) (simp add: True sep)
      with "1.IH"(3) [OF True refl sep] "1.prems" True show ?thesis by (simp add: d sep)
    next
      case other
      have "split_loop bytes sep segments start st index =
          split_loop bytes sep segments start (next_scan_state st ?b) (index + 1)"
        by (subst split_loop.simps) (simp add: True other)
      with "1.IH"(4) [OF True refl other] "1.prems" seg show ?thesis by (simp add: d other)
    qed
  qed
qed

lemma split_is_scan: "split_outside_quoted_strings bytes sep = scan sep BeforeValue [] bytes"
  using split_loop_scan [of 0 0 bytes sep "[]" BeforeValue] by (simp add: split_outside_quoted_strings_def)

text \<open>Joining the segments gives the field back.\<close>

fun join :: "nat \<Rightarrow> field_bytes list \<Rightarrow> field_bytes" where
  "join sep [] = []"
| "join sep [s] = s"
| "join sep (s # t # ss) = s @ sep # join sep (t # ss)"

lemma scan_nonempty [simp]: "scan sep st seg bs \<noteq> []"
proof (induction sep st seg bs rule: scan.induct)
  case (2 sep st seg b bs)
  show ?case
  proof (cases "st = QuotedValue \<and> b = 92")
    case True
    then show ?thesis using 2(1) by (cases bs) simp_all
  qed (use 2(2-4) in auto)
qed simp

lemma join_Cons: "ss \<noteq> [] \<Longrightarrow> join sep (s # ss) = s @ sep # join sep ss"
  by (cases ss) auto

lemma join_scan: "join sep (scan sep st seg bs) = seg @ bs"
proof (induction sep st seg bs rule: scan.induct)
  case (2 sep st seg b bs)
  show ?case
  proof (cases "st = QuotedValue \<and> b = 92")
    case True
    then show ?thesis using 2(1) by (cases bs) simp_all
  qed (use 2(2-4) in \<open>auto simp: join_Cons\<close>)
qed simp

lemma split_lossless: "join sep (split_outside_quoted_strings bytes sep) = bytes"
  by (simp add: split_is_scan join_scan)


subsection \<open>Quoted values\<close>

definition escape :: "nat list \<Rightarrow> nat list" where
  "escape v = concat (map (\<lambda>c. if c = 34 \<or> c = 92 then [92, c] else [c]) v)"

definition quote :: "nat list \<Rightarrow> nat list" where
  "quote v = 34 # escape v @ [34]"

lemma escape_simps [simp]: "escape [] = []"
  "escape (c # v) = (if c = 34 \<or> c = 92 then [92, c] else [c]) @ escape v"
  by (simp_all add: escape_def)

lemma scan_name:
  "sep \<notin> set n \<Longrightarrow> 61 \<notin> set n \<Longrightarrow> scan sep BeforeValue seg (n @ bs) = scan sep BeforeValue (seg @ n) bs"
  by (induction n arbitrary: seg) (auto simp: next_scan_state_def)

lemma scan_escape:
  "scan sep QuotedValue seg (escape v @ 34 # bs) = scan sep AfterQuotedValue (seg @ escape v @ [34]) bs"
  by (induction v arbitrary: seg) auto

definition render_parameter :: "nat list \<times> nat list \<Rightarrow> nat list" where
  "render_parameter p = fst p @ 61 # quote (snd p)"

lemma scan_parameter:
  assumes "sep \<notin> set (fst p)" "61 \<notin> set (fst p)" "sep \<noteq> 61" "sep \<noteq> 34"
  shows "scan sep BeforeValue [] (render_parameter p @ bs) = scan sep AfterQuotedValue (render_parameter p) bs"
  using assms by (simp add: render_parameter_def quote_def scan_name scan_escape next_scan_state_def)

lemma scan_join:
  assumes "\<forall>p \<in> set (p # ps). sep \<notin> set (fst p) \<and> 61 \<notin> set (fst p)" "sep \<noteq> 61" "sep \<noteq> 34"
  shows "scan sep BeforeValue [] (join sep (map render_parameter (p # ps))) = map render_parameter (p # ps)"
  using assms(1)
proof (induction ps arbitrary: p)
  case Nil
  then show ?case using scan_parameter [of sep p "[]"] assms(2,3) by simp
next
  case (Cons q ps)
  then show ?case using scan_parameter [of sep p "sep # join sep (map render_parameter (q # ps))"] assms(2,3) by simp
qed

lemma unquote_loop_escape: "unquote_loop out (escape v @ 34 # r) = out @ v"
  by (induction v arbitrary: out) auto

lemma quoted_loop_escape: "quoted_loop out (escape v @ 34 # r) = (Some (out @ v), skip_whitespace r)"
  by (induction v arbitrary: out) auto

lemma unquote_quote: "unquote_parameter_value (quote v) = v"
  using unquote_loop_escape [of "[]" v "[]"] by (simp add: unquote_parameter_value_def quote_def)

lemma consume_quote:
  "consume_quoted_string \<lparr>input = i, rest = quote v @ r\<rparr> = (Some v, \<lparr>input = i, rest = skip_whitespace r\<rparr>)"
  using quoted_loop_escape [of "[]" v r] by (simp add: consume_quoted_string_def quote_def)

text \<open>C33: Parameters with quoted values, joined by a separator, are split back into exactly those
  parameters, even when a value contains the separator, quotation marks, backslashes or equals signs;
  unquoting each value, and reading it with the tokenizer, gives the original value; and
  splitting never loses a byte of any field, however malformed.\<close>

theorem header_parameters_round_trip:
  assumes "ps \<noteq> []" "\<forall>p \<in> set ps. sep \<notin> set (fst p) \<and> 61 \<notin> set (fst p)" "sep \<noteq> 61" "sep \<noteq> 34"
  shows "split_outside_quoted_strings (join sep (map render_parameter ps)) sep = map render_parameter ps
    \<and> unquote_parameter_value (quote v) = v
    \<and> fst (consume_quoted_string \<lparr>input = i, rest = quote v @ r\<rparr>) = Some v
    \<and> join sep (split_outside_quoted_strings field sep) = field"
  using assms scan_join [of "hd ps" "tl ps" sep]
  by (cases ps) (simp_all add: split_is_scan unquote_quote consume_quote join_scan)

lemma header_parameters_round_trip_witness:
  "split_outside_quoted_strings (join 59 (map render_parameter [([97], [120, 59, 34, 92]), ([98], [])])) 59 =
     [[97, 61, 34, 120, 59, 92, 34, 92, 92, 34], [98, 61, 34, 34]]
   \<and> unquote_parameter_value (quote [59, 34]) = [59, 34] \<and> join 59 (split_outside_quoted_strings [61, 34, 59, 92] 59) = [61, 34, 59, 92]"
  using header_parameters_round_trip [of "[([97], [120, 59, 34, 92]), ([98], [])]" 59 "[59, 34]" "[]" "[]" "[61, 34, 59, 92]"]
  by (simp add: render_parameter_def quote_def)


subsection \<open>Byte strings\<close>

lemma byte_string_round_trip:
  "\<forall>b \<in> set v. b < 256 \<Longrightarrow> header_value_from_byte_string (decode_header_value v) = Some v"
  by (induction v) (auto simp: decode_header_value_def)

lemma byte_strings_round_trip:
  "\<forall>h \<in> set hs. \<forall>b \<in> set (snd h). b < 256 \<Longrightarrow> headers_from_byte_strings (headers_to_byte_strings hs) = Some hs"
  by (induction hs) (auto simp: headers_to_byte_strings_def byte_string_round_trip)

lemma overlay_lookup:
  "filter (\<lambda>h. eq_ignore_ascii_case (fst h) n) (overlay headers old) =
    (if \<exists>h \<in> set headers. eq_ignore_ascii_case (fst h) n then filter (\<lambda>h. eq_ignore_ascii_case (fst h) n) headers
     else filter (\<lambda>h. eq_ignore_ascii_case (fst h) n) old)"
proof (cases "\<exists>h \<in> set headers. eq_ignore_ascii_case (fst h) n")
  case True
  then have "filter (\<lambda>h. eq_ignore_ascii_case (fst h) n) (filter (\<lambda>h. \<not> list_ex (\<lambda>n. eq_ignore_ascii_case (fst h) (fst n)) headers) old) = []"
    unfolding filter_empty_conv list_ex_iff eq_ignore_ascii_case_def by force
  with True show ?thesis by (simp add: overlay_def)
next
  case False
  have "filter (\<lambda>h. eq_ignore_ascii_case (fst h) n) (filter (\<lambda>h. \<not> list_ex (\<lambda>n. eq_ignore_ascii_case (fst h) (fst n)) headers) old) =
      filter (\<lambda>h. eq_ignore_ascii_case (fst h) n) old"
    using False unfolding filter_filter by (intro filter_cong) (auto simp: list_ex_iff eq_ignore_ascii_case_def)
  with False show ?thesis by (simp add: overlay_def filter_empty_conv)
qed

end
