(* ===== verification/Module_Types.thy ===== *)
theory Module_Types
  imports Moli_Prelude "HOL-Library.List_Lexorder" "HOL-Library.Product_Lexorder" "HOL-Library.Char_ord"
begin

section \<open>Data of the module script tree (moli-module-script-tree, types.rs)\<close>

text \<open>
  The data of the module script tree.  URLs are a type parameter; structs are records with the
  fields of the source, prefixed where several structs share a field name.
\<close>

datatype module_kind = JavaScript | Json | Css | Text | WebAssembly

datatype module_import_phase = Evaluation | Source

definition strongest :: "module_import_phase \<Rightarrow> module_import_phase \<Rightarrow> module_import_phase" where
  "strongest p q = (if p = Evaluation \<or> q = Evaluation then Evaluation else Source)"

datatype module_graph_level = TopLevel | Dependent

type_synonym module_attributes_key = "(string \<times> string) list"

definition attributes_from_pairs :: "(string \<times> string) list \<Rightarrow> module_attributes_key" where
  "attributes_from_pairs ps = remdups_adj (sort ps)"

record 'u module_map_key =
  key_url :: 'u
  key_kind :: module_kind
  key_attributes :: module_attributes_key

type_synonym module_entry_id = nat

record client_token =
  token_tree :: nat
  token_sequence :: nat

record text_position =
  line :: nat
  column :: nat

datatype credentials_mode = CredOmit | CredSameOrigin | CredInclude

datatype referrer_policy =
    EmptyString | NoReferrer | NoReferrerWhenDowngrade | Origin | OriginWhenCrossOrigin
  | RefSameOrigin | StrictOrigin | StrictOriginWhenCrossOrigin | UnsafeUrl

datatype fetch_priority_hint = PriorityAuto | PriorityLow | PriorityHigh

datatype script_fetch_scheduler_priority =
  SchedVeryHigh | SchedHigh | SchedNormal | SchedLow | SchedBackground

datatype module_request_context = ContextScript | ContextWorker | ContextSharedWorker | ContextServiceWorker

datatype module_request_destination =
  DestinationScript | DestinationWorker | DestinationSharedWorker | DestinationServiceWorker

record module_fetch_metadata =
  credentials_mode :: credentials_mode
  referrer_policy :: referrer_policy
  integrity :: "string option"
  nonce :: "string option"
  charset :: "string option"
  fetch_priority :: fetch_priority_hint
  scheduler_priority :: "script_fetch_scheduler_priority option"
  request_context :: module_request_context
  destination :: module_request_destination
  parser_inserted :: bool

definition fetch_metadata_default :: module_fetch_metadata where
  "fetch_metadata_default = \<lparr>credentials_mode = CredSameOrigin, referrer_policy = EmptyString, integrity = None,
     nonce = None, charset = None, fetch_priority = PriorityAuto, scheduler_priority = None,
     request_context = ContextScript, destination = DestinationScript, parser_inserted = False\<rparr>"

definition descendant :: "module_fetch_metadata \<Rightarrow> module_fetch_metadata" where
  "descendant m = m\<lparr>integrity := None, charset := None, fetch_priority := PriorityAuto, scheduler_priority := None\<rparr>"

record 'u module_referrer =
  referrer_url :: "'u option"
  referrer_string :: "string option"

definition referrer_client :: "'u module_referrer" where
  "referrer_client = \<lparr>referrer_url = None, referrer_string = Some ''client''\<rparr>"

definition referrer_from_url :: "('u \<Rightarrow> string) \<Rightarrow> 'u \<Rightarrow> 'u module_referrer" where
  "referrer_from_url as_str url = \<lparr>referrer_url = Some url, referrer_string = Some (as_str url)\<rparr>"

datatype module_fetch_requester =
  ReqParserPendingScript | ReqRuntimeModuleScript | ReqDynamicImport | ReqModulePreload

datatype module_fetch_ordering = DclCritical | Runtime | BackgroundPreload

datatype module_script_custom_fetch_type = NoCustomFetch | WorkerConstructor | WorkletAddModule | InstalledServiceWorker

datatype render_blocking_behavior = Blocking | NonBlocking

datatype module_tree_owner_kind = ParserPendingScript | RuntimeModuleScript | DynamicImport | WorkerModuleScript

record module_tree_owner =
  owner_kind :: module_tree_owner_kind
  requester :: module_fetch_requester
  ordering :: module_fetch_ordering

record module_tree_config =
  config_tree_id :: nat
  client_sequence :: nat
  owner :: module_tree_owner
  custom_fetch_type :: module_script_custom_fetch_type

definition parser_pending_script :: module_tree_owner where
  "parser_pending_script =
     \<lparr>owner_kind = ParserPendingScript, requester = ReqParserPendingScript, ordering = DclCritical\<rparr>"

definition runtime_module_script :: module_tree_owner where
  "runtime_module_script =
     \<lparr>owner_kind = RuntimeModuleScript, requester = ReqRuntimeModuleScript, ordering = Runtime\<rparr>"

definition dynamic_import :: module_tree_owner where
  "dynamic_import = \<lparr>owner_kind = DynamicImport, requester = ReqDynamicImport, ordering = Runtime\<rparr>"

definition tree_config_default :: module_tree_config where
  "tree_config_default = \<lparr>config_tree_id = 0, client_sequence = 0, owner = parser_pending_script,
     custom_fetch_type = NoCustomFetch\<rparr>"

record 'u parent_module_ref =
  parent_ref_key :: "'u module_map_key"
  parent_ref_entry :: module_entry_id
  parent_ref_base :: 'u
  parent_ref_metadata :: module_fetch_metadata

record 'u module_fetch_request =
  req_key :: "'u module_map_key"
  req_tree_id :: nat
  req_client :: client_token
  req_specifier :: "string option"
  req_source_url :: 'u
  req_base_url :: 'u
  req_initiator_url :: 'u
  req_referrer :: "'u module_referrer"
  req_position :: text_position
  req_parent :: "'u parent_module_ref option"
  req_kind :: module_kind
  req_attributes :: module_attributes_key
  req_phase :: module_import_phase
  req_graph_level :: module_graph_level
  req_metadata :: module_fetch_metadata
  req_render_blocking :: render_blocking_behavior
  req_requester :: module_fetch_requester
  req_ordering :: module_fetch_ordering
  req_custom :: module_script_custom_fetch_type

datatype module_load_stage =
  StageResolve | StageFetch | StageDecode | StageTypeCheck | StageCompile | StageDependencyDiscovery
  | StageLink | StageInstantiate | StageEvaluate | StageAbort

datatype module_error_constructor =
  ErrorCtor | SyntaxErrorCtor | TypeErrorCtor | WasmCompileErrorCtor | WasmLinkErrorCtor

record 'u module_load_error =
  stage :: module_load_stage
  error_key :: "'u module_map_key option"
  error_message :: string
  error_constructor :: "module_error_constructor option"

definition load_error_new :: "module_load_stage \<Rightarrow> string \<Rightarrow> 'u module_load_error" where
  "load_error_new st m = \<lparr>stage = st, error_key = None, error_message = m, error_constructor = None\<rparr>"

definition with_key :: "'u module_map_key \<Rightarrow> 'u module_load_error \<Rightarrow> 'u module_load_error" where
  "with_key k e = e\<lparr>error_key := Some k\<rparr>"

definition with_error_constructor :: "module_error_constructor \<Rightarrow> 'u module_load_error \<Rightarrow> 'u module_load_error" where
  "with_error_constructor c e = e\<lparr>error_constructor := Some c\<rparr>"

datatype module_source = SourceText string | SourceBinary "nat list"

record 'u fetched_module_source =
  fetched_request_key :: "'u module_map_key"
  fetched_key :: "'u module_map_key"
  fetched_source_url :: 'u
  fetched_base_url :: 'u
  fetched_source :: module_source
  fetched_metadata :: module_fetch_metadata

record 'u ready_module =
  ready_entry :: module_entry_id
  ready_key :: "'u module_map_key"
  ready_base_url :: 'u
  ready_metadata :: module_fetch_metadata

datatype 'u module_fetch_outcome =
    Fetched "'u fetched_module_source" | Ready "'u ready_module" | LoadFailed "'u module_load_error"

record 'u module_fetch_result =
  result_key :: "'u module_map_key"
  result_client :: client_token
  result_phase :: module_import_phase
  result_outcome :: "'u module_fetch_outcome"

record module_request_record =
  specifier :: string
  attributes :: module_attributes_key
  request_phase :: module_import_phase
  position :: text_position

record 'u module_dependency_snapshot =
  snap_entry :: module_entry_id
  snap_key :: "'u module_map_key"
  snap_base_url :: 'u
  snap_metadata :: module_fetch_metadata
  requested_modules :: "module_request_record list"

record 'u compiled_module_snapshot =
  compiled_entry :: module_entry_id
  compiled_key :: "'u module_map_key"
  compiled_base_url :: 'u
  compiled_metadata :: module_fetch_metadata
  compiled_requested :: "module_request_record list"
  compiled_phase :: module_import_phase
  has_parse_error :: bool
  parse_error :: "'u module_load_error option"

record 'u resolved_module_request =
  resolved_key :: "'u module_map_key"
  resolved_source_url :: 'u
  resolved_base_url :: 'u
  resolved_kind :: module_kind
  resolved_attributes :: module_attributes_key
  resolved_phase :: module_import_phase
  resolved_integrity :: "string option"

record 'u module_dependency_edge =
  edge_parent_key :: "'u module_map_key"
  edge_parent_entry :: module_entry_id
  edge_child_key :: "'u module_map_key"
  edge_specifier :: string
  edge_attributes :: module_attributes_key
  edge_phase :: module_import_phase
  edge_position :: text_position

record 'u module_graph_handle =
  graph_root :: module_entry_id
  graph_entries :: "module_entry_id list"
  graph_phases :: "module_entry_id \<rightharpoonup> module_import_phase"
  graph_edges :: "'u module_dependency_edge list"

datatype module_tree_state = Initial | FetchingRoot | FetchingDependencies | Linking | Finished | Aborted_State

datatype module_tree_abort_reason = ContextDestroyed | NavigationGenerationChanged | ExplicitCancel | OwnerDropped

datatype 'u module_tree_terminal =
    TerminalComplete "'u module_graph_handle"
  | TerminalFailed "'u module_load_error"
  | TerminalAborted module_tree_abort_reason

record 'u module_external_root =
  ext_source_url :: 'u
  ext_base_url :: 'u
  ext_initiator_url :: 'u
  ext_attributes :: module_attributes_key
  ext_phase :: module_import_phase
  ext_kind_hint :: "module_kind option"
  ext_metadata :: module_fetch_metadata
  ext_referrer :: "'u module_referrer"
  ext_position :: text_position

record 'u module_inline_root =
  inl_root_key :: "'u module_map_key"
  inl_root_entry :: module_entry_id
  inl_source_url :: 'u
  inl_base_url :: 'u
  inl_phase :: module_import_phase
  inl_metadata :: module_fetch_metadata
  inl_referrer :: "'u module_referrer"
  inl_position :: text_position

datatype 'u module_root_input = External "'u module_external_root" | Inline "'u module_inline_root"

datatype 'u module_tree_poll =
    PollPending
  | NeedFetches "'u module_fetch_request list"
  | WaitingForSingleModuleClients nat
  | PollComplete "'u module_graph_handle"
  | PollFailed "'u module_load_error"
  | PollAborted module_tree_abort_reason
  | IgnoredStaleCompletion

datatype 'u single_module_fetch_disposition =
    StartedNetworkFetch nat | JoinedExistingFetch | Completed "'u module_fetch_outcome"

datatype 'u module_tree_drive =
    DrivePending "'u module_fetch_request list"
  | DriveNeedFetches "'u module_fetch_request list" "'u module_fetch_request list"
  | DriveWaiting nat "'u module_fetch_request list"
  | DriveComplete "'u module_graph_handle"
  | DriveFailed "'u module_load_error"
  | DriveAborted module_tree_abort_reason
  | DriveIgnoredStale "'u module_fetch_request list"


subsection \<open>Attributes and phases\<close>

lemma distinct_remdups_adj_sorted: "sorted xs \<Longrightarrow> distinct (remdups_adj xs)"
  by (induction xs rule: remdups_adj.induct) auto

text \<open>The key of an import depends only on which attributes it has.\<close>

lemma attributes_from_pairs_cong:
  assumes "set ps = set qs"
  shows "attributes_from_pairs ps = attributes_from_pairs qs"
  unfolding attributes_from_pairs_def
  by (rule sorted_distinct_set_unique) (simp_all add: assms sorted_remdups_adj distinct_remdups_adj_sorted)

lemma strongest_simps [simp]:
  "strongest p p = p" "strongest Evaluation p = Evaluation" "strongest p Evaluation = Evaluation"
  "strongest Source p = p" "strongest p Source = p"
  by (cases p; simp add: strongest_def)+

end
