(* ===== verification/Module_Job.thy ===== *)
theory Module_Job
  imports Module_Types
begin

section \<open>The module script tree job (moli-module-script-tree, job.rs)\<close>

text \<open>
  \<^verbatim>\<open>ModuleScriptTreeJob\<close>: the job that fetches a module, discovers its imports, fetches those, and links the
  graph once nothing is outstanding.  The job drives a host (\<^verbatim>\<open>ModuleScriptTreeHost\<close>), here a record of
  functions over the host's own state.  Hash maps are partial functions; the one place where the
  code takes an arbitrary value of a hash map is a field of the host record, as is the text of a
  URL.  The counter of client tokens does not wrap around.  A job method takes the host state and
  the job and returns both with its result; the loop over queued completions, which a host could
  keep busy forever, is a partial function.
\<close>

subsection \<open>The host (host.rs)\<close>

record ('h, 'u) module_host =
  resolve_module_request :: "string \<Rightarrow> 'u \<Rightarrow> module_attributes_key \<Rightarrow> module_import_phase \<Rightarrow> 'h \<Rightarrow>
    ('u module_load_error + 'u resolved_module_request) \<times> 'h"
  start_or_join_single_module_fetch :: "'u module_fetch_request \<Rightarrow> client_token \<Rightarrow> 'h \<Rightarrow>
    'u single_module_fetch_disposition \<times> 'h"
  compile_module_source :: "'u fetched_module_source \<Rightarrow> module_import_phase \<Rightarrow> 'h \<Rightarrow>
    ('u module_load_error + 'u compiled_module_snapshot) \<times> 'h"
  module_dependencies :: "module_entry_id \<Rightarrow> 'h \<Rightarrow> 'u module_load_error + 'u module_dependency_snapshot"
  link_module_graph :: "module_entry_id \<Rightarrow> module_entry_id list \<Rightarrow> 'u module_dependency_edge list \<Rightarrow> 'h \<Rightarrow>
    ('u module_load_error + 'u module_graph_handle) \<times> 'h"
  mark_module_failed :: "'u module_map_key \<Rightarrow> 'u module_load_error \<Rightarrow> 'h \<Rightarrow> module_entry_id \<times> 'h"
  url_as_str :: "'u \<Rightarrow> string"
  some_value :: "('u module_map_key \<rightharpoonup> 'u module_load_error) \<Rightarrow> 'u module_load_error option"


subsection \<open>The job\<close>

record 'u pending_module_load =
  load_key :: "'u module_map_key"
  load_phase :: module_import_phase
  load_graph_level :: module_graph_level

record 'u module_entry_context =
  context_key :: "'u module_map_key"
  context_base_url :: 'u
  context_metadata :: module_fetch_metadata

record 'u module_script_tree_job =
  tree_id :: nat
  job_client :: client_token
  root :: "'u module_root_input"
  job_config :: module_tree_config
  tree_state :: module_tree_state
  root_key :: "'u module_map_key option"
  root_entry :: "module_entry_id option"
  next_single_client_sequence :: nat
  pending_clients :: "client_token \<rightharpoonup> 'u pending_module_load"
  queued_or_visited :: "'u module_map_key \<rightharpoonup> module_import_phase"
  job_entries :: "module_entry_id list"
  entry_phases :: "module_entry_id \<rightharpoonup> module_import_phase"
  entry_contexts :: "module_entry_id \<rightharpoonup> 'u module_entry_context"
  dependency_edges :: "'u module_dependency_edge list"
  queued_fetches :: "'u module_fetch_request list"
  queued_completions :: "'u module_fetch_result list"
  joined_fetches :: "'u module_fetch_request list"
  module_order :: "'u module_map_key list"
  parse_errors :: "'u module_map_key \<rightharpoonup> 'u module_load_error"
  terminal :: "'u module_tree_terminal option"

type_synonym ('h, 'u) job_result = "'u module_tree_poll \<times> 'h \<times> 'u module_script_tree_job"

definition job_new :: "'u module_root_input \<Rightarrow> module_tree_config \<Rightarrow> 'u module_script_tree_job" where
  "job_new r c =
     \<lparr>tree_id = config_tree_id c,
      job_client = \<lparr>token_tree = config_tree_id c, token_sequence = client_sequence c\<rparr>,
      root = r, job_config = c, tree_state = Initial, root_key = None, root_entry = None,
      next_single_client_sequence = 0, pending_clients = Map.empty, queued_or_visited = Map.empty,
      job_entries = [], entry_phases = Map.empty, entry_contexts = Map.empty, dependency_edges = [],
      queued_fetches = [], queued_completions = [], joined_fetches = [], module_order = [],
      parse_errors = Map.empty, terminal = None\<rparr>"

definition pending_client_count :: "'u module_script_tree_job \<Rightarrow> nat" where
  "pending_client_count j = card (dom (pending_clients j))"

definition add_entry :: "module_entry_id \<Rightarrow> module_import_phase \<Rightarrow> 'u module_script_tree_job \<Rightarrow> 'u module_script_tree_job" where
  "add_entry e p j =
     j\<lparr>job_entries := (if e \<in> set (job_entries j) then job_entries j else job_entries j @ [e]),
       entry_phases := (entry_phases j)(e \<mapsto> (case entry_phases j e of Some q \<Rightarrow> strongest q p | None \<Rightarrow> p))\<rparr>"

definition record_entry_context ::
  "module_entry_id \<Rightarrow> 'u module_entry_context \<Rightarrow> 'u module_script_tree_job \<Rightarrow> 'u module_script_tree_job" where
  "record_entry_context e c j =
     (if entry_contexts j e = None then j\<lparr>entry_contexts := (entry_contexts j)(e \<mapsto> c)\<rparr> else j)"

definition record_module_order :: "'u module_map_key \<Rightarrow> 'u module_script_tree_job \<Rightarrow> 'u module_script_tree_job" where
  "record_module_order k j = (if k \<in> set (module_order j) then j else j\<lparr>module_order := module_order j @ [k]\<rparr>)"

definition record_parse_error ::
  "'u module_map_key \<Rightarrow> 'u module_load_error \<Rightarrow> 'u module_script_tree_job \<Rightarrow> 'u module_script_tree_job" where
  "record_parse_error k e j =
     (if parse_errors j k = None then j\<lparr>parse_errors := (parse_errors j)(k \<mapsto> e)\<rparr> else j)"

definition first_parse_error :: "('h, 'u) module_host \<Rightarrow> 'u module_script_tree_job \<Rightarrow> 'u module_load_error option" where
  "first_parse_error H j =
     (case List.map_filter (parse_errors j) (module_order j) of
        e # _ \<Rightarrow> Some e
      | [] \<Rightarrow> some_value H (parse_errors j))"

definition next_single_module_client :: "'u module_script_tree_job \<Rightarrow> client_token \<times> 'u module_script_tree_job" where
  "next_single_module_client j =
     (\<lparr>token_tree = tree_id j, token_sequence = next_single_client_sequence j\<rparr>,
      j\<lparr>next_single_client_sequence := next_single_client_sequence j + 1\<rparr>)"

definition poll_terminal :: "'u module_tree_terminal \<Rightarrow> 'u module_tree_poll" where
  "poll_terminal t =
     (case t of TerminalComplete g \<Rightarrow> PollComplete g | TerminalFailed e \<Rightarrow> PollFailed e | TerminalAborted r \<Rightarrow> PollAborted r)"

definition clear_work :: "'u module_script_tree_job \<Rightarrow> 'u module_script_tree_job" where
  "clear_work j = j\<lparr>pending_clients := Map.empty, queued_fetches := [], queued_completions := [], joined_fetches := []\<rparr>"

definition fail :: "'u module_load_error \<Rightarrow> 'h \<Rightarrow> 'u module_script_tree_job \<Rightarrow> ('h, 'u) job_result" where
  "fail e h j = (PollFailed e, h, (clear_work j)\<lparr>tree_state := Finished, terminal := Some (TerminalFailed e)\<rparr>)"

definition abort ::
  "module_tree_abort_reason \<Rightarrow> 'u module_script_tree_job \<Rightarrow> 'u module_tree_poll \<times> 'u module_script_tree_job" where
  "abort r j = (PollAborted r, (clear_work j)\<lparr>tree_state := Aborted_State, terminal := Some (TerminalAborted r)\<rparr>)"

definition cancel_job ::
  "module_tree_abort_reason \<Rightarrow> 'u module_script_tree_job \<Rightarrow> 'u module_tree_poll \<times> 'u module_script_tree_job" where
  "cancel_job r j = abort r j"


subsection \<open>Fetching\<close>

definition queue_fetch_request :: "'u module_fetch_request \<Rightarrow> 'u module_script_tree_job \<Rightarrow> 'u module_script_tree_job" where
  "queue_fetch_request r j = j\<lparr>queued_fetches := queued_fetches j @ [r]\<rparr>"

definition load_of :: "'u module_fetch_request \<Rightarrow> 'u pending_module_load" where
  "load_of r = \<lparr>load_key = req_key r, load_phase = req_phase r, load_graph_level = req_graph_level r\<rparr>"

definition register_fetch ::
  "('h, 'u) module_host \<Rightarrow> 'u module_fetch_request \<Rightarrow> 'h \<Rightarrow> 'u module_script_tree_job \<Rightarrow>
   'u module_fetch_request option \<times> 'h \<times> 'u module_script_tree_job" where
  "register_fetch H r h j =
     (let j = j\<lparr>pending_clients := (pending_clients j)(req_client r \<mapsto> load_of r)\<rparr>;
          (d, h) = start_or_join_single_module_fetch H r (req_client r) h in
      case d of
        StartedNetworkFetch _ \<Rightarrow> (Some r, h, j)
      | JoinedExistingFetch \<Rightarrow> (None, h, j\<lparr>joined_fetches := joined_fetches j @ [r]\<rparr>)
      | Completed outcome \<Rightarrow>
          (None, h, j\<lparr>queued_completions := queued_completions j @
             [\<lparr>result_key = req_key r, result_client = req_client r, result_phase = req_phase r,
               result_outcome = outcome\<rparr>]\<rparr>))"

fun flush_loop ::
  "('h, 'u) module_host \<Rightarrow> 'u module_fetch_request list \<Rightarrow> 'h \<Rightarrow> 'u module_script_tree_job \<Rightarrow>
   'u module_fetch_request list \<times> 'h \<times> 'u module_script_tree_job" where
  "flush_loop H [] h j = ([], h, j\<lparr>queued_fetches := []\<rparr>)"
| "flush_loop H (r # rs) h j =
     (let (f, h, j) = register_fetch H r h (j\<lparr>queued_fetches := rs\<rparr>);
          (fs, h, j) = flush_loop H rs h j in
      (case f of Some r \<Rightarrow> r # fs | None \<Rightarrow> fs, h, j))"

definition flush_or_wait :: "('h, 'u) module_host \<Rightarrow> 'h \<Rightarrow> 'u module_script_tree_job \<Rightarrow> ('h, 'u) job_result" where
  "flush_or_wait H h j =
     (let (fetches, h, j) = (if queued_fetches j \<noteq> [] then flush_loop H (queued_fetches j) h j else ([], h, j)) in
      if fetches \<noteq> [] then (NeedFetches fetches, h, j)
      else if pending_clients j \<noteq> Map.empty then (WaitingForSingleModuleClients (pending_client_count j), h, j)
      else (PollPending, h, j))"

definition link_if_ready :: "('h, 'u) module_host \<Rightarrow> 'h \<Rightarrow> 'u module_script_tree_job \<Rightarrow> ('h, 'u) job_result" where
  "link_if_ready H h j =
     (if queued_fetches j \<noteq> [] \<or> pending_clients j \<noteq> Map.empty then flush_or_wait H h j
      else
        (case first_parse_error H j of
           Some e \<Rightarrow> fail e h j
         | None \<Rightarrow>
             (case root_entry j of
                None \<Rightarrow> fail (load_error_new StageLink ''module tree reached link without root entry'') h j
              | Some re \<Rightarrow>
                  (let j = j\<lparr>tree_state := Linking\<rparr>;
                       (res, h) = link_module_graph H re (job_entries j) (dependency_edges j) h in
                   case res of
                     Inr g \<Rightarrow> (PollComplete g, h, j\<lparr>tree_state := Finished, terminal := Some (TerminalComplete g)\<rparr>)
                   | Inl e \<Rightarrow> fail e h j))))"

definition flush_or_link :: "('h, 'u) module_host \<Rightarrow> 'h \<Rightarrow> 'u module_script_tree_job \<Rightarrow> ('h, 'u) job_result" where
  "flush_or_link H h j = (if queued_fetches j \<noteq> [] then flush_or_wait H h j else link_if_ready H h j)"

definition finish_after_parse_error :: "('h, 'u) module_host \<Rightarrow> 'h \<Rightarrow> 'u module_script_tree_job \<Rightarrow> ('h, 'u) job_result" where
  "finish_after_parse_error H h j =
     (if queued_fetches j \<noteq> [] \<or> pending_clients j \<noteq> Map.empty then flush_or_wait H h j
      else
        fail (case first_parse_error H j of
                Some e \<Rightarrow> e
              | None \<Rightarrow> with_error_constructor SyntaxErrorCtor
                  (load_error_new StageCompile ''module source had a parse error'')) h j)"

definition is_parse_error :: "'u module_load_error \<Rightarrow> bool" where
  "is_parse_error e \<longleftrightarrow> error_constructor e = Some SyntaxErrorCtor"

definition finish_module_load_error ::
  "('h, 'u) module_host \<Rightarrow> 'u module_map_key \<Rightarrow> 'u module_load_error \<Rightarrow> 'h \<Rightarrow> 'u module_script_tree_job \<Rightarrow> ('h, 'u) job_result" where
  "finish_module_load_error H request_key e h j =
     (if \<not> is_parse_error e then fail e h j
      else
        finish_after_parse_error H h
          (record_parse_error (case error_key e of Some k \<Rightarrow> k | None \<Rightarrow> request_key) e j))"


subsection \<open>Discovering dependencies\<close>

record 'u dependency_candidate =
  cand_resolved :: "'u resolved_module_request"
  cand_specifier :: string
  cand_phase :: module_import_phase
  cand_previous_phase :: "module_import_phase option"
  cand_position :: text_position

definition dependency_snapshot_with_tree_context ::
  "'u module_dependency_snapshot \<Rightarrow> 'u module_script_tree_job \<Rightarrow> 'u module_dependency_snapshot" where
  "dependency_snapshot_with_tree_context snap j =
     (case entry_contexts j (snap_entry snap) of
        Some c \<Rightarrow> snap\<lparr>snap_key := context_key c, snap_base_url := context_base_url c, snap_metadata := context_metadata c\<rparr>
      | None \<Rightarrow> snap)"

text \<open>A second request for a key in the same module strengthens the first candidate for it.\<close>

fun merge_candidate :: "'u dependency_candidate \<Rightarrow> 'u dependency_candidate list \<Rightarrow> 'u dependency_candidate list" where
  "merge_candidate c [] = [c]"
| "merge_candidate c (d # ds) =
     (if resolved_key (cand_resolved d) = resolved_key (cand_resolved c)
      then d\<lparr>cand_phase := strongest (cand_phase d) (cand_phase c)\<rparr> # ds
      else d # merge_candidate c ds)"

definition note_dependency ::
  "'u module_dependency_snapshot \<Rightarrow> module_request_record \<Rightarrow> 'u resolved_module_request \<Rightarrow>
   'u module_script_tree_job \<Rightarrow> 'u module_script_tree_job" where
  "note_dependency snap rec r j =
     (let k = resolved_key r;
          existing = queued_or_visited j k;
          strong = strongest (case existing of Some p \<Rightarrow> p | None \<Rightarrow> request_phase rec) (request_phase rec);
          j = j\<lparr>queued_or_visited := (queued_or_visited j)(k \<mapsto> strong)\<rparr>;
          j = (if existing = None then record_module_order k j else j) in
      j\<lparr>dependency_edges := dependency_edges j @
          [\<lparr>edge_parent_key = snap_key snap, edge_parent_entry = snap_entry snap, edge_child_key = k,
            edge_specifier = specifier rec, edge_attributes = attributes rec, edge_phase = request_phase rec,
            edge_position = position rec\<rparr>]\<rparr>)"

fun collect_loop ::
  "('h, 'u) module_host \<Rightarrow> 'u module_dependency_snapshot \<Rightarrow> module_request_record list \<Rightarrow> 'u dependency_candidate list \<Rightarrow>
   'h \<Rightarrow> 'u module_script_tree_job \<Rightarrow>
   ('u module_load_error + 'u dependency_candidate list) \<times> 'h \<times> 'u module_script_tree_job" where
  "collect_loop H snap [] cs h j = (Inr cs, h, j)"
| "collect_loop H snap (rec # recs) cs h j =
     (let (res, h) = resolve_module_request H (specifier rec) (snap_base_url snap) (attributes rec) (request_phase rec) h in
      case res of
        Inl e \<Rightarrow> (Inl e, h, j)
      | Inr r \<Rightarrow>
          collect_loop H snap recs
            (merge_candidate \<lparr>cand_resolved = r, cand_specifier = specifier rec, cand_phase = request_phase rec,
               cand_previous_phase = queued_or_visited j (resolved_key r), cand_position = position rec\<rparr> cs)
            h (note_dependency snap rec r j))"

definition collect_dependency_candidates ::
  "('h, 'u) module_host \<Rightarrow> 'u module_dependency_snapshot \<Rightarrow> 'h \<Rightarrow> 'u module_script_tree_job \<Rightarrow>
   ('u module_load_error + 'u dependency_candidate list) \<times> 'h \<times> 'u module_script_tree_job" where
  "collect_dependency_candidates H snap h j = collect_loop H snap (requested_modules snap) [] h j"

definition parent_of :: "'u module_dependency_snapshot \<Rightarrow> 'u parent_module_ref" where
  "parent_of snap = \<lparr>parent_ref_key = snap_key snap, parent_ref_entry = snap_entry snap,
     parent_ref_base = snap_base_url snap, parent_ref_metadata = snap_metadata snap\<rparr>"

definition dependency_fetch_request ::
  "('h, 'u) module_host \<Rightarrow> 'u module_dependency_snapshot \<Rightarrow> 'u parent_module_ref \<Rightarrow> 'u dependency_candidate \<Rightarrow> client_token \<Rightarrow>
   'u module_script_tree_job \<Rightarrow> 'u module_fetch_request" where
  "dependency_fetch_request H snap parent c client j =
     \<lparr>req_key = resolved_key (cand_resolved c), req_tree_id = tree_id j, req_client = client,
      req_specifier = Some (cand_specifier c), req_source_url = resolved_source_url (cand_resolved c),
      req_base_url = resolved_base_url (cand_resolved c), req_initiator_url = snap_base_url snap,
      req_referrer = referrer_from_url (url_as_str H) (snap_base_url snap), req_position = cand_position c,
      req_parent = Some parent, req_kind = resolved_kind (cand_resolved c),
      req_attributes = resolved_attributes (cand_resolved c), req_phase = cand_phase c,
      req_graph_level = Dependent,
      req_metadata = (descendant (snap_metadata snap))\<lparr>integrity := resolved_integrity (cand_resolved c)\<rparr>,
      req_render_blocking = NonBlocking, req_requester = requester (owner (job_config j)),
      req_ordering = ordering (owner (job_config j)), req_custom = custom_fetch_type (job_config j)\<rparr>"

definition queue_candidate ::
  "('h, 'u) module_host \<Rightarrow> 'u module_dependency_snapshot \<Rightarrow> 'u dependency_candidate \<Rightarrow> 'u module_script_tree_job \<Rightarrow> 'u module_script_tree_job" where
  "queue_candidate H snap c j =
     (if cand_previous_phase c = Some (cand_phase c) then j
      else
        (let (client, j) = next_single_module_client j in
         queue_fetch_request (dependency_fetch_request H snap (parent_of snap) c client j) j))"

definition discover_dependencies ::
  "('h, 'u) module_host \<Rightarrow> module_entry_id \<Rightarrow> 'h \<Rightarrow> 'u module_script_tree_job \<Rightarrow> ('h, 'u) job_result" where
  "discover_dependencies H e h j =
     (case module_dependencies H e h of
        Inl err \<Rightarrow> fail err h j
      | Inr snap \<Rightarrow>
          (let snap = dependency_snapshot_with_tree_context snap j in
           if requested_modules snap = [] then link_if_ready H h j
           else
             (let (res, h, j) = collect_dependency_candidates H snap h j in
              case res of
                Inl err \<Rightarrow> fail err h j
              | Inr cs \<Rightarrow> flush_or_link H h (fold (queue_candidate H snap) cs j))))"


subsection \<open>Starting, resuming and driving\<close>

definition root_fetch_request ::
  "'u module_external_root \<Rightarrow> 'u module_map_key \<Rightarrow> module_kind \<Rightarrow> client_token \<Rightarrow> 'u module_script_tree_job \<Rightarrow> 'u module_fetch_request" where
  "root_fetch_request r key kind client j =
     \<lparr>req_key = key, req_tree_id = tree_id j, req_client = client, req_specifier = None,
      req_source_url = ext_source_url r, req_base_url = ext_base_url r, req_initiator_url = ext_initiator_url r,
      req_referrer = ext_referrer r, req_position = ext_position r, req_parent = None, req_kind = kind,
      req_attributes = ext_attributes r, req_phase = ext_phase r, req_graph_level = TopLevel,
      req_metadata = ext_metadata r, req_render_blocking = Blocking,
      req_requester = requester (owner (job_config j)), req_ordering = ordering (owner (job_config j)),
      req_custom = custom_fetch_type (job_config j)\<rparr>"

definition start_external_root ::
  "('h, 'u) module_host \<Rightarrow> 'u module_external_root \<Rightarrow> 'h \<Rightarrow> 'u module_script_tree_job \<Rightarrow> ('h, 'u) job_result" where
  "start_external_root H r h j =
     (let kind = (case ext_kind_hint r of Some k \<Rightarrow> k | None \<Rightarrow> JavaScript);
          key = \<lparr>key_url = ext_source_url r, key_kind = kind, key_attributes = ext_attributes r\<rparr>;
          j = j\<lparr>root_key := Some key, queued_or_visited := (queued_or_visited j)(key \<mapsto> ext_phase r)\<rparr>;
          j = (record_module_order key j)\<lparr>tree_state := FetchingRoot\<rparr>;
          (client, j) = next_single_module_client j in
      flush_or_wait H h (queue_fetch_request (root_fetch_request r key kind client j) j))"

definition start_inline_root ::
  "('h, 'u) module_host \<Rightarrow> 'u module_inline_root \<Rightarrow> 'h \<Rightarrow> 'u module_script_tree_job \<Rightarrow> ('h, 'u) job_result" where
  "start_inline_root H r h j =
     (let j = j\<lparr>root_key := Some (inl_root_key r), root_entry := Some (inl_root_entry r),
                queued_or_visited := (queued_or_visited j)(inl_root_key r \<mapsto> inl_phase r)\<rparr>;
          j = record_module_order (inl_root_key r) j;
          j = record_entry_context (inl_root_entry r)
                \<lparr>context_key = inl_root_key r, context_base_url = inl_base_url r, context_metadata = inl_metadata r\<rparr> j;
          j = (add_entry (inl_root_entry r) (inl_phase r) j)\<lparr>tree_state := FetchingDependencies\<rparr> in
      if inl_phase r = Source then link_if_ready H h j
      else discover_dependencies H (inl_root_entry r) h j)"

definition start :: "('h, 'u) module_host \<Rightarrow> 'h \<Rightarrow> 'u module_script_tree_job \<Rightarrow> ('h, 'u) job_result" where
  "start H h j = (case root j of External r \<Rightarrow> start_external_root H r h j | Inline r \<Rightarrow> start_inline_root H r h j)"

text \<open>Polling panics only in a final state without a result.\<close>

definition poll_job :: "('h, 'u) module_host \<Rightarrow> 'h \<Rightarrow> 'u module_script_tree_job \<Rightarrow> ('h, 'u) job_result option" where
  "poll_job H h j =
     (case terminal j of
        Some t \<Rightarrow> Some (poll_terminal t, h, j)
      | None \<Rightarrow>
          if tree_state j = Initial then Some (start H h j)
          else if tree_state j \<in> {FetchingRoot, FetchingDependencies, Linking} then Some (flush_or_wait H h j)
          else None)"

text \<open>What a successful load adds to the job.\<close>

definition accept_module ::
  "('h, 'u) module_host \<Rightarrow> 'u pending_module_load \<Rightarrow> module_entry_id \<Rightarrow> 'u module_entry_context \<Rightarrow> bool \<Rightarrow> 'h \<Rightarrow>
   'u module_script_tree_job \<Rightarrow> ('h, 'u) job_result" where
  "accept_module H load e c had_parse_error h j =
     (let j = (if load_graph_level load = TopLevel
               then j\<lparr>root_entry := Some e, tree_state := FetchingDependencies\<rparr> else j);
          j = add_entry e (load_phase load) (record_entry_context e c j) in
      if had_parse_error then finish_after_parse_error H h j
      else if load_phase load = Source then link_if_ready H h j
      else discover_dependencies H e h j)"

definition note_parse_error ::
  "'u compiled_module_snapshot \<Rightarrow> 'u module_script_tree_job \<Rightarrow> bool \<times> 'u module_script_tree_job" where
  "note_parse_error c j =
     (case parse_error c of
        Some e \<Rightarrow> (True, record_parse_error (compiled_key c) e j)
      | None \<Rightarrow>
          if has_parse_error c then
            (True, record_parse_error (compiled_key c)
               (with_error_constructor SyntaxErrorCtor (with_key (compiled_key c)
                  (load_error_new StageCompile ''module source had a parse error''))) j)
          else (False, j))"

definition finish_module_load ::
  "('h, 'u) module_host \<Rightarrow> 'u pending_module_load \<Rightarrow> 'u module_fetch_outcome \<Rightarrow> 'h \<Rightarrow> 'u module_script_tree_job \<Rightarrow> ('h, 'u) job_result" where
  "finish_module_load H load outcome h j =
     (case outcome of
        Fetched src \<Rightarrow>
          (let c = \<lparr>context_key = fetched_key src, context_base_url = fetched_base_url src,
                    context_metadata = fetched_metadata src\<rparr>;
               (res, h) = compile_module_source H src (load_phase load) h in
           case res of
             Inl e \<Rightarrow>
               (let (_, h) = mark_module_failed H (load_key load) e h in
                finish_module_load_error H (load_key load) e h j)
           | Inr compiled \<Rightarrow>
               (let (bad, j) = note_parse_error compiled j in
                accept_module H load (compiled_entry compiled) c bad h j))
      | Ready m \<Rightarrow>
          accept_module H load (ready_entry m)
            \<lparr>context_key = ready_key m, context_base_url = ready_base_url m, context_metadata = ready_metadata m\<rparr>
            False h j
      | LoadFailed e \<Rightarrow> finish_module_load_error H (load_key load) e h j)"

definition resume_single_module_outcome ::
  "('h, 'u) module_host \<Rightarrow> client_token \<Rightarrow> 'u module_fetch_outcome \<Rightarrow> 'h \<Rightarrow> 'u module_script_tree_job \<Rightarrow> ('h, 'u) job_result" where
  "resume_single_module_outcome H client outcome h j =
     (if tree_state j = Aborted_State \<or> tree_state j = Finished then (IgnoredStaleCompletion, h, j)
      else
        (case pending_clients j client of
           None \<Rightarrow> (IgnoredStaleCompletion, h, j)
         | Some load \<Rightarrow>
             finish_module_load H load outcome h (j\<lparr>pending_clients := (pending_clients j)(client := None)\<rparr>)))"

definition resume_single_module ::
  "('h, 'u) module_host \<Rightarrow> client_token \<Rightarrow> 'u module_fetch_result \<Rightarrow> 'h \<Rightarrow> 'u module_script_tree_job \<Rightarrow> ('h, 'u) job_result" where
  "resume_single_module H client result h j = resume_single_module_outcome H client (result_outcome result) h j"

definition finish_drive ::
  "'u module_fetch_request list \<Rightarrow> 'u module_tree_poll \<Rightarrow> 'u module_script_tree_job \<Rightarrow> 'u module_tree_drive \<times> 'u module_script_tree_job" where
  "finish_drive pending_fetches p j =
     (let joined = joined_fetches j; j = j\<lparr>joined_fetches := []\<rparr> in
      (if pending_fetches \<noteq> [] then DriveNeedFetches pending_fetches joined
       else case p of
         PollPending \<Rightarrow> DrivePending joined
       | NeedFetches fs \<Rightarrow> DriveNeedFetches fs joined
       | WaitingForSingleModuleClients n \<Rightarrow> DriveWaiting n joined
       | PollComplete g \<Rightarrow> DriveComplete g
       | PollFailed e \<Rightarrow> DriveFailed e
       | PollAborted r \<Rightarrow> DriveAborted r
       | IgnoredStaleCompletion \<Rightarrow> DriveIgnoredStale joined, j))"

partial_function (option) drive_loop ::
  "('h, 'u) module_host \<Rightarrow> 'u module_fetch_request list \<Rightarrow> 'u module_tree_poll \<Rightarrow> 'h \<Rightarrow> 'u module_script_tree_job \<Rightarrow>
   ('u module_tree_drive \<times> 'h \<times> 'u module_script_tree_job) option" where
  "drive_loop H fetches p h j =
     (case queued_completions j of
        [] \<Rightarrow> (let (d, j) = finish_drive fetches p j in Some (d, h, j))
      | c # cs \<Rightarrow>
          (let (p', h, j) = resume_single_module H (result_client c) c h (j\<lparr>queued_completions := cs\<rparr>) in
           case p' of
             NeedFetches fs \<Rightarrow> drive_loop H (fetches @ fs) p h j
           | PollFailed e \<Rightarrow> Some (DriveFailed e, h, j)
           | PollAborted r \<Rightarrow> Some (DriveAborted r, h, j)
           | PollComplete g \<Rightarrow> Some (DriveComplete g, h, j)
           | other \<Rightarrow> drive_loop H fetches other h j))"

definition drive_queued_completions ::
  "('h, 'u) module_host \<Rightarrow> ('h, 'u) job_result \<Rightarrow> ('u module_tree_drive \<times> 'h \<times> 'u module_script_tree_job) option" where
  "drive_queued_completions H r =
     (let (p, h, j) = r in
      case p of
        NeedFetches fs \<Rightarrow> drive_loop H fs PollPending h j
      | other \<Rightarrow> drive_loop H [] other h j)"

definition drive ::
  "('h, 'u) module_host \<Rightarrow> 'h \<Rightarrow> 'u module_script_tree_job \<Rightarrow> ('u module_tree_drive \<times> 'h \<times> 'u module_script_tree_job) option" where
  "drive H h j = Option.bind (poll_job H h j) (drive_queued_completions H)"

definition resume_single_module_outcome_and_drive ::
  "('h, 'u) module_host \<Rightarrow> client_token \<Rightarrow> 'u module_fetch_outcome \<Rightarrow> 'h \<Rightarrow> 'u module_script_tree_job \<Rightarrow>
   ('u module_tree_drive \<times> 'h \<times> 'u module_script_tree_job) option" where
  "resume_single_module_outcome_and_drive H client outcome h j =
     drive_queued_completions H (resume_single_module_outcome H client outcome h j)"

definition resume_single_module_and_drive ::
  "('h, 'u) module_host \<Rightarrow> client_token \<Rightarrow> 'u module_fetch_result \<Rightarrow> 'h \<Rightarrow> 'u module_script_tree_job \<Rightarrow>
   ('u module_tree_drive \<times> 'h \<times> 'u module_script_tree_job) option" where
  "resume_single_module_and_drive H client result h j =
     drive_queued_completions H (resume_single_module H client result h j)"

end
