(* ===== verification/Module_Tree.thy ===== *)
theory Module_Tree
  imports Module_Job "HOL-Library.Multiset"
begin

section \<open>Correctness of the module script tree\<close>

text \<open>
  The job never gets stuck, links only a closed graph without parse errors, and its drive loop ends
  whenever the host resolves imports into finitely many keys.  A log of the completed loads, kept
  beside the job by the reachability relation, says which modules have been loaded.
\<close>

subsection \<open>Candidates of one module\<close>

definition cand_key :: "'u dependency_candidate \<Rightarrow> 'u module_map_key" where
  "cand_key c = resolved_key (cand_resolved c)"

definition covers :: "module_import_phase \<Rightarrow> module_import_phase \<Rightarrow> bool" where
  "covers p q \<longleftrightarrow> p = Evaluation \<or> q = Source"

definition covered :: "'u pending_module_load set \<Rightarrow> 'u module_map_key \<Rightarrow> module_import_phase \<Rightarrow> bool" where
  "covered X k p \<longleftrightarrow> (\<exists>l\<in>X. load_key l = k \<and> covers (load_phase l) p)"

definition cand_strong :: "'u dependency_candidate \<Rightarrow> module_import_phase" where
  "cand_strong c = (case cand_previous_phase c of None \<Rightarrow> cand_phase c | Some q \<Rightarrow> strongest q (cand_phase c))"

text \<open>What holds between the candidates collected so far and the visited keys, when the loads of
  the set cover every key visited before.\<close>

definition cands_ok ::
  "'u pending_module_load set \<Rightarrow> 'u dependency_candidate list \<Rightarrow> ('u module_map_key \<rightharpoonup> module_import_phase) \<Rightarrow> bool" where
  "cands_ok X cs v \<longleftrightarrow> distinct (map cand_key cs) \<and>
     (\<forall>c\<in>set cs. v (cand_key c) = Some (cand_strong c)) \<and>
     (\<forall>c\<in>set cs. \<forall>q. cand_previous_phase c = Some q \<longrightarrow> covered X (cand_key c) q) \<and>
     (\<forall>k p. v k = Some p \<longrightarrow> k \<notin> cand_key ` set cs \<longrightarrow> covered X k p)"

definition eval_cand :: "'u dependency_candidate \<Rightarrow> bool" where
  "eval_cand c \<longleftrightarrow> cand_phase c = Evaluation \<and> cand_previous_phase c \<noteq> Some Evaluation"

definition open_keys ::
  "'u module_map_key set \<Rightarrow> ('u module_map_key \<rightharpoonup> module_import_phase) \<Rightarrow> nat" where
  "open_keys K v = card {k \<in> K. v k \<noteq> Some Evaluation}"

lemma phase_not_eval [simp]: "p \<noteq> Evaluation \<longleftrightarrow> p = Source" "p \<noteq> Source \<longleftrightarrow> p = Evaluation"
  by (cases p; simp)+

lemma covers_refl [simp]: "covers p p" "covers Evaluation q" "covers p Source"
  by (cases p; simp add: covers_def)+

lemma covered_mono: "covered X k p \<Longrightarrow> X \<subseteq> Y \<Longrightarrow> covered Y k p"
  by (auto simp: covered_def)

lemma merge_candidate_new:
  "cand_key c \<notin> cand_key ` set cs \<Longrightarrow> merge_candidate c cs = cs @ [c]"
  by (induction cs) (auto simp: cand_key_def)

lemma merge_candidate_old:
  "cand_key c \<in> cand_key ` set cs \<Longrightarrow> \<exists>as d bs. cs = as @ d # bs \<and> cand_key d = cand_key c \<and>
     merge_candidate c cs = as @ d\<lparr>cand_phase := strongest (cand_phase d) (cand_phase c)\<rparr> # bs"
proof (induction cs)
  case (Cons d ds)
  show ?case
  proof (cases "cand_key d = cand_key c")
    case True
    then show ?thesis by (intro exI [of _ "[]"] exI [of _ d] exI [of _ ds]) (simp add: cand_key_def)
  next
    case False
    with Cons obtain as e bs where "ds = as @ e # bs" "cand_key e = cand_key c"
      "merge_candidate c ds = as @ e\<lparr>cand_phase := strongest (cand_phase e) (cand_phase c)\<rparr> # bs"
      by auto
    with False show ?thesis
      by (intro exI [of _ "d # as"] exI [of _ e] exI [of _ bs]) (simp add: cand_key_def)
  qed
qed simp

text \<open>The phase recorded for the key of one more request.\<close>

definition visit :: "('u module_map_key \<rightharpoonup> module_import_phase) \<Rightarrow> 'u module_map_key \<Rightarrow> module_import_phase \<Rightarrow>
    ('u module_map_key \<rightharpoonup> module_import_phase)" where
  "visit v k p = v(k \<mapsto> strongest (case v k of Some q \<Rightarrow> q | None \<Rightarrow> p) p)"

lemma cand_update [simp]:
  "cand_key (d\<lparr>cand_phase := p\<rparr>) = cand_key d"
  by (simp add: cand_key_def)

lemma cands_ok_merge:
  assumes ok: "cands_ok X cs v" and prev: "cand_previous_phase c = v (cand_key c)"
  shows "cands_ok X (merge_candidate c cs) (visit v (cand_key c) (cand_phase c))"
proof (cases "cand_key c \<in> cand_key ` set cs")
  case False
  then have other: "cand_key x \<noteq> cand_key c" if "x \<in> set cs" for x using that by (metis imageI)
  show ?thesis
    using ok prev other False unfolding cands_ok_def merge_candidate_new [OF False]
    by (auto simp: visit_def cand_strong_def [of c] split: option.split)
next
  case True
  from merge_candidate_old [OF this] obtain as d bs where cs: "cs = as @ d # bs" and k: "cand_key d = cand_key c"
    and m: "merge_candidate c cs = as @ d\<lparr>cand_phase := strongest (cand_phase d) (cand_phase c)\<rparr> # bs" by blast
  have vd: "v (cand_key c) = Some (cand_strong d)" using ok cs k by (simp add: cands_ok_def)
  have s: "strongest (cand_strong d) (cand_phase c) =
      cand_strong (d\<lparr>cand_phase := strongest (cand_phase d) (cand_phase c)\<rparr>)"
    by (simp add: cand_strong_def strongest_def split: option.split)
  let ?d = "d\<lparr>cand_phase := strongest (cand_phase d) (cand_phase c)\<rparr>"
  have dist: "distinct (map cand_key (as @ d # bs))" using ok cs by (simp add: cands_ok_def)
  then have other: "cand_key x \<noteq> cand_key c" if "x \<in> set as \<union> set bs" for x
    using that k by (metis UnE distinct.simps(2) distinct_append image_eqI list.map(2) list.set_map map_append
        not_distinct_conv_prefix disjoint_insert(1) list.simps(15))
  have strong: "visit v (cand_key c) (cand_phase c) (cand_key x) = Some (cand_strong x)"
    if "x \<in> set (as @ ?d # bs)" for x
    using that ok other vd s by (auto simp: cands_ok_def cs k visit_def)
  have prevs: "covered X (cand_key x) q" if "x \<in> set (as @ ?d # bs)" "cand_previous_phase x = Some q" for x q
    using that ok by (auto simp: cands_ok_def cs)
  have rest: "covered X k' p" if "visit v (cand_key c) (cand_phase c) k' = Some p" "k' \<notin> cand_key ` set (as @ ?d # bs)" for k' p
    using that ok k by (auto simp: cands_ok_def cs visit_def split: if_splits)
  show ?thesis
    unfolding cands_ok_def m using dist strong prevs rest by (simp del: set_append set_simps)
qed

lemma open_keys_visit:
  assumes "finite K" "k \<in> K"
  shows "open_keys K (visit v k p) + (if p = Evaluation \<and> v k \<noteq> Some Evaluation then 1 else 0) = open_keys K v"
proof (cases "p = Evaluation \<and> v k \<noteq> Some Evaluation")
  case True
  then have "{k' \<in> K. v k' \<noteq> Some Evaluation} = insert k {k' \<in> K. visit v k p k' \<noteq> Some Evaluation}"
    using assms by (auto simp: visit_def split: option.splits)
  moreover have "k \<notin> {k' \<in> K. visit v k p k' \<noteq> Some Evaluation}" using True by (simp add: visit_def)
  ultimately show ?thesis using True assms by (simp add: open_keys_def)
next
  case False
  then have "visit v k p k' \<noteq> Some Evaluation \<longleftrightarrow> v k' \<noteq> Some Evaluation" for k'
    by (cases p; cases "v k") (auto simp: visit_def strongest_def)
  with False show ?thesis by (simp add: open_keys_def)
qed

lemma eval_cands_merge:
  assumes fin: "finite K" "cand_key c \<in> K" and ok: "cands_ok X cs v" and prev: "cand_previous_phase c = v (cand_key c)"
  shows "length (filter eval_cand (merge_candidate c cs)) + open_keys K (visit v (cand_key c) (cand_phase c))
     \<le> length (filter eval_cand cs) + open_keys K v"
proof (cases "cand_key c \<in> cand_key ` set cs")
  case False
  with open_keys_visit [OF fin, of v "cand_phase c"] prev show ?thesis
    by (cases "cand_phase c") (auto simp: merge_candidate_new eval_cand_def split: if_splits)
next
  case True
  from merge_candidate_old [OF this] obtain as d bs where cs: "cs = as @ d # bs" and k: "cand_key d = cand_key c"
    and m: "merge_candidate c cs = as @ d\<lparr>cand_phase := strongest (cand_phase d) (cand_phase c)\<rparr> # bs" by blast
  have vd: "v (cand_key c) = Some (cand_strong d)" using ok cs k by (simp add: cands_ok_def)
  show ?thesis
    using open_keys_visit [OF fin, of v "cand_phase c"] vd unfolding m unfolding cs
    by (cases "cand_phase d"; cases "cand_phase c"; cases "cand_previous_phase d")
       (auto simp: eval_cand_def cand_strong_def split: if_splits)
qed


subsection \<open>Collecting and queueing\<close>

definition same_work :: "'u module_script_tree_job \<Rightarrow> 'u module_script_tree_job \<Rightarrow> bool" where
  "same_work j j' \<longleftrightarrow> (\<exists>v es ks. j' = j\<lparr>queued_or_visited := v, dependency_edges := es, module_order := ks\<rparr>)"

definition edge_for :: "module_entry_id \<Rightarrow> module_request_record \<Rightarrow> 'u module_dependency_edge \<Rightarrow> bool" where
  "edge_for n rec e \<longleftrightarrow> edge_parent_entry e = n \<and> edge_specifier e = specifier rec \<and>
     edge_attributes e = attributes rec \<and> edge_phase e = request_phase rec"

definition edges_visited :: "'u module_script_tree_job \<Rightarrow> bool" where
  "edges_visited j \<longleftrightarrow>
     (\<forall>e\<in>set (dependency_edges j). \<exists>p. queued_or_visited j (edge_child_key e) = Some p \<and> covers p (edge_phase e))"

definition resolves_into :: "('h, 'u) module_host \<Rightarrow> 'u module_map_key set \<Rightarrow> bool" where
  "resolves_into H K \<longleftrightarrow>
     (\<forall>s b a p h r h'. resolve_module_request H s b a p h = (Inr r, h') \<longrightarrow> resolved_key r \<in> K)"

lemma note_dependency_visited [simp]:
  "queued_or_visited (note_dependency snap rec r j) = visit (queued_or_visited j) (resolved_key r) (request_phase rec)"
  by (simp add: note_dependency_def Let_def visit_def record_module_order_def)

lemma note_dependency_edges:
  "\<exists>e. dependency_edges (note_dependency snap rec r j) = dependency_edges j @ [e] \<and>
     edge_for (snap_entry snap) rec e \<and> edge_child_key e = resolved_key r"
  by (simp add: note_dependency_def Let_def edge_for_def record_module_order_def)

lemma note_dependency_same_work: "same_work j (note_dependency snap rec r j)"
proof -
  have "note_dependency snap rec r j =
      j\<lparr>queued_or_visited := queued_or_visited (note_dependency snap rec r j),
        dependency_edges := dependency_edges (note_dependency snap rec r j),
        module_order := module_order (note_dependency snap rec r j)\<rparr>"
    by (simp add: note_dependency_def Let_def record_module_order_def)
  then show ?thesis unfolding same_work_def by blast
qed

lemma same_work_trans: "same_work j j' \<Longrightarrow> same_work j' j'' \<Longrightarrow> same_work j j''"
  by (auto simp: same_work_def) (metis (no_types, lifting) module_script_tree_job.surjective
      module_script_tree_job.update_convs(10,14,18))

lemma visit_covers: "v k = Some p \<Longrightarrow> covers p q \<Longrightarrow> \<exists>p'. visit v k' r k = Some p' \<and> covers p' q"
  by (cases "k = k'"; cases p; cases r) (auto simp: visit_def covers_def)

lemma note_dependency_edges_visited:
  assumes "edges_visited j"
  shows "edges_visited (note_dependency snap rec r j)"
proof -
  from note_dependency_edges [of snap rec r j] obtain e where
    e: "dependency_edges (note_dependency snap rec r j) = dependency_edges j @ [e]"
       "edge_for (snap_entry snap) rec e" "edge_child_key e = resolved_key r" by blast
  have "\<exists>p. visit (queued_or_visited j) (resolved_key r) (request_phase rec) (resolved_key r) = Some p \<and>
      covers p (request_phase rec)"
    by (cases "request_phase rec") (simp_all add: visit_def)
  with e assms visit_covers show ?thesis unfolding edges_visited_def by (fastforce simp: edge_for_def)
qed

lemma collect_loop_frame:
  assumes "collect_loop H snap recs cs h j = (Inr cs', h', j')"
  shows "same_work j j' \<and> set (dependency_edges j) \<subseteq> set (dependency_edges j') \<and>
     (\<forall>rec\<in>set recs. \<exists>e\<in>set (dependency_edges j'). edge_for (snap_entry snap) rec e) \<and>
     (edges_visited j \<longrightarrow> edges_visited j')"
  using assms
proof (induction H snap recs cs h j rule: collect_loop.induct)
  case (1 H snap cs h j)
  have "same_work j j" unfolding same_work_def
    by (intro exI [of _ "queued_or_visited j"] exI [of _ "dependency_edges j"] exI [of _ "module_order j"]) simp
  with 1 show ?case by simp
next
  case (2 H snap rec recs cs h j)
  obtain res h1 where r: "resolve_module_request H (specifier rec) (snap_base_url snap) (attributes rec) (request_phase rec) h
      = (res, h1)" by fastforce
  with 2(2) obtain q where q: "res = Inr q" by (cases res) auto
  let ?j = "note_dependency snap rec q j"
  have ih: "same_work ?j j' \<and> set (dependency_edges ?j) \<subseteq> set (dependency_edges j') \<and>
     (\<forall>rec\<in>set recs. \<exists>e\<in>set (dependency_edges j'). edge_for (snap_entry snap) rec e) \<and>
     (edges_visited ?j \<longrightarrow> edges_visited j')"
    using 2(1) [OF r [symmetric] refl q] 2(2) by (simp add: r q)
  with note_dependency_edges [of snap rec q j] note_dependency_edges_visited [of j snap rec q]
    same_work_trans [OF note_dependency_same_work, of snap rec q j j']
  show ?case by auto
qed

lemma collect_loop_cands:
  assumes "collect_loop H snap recs cs h j = (Inr cs', h', j')" and "cands_ok X cs (queued_or_visited j)"
  shows "cands_ok X cs' (queued_or_visited j') \<and>
     (finite K \<longrightarrow> resolves_into H K \<longrightarrow>
       length (filter eval_cand cs') + open_keys K (queued_or_visited j')
         \<le> length (filter eval_cand cs) + open_keys K (queued_or_visited j))"
  using assms
proof (induction H snap recs cs h j rule: collect_loop.induct)
  case (1 H snap cs h j)
  then show ?case by simp
next
  case (2 H snap rec recs cs h j)
  obtain res h1 where r: "resolve_module_request H (specifier rec) (snap_base_url snap) (attributes rec) (request_phase rec) h
      = (res, h1)" by fastforce
  with 2(2) obtain q where q: "res = Inr q" by (cases res) auto
  define c where "c = \<lparr>cand_resolved = q, cand_specifier = specifier rec, cand_phase = request_phase rec,
      cand_previous_phase = queued_or_visited j (resolved_key q), cand_position = position rec\<rparr>"
  have c: "cand_key c = resolved_key q" "cand_phase c = request_phase rec"
    "cand_previous_phase c = queued_or_visited j (cand_key c)" by (simp_all add: c_def cand_key_def)
  have run: "collect_loop H snap recs (merge_candidate c cs) h1 (note_dependency snap rec q j) = (Inr cs', h', j')"
    using 2(2) by (simp add: r q c_def)
  have ok: "cands_ok X (merge_candidate c cs) (queued_or_visited (note_dependency snap rec q j))"
    using cands_ok_merge [OF 2(3) c(3)] by (simp add: c)
  have step: "length (filter eval_cand (merge_candidate c cs)) + open_keys K (queued_or_visited (note_dependency snap rec q j))
      \<le> length (filter eval_cand cs) + open_keys K (queued_or_visited j)" if "finite K" "resolves_into H K"
  proof -
    have "cand_key c \<in> K" using that(2) r q unfolding resolves_into_def c(1) by blast
    from eval_cands_merge [OF that(1) this 2(3) c(3)] show ?thesis by (simp add: c)
  qed
  from 2(1) [OF r [symmetric] refl q run [unfolded c_def] ok [unfolded c_def]] step show ?case
    unfolding c_def by (meson le_trans)
qed


definition wanted :: "'u dependency_candidate list \<Rightarrow> 'u dependency_candidate list" where
  "wanted cs = filter (\<lambda>c. cand_previous_phase c \<noteq> Some (cand_phase c)) cs"

lemma queue_candidates:
  "\<exists>reqs. fold (queue_candidate H snap) cs j =
       j\<lparr>queued_fetches := queued_fetches j @ reqs,
         next_single_client_sequence := next_single_client_sequence j + length reqs\<rparr> \<and>
     map (\<lambda>r. (req_key r, req_phase r)) reqs = map (\<lambda>c. (cand_key c, cand_phase c)) (wanted cs) \<and>
     map (token_sequence \<circ> req_client) reqs =
       [next_single_client_sequence j ..< next_single_client_sequence j + length reqs]"
proof (induction cs arbitrary: j)
  case Nil
  then show ?case by (simp add: wanted_def)
next
  case (Cons c cs)
  show ?case
  proof (cases "cand_previous_phase c = Some (cand_phase c)")
    case True
    with Cons [of j] show ?thesis by (simp add: queue_candidate_def wanted_def)
  next
    case False
    define r where "r = dependency_fetch_request H snap (parent_of snap) c
        \<lparr>token_tree = tree_id j, token_sequence = next_single_client_sequence j\<rparr>
        (j\<lparr>next_single_client_sequence := next_single_client_sequence j + 1\<rparr>)"
    have r: "req_key r = cand_key c" "req_phase r = cand_phase c"
      "token_sequence (req_client r) = next_single_client_sequence j"
      by (simp_all add: r_def dependency_fetch_request_def cand_key_def)
    let ?j = "j\<lparr>queued_fetches := queued_fetches j @ [r], next_single_client_sequence := next_single_client_sequence j + 1\<rparr>"
    have q: "queue_candidate H snap c j = ?j"
      using False by (simp add: queue_candidate_def next_single_module_client_def queue_fetch_request_def r_def)
    from Cons [of ?j] obtain reqs where
      reqs: "fold (queue_candidate H snap) cs ?j =
         ?j\<lparr>queued_fetches := queued_fetches ?j @ reqs,
            next_single_client_sequence := next_single_client_sequence ?j + length reqs\<rparr>"
      "map (\<lambda>r. (req_key r, req_phase r)) reqs = map (\<lambda>c. (cand_key c, cand_phase c)) (wanted cs)"
      "map (token_sequence \<circ> req_client) reqs =
         [next_single_client_sequence ?j ..< next_single_client_sequence ?j + length reqs]" by blast
    have "fold (queue_candidate H snap) (c # cs) j =
       j\<lparr>queued_fetches := queued_fetches j @ r # reqs,
         next_single_client_sequence := next_single_client_sequence j + length (r # reqs)\<rparr>"
      using reqs(1) by (simp add: q)
    moreover have "map (\<lambda>r. (req_key r, req_phase r)) (r # reqs) = map (\<lambda>c. (cand_key c, cand_phase c)) (wanted (c # cs))"
      using reqs(2) False r by (simp add: wanted_def)
    moreover have "map (token_sequence \<circ> req_client) (r # reqs) =
       [next_single_client_sequence j ..< next_single_client_sequence j + length (r # reqs)]"
      using reqs(3) r by (auto simp: upt_rec [of "next_single_client_sequence j"] Suc_le_eq)
    ultimately show ?thesis by blast
  qed
qed


subsection \<open>Registering the queued fetches\<close>

definition pend_all :: "'u module_fetch_request list \<Rightarrow> (client_token \<rightharpoonup> 'u pending_module_load) \<Rightarrow>
    (client_token \<rightharpoonup> 'u pending_module_load)" where
  "pend_all rs m = fold (\<lambda>r m. m(req_client r \<mapsto> load_of r)) rs m"

text \<open>Tokens are fresh: no two outstanding requests of the job share one.\<close>

definition fresh :: "'u module_script_tree_job \<Rightarrow> bool" where
  "fresh j \<longleftrightarrow> finite (dom (pending_clients j)) \<and>
     (\<forall>t \<in> dom (pending_clients j) \<union> req_client ` set (queued_fetches j). token_sequence t < next_single_client_sequence j) \<and>
     distinct (map req_client (queued_fetches j)) \<and>
     dom (pending_clients j) \<inter> req_client ` set (queued_fetches j) = {}"

definition eval_clients :: "(client_token \<rightharpoonup> 'u pending_module_load) \<Rightarrow> client_token set" where
  "eval_clients m = {t. \<exists>l. m t = Some l \<and> load_phase l = Evaluation}"

lemma pend_all_simps [simp]:
  "pend_all [] m = m" "pend_all (r # rs) m = pend_all rs (m(req_client r \<mapsto> load_of r))"
  by (simp_all add: pend_all_def)

lemma dom_pend_all [simp]: "dom (pend_all rs m) = dom m \<union> req_client ` set rs"
  by (induction rs arbitrary: m) auto

lemma ran_pend_all:
  "distinct (map req_client rs) \<Longrightarrow> dom m \<inter> req_client ` set rs = {} \<Longrightarrow>
   ran (pend_all rs m) = ran m \<union> load_of ` set rs"
proof (induction rs arbitrary: m)
  case (Cons r rs)
  then have "m (req_client r) = None" by auto
  with Cons show ?case by auto
qed simp

lemma eval_clients_pend_all:
  "distinct (map req_client rs) \<Longrightarrow> dom m \<inter> req_client ` set rs = {} \<Longrightarrow> finite (dom m) \<Longrightarrow>
   card (eval_clients (pend_all rs m)) =
     card (eval_clients m) + length (filter (\<lambda>r. req_phase r = Evaluation) rs)"
proof (induction rs arbitrary: m)
  case (Cons r rs)
  have fin: "finite (eval_clients m)"
    by (rule finite_subset [OF _ Cons.prems(3)]) (auto simp: eval_clients_def)
  have n: "m (req_client r) = None" using Cons.prems by auto
  have "eval_clients (m(req_client r \<mapsto> load_of r)) =
      (if req_phase r = Evaluation then insert (req_client r) (eval_clients m) else eval_clients m)"
    using n by (auto simp: eval_clients_def load_of_def)
  moreover have "req_client r \<notin> eval_clients m" using n by (simp add: eval_clients_def)
  ultimately show ?case using Cons fin by auto
qed simp

text \<open>Flushing registers every queued request, and each of them is handed to the caller, remembered
  as joined, or completed on the spot: none is lost.\<close>

lemma flush_loop_effect:
  "\<exists>fs h' cs js. flush_loop H rs h j =
     (fs, h', j\<lparr>pending_clients := pend_all rs (pending_clients j), queued_fetches := [],
        queued_completions := queued_completions j @ cs, joined_fetches := joined_fetches j @ js\<rparr>) \<and>
     mset (map req_client rs) = mset (map req_client fs) + mset (map req_client js) + mset (map result_client cs)"
proof (induction rs arbitrary: h j)
  case Nil
  show ?case by (intro exI [of _ "[]"] exI [of _ h]) simp
next
  case (Cons r rs)
  obtain d h1 where d: "start_or_join_single_module_fetch H r (req_client r) h = (d, h1)" by fastforce
  let ?j = "j\<lparr>queued_fetches := rs, pending_clients := (pending_clients j)(req_client r \<mapsto> load_of r)\<rparr>"
  show ?case
  proof (cases d)
    case (StartedNetworkFetch n)
    from Cons [of h1 ?j] obtain fs h' cs js where ih: "flush_loop H rs h1 ?j =
       (fs, h', ?j\<lparr>pending_clients := pend_all rs (pending_clients ?j), queued_fetches := [],
        queued_completions := queued_completions ?j @ cs, joined_fetches := joined_fetches ?j @ js\<rparr>)"
       "mset (map req_client rs) = mset (map req_client fs) + mset (map req_client js) + mset (map result_client cs)"
      by blast
    then show ?thesis using d StartedNetworkFetch
      by (intro exI [of _ "r # fs"] exI [of _ h'] exI [of _ cs] exI [of _ js]) (simp add: register_fetch_def)
  next
    case JoinedExistingFetch
    let ?j1 = "?j\<lparr>joined_fetches := joined_fetches j @ [r]\<rparr>"
    from Cons [of h1 ?j1] obtain fs h' cs js where ih: "flush_loop H rs h1 ?j1 =
       (fs, h', ?j1\<lparr>pending_clients := pend_all rs (pending_clients ?j1), queued_fetches := [],
        queued_completions := queued_completions ?j1 @ cs, joined_fetches := joined_fetches ?j1 @ js\<rparr>)"
       "mset (map req_client rs) = mset (map req_client fs) + mset (map req_client js) + mset (map result_client cs)"
      by blast
    then show ?thesis using d JoinedExistingFetch
      by (intro exI [of _ fs] exI [of _ h'] exI [of _ cs] exI [of _ "r # js"]) (simp add: register_fetch_def)
  next
    case (Completed out)
    let ?c = "\<lparr>result_key = req_key r, result_client = req_client r, result_phase = req_phase r, result_outcome = out\<rparr>"
    let ?j1 = "?j\<lparr>queued_completions := queued_completions j @ [?c]\<rparr>"
    from Cons [of h1 ?j1] obtain fs h' cs js where ih: "flush_loop H rs h1 ?j1 =
       (fs, h', ?j1\<lparr>pending_clients := pend_all rs (pending_clients ?j1), queued_fetches := [],
        queued_completions := queued_completions ?j1 @ cs, joined_fetches := joined_fetches ?j1 @ js\<rparr>)"
       "mset (map req_client rs) = mset (map req_client fs) + mset (map req_client js) + mset (map result_client cs)"
      by blast
    then show ?thesis using d Completed
      by (intro exI [of _ fs] exI [of _ h'] exI [of _ "?c # cs"] exI [of _ js]) (simp add: register_fetch_def)
  qed
qed


subsection \<open>How an operation settles\<close>

text \<open>Every operation ends by waiting for outstanding modules, by failing, or by linking.\<close>

definition flushed :: "'u module_script_tree_job \<Rightarrow> 'u module_script_tree_job \<Rightarrow> bool" where
  "flushed j j' \<longleftrightarrow> (queued_fetches j \<noteq> [] \<or> pending_clients j \<noteq> Map.empty) \<and>
     (\<exists>cs js. j' = j\<lparr>pending_clients := pend_all (queued_fetches j) (pending_clients j), queued_fetches := [],
        queued_completions := queued_completions j @ cs, joined_fetches := joined_fetches j @ js\<rparr> \<and>
        (queued_fetches j = [] \<longrightarrow> cs = []))"

definition failed :: "'u module_load_error \<Rightarrow> 'u module_script_tree_job \<Rightarrow> 'u module_script_tree_job" where
  "failed e j = (clear_work j)\<lparr>tree_state := Finished, terminal := Some (TerminalFailed e)\<rparr>"

inductive settles ::
  "('h, 'u) module_host \<Rightarrow> 'u module_script_tree_job \<Rightarrow> 'u module_tree_poll \<Rightarrow> 'u module_script_tree_job \<Rightarrow> bool"
  for H where
  settles_wait: "flushed j j' \<Longrightarrow> p = WaitingForSingleModuleClients (pending_client_count j') \<or>
     (\<exists>fs. fs \<noteq> [] \<and> p = NeedFetches fs) \<Longrightarrow> settles H j p j'"
| settles_fail: "settles H j (PollFailed e) (failed e j)"
| settles_link: "queued_fetches j = [] \<Longrightarrow> pending_clients j = Map.empty \<Longrightarrow> first_parse_error H j = None \<Longrightarrow>
     root_entry j = Some re \<Longrightarrow> link_module_graph H re (job_entries j) (dependency_edges j) h = (Inr g, h') \<Longrightarrow>
     settles H j (PollComplete g) (j\<lparr>tree_state := Finished, terminal := Some (TerminalComplete g)\<rparr>)"

lemma fail_failed: "fail e h j = (PollFailed e, h, failed e j)"
  by (simp add: fail_def failed_def)

lemma failed_linking: "failed e (j\<lparr>tree_state := Linking\<rparr>) = failed e j"
  by (simp add: failed_def clear_work_def)

lemma pend_all_nonempty: "rs \<noteq> [] \<or> m \<noteq> Map.empty \<Longrightarrow> pend_all rs m \<noteq> Map.empty"
  using dom_pend_all [of rs m] by (metis Un_empty dom_eq_empty_conv image_is_empty set_empty)

lemma flush_or_wait_settles:
  assumes "queued_fetches j \<noteq> [] \<or> pending_clients j \<noteq> Map.empty" and "flush_or_wait H h j = (p, h', j')"
  shows "settles H j p j'"
proof (cases "queued_fetches j = []")
  case True
  have "flushed j j" using True assms(1) unfolding flushed_def
    by (intro conjI exI [of _ "[]"]) simp_all
  with True assms show ?thesis
    by (auto simp: flush_or_wait_def intro: settles_wait)
next
  case False
  from flush_loop_effect [of H "queued_fetches j" h j] obtain fs h1 cs js where
    fl: "flush_loop H (queued_fetches j) h j = (fs, h1, j\<lparr>pending_clients := pend_all (queued_fetches j) (pending_clients j),
       queued_fetches := [], queued_completions := queued_completions j @ cs, joined_fetches := joined_fetches j @ js\<rparr>)"
    by blast
  let ?j = "j\<lparr>pending_clients := pend_all (queued_fetches j) (pending_clients j),
       queued_fetches := [], queued_completions := queued_completions j @ cs, joined_fetches := joined_fetches j @ js\<rparr>"
  have "flushed j ?j" using False unfolding flushed_def by blast
  moreover have "pend_all (queued_fetches j) (pending_clients j) \<noteq> Map.empty"
    using False by (simp add: pend_all_nonempty)
  ultimately show ?thesis
    using assms(2) False fl by (auto simp: flush_or_wait_def split: if_splits intro: settles_wait)
qed

lemma link_if_ready_settles:
  assumes "link_if_ready H h j = (p, h', j')"
  shows "settles H j p j'"
proof (cases "queued_fetches j \<noteq> [] \<or> pending_clients j \<noteq> Map.empty")
  case True
  with assms show ?thesis by (auto simp: link_if_ready_def intro: flush_or_wait_settles)
next
  case False
  with assms show ?thesis
    by (auto simp: link_if_ready_def Let_def fail_failed failed_linking split: option.splits sum.splits prod.splits
        intro: settles_fail settles_link)
qed

lemma flush_or_link_settles: "flush_or_link H h j = (p, h', j') \<Longrightarrow> settles H j p j'"
  by (auto simp: flush_or_link_def split: if_splits intro: flush_or_wait_settles link_if_ready_settles)

lemma finish_after_parse_error_settles: "finish_after_parse_error H h j = (p, h', j') \<Longrightarrow> settles H j p j'"
  by (auto simp: finish_after_parse_error_def fail_failed split: if_splits
      intro: flush_or_wait_settles settles_fail)


subsection \<open>The invariant\<close>

definition outstanding :: "'u module_script_tree_job \<Rightarrow> 'u pending_module_load set" where
  "outstanding j = ran (pending_clients j) \<union> load_of ` set (queued_fetches j)"

definition keys_covered :: "'u pending_module_load set \<Rightarrow> 'u module_script_tree_job \<Rightarrow> bool" where
  "keys_covered X j \<longleftrightarrow> (\<forall>k p. queued_or_visited j k = Some p \<longrightarrow> covered (outstanding j \<union> X) k p)"

text \<open>The imports of a module are all edges of the graph.\<close>

definition discovered ::
  "('h, 'u) module_host \<Rightarrow> 'u module_script_tree_job \<Rightarrow> module_entry_id \<Rightarrow> bool" where
  "discovered H j n \<longleftrightarrow> (\<exists>h snap. module_dependencies H n h = Inr snap \<and>
     (\<forall>rec\<in>set (requested_modules snap). \<exists>e\<in>set (dependency_edges j). edge_for (snap_entry snap) rec e))"

definition entries_done ::
  "('h, 'u) module_host \<Rightarrow> ('u pending_module_load \<times> module_entry_id) list \<Rightarrow> 'u module_script_tree_job \<Rightarrow> bool" where
  "entries_done H L j \<longleftrightarrow>
     (\<forall>(l, n) \<in> set L. n \<in> set (job_entries j) \<and> (load_phase l = Evaluation \<longrightarrow> discovered H j n))"

definition closed ::
  "('h, 'u) module_host \<Rightarrow> ('u pending_module_load \<times> module_entry_id) list \<Rightarrow> 'u module_script_tree_job \<Rightarrow> bool" where
  "closed H L j \<longleftrightarrow> keys_covered (fst ` set L) j \<and> edges_visited j \<and> entries_done H L j"

definition running :: "'u module_script_tree_job \<Rightarrow> bool" where
  "running j \<longleftrightarrow> terminal j = None \<and> tree_state j \<in> {FetchingRoot, FetchingDependencies}"

definition working ::
  "('h, 'u) module_host \<Rightarrow> ('u pending_module_load \<times> module_entry_id) list \<Rightarrow> 'u module_script_tree_job \<Rightarrow> bool" where
  "working H L j \<longleftrightarrow> fresh j \<and> running j \<and> (parse_errors j = Map.empty \<longrightarrow> closed H L j)"

definition linked :: "('h, 'u) module_host \<Rightarrow> 'u module_script_tree_job \<Rightarrow> 'u module_graph_handle \<Rightarrow> bool" where
  "linked H j g \<longleftrightarrow> (\<exists>re h h'. root_entry j = Some re \<and>
     link_module_graph H re (job_entries j) (dependency_edges j) h = (Inr g, h'))"

definition unstarted :: "'u module_script_tree_job \<Rightarrow> bool" where
  "unstarted j \<longleftrightarrow> terminal j = None \<and> tree_state j = Initial \<and> pending_clients j = Map.empty \<and>
     queued_fetches j = [] \<and> queued_or_visited j = Map.empty \<and> dependency_edges j = [] \<and>
     parse_errors j = Map.empty \<and> queued_completions j = []"

definition tree_ok ::
  "('h, 'u) module_host \<Rightarrow> ('u pending_module_load \<times> module_entry_id) list \<Rightarrow> 'u module_script_tree_job \<Rightarrow> bool" where
  "tree_ok H L j \<longleftrightarrow> queued_fetches j = [] \<and>
     (case terminal j of
        None \<Rightarrow> (unstarted j \<and> L = []) \<or> (working H L j \<and> pending_clients j \<noteq> Map.empty)
      | Some t \<Rightarrow> tree_state j \<in> {Finished, Aborted_State} \<and> pending_clients j = Map.empty \<and>
          (\<forall>g. t = TerminalComplete g \<longrightarrow> parse_errors j = Map.empty \<and> closed H L j \<and> linked H j g))"

text \<open>Iterating over a hash map gives a first value exactly when the map is not empty.\<close>

definition values_next_ok :: "('h, 'u) module_host \<Rightarrow> bool" where
  "values_next_ok H \<longleftrightarrow> (\<forall>m. some_value H m = None \<longleftrightarrow> m = Map.empty)"

lemma first_parse_error_None:
  "values_next_ok H \<Longrightarrow> first_parse_error H j = None \<Longrightarrow> parse_errors j = Map.empty"
  by (simp add: first_parse_error_def values_next_ok_def split: list.splits)

lemma tree_ok_failed: "tree_ok H L (failed e j)"
  by (simp add: tree_ok_def failed_def clear_work_def)

lemma closed_flushed:
  assumes "fresh j" "flushed j j'" "closed H L j"
  shows "closed H L j'"
proof -
  have "outstanding j' = outstanding j"
    using assms(1,2) ran_pend_all [of "queued_fetches j" "pending_clients j"]
    by (auto simp: flushed_def outstanding_def fresh_def)
  moreover have "queued_or_visited j' = queued_or_visited j" "dependency_edges j' = dependency_edges j"
    "job_entries j' = job_entries j" using assms(2) by (auto simp: flushed_def)
  ultimately show ?thesis using assms(3)
    by (simp add: closed_def keys_covered_def edges_visited_def entries_done_def discovered_def)
qed

lemma fresh_flushed:
  assumes "fresh j" "flushed j j'"
  shows "fresh j'"
proof -
  from assms(2) obtain cs js where j': "j' = j\<lparr>pending_clients := pend_all (queued_fetches j) (pending_clients j),
      queued_fetches := [], queued_completions := queued_completions j @ cs, joined_fetches := joined_fetches j @ js\<rparr>"
    unfolding flushed_def by blast
  show ?thesis using assms(1) unfolding fresh_def j' by simp
qed

lemma settles_ok:
  assumes "settles H j p j'" "working H L j" "values_next_ok H"
  shows "tree_ok H L j'"
  using assms(1)
proof cases
  case settles_wait
  have "fresh j'" using assms(2) settles_wait(1) fresh_flushed unfolding working_def by blast
  moreover have "pending_clients j' \<noteq> Map.empty" "queued_fetches j' = []" "running j'" "parse_errors j' = parse_errors j"
    using assms(2) settles_wait(1) by (auto simp: working_def running_def flushed_def pend_all_nonempty)
  ultimately show ?thesis
    using assms(2) closed_flushed [OF _ settles_wait(1), of H L] by (auto simp: tree_ok_def working_def running_def)
next
  case (settles_fail e)
  then show ?thesis by (simp add: tree_ok_failed)
next
  case (settles_link re h g h')
  have "parse_errors j = Map.empty" using settles_link assms(3) by (simp add: first_parse_error_None)
  moreover from this have "closed H L j" using assms(2) by (simp add: working_def)
  then have "closed H L j'" using settles_link
    by (simp add: closed_def keys_covered_def outstanding_def edges_visited_def entries_done_def discovered_def)
  ultimately show ?thesis using settles_link by (auto simp: tree_ok_def linked_def)
qed


subsection \<open>Every operation keeps the invariant\<close>

lemma fresh_queue:
  assumes "fresh j" "map (token_sequence \<circ> req_client) reqs =
      [next_single_client_sequence j ..< next_single_client_sequence j + length reqs]"
  shows "fresh (j\<lparr>queued_fetches := queued_fetches j @ reqs,
      next_single_client_sequence := next_single_client_sequence j + length reqs\<rparr>)"
proof -
  have new: "next_single_client_sequence j \<le> token_sequence (req_client r) \<and>
      token_sequence (req_client r) < next_single_client_sequence j + length reqs" if "r \<in> set reqs" for r
  proof -
    have "token_sequence (req_client r) \<in> set (map (token_sequence \<circ> req_client) reqs)" using that by simp
    then show ?thesis unfolding assms(2) by simp
  qed
  have "distinct (map token_sequence (map req_client reqs))"
    using assms(2) by (metis distinct_upt map_map)
  then have dist: "distinct (map req_client reqs)" unfolding distinct_map by blast
  have old: "token_sequence t < next_single_client_sequence j"
    if "t \<in> dom (pending_clients j) \<or> t \<in> req_client ` set (queued_fetches j)" for t
    using assms(1) that by (auto simp: fresh_def)
  have disj: "t \<notin> req_client ` set reqs" if "token_sequence t < next_single_client_sequence j" for t
    using new that by force
  show ?thesis using assms(1) dist new old disj unfolding fresh_def
    by (simp add: image_Un ball_Un Int_Un_distrib trans_less_add1) (auto dest: new)
qed

lemma same_work_fields:
  assumes "same_work j j'"
  shows "pending_clients j' = pending_clients j" "queued_fetches j' = queued_fetches j"
    "queued_completions j' = queued_completions j" "job_entries j' = job_entries j"
    "parse_errors j' = parse_errors j" "next_single_client_sequence j' = next_single_client_sequence j"
    "terminal j' = terminal j" "tree_state j' = tree_state j" "root_entry j' = root_entry j" "root j' = root j"
  using assms by (auto simp: same_work_def)

lemma queued_covered:
  assumes ok: "cands_ok (outstanding j \<union> Y) cs (queued_or_visited j')"
    and reqs: "map (\<lambda>r. (req_key r, req_phase r)) reqs = map (\<lambda>c. (cand_key c, cand_phase c)) (wanted cs)"
    and v: "queued_or_visited j' k = Some p"
  shows "covered (outstanding j \<union> load_of ` set reqs \<union> Y) k p"
proof (cases "k \<in> cand_key ` set cs")
  case False
  with ok v have "covered (outstanding j \<union> Y) k p" by (simp add: cands_ok_def)
  then show ?thesis by (rule covered_mono) auto
next
  case True
  then obtain c where c: "c \<in> set cs" "k = cand_key c" by blast
  with ok v have p: "p = cand_strong c" by (auto simp: cands_ok_def)
  have prev: "covered (outstanding j \<union> load_of ` set reqs \<union> Y) k q" if "cand_previous_phase c = Some q" for q
  proof -
    have "covered (outstanding j \<union> Y) k q" using ok c that by (simp add: cands_ok_def)
    then show ?thesis by (rule covered_mono) auto
  qed
  have new: "covered (outstanding j \<union> load_of ` set reqs \<union> Y) k (cand_phase c)"
    if "cand_previous_phase c \<noteq> Some (cand_phase c)"
  proof -
    have "(cand_key c, cand_phase c) \<in> set (map (\<lambda>c. (cand_key c, cand_phase c)) (wanted cs))"
      using c that by (auto simp: wanted_def)
    then obtain r where "r \<in> set reqs" "req_key r = cand_key c" "req_phase r = cand_phase c"
      unfolding reqs [symmetric] by auto
    moreover have "load_key (load_of r) = req_key r" "load_phase (load_of r) = req_phase r"
      by (simp_all add: load_of_def)
    ultimately show ?thesis using c unfolding covered_def by (intro bexI [of _ "load_of r"]) simp_all
  qed
  show ?thesis
  proof (cases "cand_previous_phase c")
    case None
    with new p show ?thesis by (simp add: cand_strong_def)
  next
    case (Some q)
    with prev new p show ?thesis by (cases q; cases "cand_phase c") (auto simp: cand_strong_def)
  qed
qed

lemma cands_ok_start: "keys_covered Y j \<Longrightarrow> cands_ok (outstanding j \<union> Y) [] (queued_or_visited j)"
  by (simp add: cands_ok_def keys_covered_def)

lemma collected_closed:
  assumes run: "collect_loop H snap (requested_modules snap) [] h j = (Inr cs, h', j1)"
    and cov: "keys_covered (fst ` set (L @ [(l, n)])) j" and ev: "edges_visited j" and ents: "entries_done H L j"
    and n: "n \<in> set (job_entries j)" and dep: "module_dependencies H n h0 = Inr snap0"
    and snap: "requested_modules snap0 = requested_modules snap" "snap_entry snap0 = snap_entry snap"
    and reqs: "map (\<lambda>r. (req_key r, req_phase r)) reqs = map (\<lambda>c. (cand_key c, cand_phase c)) (wanted cs)"
  shows "closed H (L @ [(l, n)]) (j1\<lparr>queued_fetches := queued_fetches j1 @ reqs, next_single_client_sequence := m\<rparr>)"
proof -
  note fr = collect_loop_frame [OF run]
  note same = same_work_fields [OF conjunct1 [OF fr]]
  let ?j = "j1\<lparr>queued_fetches := queued_fetches j1 @ reqs, next_single_client_sequence := m\<rparr>"
  have out: "outstanding ?j = outstanding j \<union> load_of ` set reqs" by (auto simp: outstanding_def same)
  from collect_loop_cands [OF run cands_ok_start [OF cov]]
  have c: "cands_ok (outstanding j \<union> fst ` set (L @ [(l, n)])) cs (queued_or_visited j1)" by simp
  have "keys_covered (fst ` set (L @ [(l, n)])) ?j"
    unfolding keys_covered_def out using queued_covered [OF c reqs] by simp
  moreover have "edges_visited ?j" using fr ev by (simp add: edges_visited_def)
  moreover have "discovered H ?j n" using fr dep snap by (fastforce simp: discovered_def)
  moreover have "discovered H ?j x" if "discovered H j x" for x
    using that fr by (fastforce simp: discovered_def)
  ultimately show ?thesis using ents n by (auto simp: closed_def entries_done_def same)
qed


lemma context_snapshot [simp]:
  "requested_modules (dependency_snapshot_with_tree_context snap j) = requested_modules snap"
  "snap_entry (dependency_snapshot_with_tree_context snap j) = snap_entry snap"
  by (simp_all add: dependency_snapshot_with_tree_context_def split: option.split)

lemma closed_no_requests:
  "keys_covered (fst ` set (L @ [(l, n)])) j \<Longrightarrow> edges_visited j \<Longrightarrow> entries_done H L j \<Longrightarrow> n \<in> set (job_entries j) \<Longrightarrow>
   (load_phase l = Evaluation \<Longrightarrow> discovered H j n) \<Longrightarrow> closed H (L @ [(l, n)]) j"
  by (auto simp: closed_def entries_done_def)

text \<open>Looking at the imports of a module fails, finds none, or queues fetches for the wanted candidates.\<close>

lemma discover_cases [consumes 1, case_names failure leaf requests]:
  assumes run: "discover_dependencies H n h j = (p, h', j')"
  obtains (failure) e j1 where "p = PollFailed e" "j' = failed e j1"
  | (leaf) snap where "module_dependencies H n h = Inr snap" "requested_modules snap = []" "settles H j p j'"
  | (requests) snap0 snap cs h1 j1 reqs where "module_dependencies H n h = Inr snap0"
      "requested_modules snap0 = requested_modules snap" "snap_entry snap0 = snap_entry snap"
      "collect_loop H snap (requested_modules snap) [] h j = (Inr cs, h1, j1)"
      "map (\<lambda>r. (req_key r, req_phase r)) reqs = map (\<lambda>c. (cand_key c, cand_phase c)) (wanted cs)"
      "map (token_sequence \<circ> req_client) reqs =
         [next_single_client_sequence j1 ..< next_single_client_sequence j1 + length reqs]"
      "settles H (j1\<lparr>queued_fetches := queued_fetches j1 @ reqs,
         next_single_client_sequence := next_single_client_sequence j1 + length reqs\<rparr>) p j'"
proof (cases "module_dependencies H n h")
  case (Inl e)
  with run failure show ?thesis by (auto simp: discover_dependencies_def fail_failed)
next
  case (Inr snap0)
  define snap where "snap = dependency_snapshot_with_tree_context snap0 j"
  have snap: "requested_modules snap0 = requested_modules snap" "snap_entry snap0 = snap_entry snap"
    by (simp_all add: snap_def)
  have run1: "(if requested_modules snap = [] then link_if_ready H h j
      else let (res, h, j) = collect_loop H snap (requested_modules snap) [] h j in
        case res of Inl err \<Rightarrow> fail err h j
        | Inr cs \<Rightarrow> flush_or_link H h (fold (queue_candidate H snap) cs j)) = (p, h', j')"
    using run Inr unfolding discover_dependencies_def Let_def snap_def collect_dependency_candidates_def by simp
  obtain res h1 j1 where col: "collect_loop H snap (requested_modules snap) [] h j = (res, h1, j1)" by (metis prod_cases3)
  show ?thesis
  proof (cases "requested_modules snap = []")
    case True
    with run1 leaf [OF Inr] snap show ?thesis by (simp add: link_if_ready_settles)
  next
    case False
    show ?thesis
    proof (cases res)
      case (Inl e)
      with run1 False col failure show ?thesis by (auto simp: fail_failed)
    next
      case (Inr cs)
      obtain reqs where reqs:
        "fold (queue_candidate H snap) cs j1 = j1\<lparr>queued_fetches := queued_fetches j1 @ reqs,
           next_single_client_sequence := next_single_client_sequence j1 + length reqs\<rparr>"
        "map (\<lambda>r. (req_key r, req_phase r)) reqs = map (\<lambda>c. (cand_key c, cand_phase c)) (wanted cs)"
        "map (token_sequence \<circ> req_client) reqs =
           [next_single_client_sequence j1 ..< next_single_client_sequence j1 + length reqs]"
        using queue_candidates [of H snap cs j1] by blast
      have "settles H (fold (queue_candidate H snap) cs j1) p j'"
        using run1 False col Inr by (simp add: flush_or_link_settles)
      then show ?thesis
        using requests [OF \<open>module_dependencies H n h = Inr snap0\<close> snap col [unfolded Inr] reqs(2,3)] reqs(1) by simp
    qed
  qed
qed

text \<open>The job once a module has been added to the graph and before its imports are looked at.\<close>

definition added ::
  "('h, 'u) module_host \<Rightarrow> ('u pending_module_load \<times> module_entry_id) list \<Rightarrow> 'u pending_module_load \<Rightarrow> module_entry_id \<Rightarrow>
   'u module_script_tree_job \<Rightarrow> bool" where
  "added H L l n j \<longleftrightarrow> fresh j \<and> running j \<and> (parse_errors j = Map.empty \<longrightarrow>
     keys_covered (fst ` set (L @ [(l, n)])) j \<and> edges_visited j \<and> entries_done H L j \<and> n \<in> set (job_entries j))"

lemma discover_ok:
  assumes v: "values_next_ok H" and add: "added H L l n j" and run: "discover_dependencies H n h j = (p, h', j')"
  shows "tree_ok H (L @ [(l, n)]) j'"
  using run
proof (cases rule: discover_cases)
  case (failure e j1)
  then show ?thesis by (simp add: tree_ok_failed)
next
  case (leaf snap)
  then have "discovered H j n" unfolding discovered_def by (intro exI [of _ h] exI [of _ snap]) simp
  then have "working H (L @ [(l, n)]) j"
    using add closed_no_requests by (auto simp: added_def working_def)
  with leaf v show ?thesis by (blast intro: settles_ok)
next
  case (requests snap0 snap cs h1 j1 reqs)
  note same = same_work_fields [OF conjunct1 [OF collect_loop_frame [OF requests(4)]]]
  let ?j = "j1\<lparr>queued_fetches := queued_fetches j1 @ reqs,
      next_single_client_sequence := next_single_client_sequence j1 + length reqs\<rparr>"
  have "fresh j1" using add by (simp add: added_def fresh_def same)
  then have "fresh ?j" using requests(6) by (rule fresh_queue)
  moreover have "running ?j" using add by (simp add: added_def running_def same)
  moreover have "closed H (L @ [(l, n)]) ?j" if "parse_errors ?j = Map.empty"
    using collected_closed [OF requests(4) _ _ _ _ requests(1-3,5)] add that
    by (simp add: added_def same del: set_append)
  ultimately have "working H (L @ [(l, n)]) ?j" by (simp add: working_def)
  with requests(7) v show ?thesis by (blast intro: settles_ok)
qed

text \<open>The job with a loaded module.\<close>

definition accepted ::
  "'u pending_module_load \<Rightarrow> module_entry_id \<Rightarrow> 'u module_entry_context \<Rightarrow> 'u module_script_tree_job \<Rightarrow> 'u module_script_tree_job" where
  "accepted l n c j = add_entry n (load_phase l) (record_entry_context n c
     (if load_graph_level l = TopLevel then j\<lparr>root_entry := Some n, tree_state := FetchingDependencies\<rparr> else j))"

lemma accept_module_eq:
  "accept_module H l n c bad h j =
     (if bad then finish_after_parse_error H h (accepted l n c j)
      else if load_phase l = Source then link_if_ready H h (accepted l n c j)
      else discover_dependencies H n h (accepted l n c j))"
  unfolding accept_module_def Let_def accepted_def ..

lemma accepted_fields [simp]:
  "pending_clients (accepted l n c j) = pending_clients j" "queued_fetches (accepted l n c j) = queued_fetches j"
  "next_single_client_sequence (accepted l n c j) = next_single_client_sequence j"
  "parse_errors (accepted l n c j) = parse_errors j" "queued_or_visited (accepted l n c j) = queued_or_visited j"
  "dependency_edges (accepted l n c j) = dependency_edges j" "terminal (accepted l n c j) = terminal j"
  "queued_completions (accepted l n c j) = queued_completions j"
  "set (job_entries (accepted l n c j)) = insert n (set (job_entries j))"
  "tree_state (accepted l n c j) = (if load_graph_level l = TopLevel then FetchingDependencies else tree_state j)"
  by (auto simp: accepted_def add_entry_def record_entry_context_def)

lemma fresh_accepted [simp]: "fresh (accepted l n c j) = fresh j"
  by (simp add: fresh_def)

lemma accept_ok:
  assumes v: "values_next_ok H" and fr: "fresh j" "running j"
    and cl: "parse_errors j = Map.empty \<Longrightarrow>
      keys_covered (fst ` set (L @ [(l, n)])) j \<and> edges_visited j \<and> entries_done H L j"
    and bad: "bad \<Longrightarrow> parse_errors j \<noteq> Map.empty"
    and run: "accept_module H l n c bad h j = (p, h', j')"
  shows "tree_ok H (L @ [(l, n)]) j'"
proof -
  have add: "added H L l n (accepted l n c j)"
    using fr cl
    by (auto simp: added_def running_def keys_covered_def outstanding_def edges_visited_def entries_done_def discovered_def)
  show ?thesis
  proof (cases "\<not> bad \<and> load_phase l = Evaluation")
    case True
    with run discover_ok [OF v add] show ?thesis by (simp add: accept_module_eq)
  next
    case False
    have "working H (L @ [(l, n)]) (accepted l n c j)"
      using add False bad closed_no_requests [of L l n "accepted l n c j" H] by (auto simp: added_def working_def)
    moreover have "settles H (accepted l n c j) p j'"
      using run False
      by (auto simp: accept_module_eq split: if_splits intro: finish_after_parse_error_settles link_if_ready_settles)
    ultimately show ?thesis using v by (blast intro: settles_ok)
  qed
qed

lemma record_parse_error_frame [simp]:
  "fresh (record_parse_error k e j) = fresh j" "running (record_parse_error k e j) = running j"
  "parse_errors (record_parse_error k e j) \<noteq> Map.empty"
  by (auto simp: record_parse_error_def fresh_def running_def)

lemma finish_error_ok:
  assumes "values_next_ok H" "fresh j" "running j" "finish_module_load_error H k e h j = (p, h', j')"
  shows "tree_ok H L j'"
proof (cases "is_parse_error e")
  case False
  with assms show ?thesis by (auto simp: finish_module_load_error_def fail_failed tree_ok_failed)
next
  case True
  define j1 where "j1 = record_parse_error (case error_key e of Some k \<Rightarrow> k | None \<Rightarrow> k) e j"
  have "working H L j1" using assms by (simp add: working_def j1_def)
  moreover have "settles H j1 p j'"
    using assms True by (simp add: finish_module_load_error_def j1_def finish_after_parse_error_settles)
  ultimately show ?thesis using assms by (blast intro: settles_ok)
qed


subsection \<open>Reachable jobs\<close>

type_synonym 'u load_log = "('u pending_module_load \<times> module_entry_id) list"

text \<open>The loads that an operation completes, each with the entry it produced.\<close>

definition start_log :: "'u module_script_tree_job \<Rightarrow> 'u load_log" where
  "start_log j =
     (if terminal j = None \<and> tree_state j = Initial then
        (case root j of
           External _ \<Rightarrow> []
         | Inline r \<Rightarrow> [(\<lparr>load_key = inl_root_key r, load_phase = inl_phase r, load_graph_level = TopLevel\<rparr>, inl_root_entry r)])
      else [])"

definition resume_log ::
  "('h, 'u) module_host \<Rightarrow> client_token \<Rightarrow> 'u module_fetch_outcome \<Rightarrow> 'h \<Rightarrow> 'u module_script_tree_job \<Rightarrow> 'u load_log" where
  "resume_log H client outcome h j =
     (case pending_clients j client of
        None \<Rightarrow> []
      | Some l \<Rightarrow>
          (case outcome of
             Fetched src \<Rightarrow>
               (case compile_module_source H src (load_phase l) h of
                  (Inr c, _) \<Rightarrow> [(l, compiled_entry c)]
                | (Inl _, _) \<Rightarrow> [])
           | Ready m \<Rightarrow> [(l, ready_entry m)]
           | LoadFailed _ \<Rightarrow> []))"

text \<open>Between two calls of the job its host may change in any way.\<close>

inductive module_reach ::
  "('h, 'u) module_host \<Rightarrow> 'u load_log \<Rightarrow> 'h \<Rightarrow> 'u module_script_tree_job \<Rightarrow> bool" for H where
  reach_new: "module_reach H [] h (job_new r c)"
| reach_host: "module_reach H L h j \<Longrightarrow> module_reach H L h' j"
| reach_poll: "module_reach H L h j \<Longrightarrow> poll_job H h j = Some (p, h', j') \<Longrightarrow> module_reach H (L @ start_log j) h' j'"
| reach_resume: "module_reach H L h j \<Longrightarrow> resume_single_module_outcome H client outcome h j = (p, h', j') \<Longrightarrow>
     module_reach H (L @ resume_log H client outcome h j) h' j'"
| reach_pop: "module_reach H L h j \<Longrightarrow> queued_completions j = c # cs \<Longrightarrow> module_reach H L h (j\<lparr>queued_completions := cs\<rparr>)"
| reach_take: "module_reach H L h j \<Longrightarrow> module_reach H L h (j\<lparr>joined_fetches := []\<rparr>)"
| reach_cancel: "module_reach H L h j \<Longrightarrow> cancel_job r j = (p, j') \<Longrightarrow> module_reach H L h j'"


lemma finish_load_ok:
  assumes v: "values_next_ok H" and fr: "fresh j" "running j"
    and cl: "\<And>n. parse_errors j = Map.empty \<Longrightarrow>
      keys_covered (fst ` set (L @ [(l, n)])) j \<and> edges_visited j \<and> entries_done H L j"
    and run: "finish_module_load H l outcome h j = (p, h', j')"
    and log: "log = (case outcome of
        Fetched src \<Rightarrow> (case compile_module_source H src (load_phase l) h of
            (Inr c, _) \<Rightarrow> [(l, compiled_entry c)] | (Inl _, _) \<Rightarrow> [])
      | Ready m \<Rightarrow> [(l, ready_entry m)] | LoadFailed _ \<Rightarrow> [])"
  shows "tree_ok H (L @ log) j'"
proof (cases outcome)
  case (Fetched src)
  obtain res h1 where c: "compile_module_source H src (load_phase l) h = (res, h1)" by fastforce
  show ?thesis
  proof (cases res)
    case (Inl e)
    with run Fetched c show ?thesis
      by (auto simp: finish_module_load_def split: prod.splits intro: finish_error_ok [OF v fr])
  next
    case (Inr compiled)
    obtain bad j1 where n: "note_parse_error compiled j = (bad, j1)" by fastforce
    then have f: "fresh j1" "running j1" "bad \<Longrightarrow> parse_errors j1 \<noteq> Map.empty" "\<not> bad \<Longrightarrow> j1 = j"
      using fr by (auto simp: note_parse_error_def split: option.splits if_splits)
    have "tree_ok H (L @ [(l, compiled_entry compiled)]) j'"
    proof (rule accept_ok [OF v f(1,2)])
      show "accept_module H l (compiled_entry compiled)
          \<lparr>context_key = fetched_key src, context_base_url = fetched_base_url src, context_metadata = fetched_metadata src\<rparr>
          bad h1 j1 = (p, h', j')"
        using run Fetched c Inr n by (simp add: finish_module_load_def)
      show "bad \<Longrightarrow> parse_errors j1 \<noteq> Map.empty" by (fact f(3))
      show "parse_errors j1 = Map.empty \<Longrightarrow> keys_covered (fst ` set (L @ [(l, compiled_entry compiled)])) j1 \<and>
          edges_visited j1 \<and> entries_done H L j1"
        using f(3,4) cl by blast
    qed
    then show ?thesis using log Fetched c Inr by simp
  qed
next
  case (Ready m)
  have "tree_ok H (L @ [(l, ready_entry m)]) j'"
    by (rule accept_ok [OF v fr cl, where bad = False and h = h and
        c = "\<lparr>context_key = ready_key m, context_base_url = ready_base_url m, context_metadata = ready_metadata m\<rparr>"])
       (use run Ready in \<open>simp_all add: finish_module_load_def\<close>)
  then show ?thesis using log Ready by simp
next
  case (LoadFailed e)
  with run log show ?thesis by (simp add: finish_module_load_def finish_error_ok [OF v fr])
qed

lemma resume_ok:
  assumes v: "values_next_ok H" and ok: "tree_ok H L j"
    and run: "resume_single_module_outcome H client outcome h j = (p, h', j')"
  shows "tree_ok H (L @ resume_log H client outcome h j) j'"
proof (cases "pending_clients j client")
  case None
  with run ok show ?thesis by (auto simp: resume_single_module_outcome_def resume_log_def split: if_splits)
next
  case (Some l)
  then have w: "working H L j" and q: "queued_fetches j = []"
    using ok by (auto simp: tree_ok_def unstarted_def split: option.splits)
  let ?j = "j\<lparr>pending_clients := (pending_clients j)(client := None)\<rparr>"
  have fr: "fresh ?j" "running ?j" using w by (auto simp: working_def fresh_def running_def)
  have "outstanding j \<subseteq> insert l (outstanding ?j)"
    using Some by (auto simp: outstanding_def ran_def) (metis option.inject)
  then have "covered (outstanding ?j \<union> fst ` set (L @ [(l, n)])) k q"
    if "covered (outstanding j \<union> fst ` set L) k q" for k q n
    using that by (elim covered_mono) auto
  then have "keys_covered (fst ` set (L @ [(l, n)])) ?j" if "keys_covered (fst ` set L) j" for n
    using that unfolding keys_covered_def by simp
  then have cl: "keys_covered (fst ` set (L @ [(l, n)])) ?j \<and> edges_visited ?j \<and> entries_done H L ?j"
    if "parse_errors ?j = Map.empty" for n
    using that w by (simp add: working_def closed_def edges_visited_def entries_done_def discovered_def)
  have "finish_module_load H l outcome h ?j = (p, h', j')"
    using run Some w by (auto simp: resume_single_module_outcome_def working_def running_def)
  from finish_load_ok [OF v fr cl this refl] show ?thesis using Some by (simp add: resume_log_def)
qed

text \<open>The job once its root is queued, or added.\<close>

definition external_queued :: "'u module_external_root \<Rightarrow> 'u module_script_tree_job \<Rightarrow> 'u module_script_tree_job" where
  "external_queued r j =
     (let kind = (case ext_kind_hint r of Some k \<Rightarrow> k | None \<Rightarrow> JavaScript);
          key = \<lparr>key_url = ext_source_url r, key_kind = kind, key_attributes = ext_attributes r\<rparr>;
          j = j\<lparr>root_key := Some key, queued_or_visited := (queued_or_visited j)(key \<mapsto> ext_phase r)\<rparr>;
          (client, j) = next_single_module_client ((record_module_order key j)\<lparr>tree_state := FetchingRoot\<rparr>) in
      queue_fetch_request (root_fetch_request r key kind client j) j)"

definition inline_added :: "'u module_inline_root \<Rightarrow> 'u module_script_tree_job \<Rightarrow> 'u module_script_tree_job" where
  "inline_added r j = (add_entry (inl_root_entry r) (inl_phase r)
      (record_entry_context (inl_root_entry r)
        \<lparr>context_key = inl_root_key r, context_base_url = inl_base_url r, context_metadata = inl_metadata r\<rparr>
        (record_module_order (inl_root_key r)
          (j\<lparr>root_key := Some (inl_root_key r), root_entry := Some (inl_root_entry r),
             queued_or_visited := (queued_or_visited j)(inl_root_key r \<mapsto> inl_phase r)\<rparr>))))\<lparr>tree_state := FetchingDependencies\<rparr>"

lemma start_eq:
  "start H h j = (case root j of
     External r \<Rightarrow> flush_or_wait H h (external_queued r j)
   | Inline r \<Rightarrow> if inl_phase r = Source then link_if_ready H h (inline_added r j)
       else discover_dependencies H (inl_root_entry r) h (inline_added r j))"
  by (simp add: start_def start_external_root_def start_inline_root_def external_queued_def inline_added_def Let_def
      split: module_root_input.split prod.split)

lemma external_queued_state:
  assumes "unstarted j"
  shows "queued_fetches (external_queued r j) \<noteq> []" "fresh (external_queued r j)" "running (external_queued r j)"
    "closed H [] (external_queued r j)"
  using assms
  by (simp_all add: external_queued_def Let_def next_single_module_client_def record_module_order_def
      queue_fetch_request_def root_fetch_request_def load_of_def unstarted_def fresh_def running_def closed_def
      keys_covered_def outstanding_def covered_def edges_visited_def entries_done_def)

lemma inline_added_state:
  assumes "unstarted j"
  shows "added H [] \<lparr>load_key = inl_root_key r, load_phase = inl_phase r, load_graph_level = TopLevel\<rparr>
      (inl_root_entry r) (inline_added r j)"
  using assms
  by (simp add: inline_added_def add_entry_def record_entry_context_def record_module_order_def unstarted_def added_def
      fresh_def running_def keys_covered_def outstanding_def covered_def edges_visited_def entries_done_def)

lemma start_ok:
  assumes v: "values_next_ok H" and un: "unstarted j" and run: "start H h j = (p, h', j')"
  shows "tree_ok H (start_log j) j'"
proof (cases "root j")
  case (External r)
  have "working H [] (external_queued r j)" using external_queued_state [OF un] unfolding working_def by blast
  moreover have "settles H (external_queued r j) p j'"
    using run External external_queued_state(1) [OF un] by (auto simp: start_eq intro: flush_or_wait_settles)
  ultimately show ?thesis using v External by (auto simp: start_log_def intro: settles_ok)
next
  case (Inline r)
  let ?l = "\<lparr>load_key = inl_root_key r, load_phase = inl_phase r, load_graph_level = TopLevel\<rparr>"
  note add = inline_added_state [OF un, of H r]
  have log: "start_log j = [(?l, inl_root_entry r)]" using un Inline by (simp add: start_log_def unstarted_def)
  show ?thesis
  proof (cases "inl_phase r")
    case Evaluation
    with run Inline discover_ok [OF v add] show ?thesis by (simp add: start_eq log)
  next
    case Source
    have "working H [(?l, inl_root_entry r)] (inline_added r j)"
      using add Source closed_no_requests [of "[]" ?l "inl_root_entry r" "inline_added r j" H]
      by (simp add: added_def working_def)
    moreover have "settles H (inline_added r j) p j'" using run Inline Source by (simp add: start_eq link_if_ready_settles)
    ultimately show ?thesis unfolding log using v by (blast intro: settles_ok)
  qed
qed

lemma poll_ok:
  assumes v: "values_next_ok H" and ok: "tree_ok H L j" and run: "poll_job H h j = Some (p, h', j')"
  shows "tree_ok H (L @ start_log j) j'"
proof (cases "terminal j")
  case (Some t)
  with run ok show ?thesis by (simp add: poll_job_def start_log_def)
next
  case None
  then consider "unstarted j" "L = []" | "working H L j" "pending_clients j \<noteq> Map.empty"
    using ok by (auto simp: tree_ok_def)
  then show ?thesis
  proof cases
    case 1
    then show ?thesis using run start_ok [OF v 1(1)] by (simp add: poll_job_def unstarted_def)
  next
    case 2
    then have "settles H j p j'"
      using run by (auto simp: poll_job_def working_def running_def intro: flush_or_wait_settles)
    with 2 v have "tree_ok H L j'" by (blast intro: settles_ok)
    with 2 show ?thesis by (auto simp: start_log_def working_def running_def)
  qed
qed

lemma tree_ok_cong:
  assumes "j' = j\<lparr>queued_completions := cs, joined_fetches := js\<rparr>" "cs = [] \<or> queued_completions j \<noteq> []"
  shows "tree_ok H L j \<Longrightarrow> tree_ok H L j'"
  using assms
  by (auto simp: tree_ok_def unstarted_def working_def running_def fresh_def closed_def keys_covered_def outstanding_def
      edges_visited_def entries_done_def discovered_def linked_def split: option.splits)

lemma reach_ok:
  assumes "values_next_ok H" "module_reach H L h j"
  shows "tree_ok H L j"
  using assms(2)
proof induction
  case (reach_new h r c)
  show ?case by (simp add: tree_ok_def unstarted_def job_new_def)
next
  case (reach_poll L h j p h' j')
  with assms(1) show ?case by (blast intro: poll_ok)
next
  case (reach_resume L h j client outcome p h' j')
  with assms(1) show ?case by (blast intro: resume_ok)
next
  case (reach_pop L h j c cs)
  show ?case
    by (rule tree_ok_cong [where j = j and cs = cs and js = "joined_fetches j"]) (use reach_pop in simp_all)
next
  case (reach_take L h j)
  show ?case
    by (rule tree_ok_cong [where j = j and cs = "queued_completions j" and js = "[]"]) (use reach_take in auto)
next
  case (reach_cancel L h j r p j')
  then show ?case by (auto simp: cancel_job_def abort_def clear_work_def tree_ok_def)
qed

end
