(* ===== verification/Module_Drive.thy ===== *)
theory Module_Drive
  imports Module_Tree
begin

section \<open>Driving a module script tree\<close>

text \<open>
  The loop that resumes the job with the completions the host gave at once: it ends, it reports what
  the job holds, and the job it leaves is reachable.  The properties of the job stand at the end.
\<close>

subsection \<open>The drive loop ends\<close>

text \<open>A load in the evaluation phase is queued for a key at most once: the keys not yet visited in
  that phase and the outstanding loads in it bound the discoveries still to come.\<close>

definition evals_left :: "'u module_map_key set \<Rightarrow> 'u module_script_tree_job \<Rightarrow> nat" where
  "evals_left K j = open_keys K (queued_or_visited j) + card (eval_clients (pending_clients j)) +
     length (filter (\<lambda>r. req_phase r = Evaluation) (queued_fetches j))"

definition continues :: "'u module_tree_poll \<Rightarrow> bool" where
  "continues p \<longleftrightarrow> (case p of PollComplete _ \<Rightarrow> False | PollFailed _ \<Rightarrow> False | PollAborted _ \<Rightarrow> False | _ \<Rightarrow> True)"

lemma settles_evals:
  assumes "settles H j p j'" "continues p" "fresh j"
  shows "evals_left K j' = evals_left K j \<and> (queued_fetches j = [] \<longrightarrow> queued_completions j' = queued_completions j)"
  using assms(1)
proof cases
  case settles_wait
  with assms(3) eval_clients_pend_all [of "queued_fetches j" "pending_clients j"] show ?thesis
    by (auto simp: flushed_def evals_left_def fresh_def)
qed (use assms(2) in \<open>auto simp: continues_def\<close>)

lemma wanted_evals:
  assumes "map (\<lambda>r. (req_key r, req_phase r)) reqs = map (\<lambda>c. (cand_key c, cand_phase c)) (wanted cs)"
  shows "length (filter (\<lambda>r. req_phase r = Evaluation) reqs) = length (filter eval_cand cs)"
proof -
  have "length (filter (\<lambda>r. req_phase r = Evaluation) reqs) =
      length (filter (\<lambda>x. snd x = Evaluation) (map (\<lambda>r. (req_key r, req_phase r)) reqs))"
    by (simp add: filter_map o_def)
  also have "\<dots> = length (filter (\<lambda>c. cand_phase c = Evaluation) (wanted cs))"
    unfolding assms by (simp add: filter_map o_def)
  also have "filter (\<lambda>c. cand_phase c = Evaluation) (wanted cs) = filter eval_cand cs"
    unfolding wanted_def filter_filter by (rule filter_cong) (auto simp: eval_cand_def)
  finally show ?thesis .
qed

lemma cands_ok_UNIV: "cands_ok UNIV [] v"
proof -
  have "covered UNIV k p" for k :: "'a module_map_key" and p
    unfolding covered_def
    by (rule bexI [of _ "\<lparr>load_key = k, load_phase = p, load_graph_level = Dependent\<rparr>"]) simp_all
  then show ?thesis by (simp add: cands_ok_def)
qed

lemma discover_evals:
  assumes K: "finite K" "resolves_into H K" and fr: "fresh j" and run: "discover_dependencies H n h j = (p, h', j')"
    and c: "continues p"
  shows "evals_left K j' \<le> evals_left K j"
  using run
proof (cases rule: discover_cases)
  case (failure e j1)
  with c show ?thesis by (simp add: continues_def)
next
  case (leaf snap)
  with c fr show ?thesis by (simp add: settles_evals)
next
  case (requests snap0 snap cs h1 j1 reqs)
  note same = same_work_fields [OF conjunct1 [OF collect_loop_frame [OF requests(4)]]]
  let ?j = "j1\<lparr>queued_fetches := queued_fetches j1 @ reqs,
      next_single_client_sequence := next_single_client_sequence j1 + length reqs\<rparr>"
  have "fresh j1" using fr by (simp add: fresh_def same)
  then have "fresh ?j" using requests(6) by (rule fresh_queue)
  then have "evals_left K j' = evals_left K ?j" using requests(7) c by (simp add: settles_evals)
  moreover have "length (filter eval_cand cs) + open_keys K (queued_or_visited j1) \<le> open_keys K (queued_or_visited j)"
    using collect_loop_cands [OF requests(4) cands_ok_UNIV, of K] K by simp
  ultimately show ?thesis using wanted_evals [OF requests(5)] by (simp add: evals_left_def same)
qed

lemma accept_evals:
  assumes K: "finite K" "resolves_into H K" and fr: "fresh j" "queued_fetches j = []" and c: "continues p"
    and run: "accept_module H l n ctx bad h j = (p, h', j')"
  shows "evals_left K j' \<le> evals_left K j \<and> (load_phase l = Source \<longrightarrow> queued_completions j' = queued_completions j)"
proof -
  have ev: "evals_left K (accepted l n ctx j) = evals_left K j" by (simp add: evals_left_def)
  have fr1: "fresh (accepted l n ctx j)" using fr by simp
  show ?thesis
  proof (cases "\<not> bad \<and> load_phase l = Evaluation")
    case True
    with run discover_evals [OF K fr1 _ c] ev show ?thesis by (simp add: accept_module_eq)
  next
    case False
    then have "settles H (accepted l n ctx j) p j'"
      using run
      by (auto simp: accept_module_eq split: if_splits intro: finish_after_parse_error_settles link_if_ready_settles)
    with settles_evals [OF _ c fr1, of H j' K] ev fr show ?thesis by simp
  qed
qed

lemma record_parse_error_fields [simp]:
  "evals_left K (record_parse_error k e j) = evals_left K j"
  "queued_completions (record_parse_error k e j) = queued_completions j"
  "queued_fetches (record_parse_error k e j) = queued_fetches j"
  by (simp_all add: record_parse_error_def evals_left_def)

lemma finish_error_evals:
  assumes "fresh j" "queued_fetches j = []" "continues p" "finish_module_load_error H k e h j = (p, h', j')"
  shows "evals_left K j' = evals_left K j \<and> queued_completions j' = queued_completions j"
proof -
  have "is_parse_error e" using assms(3,4) by (auto simp: finish_module_load_error_def fail_def continues_def split: if_splits)
  then have "settles H (record_parse_error (case error_key e of Some k \<Rightarrow> k | None \<Rightarrow> k) e j) p j'"
    using assms(4) by (simp add: finish_module_load_error_def finish_after_parse_error_settles)
  from settles_evals [OF this assms(3)] assms(1,2) show ?thesis by simp
qed

lemma finish_load_evals:
  assumes K: "finite K" "resolves_into H K" and fr: "fresh j" "queued_fetches j = []" and c: "continues p"
    and run: "finish_module_load H l outcome h j = (p, h', j')"
  shows "evals_left K j' \<le> evals_left K j \<and> (load_phase l = Source \<longrightarrow> queued_completions j' = queued_completions j)"
proof (cases outcome)
  case (Fetched src)
  obtain res h1 where comp: "compile_module_source H src (load_phase l) h = (res, h1)" by fastforce
  show ?thesis
  proof (cases res)
    case (Inl e)
    obtain n h2 where "mark_module_failed H (load_key l) e h1 = (n, h2)" by fastforce
    with run Fetched comp Inl have "finish_module_load_error H (load_key l) e h2 j = (p, h', j')"
      by (simp add: finish_module_load_def)
    from finish_error_evals [OF fr c this] show ?thesis by simp
  next
    case (Inr compiled)
    obtain bad j1 where n: "note_parse_error compiled j = (bad, j1)" by fastforce
    then have f: "fresh j1" "queued_fetches j1 = []" "evals_left K j1 = evals_left K j"
      "queued_completions j1 = queued_completions j"
      using fr by (auto simp: note_parse_error_def split: option.splits if_splits)
    from run Fetched comp Inr n accept_evals [OF K f(1,2) c] f(3,4) show ?thesis
      by (simp add: finish_module_load_def)
  qed
next
  case (Ready m)
  with run accept_evals [OF K fr c] show ?thesis by (simp add: finish_module_load_def)
next
  case (LoadFailed e)
  with run have "finish_module_load_error H (load_key l) e h j = (p, h', j')" by (simp add: finish_module_load_def)
  from finish_error_evals [OF fr c this] show ?thesis by simp
qed

text \<open>One round of the loop lowers the bound, or keeps it and completes nothing new.\<close>

lemma resume_evals:
  assumes K: "finite K" "resolves_into H K" and fr: "fresh j" "queued_fetches j = []" and c: "continues p"
    and run: "resume_single_module_outcome H client outcome h j = (p, h', j')"
  shows "evals_left K j' < evals_left K j \<or>
     evals_left K j' \<le> evals_left K j \<and> queued_completions j' = queued_completions j"
proof (cases "tree_state j \<in> {Aborted_State, Finished} \<or> pending_clients j client = None")
  case True
  with run have "j' = j" by (auto simp: resume_single_module_outcome_def split: if_splits)
  then show ?thesis by simp
next
  case False
  then obtain l where l: "pending_clients j client = Some l" by blast
  let ?j = "j\<lparr>pending_clients := (pending_clients j)(client := None)\<rparr>"
  have "finish_module_load H l outcome h ?j = (p, h', j')"
    using run False l by (simp add: resume_single_module_outcome_def)
  moreover have "fresh ?j" "queued_fetches ?j = []" using fr by (auto simp: fresh_def)
  ultimately have fin: "evals_left K j' \<le> evals_left K ?j \<and>
      (load_phase l = Source \<longrightarrow> queued_completions j' = queued_completions ?j)"
    using finish_load_evals [OF K _ _ c] by blast
  have "finite (eval_clients (pending_clients j))"
    using fr(1) by (auto simp: fresh_def eval_clients_def dom_def elim!: rev_finite_subset)
  moreover have "eval_clients ((pending_clients j)(client := None)) = eval_clients (pending_clients j) - {client}"
    by (auto simp: eval_clients_def)
  moreover have "client \<in> eval_clients (pending_clients j) \<longleftrightarrow> load_phase l = Evaluation"
    using l by (simp add: eval_clients_def)
  ultimately have "card (eval_clients ((pending_clients j)(client := None))) + (if load_phase l = Evaluation then 1 else 0)
      = card (eval_clients (pending_clients j))"
    using card_Suc_Diff1 [of "eval_clients (pending_clients j)" client]
    by (simp del: phase_not_eval card_Diff_singleton card_Diff_insert)
  then have "evals_left K ?j + (if load_phase l = Evaluation then 1 else 0) = evals_left K j"
    by (simp add: evals_left_def split: if_splits)
  with fin show ?thesis by (cases "load_phase l") simp_all
qed

lemma tree_ok_fresh: "tree_ok H L j \<Longrightarrow> fresh j \<and> queued_fetches j = []"
  by (auto simp: tree_ok_def working_def unstarted_def fresh_def split: option.splits)

definition drive_order :: "'u module_map_key set \<Rightarrow> ('u module_script_tree_job \<times> 'u module_script_tree_job) set" where
  "drive_order K =
     inv_image (less_than <*lex*> less_than) (\<lambda>j. (evals_left K j, length (queued_completions j)))"

lemma wf_drive_order: "wf (drive_order K)"
  unfolding drive_order_def by (rule wf_inv_image [OF wf_lex_prod [OF wf_less_than wf_less_than]])

lemma drive_loop_ends:
  assumes K: "finite K" "resolves_into H K" and v: "values_next_ok H"
  shows "tree_ok H L j \<Longrightarrow> \<exists>r. drive_loop H fs p h j = Some r"
proof (induction j arbitrary: L fs p h rule: wf_induct_rule [OF wf_drive_order [of K]])
  case (1 j)
  show ?case
  proof (cases "queued_completions j")
    case Nil
    then show ?thesis by (subst drive_loop.simps) (simp split: prod.split)
  next
    case (Cons c cs)
    let ?j = "j\<lparr>queued_completions := cs\<rparr>"
    obtain p' h' j' where run: "resume_single_module_outcome H (result_client c) (result_outcome c) h ?j = (p', h', j')"
      by (metis prod_cases3)
    have ok: "tree_ok H L ?j"
      by (rule tree_ok_cong [where j = j and cs = cs and js = "joined_fetches j"]) (use Cons 1 in simp_all)
    then have ok': "tree_ok H (L @ resume_log H (result_client c) (result_outcome c) h ?j) j'"
      using run v by (blast intro: resume_ok)
    have "\<exists>r. drive_loop H fs' q h' j' = Some r" if "continues p'" for fs' q
    proof (rule 1(1) [OF _ ok'])
      have "evals_left K ?j = evals_left K j" by (simp add: evals_left_def)
      then show "(j', j) \<in> drive_order K" unfolding drive_order_def
        using resume_evals [OF K _ _ that run] tree_ok_fresh [OF ok] Cons by auto
    qed
    then show ?thesis
      by (subst drive_loop.simps) (cases p'; simp add: Cons resume_single_module_def run continues_def)
  qed
qed


subsection \<open>What is reported\<close>

definition waiting :: "'u module_script_tree_job \<Rightarrow> bool" where
  "waiting j \<longleftrightarrow> terminal j = None \<and> pending_clients j \<noteq> Map.empty"

text \<open>A result tells what the job holds; it is never \<^const>\<open>PollPending\<close>.  Only a resumption
  is answered as stale.\<close>

definition answers :: "'u module_tree_poll \<Rightarrow> 'u module_script_tree_job \<Rightarrow> bool" where
  "answers p j \<longleftrightarrow>
     (case p of
        PollPending \<Rightarrow> False
      | NeedFetches fs \<Rightarrow> fs \<noteq> [] \<and> waiting j
      | WaitingForSingleModuleClients n \<Rightarrow> n = pending_client_count j \<and> waiting j
      | PollComplete g \<Rightarrow> terminal j = Some (TerminalComplete g)
      | PollFailed e \<Rightarrow> terminal j = Some (TerminalFailed e)
      | PollAborted r \<Rightarrow> terminal j = Some (TerminalAborted r)
      | IgnoredStaleCompletion \<Rightarrow> False)"

definition reports :: "'u module_tree_drive \<Rightarrow> 'u module_script_tree_job \<Rightarrow> bool" where
  "reports d j \<longleftrightarrow>
     (case d of
        DrivePending _ \<Rightarrow> False
      | DriveNeedFetches fs _ \<Rightarrow> fs \<noteq> [] \<and> waiting j
      | DriveWaiting n _ \<Rightarrow> n = pending_client_count j \<and> waiting j
      | DriveComplete g \<Rightarrow> terminal j = Some (TerminalComplete g)
      | DriveFailed e \<Rightarrow> terminal j = Some (TerminalFailed e)
      | DriveAborted r \<Rightarrow> terminal j = Some (TerminalAborted r)
      | DriveIgnoredStale _ \<Rightarrow> True)"

lemma answers_failed [simp]: "answers (PollFailed e) (failed e j)"
  by (simp add: answers_def failed_def)

lemma settles_answers: "settles H j p j' \<Longrightarrow> terminal j = None \<Longrightarrow> answers p j'"
  by (induction rule: settles.induct)
     (auto simp: answers_def waiting_def flushed_def pend_all_nonempty failed_def)

lemma discover_answers:
  assumes "terminal j = None" "discover_dependencies H n h j = (p, h', j')"
  shows "answers p j'"
  using assms(2)
proof (cases rule: discover_cases)
  case (requests snap0 snap cs h1 j1 reqs)
  then show ?thesis
    using settles_answers [OF requests(7)] same_work_fields(7) [OF conjunct1 [OF collect_loop_frame [OF requests(4)]]] assms(1)
    by simp
qed (use assms(1) settles_answers in auto)

lemma finish_error_answers:
  assumes "terminal j = None" "finish_module_load_error H k e h j = (p, h', j')"
  shows "answers p j'"
proof (cases "is_parse_error e")
  case True
  with assms(2) have "settles H (record_parse_error (case error_key e of Some k \<Rightarrow> k | None \<Rightarrow> k) e j) p j'"
    by (simp add: finish_module_load_error_def finish_after_parse_error_settles)
  with assms(1) show ?thesis by (auto simp: record_parse_error_def intro: settles_answers)
qed (use assms in \<open>auto simp: finish_module_load_error_def fail_failed\<close>)

lemma accept_answers:
  assumes "terminal j = None" "accept_module H l n c bad h j = (p, h', j')"
  shows "answers p j'"
proof -
  have t: "terminal (accepted l n c j) = None" using assms(1) by simp
  show ?thesis
    using assms(2) discover_answers [OF t] settles_answers [OF _ t] finish_after_parse_error_settles link_if_ready_settles
    unfolding accept_module_eq by (metis (full_types))
qed

lemma finish_load_answers:
  assumes "terminal j = None" "finish_module_load H l outcome h j = (p, h', j')"
  shows "answers p j'"
proof -
  have "terminal (snd (note_parse_error c j)) = None" for c
    using assms(1) by (simp add: note_parse_error_def record_parse_error_def split: option.split)
  then show ?thesis using assms
    by (auto simp: finish_module_load_def Let_def split: module_fetch_outcome.splits prod.splits sum.splits
        intro: accept_answers finish_error_answers) (metis accept_answers snd_conv)
qed

lemma resume_answers:
  assumes "tree_ok H L j" "resume_single_module_outcome H client outcome h j = (p, h', j')"
  shows "p = IgnoredStaleCompletion \<and> j' = j \<or> answers p j'"
proof (cases "tree_state j \<in> {Aborted_State, Finished} \<or> pending_clients j client = None")
  case True
  with assms(2) show ?thesis by (auto simp: resume_single_module_outcome_def split: if_splits)
next
  case False
  then have "terminal j = None" using assms(1) by (auto simp: tree_ok_def split: option.splits)
  with False assms(2) show ?thesis
    by (auto simp: resume_single_module_outcome_def intro: finish_load_answers [rotated])
qed


lemma start_answers:
  assumes "unstarted j" "start H h j = (p, h', j')"
  shows "answers p j'"
proof (cases "root j")
  case (External r)
  have "settles H (external_queued r j) p j'"
    using assms External external_queued_state(1) [OF assms(1)] by (auto simp: start_eq intro: flush_or_wait_settles)
  moreover have "running (external_queued r j)" using assms(1) by (rule external_queued_state(3))
  ultimately show ?thesis unfolding running_def by (blast intro: settles_answers)
next
  case (Inline r)
  have "terminal (inline_added r j) = None"
    using inline_added_state [OF assms(1), of H r] unfolding added_def running_def by blast
  with assms(2) Inline show ?thesis
    by (auto simp: start_eq split: if_splits dest: link_if_ready_settles intro: settles_answers discover_answers)
qed

lemma poll_answers:
  assumes "tree_ok H L j"
  shows "\<exists>p h' j'. poll_job H h j = Some (p, h', j') \<and> answers p j'"
proof (cases "terminal j")
  case (Some t)
  then show ?thesis by (cases t) (simp_all add: poll_job_def poll_terminal_def answers_def)
next
  case None
  then consider "unstarted j" | "working H L j" "pending_clients j \<noteq> Map.empty"
    using assms by (auto simp: tree_ok_def)
  then show ?thesis
  proof cases
    case 1
    obtain p h' j' where r: "start H h j = (p, h', j')" by (metis prod_cases3)
    with 1 have "poll_job H h j = Some (p, h', j')" by (simp add: poll_job_def unstarted_def)
    with start_answers [OF 1 r] show ?thesis by blast
  next
    case 2
    obtain p h' j' where r: "flush_or_wait H h j = (p, h', j')" by (metis prod_cases3)
    then have "poll_job H h j = Some (p, h', j')" using 2 None by (auto simp: poll_job_def working_def running_def)
    moreover have "answers p j'" using settles_answers [OF flush_or_wait_settles [OF _ r]] 2 None by simp
    ultimately show ?thesis by blast
  qed
qed

definition reports_from ::
  "('h, 'u) module_host \<Rightarrow> 'u module_fetch_request list \<Rightarrow> 'u module_tree_poll \<Rightarrow> 'h \<Rightarrow> 'u module_script_tree_job \<Rightarrow>
   'u module_tree_drive \<times> 'h \<times> 'u module_script_tree_job \<Rightarrow> bool" where
  "reports_from H fs p h j r \<longleftrightarrow>
     (\<forall>L. values_next_ok H \<longrightarrow> module_reach H L h j \<longrightarrow> (if fs = [] then p = IgnoredStaleCompletion \<or> answers p j else waiting j) \<longrightarrow>
       (\<exists>L'. module_reach H L' (fst (snd r)) (snd (snd r))) \<and> reports (fst r) (snd (snd r)))"

lemma reports_finished:
  assumes "queued_completions j = []" "finish_drive fs p j = (d, j')"
  shows "reports_from H fs p h j (d, h, j')"
proof -
  have j': "j' = j\<lparr>joined_fetches := []\<rparr>" using assms(2) by (simp add: finish_drive_def Let_def)
  have "reports d j'" if "if fs = [] then p = IgnoredStaleCompletion \<or> answers p j else waiting j"
    using assms(2) that
    by (cases p) (auto simp: finish_drive_def Let_def reports_def answers_def waiting_def pending_client_count_def
        split: if_splits)
  then show ?thesis unfolding reports_from_def j' by (auto intro: reach_take)
qed

lemma reports_step:
  assumes c: "queued_completions j = c # cs"
    and res: "resume_single_module_outcome H (result_client c) (result_outcome c) h (j\<lparr>queued_completions := cs\<rparr>) = (p', h', j')"
    and next': "\<And>fs'. p' = NeedFetches fs' \<Longrightarrow> reports_from H (fs @ fs') p h' j' r"
    and other: "continues p' \<Longrightarrow> (\<And>fs'. p' \<noteq> NeedFetches fs') \<Longrightarrow> reports_from H fs p' h' j' r"
    and final: "\<not> continues p' \<Longrightarrow> snd r = (h', j') \<and> (answers p' j' \<longrightarrow> reports (fst r) j')"
  shows "reports_from H fs p h j r"
  unfolding reports_from_def
proof (intro allI impI)
  fix L
  assume v: "values_next_ok H" and re: "module_reach H L h j" and fs: "if fs = [] then p = IgnoredStaleCompletion \<or> answers p j else waiting j"
  let ?j = "j\<lparr>queued_completions := cs\<rparr>"
  have re1: "module_reach H L h ?j" using re c by (rule reach_pop)
  note re' = reach_resume [OF re1 res]
  consider "p' = IgnoredStaleCompletion" "j' = ?j" | "answers p' j'"
    using resume_answers [OF reach_ok [OF v re1] res] by blast
  then show "(\<exists>L'. module_reach H L' (fst (snd r)) (snd (snd r))) \<and> reports (fst r) (snd (snd r))"
  proof cases
    case 1
    have "if fs = [] then p' = IgnoredStaleCompletion \<or> answers p' j' else waiting j'"
      using 1 fs by (simp add: waiting_def split: if_splits)
    with 1 v re' other show ?thesis by (auto simp: reports_from_def continues_def)
  next
    case 2
    then have w: "(\<exists>fs'. p' = NeedFetches fs' \<and> fs' \<noteq> []) \<or> (\<exists>n. p' = WaitingForSingleModuleClients n) \<Longrightarrow> waiting j'"
      by (auto simp: answers_def)
    show ?thesis
    proof (cases p')
      case (NeedFetches fs')
      with next' [OF NeedFetches] v re' 2 show ?thesis by (auto simp: reports_from_def answers_def split: if_splits)
    next
      case (WaitingForSingleModuleClients n)
      with other v re' 2 w show ?thesis by (auto simp: reports_from_def continues_def split: if_splits)
    qed (use 2 final re' in \<open>auto simp: answers_def continues_def\<close>)
  qed
qed


lemma drive_loop_reports:
  assumes "drive_loop H fs p h j = Some r"
  shows "reports_from H fs p h j r"
proof (rule drive_loop.raw_induct [where P = reports_from, OF _ assms], goal_cases)
  case (1 dl H fs p h j r)
  show ?case
  proof (cases "queued_completions j")
    case Nil
    obtain d j' where "finish_drive fs p j = (d, j')" by fastforce
    with Nil 1(2) reports_finished [OF Nil this] show ?thesis by auto
  next
    case (Cons c cs)
    obtain p' h' j' where res:
      "resume_single_module_outcome H (result_client c) (result_outcome c) h (j\<lparr>queued_completions := cs\<rparr>) = (p', h', j')"
      by (metis prod_cases3)
    show ?thesis
      by (rule reports_step [OF Cons res]; use 1 Cons res in
          \<open>cases p'; auto simp: resume_single_module_def continues_def answers_def reports_def\<close>)
  qed
qed

lemma drive_queued_reports:
  assumes "values_next_ok H" "module_reach H L h j" "p = IgnoredStaleCompletion \<or> answers p j"
    and "drive_queued_completions H (p, h, j) = Some (d, h', j')"
  shows "(\<exists>L'. module_reach H L' h' j') \<and> reports d j'"
proof -
  define fs where "fs = (case p of NeedFetches fs \<Rightarrow> fs | _ \<Rightarrow> [])"
  define q where "q = (case p of NeedFetches _ \<Rightarrow> PollPending | _ \<Rightarrow> p)"
  have "drive_loop H fs q h j = Some (d, h', j')"
    using assms(4) by (cases p) (simp_all add: drive_queued_completions_def fs_def q_def)
  from drive_loop_reports [OF this] have r: "reports_from H fs q h j (d, h', j')" .
  have "if fs = [] then q = IgnoredStaleCompletion \<or> answers q j else waiting j"
    using assms(3) by (cases p) (auto simp: fs_def q_def answers_def)
  with r assms(1,2) show ?thesis unfolding reports_from_def by fastforce
qed

lemma drive_queued_ends:
  assumes "finite K" "resolves_into H K" "values_next_ok H" "tree_ok H L j"
  shows "\<exists>r. drive_queued_completions H (p, h, j) = Some r"
  using drive_loop_ends [OF assms] by (cases p) (simp_all add: drive_queued_completions_def)


subsection \<open>Two modules that import each other\<close>

text \<open>A host for the examples: it knows two modules, each of which imports the other, and completes
  every fetch at once.\<close>

definition demo_key :: "nat \<Rightarrow> nat module_map_key" where
  "demo_key u = \<lparr>key_url = u, key_kind = JavaScript, key_attributes = []\<rparr>"

definition demo_host :: "(unit, nat) module_host" where
  "demo_host = \<lparr>
     resolve_module_request = (\<lambda>s b a p h. (Inr \<lparr>resolved_key = demo_key (1 - b), resolved_source_url = 1 - b,
        resolved_base_url = 1 - b, resolved_kind = JavaScript, resolved_attributes = a, resolved_phase = p,
        resolved_integrity = None\<rparr>, h)),
     start_or_join_single_module_fetch = (\<lambda>r c h. (Completed (Ready \<lparr>ready_entry = req_source_url r, ready_key = req_key r,
        ready_base_url = req_base_url r, ready_metadata = fetch_metadata_default\<rparr>), h)),
     compile_module_source = (\<lambda>src p h. (Inl (load_error_new StageCompile []), h)),
     module_dependencies = (\<lambda>n h. Inr \<lparr>snap_entry = n, snap_key = demo_key n, snap_base_url = n,
        snap_metadata = fetch_metadata_default,
        requested_modules = [\<lparr>specifier = ''./other.js'', attributes = [], request_phase = Evaluation,
          position = \<lparr>line = 1, column = 0\<rparr>\<rparr>]\<rparr>),
     link_module_graph = (\<lambda>n ns es h. (Inr \<lparr>graph_root = n, graph_entries = ns, graph_phases = Map.empty, graph_edges = es\<rparr>, h)),
     mark_module_failed = (\<lambda>k e h. (0, h)),
     url_as_str = (\<lambda>u. []),
     some_value = (\<lambda>m. if m = Map.empty then None else Some (load_error_new StageCompile []))\<rparr>"

definition demo_job :: "nat module_script_tree_job" where
  "demo_job = job_new (Inline \<lparr>inl_root_key = demo_key 0, inl_root_entry = 0, inl_source_url = 0, inl_base_url = 0,
     inl_phase = Evaluation, inl_metadata = fetch_metadata_default, inl_referrer = referrer_client,
     inl_position = \<lparr>line = 1, column = 0\<rparr>\<rparr>) tree_config_default"

definition demo_polled :: "nat module_tree_poll \<times> unit \<times> nat module_script_tree_job" where
  "demo_polled = the (poll_job demo_host () demo_job)"

definition demo_resumed :: "nat module_tree_poll \<times> unit \<times> nat module_script_tree_job" where
  "demo_resumed = resume_single_module_outcome demo_host \<lparr>token_tree = 0, token_sequence = 0\<rparr>
     (Ready \<lparr>ready_entry = 1, ready_key = demo_key 1, ready_base_url = 1, ready_metadata = fetch_metadata_default\<rparr>)
     () (snd (snd demo_polled))"

lemmas demo_eval = poll_job_def start_def start_inline_root_def Let_def record_module_order_def
  record_entry_context_def add_entry_def discover_dependencies_def dependency_snapshot_with_tree_context_def
  collect_dependency_candidates_def note_dependency_def flush_or_link_def flush_or_wait_def link_if_ready_def
  queue_candidate_def next_single_module_client_def queue_fetch_request_def dependency_fetch_request_def
  register_fetch_def load_of_def resume_single_module_outcome_def finish_module_load_def accept_module_def
  first_parse_error_def map_filter_simps job_new_def demo_job_def demo_host_def demo_key_def

lemma demo_values: "values_next_ok demo_host"
  by (simp add: values_next_ok_def demo_host_def)

lemma demo_poll: "poll_job demo_host () demo_job = Some demo_polled"
  by (simp add: demo_polled_def poll_job_def demo_job_def job_new_def)

lemma demo_polled_state:
  "fst demo_polled = WaitingForSingleModuleClients 1"
  "pending_clients (snd (snd demo_polled)) =
     [\<lparr>token_tree = 0, token_sequence = 0\<rparr> \<mapsto> \<lparr>load_key = demo_key 1, load_phase = Evaluation, load_graph_level = Dependent\<rparr>]"
  "terminal (snd (snd demo_polled)) = None" "tree_state (snd (snd demo_polled)) = FetchingDependencies"
  by (simp_all add: demo_polled_def demo_eval tree_config_default_def pending_client_count_def)

lemma demo_resumed_state:
  "\<exists>g. terminal (snd (snd demo_resumed)) = Some (TerminalComplete g)"
  "map edge_child_key (dependency_edges (snd (snd demo_resumed))) = [demo_key 1, demo_key 0]"
  by (simp_all add: demo_resumed_def demo_polled_def demo_eval tree_config_default_def)

lemma demo_reach_polled: "module_reach demo_host (start_log demo_job) () (snd (snd demo_polled))"
proof -
  have "module_reach demo_host [] () demo_job" unfolding demo_job_def by (rule reach_new)
  moreover have "demo_polled = (fst demo_polled, (), snd (snd demo_polled))" by (simp add: prod_eq_iff)
  ultimately show ?thesis
    using reach_poll [of demo_host "[]" "()" demo_job "fst demo_polled" "()" "snd (snd demo_polled)"] demo_poll by simp
qed

lemma demo_reach_resumed:
  "module_reach demo_host (start_log demo_job @
     [(\<lparr>load_key = demo_key 1, load_phase = Evaluation, load_graph_level = Dependent\<rparr>, 1)]) () (snd (snd demo_resumed))"
proof -
  have "resume_log demo_host \<lparr>token_tree = 0, token_sequence = 0\<rparr>
     (Ready \<lparr>ready_entry = 1, ready_key = demo_key 1, ready_base_url = 1, ready_metadata = fetch_metadata_default\<rparr>)
     () (snd (snd demo_polled)) = [(\<lparr>load_key = demo_key 1, load_phase = Evaluation, load_graph_level = Dependent\<rparr>, 1)]"
    by (simp add: resume_log_def demo_polled_state)
  with reach_resume [OF demo_reach_polled, of "\<lparr>token_tree = 0, token_sequence = 0\<rparr>" _
      "fst demo_resumed" "fst (snd demo_resumed)" "snd (snd demo_resumed)"]
  show ?thesis by (metis demo_resumed_def old.unit.exhaust prod.collapse)
qed

lemma demo_resolves: "resolves_into demo_host {demo_key 0, demo_key 1}"
proof -
  have "demo_key (1 - b) \<in> {demo_key 0, demo_key 1}" for b by (cases b) simp_all
  then show ?thesis unfolding resolves_into_def by (auto simp: demo_host_def)
qed


subsection \<open>Properties\<close>

text \<open>C2: Whenever the job has completed, nothing is outstanding, no module had a parse error, every import
  of the graph (an edge) has been loaded at least in the phase it asks for, every module loaded for
  evaluation has all the imports its host reports as edges of the graph, and the graph is the one the
  host linked from exactly these entries and edges.\<close>

theorem module_graph_complete:
  assumes "values_next_ok H" "module_reach H L h j" "terminal j = Some (TerminalComplete g)"
  shows "pending_clients j = Map.empty \<and> queued_fetches j = [] \<and> parse_errors j = Map.empty \<and>
    (\<forall>e\<in>set (dependency_edges j). \<exists>l n. (l, n) \<in> set L \<and> load_key l = edge_child_key e \<and> covers (load_phase l) (edge_phase e)) \<and>
    (\<forall>(l, n)\<in>set L. n \<in> set (job_entries j) \<and> (load_phase l = Evaluation \<longrightarrow> discovered H j n)) \<and>
    linked H j g"
proof -
  have ok: "queued_fetches j = []" "pending_clients j = Map.empty" "parse_errors j = Map.empty"
    "closed H L j" "linked H j g"
    using reach_ok [OF assms(1,2)] assms(3) by (auto simp: tree_ok_def)
  have "\<exists>l n. (l, n) \<in> set L \<and> load_key l = edge_child_key e \<and> covers (load_phase l) (edge_phase e)"
    if e: "e \<in> set (dependency_edges j)" for e
  proof -
    from ok(4) e obtain p where p: "queued_or_visited j (edge_child_key e) = Some p" "covers p (edge_phase e)"
      by (auto simp: closed_def edges_visited_def)
    have "outstanding j = {}" using ok(1,2) by (simp add: outstanding_def)
    with ok(4) p(1) have "covered (fst ` set L) (edge_child_key e) p"
      by (auto simp: closed_def keys_covered_def)
    then obtain l n where "(l, n) \<in> set L" "load_key l = edge_child_key e" "covers (load_phase l) p"
      by (auto simp: covered_def)
    with p(2) show ?thesis by (auto simp: covers_def)
  qed
  with ok show ?thesis by (auto simp: closed_def entries_done_def)
qed

theorem module_graph_complete_witness:
  "parse_errors (snd (snd demo_resumed)) = Map.empty \<and> discovered demo_host (snd (snd demo_resumed)) 1 \<and>
   (\<exists>g. terminal (snd (snd demo_resumed)) = Some (TerminalComplete g) \<and> linked demo_host (snd (snd demo_resumed)) g)"
proof -
  from demo_resumed_state(1) obtain g where g: "terminal (snd (snd demo_resumed)) = Some (TerminalComplete g)" by blast
  from module_graph_complete [OF demo_values demo_reach_resumed g] g show ?thesis by simp
qed

text \<open>C10: If the host resolves imports into finitely many keys, driving a job and resuming it with the
  outcome of a fetch both return: cyclic imports and modules that complete at once do not keep the
  loop busy.  The job reached is again a reachable one, and what is reported is what it holds: a
  result that has been stored, or fetches or clients that are really outstanding.\<close>

theorem module_drive_terminates:
  assumes "values_next_ok H" "finite K" "resolves_into H K" "module_reach H L h j"
  shows "(\<exists>d h' j' L'. drive H h j = Some (d, h', j') \<and> module_reach H L' h' j' \<and> reports d j') \<and>
    (\<exists>d h' j' L'. resume_single_module_outcome_and_drive H client outcome h j = Some (d, h', j') \<and>
       module_reach H L' h' j' \<and> reports d j')"
proof (intro conjI)
  have ok: "tree_ok H L j" using assms by (simp add: reach_ok)
  obtain p h1 j1 where p: "poll_job H h j = Some (p, h1, j1)" "answers p j1"
    using poll_answers [OF ok] by blast
  note re = reach_poll [OF assms(4) p(1)]
  obtain d h' j' where d: "drive_queued_completions H (p, h1, j1) = Some (d, h', j')"
    using drive_queued_ends [OF assms(2,3,1) reach_ok [OF assms(1) re]] by (metis prod_cases3)
  with p drive_queued_reports [OF assms(1) re _ d]
  show "\<exists>d h' j' L'. drive H h j = Some (d, h', j') \<and> module_reach H L' h' j' \<and> reports d j'"
    by (auto simp: drive_def)
  obtain p h1 j1 where p: "resume_single_module_outcome H client outcome h j = (p, h1, j1)" by (metis prod_cases3)
  note re = reach_resume [OF assms(4) p]
  obtain d h' j' where d: "drive_queued_completions H (p, h1, j1) = Some (d, h', j')"
    using drive_queued_ends [OF assms(2,3,1) reach_ok [OF assms(1) re]] by (metis prod_cases3)
  have "p = IgnoredStaleCompletion \<or> answers p j1" using resume_answers [OF ok p] by blast
  with p d drive_queued_reports [OF assms(1) re _ d]
  show "\<exists>d h' j' L'. resume_single_module_outcome_and_drive H client outcome h j = Some (d, h', j') \<and>
      module_reach H L' h' j' \<and> reports d j'"
    by (auto simp: resume_single_module_outcome_and_drive_def)
qed

theorem module_drive_terminates_witness:
  "\<exists>d h' j'. drive demo_host () demo_job = Some (d, h', j') \<and> reports d j'"
  using module_drive_terminates [OF demo_values _ demo_resolves reach_new] unfolding demo_job_def by blast

text \<open>C30: A started job that has no result is never stuck: it waits for at least one module it has
  registered, polling it says so without changing anything, and polling never panics.\<close>

theorem module_job_never_stuck:
  assumes "values_next_ok H" "module_reach H L h j"
  shows "(\<exists>p h' j'. poll_job H h j = Some (p, h', j') \<and> p \<noteq> PollPending) \<and>
    (terminal j = None \<longrightarrow> tree_state j \<noteq> Initial \<longrightarrow>
       0 < pending_client_count j \<and>
       poll_job H h j = Some (WaitingForSingleModuleClients (pending_client_count j), h, j))"
proof (intro conjI impI)
  have ok: "tree_ok H L j" using assms by (simp add: reach_ok)
  show "\<exists>p h' j'. poll_job H h j = Some (p, h', j') \<and> p \<noteq> PollPending"
    using poll_answers [OF ok, of h] by (fastforce simp: answers_def)
  assume t: "terminal j = None" "tree_state j \<noteq> Initial"
  then have w: "working H L j" "pending_clients j \<noteq> Map.empty" "queued_fetches j = []"
    using ok by (auto simp: tree_ok_def unstarted_def)
  then show "0 < pending_client_count j"
    by (simp add: pending_client_count_def card_gt_0_iff working_def fresh_def)
  show "poll_job H h j = Some (WaitingForSingleModuleClients (pending_client_count j), h, j)"
    using w t by (auto simp: poll_job_def flush_or_wait_def working_def running_def)
qed

theorem module_job_never_stuck_witness:
  "0 < pending_client_count (snd (snd demo_polled)) \<and>
   poll_job demo_host () (snd (snd demo_polled)) = Some (WaitingForSingleModuleClients 1, (), snd (snd demo_polled))"
  using module_job_never_stuck [OF demo_values demo_reach_polled]
  by (simp add: demo_polled_state pending_client_count_def)

text \<open>A result is final for polls and resumptions; only a cancellation replaces it.\<close>

lemma module_result_final:
  assumes "values_next_ok H" "module_reach H L h j" "terminal j = Some t"
  shows "poll_job H h j = Some (poll_terminal t, h, j)"
    and "resume_single_module_outcome H client outcome h j = (IgnoredStaleCompletion, h, j)"
  using reach_ok [OF assms(1,2)] assms(3)
  by (auto simp: tree_ok_def poll_job_def resume_single_module_outcome_def)

end
