(* ===== verification/Shared_Worker.thy ===== *)
theory Shared_Worker
  imports Storage_Key "HOL-Library.AList"
begin

section \<open>The shared worker registry (moli-shared-worker)\<close>

text \<open>
  The registry that matches shared worker clients with worker instances: \<^verbatim>\<open>options.rs\<close>, \<^verbatim>\<open>key.rs\<close>,
  \<^verbatim>\<open>client.rs\<close> and \<^verbatim>\<open>registry.rs\<close>.  The hash map of entries is an association list with distinct keys
  whose order stands for the iteration order; a search by instance id does not depend on it, since
  instance ids are unique.  Every method holds the registry's lock from its first to its last access,
  so a method is one step.  The id counters are 64-bit numbers that wrap around, as in a release build;
  the lemmas on runs are about runs with fewer connections than there are ids.  The embedder's
  instance is a type parameter.
\<close>

subsection \<open>Options (options.rs), keys (key.rs) and ids (client.rs)\<close>

datatype shared_worker_script_type = Classic | Module

datatype shared_worker_credentials_mode = SwOmit | SwSameOrigin | SwInclude

datatype shared_worker_creation_context_type = Secure | Nonsecure

datatype shared_worker_same_site_cookies = CookiesAll | CookiesNone

definition is_third_party_partitioned :: "moli_storage_key \<Rightarrow> bool" where
  "is_third_party_partitioned k = is_third_party (partition_relation k)"

definition default_for_storage_key :: "moli_storage_key \<Rightarrow> shared_worker_same_site_cookies" where
  "default_for_storage_key k = (if is_third_party_partitioned k then CookiesNone else CookiesAll)"

definition is_allowed_for_storage_key :: "shared_worker_same_site_cookies \<Rightarrow> moli_storage_key \<Rightarrow> bool" where
  "is_allowed_for_storage_key c k \<longleftrightarrow> \<not> c = CookiesAll \<or> \<not> is_third_party_partitioned k"

record shared_worker_descriptor =
  script_type :: shared_worker_script_type
  sw_credentials :: shared_worker_credentials_mode
  extended_lifetime :: bool
  creation_context_type :: shared_worker_creation_context_type

definition descriptor_default :: shared_worker_descriptor where
  "descriptor_default = \<lparr>script_type = Classic, sw_credentials = SwSameOrigin, extended_lifetime = False,
     creation_context_type = Secure\<rparr>"

datatype shared_worker_compatibility_error =
    ScriptTypeError shared_worker_script_type shared_worker_script_type
  | CredentialsModeError shared_worker_credentials_mode shared_worker_credentials_mode
  | ExtendedLifetimeError bool bool
  | CreationContextTypeError shared_worker_creation_context_type shared_worker_creation_context_type

definition ensure_compatible_with ::
  "shared_worker_descriptor \<Rightarrow> shared_worker_descriptor \<Rightarrow> shared_worker_compatibility_error + unit" where
  "ensure_compatible_with d requested =
     (if script_type d \<noteq> script_type requested
      then Inl (ScriptTypeError (script_type d) (script_type requested))
      else if sw_credentials d \<noteq> sw_credentials requested
      then Inl (CredentialsModeError (sw_credentials d) (sw_credentials requested))
      else if extended_lifetime d \<noteq> extended_lifetime requested
      then Inl (ExtendedLifetimeError (extended_lifetime d) (extended_lifetime requested))
      else if creation_context_type d \<noteq> creation_context_type requested
      then Inl (CreationContextTypeError (creation_context_type d) (creation_context_type requested))
      else Inr ())"

record shared_worker_key =
  worker_storage_key :: moli_storage_key
  script_url :: string
  worker_name :: string
  same_site_cookies :: shared_worker_same_site_cookies

text \<open>Building an owner id from a number panics on zero.\<close>

definition owner_from_u64 :: "nat \<Rightarrow> nat option" where
  "owner_from_u64 n = (if n \<noteq> 0 then Some n else None)"

definition unique_for_client :: "nat \<Rightarrow> nat" where
  "unique_for_client c = c"


subsection \<open>Entries\<close>

record shared_worker_client_record =
  record_client :: nat
  record_owner :: nat

datatype 'i shared_worker_entry_state = WorkerLoading | WorkerRunning 'i

record 'i shared_worker_entry =
  entry_instance :: nat
  entry_descriptor :: shared_worker_descriptor
  entry_clients :: "shared_worker_client_record list"
  entry_state :: "'i shared_worker_entry_state"

definition entry_add_client :: "shared_worker_client_record \<Rightarrow> 'i shared_worker_entry \<Rightarrow> 'i shared_worker_entry" where
  "entry_add_client c e = e\<lparr>entry_clients := entry_clients e @ [c]\<rparr>"

definition entry_remove_client :: "nat \<Rightarrow> 'i shared_worker_entry \<Rightarrow> bool \<times> 'i shared_worker_entry" where
  "entry_remove_client c e =
     (let cs = filter (\<lambda>r. record_client r \<noteq> c) (entry_clients e) in (cs = [], e\<lparr>entry_clients := cs\<rparr>))"

definition client_owner_id :: "nat \<Rightarrow> 'i shared_worker_entry \<Rightarrow> nat option" where
  "client_owner_id c e = map_option record_owner (List.find (\<lambda>r. record_client r = c) (entry_clients e))"

definition client_ids :: "'i shared_worker_entry \<Rightarrow> nat list" where
  "client_ids e = map record_client (entry_clients e)"

definition client_owner_ids :: "'i shared_worker_entry \<Rightarrow> nat list" where
  "client_owner_ids e =
     fold (\<lambda>r os. if record_owner r \<in> set os then os else os @ [record_owner r]) (entry_clients e) []"

definition entry_count_for_owner :: "nat \<Rightarrow> 'i shared_worker_entry \<Rightarrow> nat" where
  "entry_count_for_owner ow e = length (filter (\<lambda>r. record_owner r = ow) (entry_clients e))"


subsection \<open>The registry\<close>

record 'i shared_worker_registry =
  next_client_id :: nat
  next_instance_id :: nat
  entries :: "(shared_worker_key \<times> 'i shared_worker_entry) list"
  client_keys :: "nat \<rightharpoonup> shared_worker_key"

definition worker_registry_default :: "'i shared_worker_registry" where
  "worker_registry_default = \<lparr>next_client_id = 0, next_instance_id = 0, entries = [], client_keys = Map.empty\<rparr>"

datatype shared_worker_client_owner_event = FirstClientAdded nat nat | LastClientRemoved nat nat

datatype 'i shared_worker_connect_action =
    StartLoading nat nat
  | QueueWhileLoading nat nat
  | ConnectToRunning nat nat 'i
  | RejectClient nat shared_worker_compatibility_error

datatype 'i shared_worker_load_ready = LoadRunning nat "nat list" 'i | ReadyStale

datatype shared_worker_load_failure = LoadFailure nat "nat list" | FailureStale

datatype 'i shared_worker_client_removal =
    RemovedFromLoading nat
  | RemovedFromRunning nat 'i
  | CancelLoading nat shared_worker_key
  | Terminate nat shared_worker_key 'i
  | ClientMissing

datatype 'i shared_worker_instance_removal =
    InstanceRemoved shared_worker_key nat "nat list" "'i option"
  | InstanceMissing

type_synonym owner_events = "shared_worker_client_owner_event list"

definition last_client_removed_event :: "nat \<Rightarrow> nat option \<Rightarrow> bool \<Rightarrow> owner_events" where
  "last_client_removed_event i ow emit =
     (case ow of Some w \<Rightarrow> (if emit then [LastClientRemoved i w] else []) | None \<Rightarrow> [])"

definition last_client_removed_events :: "nat \<Rightarrow> 'i shared_worker_entry \<Rightarrow> owner_events" where
  "last_client_removed_events i e = map (LastClientRemoved i) (client_owner_ids e)"

definition alloc_client_id :: "'i shared_worker_registry \<Rightarrow> nat \<times> 'i shared_worker_registry" where
  "alloc_client_id s =
     (let n = (next_client_id s + 1) mod (u64_max + 1) in (n, s\<lparr>next_client_id := n\<rparr>))"

definition alloc_instance_id :: "'i shared_worker_registry \<Rightarrow> nat \<times> 'i shared_worker_registry" where
  "alloc_instance_id s =
     (let n = (next_instance_id s + 1) mod (u64_max + 1) in (n, s\<lparr>next_instance_id := n\<rparr>))"

definition connect_locked ::
  "shared_worker_key \<Rightarrow> shared_worker_descriptor \<Rightarrow> nat \<Rightarrow> nat \<Rightarrow> 'i shared_worker_registry \<Rightarrow>
   'i shared_worker_connect_action \<times> owner_events \<times> 'i shared_worker_registry" where
  "connect_locked key d client ow s =
     (let (i, s) = alloc_instance_id s;
          c = \<lparr>record_client = client, record_owner = ow\<rparr> in
      case map_of (entries s) key of
        Some e \<Rightarrow>
          (case ensure_compatible_with (entry_descriptor e) d of
             Inl err \<Rightarrow> (RejectClient client err, [], s)
           | Inr _ \<Rightarrow>
               (case entry_state e of
                  WorkerLoading \<Rightarrow> QueueWhileLoading (entry_instance e) client
                | WorkerRunning x \<Rightarrow> ConnectToRunning (entry_instance e) client x,
                if entry_count_for_owner ow e = 0 then [FirstClientAdded (entry_instance e) ow] else [],
                s\<lparr>entries := AList.update key (entry_add_client c e) (entries s),
                  client_keys := (client_keys s)(client \<mapsto> key)\<rparr>))
      | None \<Rightarrow>
          (StartLoading i client, [FirstClientAdded i ow],
           s\<lparr>client_keys := (client_keys s)(client \<mapsto> key),
             entries := AList.update key
               \<lparr>entry_instance = i, entry_descriptor = d, entry_clients = [c], entry_state = WorkerLoading\<rparr> (entries s)\<rparr>))"

definition connect_with_owner_observed ::
  "shared_worker_key \<Rightarrow> shared_worker_descriptor \<Rightarrow> nat \<Rightarrow> 'i shared_worker_registry \<Rightarrow>
   'i shared_worker_connect_action \<times> owner_events \<times> 'i shared_worker_registry" where
  "connect_with_owner_observed key d ow s =
     (let (client, s) = alloc_client_id s in connect_locked key d client ow s)"

definition connect_observed ::
  "shared_worker_key \<Rightarrow> shared_worker_descriptor \<Rightarrow> 'i shared_worker_registry \<Rightarrow>
   'i shared_worker_connect_action \<times> owner_events \<times> 'i shared_worker_registry" where
  "connect_observed key d s =
     (let (client, s) = alloc_client_id s in connect_locked key d client (unique_for_client client) s)"

definition finish_loading ::
  "shared_worker_key \<Rightarrow> nat \<Rightarrow> 'i \<Rightarrow> 'i shared_worker_registry \<Rightarrow> 'i shared_worker_load_ready \<times> 'i shared_worker_registry" where
  "finish_loading key i x s =
     (case map_of (entries s) key of
        None \<Rightarrow> (ReadyStale, s)
      | Some e \<Rightarrow>
          if entry_instance e \<noteq> i then (ReadyStale, s)
          else if entry_state e \<noteq> WorkerLoading \<or> entry_clients e = [] then (ReadyStale, s)
          else (LoadRunning i (client_ids e) x,
                s\<lparr>entries := AList.update key (e\<lparr>entry_state := WorkerRunning x\<rparr>) (entries s)\<rparr>))"

definition forget_clients :: "nat list \<Rightarrow> (nat \<rightharpoonup> shared_worker_key) \<Rightarrow> (nat \<rightharpoonup> shared_worker_key)" where
  "forget_clients cs m = fold (\<lambda>c m. m(c := None)) cs m"

definition remove_entry :: "shared_worker_key \<Rightarrow> 'i shared_worker_entry \<Rightarrow> 'i shared_worker_registry \<Rightarrow> 'i shared_worker_registry" where
  "remove_entry key e s =
     s\<lparr>entries := AList.delete key (entries s), client_keys := forget_clients (client_ids e) (client_keys s)\<rparr>"

definition fail_loading_observed ::
  "shared_worker_key \<Rightarrow> nat \<Rightarrow> 'i shared_worker_registry \<Rightarrow>
   shared_worker_load_failure \<times> owner_events \<times> 'i shared_worker_registry" where
  "fail_loading_observed key i s =
     (case map_of (entries s) key of
        None \<Rightarrow> (FailureStale, [], s)
      | Some e \<Rightarrow>
          if entry_instance e \<noteq> i \<or> entry_state e \<noteq> WorkerLoading then (FailureStale, [], s)
          else (LoadFailure i (client_ids e), last_client_removed_events i e, remove_entry key e s))"

definition remove_client_observed ::
  "nat \<Rightarrow> 'i shared_worker_registry \<Rightarrow> 'i shared_worker_client_removal \<times> owner_events \<times> 'i shared_worker_registry" where
  "remove_client_observed client s =
     (case client_keys s client of
        None \<Rightarrow> (ClientMissing, [], s)
      | Some key \<Rightarrow>
          (let s = s\<lparr>client_keys := (client_keys s)(client := None)\<rparr> in
           case map_of (entries s) key of
             None \<Rightarrow> (ClientMissing, [], s)
           | Some e \<Rightarrow>
               (let i = entry_instance e;
                    ow = client_owner_id client e;
                    last_for_owner = (case ow of Some w \<Rightarrow> entry_count_for_owner w e = 1 | None \<Rightarrow> False);
                    events = last_client_removed_event i ow last_for_owner;
                    (empty, e') = entry_remove_client client e in
                if \<not> empty then
                  (case entry_state e' of
                     WorkerLoading \<Rightarrow> RemovedFromLoading i
                   | WorkerRunning x \<Rightarrow> RemovedFromRunning i x,
                   events, s\<lparr>entries := AList.update key e' (entries s)\<rparr>)
                else
                  (case entry_state e' of
                     WorkerLoading \<Rightarrow> CancelLoading i key
                   | WorkerRunning x \<Rightarrow> Terminate i key x,
                   events, s\<lparr>entries := AList.delete key (entries s)\<rparr>))))"

definition find_instance :: "nat \<Rightarrow> 'i shared_worker_registry \<Rightarrow> (shared_worker_key \<times> 'i shared_worker_entry) option" where
  "find_instance i s = List.find (\<lambda>(k, e). entry_instance e = i) (entries s)"

definition clients_for_instance :: "nat \<Rightarrow> 'i shared_worker_registry \<Rightarrow> nat list" where
  "clients_for_instance i s = (case find_instance i s of Some (_, e) \<Rightarrow> client_ids e | None \<Rightarrow> [])"

definition loading_clients_for_instance :: "nat \<Rightarrow> 'i shared_worker_registry \<Rightarrow> nat list" where
  "loading_clients_for_instance i s =
     (case List.find (\<lambda>(k, e). entry_instance e = i \<and> entry_state e = WorkerLoading) (entries s) of
        Some (_, e) \<Rightarrow> client_ids e | None \<Rightarrow> [])"

definition client_owner_ids_for_instance :: "nat \<Rightarrow> 'i shared_worker_registry \<Rightarrow> nat list" where
  "client_owner_ids_for_instance i s = (case find_instance i s of Some (_, e) \<Rightarrow> client_owner_ids e | None \<Rightarrow> [])"

definition client_count_for_owner :: "nat \<Rightarrow> nat \<Rightarrow> 'i shared_worker_registry \<Rightarrow> nat" where
  "client_count_for_owner i ow s = (case find_instance i s of Some (_, e) \<Rightarrow> entry_count_for_owner ow e | None \<Rightarrow> 0)"

definition running_of :: "'i shared_worker_entry \<Rightarrow> 'i option" where
  "running_of e = (case entry_state e of WorkerLoading \<Rightarrow> None | WorkerRunning x \<Rightarrow> Some x)"

definition running_instance :: "nat \<Rightarrow> 'i shared_worker_registry \<Rightarrow> 'i option" where
  "running_instance i s = Option.bind (find_instance i s) (\<lambda>(_, e). running_of e)"

definition remove_instance_observed ::
  "nat \<Rightarrow> 'i shared_worker_registry \<Rightarrow> 'i shared_worker_instance_removal \<times> owner_events \<times> 'i shared_worker_registry" where
  "remove_instance_observed i s =
     (case find_instance i s of
        None \<Rightarrow> (InstanceMissing, [], s)
      | Some (key, e) \<Rightarrow>
          (InstanceRemoved key i (client_ids e) (running_of e), last_client_removed_events i e, remove_entry key e s))"

definition remove_all_instances_observed ::
  "'i shared_worker_registry \<Rightarrow> ('i shared_worker_instance_removal \<times> owner_events) list \<times> 'i shared_worker_registry" where
  "remove_all_instances_observed s =
     (map (\<lambda>(key, e). (InstanceRemoved key (entry_instance e) (client_ids e) (running_of e),
        last_client_removed_events (entry_instance e) e)) (entries s),
      s\<lparr>entries := [], client_keys := Map.empty\<rparr>)"

definition registry_is_empty :: "'i shared_worker_registry \<Rightarrow> bool" where
  "registry_is_empty s \<longleftrightarrow> entries s = []"

record shared_worker_registry_diagnostics =
  entry_count :: nat
  loading_instance_count :: nat
  running_instance_count :: nat
  client_count :: nat

definition registry_diagnostics :: "'i shared_worker_registry \<Rightarrow> shared_worker_registry_diagnostics" where
  "registry_diagnostics s =
     fold (\<lambda>(_, e) d.
        (let d = d\<lparr>client_count := client_count d + length (entry_clients e)\<rparr> in
         case entry_state e of
           WorkerLoading \<Rightarrow> d\<lparr>loading_instance_count := loading_instance_count d + 1\<rparr>
         | WorkerRunning _ \<Rightarrow> d\<lparr>running_instance_count := running_instance_count d + 1\<rparr>))
       (entries s) \<lparr>entry_count = length (entries s), loading_instance_count = 0, running_instance_count = 0, client_count = 0\<rparr>"


subsection \<open>Operations as steps\<close>

datatype 'i registry_op =
    OpConnect shared_worker_key shared_worker_descriptor "nat option"
  | OpFinish shared_worker_key nat 'i
  | OpFail shared_worker_key nat
  | OpRemoveClient nat
  | OpRemoveInstance nat
  | OpRemoveAll

datatype 'i registry_output =
    Connected "'i shared_worker_connect_action"
  | Loaded "'i shared_worker_load_ready"
  | NotLoaded shared_worker_load_failure
  | Disconnected "'i shared_worker_client_removal"
  | Gone "'i shared_worker_instance_removal"
  | OwnerEvent shared_worker_client_owner_event

fun registry_step :: "'i registry_op \<Rightarrow> 'i shared_worker_registry \<Rightarrow> ('i registry_output list \<times> 'i shared_worker_registry) option" where
  "registry_step (OpConnect key d None) s =
     (let (a, evs, s') = connect_observed key d s in Some (Connected a # map OwnerEvent evs, s'))"
| "registry_step (OpConnect key d (Some ow)) s =
     (let (a, evs, s') = connect_with_owner_observed key d ow s in Some (Connected a # map OwnerEvent evs, s'))"
| "registry_step (OpFinish key i x) s = (let (a, s') = finish_loading key i x s in Some ([Loaded a], s'))"
| "registry_step (OpFail key i) s =
     (let (a, evs, s') = fail_loading_observed key i s in Some (NotLoaded a # map OwnerEvent evs, s'))"
| "registry_step (OpRemoveClient c) s =
     (let (a, evs, s') = remove_client_observed c s in Some (Disconnected a # map OwnerEvent evs, s'))"
| "registry_step (OpRemoveInstance i) s =
     (let (a, evs, s') = remove_instance_observed i s in Some (Gone a # map OwnerEvent evs, s'))"
| "registry_step OpRemoveAll s =
     (let (as, s') = remove_all_instances_observed s in
      Some (concat (map (\<lambda>(a, evs). Gone a # map OwnerEvent evs) as), s'))"


subsection \<open>The invariant\<close>

definition entry_ok :: "'i shared_worker_registry \<Rightarrow> 'i shared_worker_entry \<Rightarrow> bool" where
  "entry_ok s e \<longleftrightarrow> entry_instance e \<le> next_instance_id s \<and> entry_clients e \<noteq> [] \<and> distinct (client_ids e) \<and>
     (\<forall>c\<in>set (client_ids e). c \<le> next_client_id s)"

definition registry_ok :: "'i shared_worker_registry \<Rightarrow> bool" where
  "registry_ok s \<longleftrightarrow> distinct (map fst (entries s)) \<and>
     (\<forall>k e k' e'. (k, e) \<in> set (entries s) \<longrightarrow> (k', e') \<in> set (entries s) \<longrightarrow> entry_instance e = entry_instance e' \<longrightarrow> k = k') \<and>
     (\<forall>k e. (k, e) \<in> set (entries s) \<longrightarrow> entry_ok s e) \<and>
     (\<forall>c k. client_keys s c = Some k \<longleftrightarrow> (\<exists>e. (k, e) \<in> set (entries s) \<and> c \<in> set (client_ids e)))"

lemma registry_okD:
  assumes "registry_ok s" "(k, e) \<in> set (entries s)"
  shows "map_of (entries s) k = Some e" "entry_ok s e"
    "\<And>e'. (k, e') \<in> set (entries s) \<Longrightarrow> e' = e"
    "\<And>k' e'. (k', e') \<in> set (entries s) \<Longrightarrow> entry_instance e' = entry_instance e \<Longrightarrow> k' = k \<and> e' = e"
    "\<And>c. c \<in> set (client_ids e) \<Longrightarrow> client_keys s c = Some k"
proof -
  show m: "map_of (entries s) k = Some e" using assms by (simp add: registry_ok_def)
  show "entry_ok s e" using assms unfolding registry_ok_def by blast
  show u: "e' = e" if "(k, e') \<in> set (entries s)" for e'
    using that m assms(1) by (simp add: registry_ok_def)
  show "k' = k \<and> e' = e" if "(k', e') \<in> set (entries s)" "entry_instance e' = entry_instance e" for k' e'
    using that assms u unfolding registry_ok_def by blast
  show "client_keys s c = Some k" if "c \<in> set (client_ids e)" for c
    using that assms unfolding registry_ok_def by blast
qed

lemma registry_client_unique:
  assumes "registry_ok s" "(k, e) \<in> set (entries s)" "c \<in> set (client_ids e)" "(k', f) \<in> set (entries s)"
    "c \<in> set (client_ids f)"
  shows "k' = k \<and> f = e"
proof -
  have "Some k' = Some k"
    using registry_okD(5) [OF assms(1,2,3)] registry_okD(5) [OF assms(1,4,5)] by simp
  then show ?thesis using registry_okD(3) [OF assms(1,2)] assms(4) by simp
qed

lemma update_old:
  assumes "distinct (map fst es)" "map_of es k = Some e"
  shows "set (AList.update k e' es) = insert (k, e') (set es - {(k, e)})"
  using assms
proof (induction es)
  case (Cons x es)
  obtain k1 e1 where x: "x = (k1, e1)" by fastforce
  show ?case
  proof (cases "k1 = k")
    case True
    with Cons.prems x have "(k, e) \<notin> set es" by force
    with True Cons.prems x show ?thesis by auto
  next
    case False
    with Cons x show ?thesis by auto
  qed
qed simp

lemma update_new: "map_of es k = None \<Longrightarrow> set (AList.update k e' es) = insert (k, e') (set es)"
  by (induction es) auto

lemma delete_set: "set (AList.delete k es) = {x \<in> set es. fst x \<noteq> k}"
  by (auto simp: AList.delete_eq)

text \<open>Replacing an entry by one with the same instance, when the keys of the clients follow.\<close>

lemma replace_ok:
  assumes ok: "registry_ok s" and e: "(k, e) \<in> set (entries s)" and i: "entry_instance e' = entry_instance e"
    and s': "entries s' = AList.update k e' (entries s)" "next_client_id s \<le> next_client_id s'"
      "next_instance_id s \<le> next_instance_id s'" "entry_ok s' e'"
    and ck: "\<And>c. client_keys s' c = (if c \<in> set (client_ids e') then Some k else if c \<in> set (client_ids e) then None else client_keys s c)"
    and new: "\<And>c. c \<in> set (client_ids e') \<Longrightarrow> c \<in> set (client_ids e) \<or> client_keys s c = None"
  shows "registry_ok s'"
proof -
  note D = registry_okD [OF ok e]
  have d: "distinct (map fst (entries s))" using ok by (simp add: registry_ok_def)
  have E: "set (entries s') = insert (k, e') (set (entries s) - {(k, e)})"
    unfolding s'(1) by (rule update_old [OF d D(1)])
  have "distinct (map fst (entries s'))" using d by (simp add: s'(1) distinct_update)
  moreover have "k1 = k2" if "(k1, e1) \<in> set (entries s')" "(k2, e2) \<in> set (entries s')" "entry_instance e1 = entry_instance e2"
    for k1 e1 k2 e2
  proof -
    have "\<exists>f. (k1, f) \<in> set (entries s) \<and> entry_instance f = entry_instance e1"
      "\<exists>f. (k2, f) \<in> set (entries s) \<and> entry_instance f = entry_instance e2"
      using that(1,2) E e i by auto
    then show ?thesis using ok that(3) unfolding registry_ok_def by metis
  qed
  moreover have "entry_ok s' f" if "(k1, f) \<in> set (entries s')" for k1 f
  proof (cases "(k1, f) \<in> set (entries s)")
    case True
    from registry_okD(2) [OF ok this] s'(2,3) show ?thesis by (auto simp: entry_ok_def intro: le_trans)
  next
    case False
    with that E s'(4) show ?thesis by simp
  qed
  moreover have "client_keys s' c = Some k1 \<longleftrightarrow> (\<exists>f. (k1, f) \<in> set (entries s') \<and> c \<in> set (client_ids f))" for c k1
  proof -
    have old: "client_keys s c = Some k1 \<longleftrightarrow> (\<exists>f. (k1, f) \<in> set (entries s) \<and> c \<in> set (client_ids f))" for k1
      using ok unfolding registry_ok_def by blast
    have k: "f = e" if "(k, f) \<in> set (entries s)" for f using that D(3) by blast
    show ?thesis
    proof (cases "c \<in> set (client_ids e')")
      case True
      then have "client_keys s c = None \<or> client_keys s c = Some k" using new D(5) by blast
      then have "f = e \<and> k1 = k" if "(k1, f) \<in> set (entries s)" "c \<in> set (client_ids f)" for f
        using that old k by (metis option.distinct(1) option.inject)
      then show ?thesis using True ck E by auto
    next
      case False
      have "f = e \<and> k1 = k" if "(k1, f) \<in> set (entries s)" "c \<in> set (client_ids f)" "c \<in> set (client_ids e)" for f
        using registry_client_unique [OF ok e that(3,1,2)] by blast
      then show ?thesis using ck [of c] False E old [of k1] by (auto split: if_splits)
    qed
  qed
  ultimately show ?thesis unfolding registry_ok_def by blast
qed

lemma remove_ok:
  assumes ok: "registry_ok s" and e: "(k, e) \<in> set (entries s)"
    and s': "entries s' = AList.delete k (entries s)" "next_client_id s' = next_client_id s"
      "next_instance_id s' = next_instance_id s"
    and ck: "\<And>c. client_keys s' c = (if c \<in> set (client_ids e) then None else client_keys s c)"
  shows "registry_ok s'"
proof -
  have E: "set (entries s') = {x \<in> set (entries s). fst x \<noteq> k}" unfolding s'(1) by (rule delete_set)
  have "distinct (map fst (entries s'))" using ok by (simp add: s'(1) registry_ok_def distinct_delete)
  moreover have "client_keys s' c = Some k1 \<longleftrightarrow> (\<exists>f. (k1, f) \<in> set (entries s') \<and> c \<in> set (client_ids f))" for c k1
  proof -
    have old: "client_keys s c = Some k1 \<longleftrightarrow> (\<exists>f. (k1, f) \<in> set (entries s) \<and> c \<in> set (client_ids f))" for k1
      using ok unfolding registry_ok_def by blast
    note D = registry_okD [OF ok e]
    show ?thesis
    proof (cases "c \<in> set (client_ids e)")
      case True
      have "k1 = k" if "(k1, f) \<in> set (entries s)" "c \<in> set (client_ids f)" for f
        using registry_client_unique [OF ok e True that] by blast
      then show ?thesis using ck [of c] True E by auto
    next
      case False
      then show ?thesis using ck old E D(3) by auto
    qed
  qed
  moreover have "entry_ok s' f" if "(k1, f) \<in> set (entries s')" for k1 f
    using that E registry_okD(2) [OF ok, of k1 f] s' by (simp add: entry_ok_def)
  ultimately show ?thesis using ok E unfolding registry_ok_def by blast
qed


subsection \<open>Two observers of the outputs\<close>

text \<open>One keeps the owners that have a client on an instance, from the owner events alone; it refuses
  a first client of an owner it knows and a last client of an owner it does not know.\<close>

fun observe_owner :: "'i registry_output \<Rightarrow> (nat \<times> nat) set \<Rightarrow> (nat \<times> nat) set option" where
  "observe_owner (OwnerEvent (FirstClientAdded i w)) A = (if (i, w) \<in> A then None else Some (insert (i, w) A))"
| "observe_owner (OwnerEvent (LastClientRemoved i w)) A = (if (i, w) \<in> A then Some (A - {(i, w)}) else None)"
| "observe_owner _ A = Some A"

text \<open>The other, an embedder, keeps the state of the instances it was told to start and those that have
  ended.  It refuses to start an instance twice, to use or end one that is not alive, and an action
  that does not fit the state of its instance.\<close>

definition end_instance ::
  "nat \<Rightarrow> 'i shared_worker_entry_state \<Rightarrow> (nat \<rightharpoonup> 'i shared_worker_entry_state) \<times> nat set \<Rightarrow>
   ((nat \<rightharpoonup> 'i shared_worker_entry_state) \<times> nat set) option" where
  "end_instance i st v = (if fst v i = Some st then Some ((fst v)(i := None), insert i (snd v)) else None)"

definition use_instance ::
  "nat \<Rightarrow> 'i shared_worker_entry_state \<Rightarrow> (nat \<rightharpoonup> 'i shared_worker_entry_state) \<times> nat set \<Rightarrow>
   ((nat \<rightharpoonup> 'i shared_worker_entry_state) \<times> nat set) option" where
  "use_instance i st v = (if fst v i = Some st then Some v else None)"

definition state_of :: "'i option \<Rightarrow> 'i shared_worker_entry_state" where
  "state_of x = (case x of None \<Rightarrow> WorkerLoading | Some y \<Rightarrow> WorkerRunning y)"

fun observe_life ::
  "'i registry_output \<Rightarrow> (nat \<rightharpoonup> 'i shared_worker_entry_state) \<times> nat set \<Rightarrow>
   ((nat \<rightharpoonup> 'i shared_worker_entry_state) \<times> nat set) option" where
  "observe_life (Connected (StartLoading i c)) v =
     (if fst v i = None \<and> i \<notin> snd v then Some ((fst v)(i \<mapsto> WorkerLoading), snd v) else None)"
| "observe_life (Connected (QueueWhileLoading i c)) v = use_instance i WorkerLoading v"
| "observe_life (Connected (ConnectToRunning i c x)) v = use_instance i (WorkerRunning x) v"
| "observe_life (Loaded (LoadRunning i cs x)) v =
     (if fst v i = Some WorkerLoading then Some ((fst v)(i \<mapsto> WorkerRunning x), snd v) else None)"
| "observe_life (NotLoaded (LoadFailure i cs)) v = end_instance i WorkerLoading v"
| "observe_life (Disconnected (RemovedFromLoading i)) v = use_instance i WorkerLoading v"
| "observe_life (Disconnected (RemovedFromRunning i x)) v = use_instance i (WorkerRunning x) v"
| "observe_life (Disconnected (CancelLoading i k)) v = end_instance i WorkerLoading v"
| "observe_life (Disconnected (Terminate i k x)) v = end_instance i (WorkerRunning x) v"
| "observe_life (Gone (InstanceRemoved k i cs x)) v = end_instance i (state_of x) v"
| "observe_life _ v = Some v"

definition owners :: "'i shared_worker_entry \<Rightarrow> nat set" where
  "owners e = record_owner ` set (entry_clients e)"

definition active_owners :: "'i shared_worker_registry \<Rightarrow> (nat \<times> nat) set" where
  "active_owners s = {(i, w). \<exists>k e. (k, e) \<in> set (entries s) \<and> entry_instance e = i \<and> w \<in> owners e}"

definition life_matches ::
  "'i shared_worker_registry \<Rightarrow> (nat \<rightharpoonup> 'i shared_worker_entry_state) \<times> nat set \<Rightarrow> bool" where
  "life_matches s v \<longleftrightarrow>
     (\<forall>i st. fst v i = Some st \<longleftrightarrow> (\<exists>k e. (k, e) \<in> set (entries s) \<and> entry_instance e = i \<and> entry_state e = st)) \<and>
     (\<forall>i\<in>snd v. i \<le> next_instance_id s \<and> fst v i = None)"

definition step_good :: "'i shared_worker_registry \<Rightarrow> 'i registry_output list \<Rightarrow> 'i shared_worker_registry \<Rightarrow> bool" where
  "step_good s out s' \<longleftrightarrow> registry_ok s' \<and> run observe_owner out (active_owners s) = Some (active_owners s') \<and>
     (\<forall>v. life_matches s v \<longrightarrow> (\<exists>v'. run observe_life out v = Some v' \<and> life_matches s' v'))"

lemma life_ignores_owners [simp]: "run observe_life (map OwnerEvent evs) v = Some v"
  by (induction evs) auto

lemma owner_ignores [simp]:
  "observe_owner (Connected a) A = Some A" "observe_owner (Loaded b) A = Some A" "observe_owner (NotLoaded c) A = Some A"
  "observe_owner (Disconnected d) A = Some A" "observe_owner (Gone g) A = Some A"
  by simp_all

lemma fold_owners:
  "distinct os \<Longrightarrow> distinct (fold (\<lambda>r os. if record_owner r \<in> set os then os else os @ [record_owner r]) cs os) \<and>
   set (fold (\<lambda>r os. if record_owner r \<in> set os then os else os @ [record_owner r]) cs os) = set os \<union> record_owner ` set cs"
  by (induction cs arbitrary: os) auto

lemma client_owner_ids_props: "distinct (client_owner_ids e)" "set (client_owner_ids e) = owners e"
  using fold_owners [of "[]" "entry_clients e"] by (simp_all add: client_owner_ids_def owners_def)

lemma observe_last:
  "distinct ws \<Longrightarrow> {i} \<times> set ws \<subseteq> A \<Longrightarrow>
   run observe_owner (map OwnerEvent (map (LastClientRemoved i) ws)) A = Some (A - {i} \<times> set ws)"
proof (induction ws arbitrary: A)
  case (Cons w ws)
  have "{i} \<times> set ws \<subseteq> A - {(i, w)}" using Cons.prems by auto
  from Cons.IH [OF _ this] Cons.prems show ?case by (auto intro!: arg_cong [where f = Some])
qed simp

lemma observe_last_events:
  assumes "{i} \<times> owners e \<subseteq> A"
  shows "run observe_owner (map OwnerEvent (last_client_removed_events i e)) A = Some (A - {i} \<times> owners e)"
  using observe_last [OF client_owner_ids_props(1) [of e], of i A] assms
  by (simp add: last_client_removed_events_def client_owner_ids_props)

lemma active_owners_alt: "active_owners s = (\<Union>(k, e) \<in> set (entries s). {entry_instance e} \<times> owners e)"
  by (auto simp: active_owners_def)

lemma active_at:
  assumes "registry_ok s" "(k, e) \<in> set (entries s)"
  shows "(entry_instance e, w) \<in> active_owners s \<longleftrightarrow> w \<in> owners e"
  using assms registry_okD(4) [OF assms] unfolding active_owners_def by blast

text \<open>What changing and removing an entry does to both views.\<close>

lemma replace_views:
  assumes ok: "registry_ok s" and e: "(k, e) \<in> set (entries s)" and i: "entry_instance e' = entry_instance e"
    and s': "entries s' = AList.update k e' (entries s)" "next_instance_id s \<le> next_instance_id s'"
  shows "active_owners s' = active_owners s - {entry_instance e} \<times> UNIV \<union> {entry_instance e} \<times> owners e'"
    and "life_matches s v \<Longrightarrow> life_matches s' ((fst v)(entry_instance e \<mapsto> entry_state e'), snd v)"
proof -
  note D = registry_okD [OF ok e]
  have E: "set (entries s') = insert (k, e') (set (entries s) - {(k, e)})"
    unfolding s'(1) using ok D(1) by (intro update_old) (simp_all add: registry_ok_def)
  have other: "entry_instance f \<noteq> entry_instance e" if "(k1, f) \<in> set (entries s)" "(k1, f) \<noteq> (k, e)" for k1 f
    using that D(4) by blast
  show "active_owners s' = active_owners s - {entry_instance e} \<times> UNIV \<union> {entry_instance e} \<times> owners e'"
    unfolding active_owners_def E using other i by auto
  assume m: "life_matches s v"
  have "((fst v)(entry_instance e \<mapsto> entry_state e')) i1 = Some st \<longleftrightarrow>
      (\<exists>k1 f. (k1, f) \<in> set (entries s') \<and> entry_instance f = i1 \<and> entry_state f = st)" for i1 st
  proof (cases "i1 = entry_instance e")
    case True
    then show ?thesis unfolding E using other i by auto
  next
    case False
    then show ?thesis unfolding E using m i unfolding life_matches_def by auto
  qed
  moreover have "fst v (entry_instance e) = Some (entry_state e)" using m e unfolding life_matches_def by blast
  ultimately show "life_matches s' ((fst v)(entry_instance e \<mapsto> entry_state e'), snd v)"
    using m s'(2) unfolding life_matches_def by fastforce
qed

lemma remove_views:
  assumes ok: "registry_ok s" and e: "(k, e) \<in> set (entries s)"
    and s': "entries s' = AList.delete k (entries s)" "next_instance_id s' = next_instance_id s"
  shows "active_owners s' = active_owners s - {entry_instance e} \<times> UNIV"
    and "life_matches s v \<Longrightarrow> end_instance (entry_instance e) (entry_state e) v =
      Some ((fst v)(entry_instance e := None), insert (entry_instance e) (snd v)) \<and>
      life_matches s' ((fst v)(entry_instance e := None), insert (entry_instance e) (snd v))"
proof -
  note D = registry_okD [OF ok e]
  have E: "(k1, f) \<in> set (entries s') \<longleftrightarrow> (k1, f) \<in> set (entries s) \<and> k1 \<noteq> k" for k1 f
    unfolding s'(1) delete_set by simp
  have other: "entry_instance f = entry_instance e \<longleftrightarrow> k1 = k" if "(k1, f) \<in> set (entries s)" for k1 f
    using that D(3,4) by blast
  show "active_owners s' = active_owners s - {entry_instance e} \<times> UNIV"
    unfolding active_owners_def E using other by auto
  assume m: "life_matches s v"
  have "((fst v)(entry_instance e := None)) i1 = Some st \<longleftrightarrow>
      (\<exists>k1 f. (k1, f) \<in> set (entries s') \<and> entry_instance f = i1 \<and> entry_state f = st)" for i1 st
    unfolding E using m other unfolding life_matches_def by auto
  moreover have "fst v (entry_instance e) = Some (entry_state e)" using m e unfolding life_matches_def by blast
  moreover have "entry_instance e \<le> next_instance_id s" using D(2) by (simp add: entry_ok_def)
  ultimately show "end_instance (entry_instance e) (entry_state e) v =
      Some ((fst v)(entry_instance e := None), insert (entry_instance e) (snd v)) \<and>
      life_matches s' ((fst v)(entry_instance e := None), insert (entry_instance e) (snd v))"
    using m s'(2) unfolding life_matches_def end_instance_def by auto
qed


subsection \<open>Every operation keeps the invariant and both views\<close>

lemma good_same:
  assumes "registry_ok s" "entries s' = entries s" "client_keys s' = client_keys s"
    "next_client_id s \<le> next_client_id s'" "next_instance_id s \<le> next_instance_id s'"
    "observe_life x = Some" "\<And>A. observe_owner x A = Some A"
  shows "step_good s [x] s'"
proof -
  have "entry_ok s' e" if "entry_ok s e" for e using that assms(4,5) by (auto simp: entry_ok_def intro: le_trans)
  then have "registry_ok s'" using assms(1-3) by (auto simp: registry_ok_def)
  moreover have "life_matches s' v" if "life_matches s v" for v
    using that assms(2,5) by (auto simp: life_matches_def intro: le_trans)
  ultimately show ?thesis using assms(2,6,7) by (simp add: step_good_def active_owners_def)
qed

lemma forget_clients_eq [simp]: "forget_clients cs m c = (if c \<in> set cs then None else m c)"
  unfolding forget_clients_def by (induction cs arbitrary: m) auto

text \<open>Ending an instance with all its clients.\<close>

lemma good_end:
  assumes ok: "registry_ok s" and e: "(k, e) \<in> set (entries s)"
    and x: "observe_life x = end_instance (entry_instance e) (entry_state e)" "\<And>A. observe_owner x A = Some A"
  shows "step_good s (x # map OwnerEvent (last_client_removed_events (entry_instance e) e)) (remove_entry k e s)"
proof -
  have f: "entries (remove_entry k e s) = AList.delete k (entries s)"
    "next_instance_id (remove_entry k e s) = next_instance_id s" by (simp_all add: remove_entry_def)
  have "registry_ok (remove_entry k e s)"
    by (rule remove_ok [OF ok e]) (simp_all add: remove_entry_def)
  moreover have "{entry_instance e} \<times> owners e \<subseteq> active_owners s" using active_at [OF ok e] by auto
  moreover have "active_owners s - {entry_instance e} \<times> owners e = active_owners s - {entry_instance e} \<times> UNIV"
    using active_at [OF ok e] by auto
  ultimately show ?thesis
    using remove_views [OF ok e f] x by (simp add: step_good_def observe_last_events)
qed

text \<open>Adding an entry for a fresh instance and a fresh client.\<close>

lemma add_ok:
  assumes ok: "registry_ok s" and None: "map_of (entries s) key = None"
    and e: "entry_instance e = next_instance_id s + 1" "client_ids e = [next_client_id s + 1]"
    and s': "entries s' = AList.update key e (entries s)" "client_keys s' = (client_keys s)(next_client_id s + 1 \<mapsto> key)"
      "next_instance_id s' = next_instance_id s + 1" "next_client_id s' = next_client_id s + 1"
  shows "registry_ok s'"
proof -
  have E: "set (entries s') = insert (key, e) (set (entries s))" unfolding s'(1) by (rule update_new [OF None])
  have low: "entry_instance f \<le> next_instance_id s" "next_client_id s + 1 \<notin> set (client_ids f)"
    if "(k1, f) \<in> set (entries s)" for k1 f
    using registry_okD(2) [OF ok that] by (auto simp: entry_ok_def)
  have "distinct (map fst (entries s'))" using ok by (simp add: s'(1) registry_ok_def distinct_update)
  moreover have "entry_ok s' e" using e s'(3,4) by (auto simp: entry_ok_def client_ids_def)
  then have "entry_ok s' f" if "(k1, f) \<in> set (entries s')" for k1 f
    using that registry_okD(2) [OF ok, of k1 f] unfolding E by (auto simp: entry_ok_def s'(3,4) le_SucI)
  moreover have "k1 = k2" if "(k1, e1) \<in> set (entries s')" "(k2, e2) \<in> set (entries s')" "entry_instance e1 = entry_instance e2"
    for k1 e1 k2 e2
  proof -
    have "k1 = k2" if "(k1, e1) \<in> set (entries s)" "(k2, e2) \<in> set (entries s)"
      using that ok \<open>entry_instance e1 = entry_instance e2\<close> unfolding registry_ok_def by blast
    then show ?thesis using that low(1) [of k1 e1] low(1) [of k2 e2] e(1) unfolding E by auto
  qed
  moreover have "client_keys s' x = Some k1 \<longleftrightarrow> (\<exists>f. (k1, f) \<in> set (entries s') \<and> x \<in> set (client_ids f))" for x k1
  proof (cases "x = next_client_id s + 1")
    case True
    then show ?thesis using low(2) e(2) unfolding E s'(2) by auto
  next
    case False
    then show ?thesis using ok e(2) unfolding E s'(2) registry_ok_def by auto
  qed
  ultimately show ?thesis unfolding registry_ok_def by blast
qed

lemma add_views:
  assumes ok: "registry_ok s" and None: "map_of (entries s) key = None" and i: "entry_instance e = next_instance_id s + 1"
    and s': "entries s' = AList.update key e (entries s)" "next_instance_id s' = next_instance_id s + 1"
  shows "active_owners s' = active_owners s \<union> {entry_instance e} \<times> owners e"
    and "(entry_instance e, w) \<notin> active_owners s"
    and "life_matches s v \<Longrightarrow> fst v (entry_instance e) = None \<and> entry_instance e \<notin> snd v \<and>
      life_matches s' ((fst v)(entry_instance e \<mapsto> entry_state e), snd v)"
proof -
  have E: "set (entries s') = insert (key, e) (set (entries s))" unfolding s'(1) by (rule update_new [OF None])
  have no: "entry_instance f \<noteq> entry_instance e" if "(k1, f) \<in> set (entries s)" for k1 f
    using registry_okD(2) [OF ok that] i by (simp add: entry_ok_def)
  show "active_owners s' = active_owners s \<union> {entry_instance e} \<times> owners e" unfolding active_owners_alt E by auto
  show "(entry_instance e, w) \<notin> active_owners s" using no unfolding active_owners_def by blast
  assume v: "life_matches s v"
  have live: "(\<exists>k f. (k, f) \<in> set (entries s') \<and> entry_instance f = i1 \<and> entry_state f = st) \<longleftrightarrow>
      i1 = entry_instance e \<and> st = entry_state e \<or>
      (\<exists>k f. (k, f) \<in> set (entries s) \<and> entry_instance f = i1 \<and> entry_state f = st)" for i1 st
    unfolding E by auto
  have m: "fst v i1 = Some st \<longleftrightarrow> (\<exists>k f. (k, f) \<in> set (entries s) \<and> entry_instance f = i1 \<and> entry_state f = st)" for i1 st
    using v by (simp add: life_matches_def)
  have n: "fst v (entry_instance e) = None" using m no by (metis option.exhaust)
  have o: "entry_instance e \<notin> snd v" using v i by (auto simp: life_matches_def)
  have "((fst v)(entry_instance e \<mapsto> entry_state e)) i1 = Some st \<longleftrightarrow>
      (\<exists>k f. (k, f) \<in> set (entries s') \<and> entry_instance f = i1 \<and> entry_state f = st)" for i1 st
    unfolding live m [symmetric] using n by auto
  moreover have "j \<le> next_instance_id s' \<and> ((fst v)(entry_instance e \<mapsto> entry_state e)) j = None" if "j \<in> snd v" for j
    using that v o s'(2) by (auto simp: life_matches_def le_SucI)
  ultimately show "fst v (entry_instance e) = None \<and> entry_instance e \<notin> snd v \<and>
      life_matches s' ((fst v)(entry_instance e \<mapsto> entry_state e), snd v)"
    using n o by (simp add: life_matches_def)
qed

lemma alloc_client_fits:
  "next_client_id s < u64_max \<Longrightarrow> alloc_client_id s = (next_client_id s + 1, s\<lparr>next_client_id := next_client_id s + 1\<rparr>)"
  by (simp add: alloc_client_id_def)

lemma alloc_instance_fits:
  "next_instance_id s < u64_max \<Longrightarrow>
   alloc_instance_id s = (next_instance_id s + 1, s\<lparr>next_instance_id := next_instance_id s + 1\<rparr>)"
  by (simp add: alloc_instance_id_def)

lemma step_connect_new:
  assumes ok: "registry_ok s" and room: "next_instance_id s < u64_max" and c: "client = next_client_id s + 1" and None: "map_of (entries s) key = None"
    and run: "connect_locked key d client ow (s\<lparr>next_client_id := client\<rparr>) = (a, evs, s')"
  shows "step_good s (Connected a # map OwnerEvent evs) s'"
proof -
  let ?i = "next_instance_id s + 1"
  define e :: "'a shared_worker_entry" where "e = \<lparr>entry_instance = ?i, entry_descriptor = d,
      entry_clients = [\<lparr>record_client = client, record_owner = ow\<rparr>], entry_state = WorkerLoading\<rparr>"
  have r: "a = StartLoading ?i client" "evs = [FirstClientAdded ?i ow]" "entries s' = AList.update key e (entries s)"
    "client_keys s' = (client_keys s)(client \<mapsto> key)" "next_instance_id s' = ?i" "next_client_id s' = client"
    using run None room by (auto simp: connect_locked_def alloc_instance_fits e_def)
  have e: "entry_instance e = ?i" "client_ids e = [client]" "owners e = {ow}" "entry_state e = WorkerLoading"
    by (simp_all add: e_def client_ids_def owners_def)
  have "registry_ok s'" by (rule add_ok [OF ok None e(1) e(2) [unfolded c] r(3)]) (simp_all add: r c)
  moreover note V = add_views [OF ok None e(1) r(3,5)]
  ultimately show ?thesis using V(1) V(2) [of ow] V(3) unfolding step_good_def r(1,2) by (auto simp: e)
qed

lemma step_connect_join:
  assumes ok: "registry_ok s" and room: "next_instance_id s < u64_max" and c: "client = next_client_id s + 1" and Some: "map_of (entries s) key = Some e"
    and run: "connect_locked key d client ow (s\<lparr>next_client_id := client\<rparr>) = (a, evs, s')"
  shows "step_good s (Connected a # map OwnerEvent evs) s'"
proof -
  have e: "(key, e) \<in> set (entries s)" using Some by (rule map_of_SomeD)
  show ?thesis
  proof (cases "ensure_compatible_with (entry_descriptor e) d")
    case (Inl err)
    with Some run room have "a = RejectClient client err" "evs = []"
      "s' = s\<lparr>next_client_id := client, next_instance_id := next_instance_id s + 1\<rparr>"
      by (auto simp: connect_locked_def alloc_instance_fits)
    with ok c show ?thesis using good_same [of s s' "Connected a"] by (simp add: fun_eq_iff)
  next
    case (Inr u)
    let ?c = "\<lparr>record_client = client, record_owner = ow\<rparr>"
    have r: "a = (case entry_state e of WorkerLoading \<Rightarrow> QueueWhileLoading (entry_instance e) client
        | WorkerRunning x \<Rightarrow> ConnectToRunning (entry_instance e) client x)"
      "evs = (if entry_count_for_owner ow e = 0 then [FirstClientAdded (entry_instance e) ow] else [])"
      "entries s' = AList.update key (entry_add_client ?c e) (entries s)" "client_keys s' = (client_keys s)(client \<mapsto> key)"
      "next_instance_id s' = next_instance_id s + 1" "next_client_id s' = client"
      using run Some Inr room by (auto simp: connect_locked_def alloc_instance_fits split: shared_worker_entry_state.splits)
    note D = registry_okD [OF ok e]
    have ids: "client_ids (entry_add_client ?c e) = client_ids e @ [client]" "entry_instance (entry_add_client ?c e) = entry_instance e"
      "entry_state (entry_add_client ?c e) = entry_state e" "owners (entry_add_client ?c e) = insert ow (owners e)"
      by (simp_all add: entry_add_client_def client_ids_def owners_def)
    have fresh: "client \<notin> set (client_ids f)" if "(k1, f) \<in> set (entries s)" for k1 f
      using registry_okD(2) [OF ok that] c by (auto simp: entry_ok_def)
    then have none: "client_keys s client = None"
      using ok unfolding registry_ok_def by (metis option.exhaust)
    have "entry_ok s' (entry_add_client ?c e)"
      using D(2) fresh [OF e] c unfolding entry_ok_def r(5,6) by (auto simp: entry_add_client_def client_ids_def)
    moreover have "next_client_id s \<le> next_client_id s'" by (simp add: r(6) c)
    ultimately have "registry_ok s'"
      by (intro replace_ok [OF ok e ids(2) r(3)]) (use r(4,5) D(5) none in \<open>auto simp: ids\<close>)
    moreover note V = replace_views [OF ok e ids(2) r(3)]
    have "active_owners s' = insert (entry_instance e, ow) (active_owners s)"
      using V(1) active_at [OF ok e] r(5) by (auto simp: ids)
    moreover have "entry_count_for_owner ow e = 0 \<longleftrightarrow> (entry_instance e, ow) \<notin> active_owners s"
      using active_at [OF ok e] by (auto simp: entry_count_for_owner_def owners_def filter_empty_conv)
    moreover have "\<exists>v'. run observe_life (Connected a # map OwnerEvent evs) v = Some v' \<and> life_matches s' v'"
      if v: "life_matches s v" for v
    proof -
      have at: "fst v (entry_instance e) = Some (entry_state e)" using v e unfolding life_matches_def by blast
      then have "observe_life (Connected a) v = Some v"
        by (cases "entry_state e") (simp_all add: r(1) use_instance_def)
      moreover have "(fst v)(entry_instance e \<mapsto> entry_state e) = fst v" using at by auto
      then have "life_matches s' v" using V(2) [OF _ v] r(5) by (simp add: ids)
      ultimately show ?thesis by simp
    qed
    ultimately show ?thesis unfolding step_good_def r(2) by (auto simp: insert_absorb)
  qed
qed


lemma step_connect:
  assumes "registry_ok s" "next_instance_id s < u64_max" "connect_locked key d (next_client_id s + 1) ow (s\<lparr>next_client_id := next_client_id s + 1\<rparr>) = (a, evs, s')"
  shows "step_good s (Connected a # map OwnerEvent evs) s'"
proof (cases "map_of (entries s) key")
  case None
  show ?thesis by (rule step_connect_new [OF assms(1,2) refl None assms(3)])
next
  case (Some e)
  show ?thesis by (rule step_connect_join [OF assms(1,2) refl Some assms(3)])
qed

lemma step_finish:
  assumes ok: "registry_ok s" and run: "finish_loading key i x s = (a, s')"
  shows "step_good s [Loaded a] s'"
proof (cases "a = ReadyStale")
  case True
  with run have "s' = s" by (auto simp: finish_loading_def split: option.splits if_splits)
  with ok True show ?thesis using good_same [of s s "Loaded a"] by (simp add: fun_eq_iff)
next
  case False
  with run obtain e where m: "map_of (entries s) key = Some e" and r: "entry_instance e = i" "entry_state e = WorkerLoading"
    "a = LoadRunning i (client_ids e) x" "s' = s\<lparr>entries := AList.update key (e\<lparr>entry_state := WorkerRunning x\<rparr>) (entries s)\<rparr>"
    by (auto simp: finish_loading_def split: option.splits if_splits)
  have e: "(key, e) \<in> set (entries s)" using m by (rule map_of_SomeD)
  let ?e = "e\<lparr>entry_state := WorkerRunning x\<rparr>"
  have ids: "client_ids ?e = client_ids e" "entry_instance ?e = entry_instance e" "owners ?e = owners e"
    by (simp_all add: client_ids_def owners_def)
  note D = registry_okD [OF ok e]
  have up: "entries s' = AList.update key ?e (entries s)" by (simp add: r(4))
  have "entry_ok s' ?e" using D(2) by (simp add: entry_ok_def ids r(4))
  then have "registry_ok s'"
    by (rule replace_ok [OF ok e ids(2) up, rotated 2]) (use D(5) in \<open>auto simp: ids r(4)\<close>)
  moreover note V = replace_views [OF ok e ids(2) up]
  have "active_owners s' = active_owners s" using V(1) active_at [OF ok e] by (auto simp: ids r(4))
  moreover have "fst v i = Some WorkerLoading" if "life_matches s v" for v
    using that e r unfolding life_matches_def by blast
  ultimately show ?thesis using V(2) r by (simp add: step_good_def)
qed

lemma step_fail:
  assumes ok: "registry_ok s" and run: "fail_loading_observed key i s = (a, evs, s')"
  shows "step_good s (NotLoaded a # map OwnerEvent evs) s'"
proof (cases "a = FailureStale")
  case True
  with run have "s' = s" "evs = []" by (auto simp: fail_loading_observed_def split: option.splits if_splits)
  with ok True show ?thesis using good_same [of s s "NotLoaded a"] by (simp add: fun_eq_iff)
next
  case False
  with run obtain e where "map_of (entries s) key = Some e" and r: "entry_instance e = i" "entry_state e = WorkerLoading"
    "a = LoadFailure i (client_ids e)" "evs = last_client_removed_events i e" "s' = remove_entry key e s"
    by (auto simp: fail_loading_observed_def split: option.splits if_splits)
  then show ?thesis using good_end [OF ok map_of_SomeD, of key e "NotLoaded a"] by (simp add: fun_eq_iff)
qed

lemma find_instance_Some: "find_instance i s = Some (k, e) \<Longrightarrow> (k, e) \<in> set (entries s) \<and> entry_instance e = i"
  unfolding find_instance_def by (auto simp: find_Some_iff in_set_conv_nth)

lemma state_of_running [simp]: "state_of (running_of e) = entry_state e"
  by (simp add: state_of_def running_of_def split: shared_worker_entry_state.split)

lemma step_remove_instance:
  assumes ok: "registry_ok s" and run: "remove_instance_observed i s = (a, evs, s')"
  shows "step_good s (Gone a # map OwnerEvent evs) s'"
proof (cases "find_instance i s")
  case None
  with run have "s' = s" "evs = []" "a = InstanceMissing" by (auto simp: remove_instance_observed_def)
  with ok show ?thesis using good_same [of s s "Gone a"] by (simp add: fun_eq_iff)
next
  case (Some p)
  obtain k e where p: "p = (k, e)" by fastforce
  with find_instance_Some [of i s k e] Some have e: "(k, e) \<in> set (entries s)" "entry_instance e = i" by simp_all
  from good_end [OF ok e(1), of "Gone (InstanceRemoved k i (client_ids e) (running_of e))"] e(2) run Some p
  show ?thesis by (auto simp: remove_instance_observed_def fun_eq_iff)
qed


text \<open>Removing one client of an entry.\<close>

lemma find_skip: "\<forall>x\<in>set as. \<not> P x \<Longrightarrow> P r \<Longrightarrow> List.find P (as @ r # bs) = Some r"
  by (induction as) auto

lemma remove_record:
  assumes "distinct (map record_client cs)" "r \<in> set cs"
  shows "record_owner ` set (filter (\<lambda>x. record_client x \<noteq> record_client r) cs) =
      (if length (filter (\<lambda>x. record_owner x = record_owner r) cs) = 1
       then record_owner ` set cs - {record_owner r} else record_owner ` set cs)"
    and "List.find (\<lambda>x. record_client x = record_client r) cs = Some r"
proof -
  obtain as bs where cs: "cs = as @ r # bs" using assms(2) by (meson split_list)
  have d: "record_client r \<notin> record_client ` set as" "record_client r \<notin> record_client ` set bs"
    using assms(1) by (simp_all add: cs)
  have as: "filter (\<lambda>x. record_client x \<noteq> record_client r) as = as" using d(1) by (intro filter_True) (metis imageI)
  have bs: "filter (\<lambda>x. record_client x \<noteq> record_client r) bs = bs" using d(2) by (intro filter_True) (metis imageI)
  have n: "length (filter (\<lambda>x. record_owner x = record_owner r) cs) = 1 \<longleftrightarrow>
      record_owner r \<notin> record_owner ` set as \<and> record_owner r \<notin> record_owner ` set bs"
    by (simp add: cs filter_empty_conv image_iff) metis
  show "record_owner ` set (filter (\<lambda>x. record_client x \<noteq> record_client r) cs) =
      (if length (filter (\<lambda>x. record_owner x = record_owner r) cs) = 1
       then record_owner ` set cs - {record_owner r} else record_owner ` set cs)"
    unfolding n by (simp add: cs as bs image_Un insert_absorb)
  show "List.find (\<lambda>x. record_client x = record_client r) cs = Some r"
    unfolding cs using d(1) by (intro find_skip) (metis imageI, rule refl)
qed

text \<open>The entry without the client, and what leaving it does to the owners.\<close>

definition without_client :: "nat \<Rightarrow> 'i shared_worker_entry \<Rightarrow> 'i shared_worker_entry" where
  "without_client client e = e\<lparr>entry_clients := filter (\<lambda>x. record_client x \<noteq> client) (entry_clients e)\<rparr>"

lemma without_client_fields [simp]:
  "set (client_ids (without_client client e)) = set (client_ids e) - {client}"
  "entry_instance (without_client client e) = entry_instance e" "entry_state (without_client client e) = entry_state e"
  by (auto simp: client_ids_def without_client_def)

lemma remove_client_result:
  assumes ok: "registry_ok s" and k: "client_keys s client = Some key" and run: "remove_client_observed client s = (a, evs, s')"
  obtains e w where "(key, e) \<in> set (entries s)" "client \<in> set (client_ids e)" "w \<in> owners e"
    "owners (without_client client e) = (if entry_count_for_owner w e = 1 then owners e - {w} else owners e)"
    "evs = (if entry_count_for_owner w e = 1 then [LastClientRemoved (entry_instance e) w] else [])"
    "a = (if entry_clients (without_client client e) \<noteq> []
       then (case entry_state e of WorkerLoading \<Rightarrow> RemovedFromLoading (entry_instance e)
             | WorkerRunning x \<Rightarrow> RemovedFromRunning (entry_instance e) x)
       else (case entry_state e of WorkerLoading \<Rightarrow> CancelLoading (entry_instance e) key
             | WorkerRunning x \<Rightarrow> Terminate (entry_instance e) key x))"
    "s' = s\<lparr>client_keys := (client_keys s)(client := None),
        entries := if entry_clients (without_client client e) \<noteq> [] then AList.update key (without_client client e) (entries s)
          else AList.delete key (entries s)\<rparr>"
proof -
  obtain e where e: "(key, e) \<in> set (entries s)" and c: "client \<in> set (client_ids e)"
    using ok k unfolding registry_ok_def by blast
  note D = registry_okD [OF ok e]
  from c obtain r where r: "r \<in> set (entry_clients e)" "record_client r = client" by (auto simp: client_ids_def)
  have dist: "distinct (map record_client (entry_clients e))" using D(2) by (simp add: entry_ok_def client_ids_def)
  have own: "client_owner_id client e = Some (record_owner r)"
    using remove_record(2) [OF dist r(1)] r(2) by (simp add: client_owner_id_def)
  show thesis
  proof (rule that [OF e c, of "record_owner r"])
    show "record_owner r \<in> owners e" using r(1) by (simp add: owners_def)
    show "owners (without_client client e) = (if entry_count_for_owner (record_owner r) e = 1
        then owners e - {record_owner r} else owners e)"
      using remove_record(1) [OF dist r(1)] r(2) by (simp add: owners_def without_client_def entry_count_for_owner_def)
  qed (use run k D(1) own in \<open>auto simp: remove_client_observed_def Let_def entry_remove_client_def
      without_client_def last_client_removed_event_def split: if_splits\<close>)
qed

lemma step_remove_client:
  assumes ok: "registry_ok s" and run: "remove_client_observed client s = (a, evs, s')"
  shows "step_good s (Disconnected a # map OwnerEvent evs) s'"
proof (cases "client_keys s client")
  case None
  with run have "s' = s" "evs = []" "a = ClientMissing" by (auto simp: remove_client_observed_def)
  with ok show ?thesis using good_same [of s s "Disconnected a"] by (simp add: fun_eq_iff)
next
  case (Some key)
  from remove_client_result [OF ok this run] obtain e w where
    e: "(key, e) \<in> set (entries s)" and c: "client \<in> set (client_ids e)" and w: "w \<in> owners e"
    and ow: "owners (without_client client e) = (if entry_count_for_owner w e = 1 then owners e - {w} else owners e)"
    and evs: "evs = (if entry_count_for_owner w e = 1 then [LastClientRemoved (entry_instance e) w] else [])"
    and a: "a = (if entry_clients (without_client client e) \<noteq> []
       then (case entry_state e of WorkerLoading \<Rightarrow> RemovedFromLoading (entry_instance e)
             | WorkerRunning x \<Rightarrow> RemovedFromRunning (entry_instance e) x)
       else (case entry_state e of WorkerLoading \<Rightarrow> CancelLoading (entry_instance e) key
             | WorkerRunning x \<Rightarrow> Terminate (entry_instance e) key x))"
    and s': "s' = s\<lparr>client_keys := (client_keys s)(client := None),
        entries := if entry_clients (without_client client e) \<noteq> [] then AList.update key (without_client client e) (entries s)
          else AList.delete key (entries s)\<rparr>" .
  note D = registry_okD [OF ok e]
  let ?i = "entry_instance e" and ?e = "without_client client e"
  have obs: "run observe_owner (Disconnected a # map OwnerEvent evs) (active_owners s) =
      Some (active_owners s - {?i} \<times> UNIV \<union> {?i} \<times> owners ?e)"
    using w active_at [OF ok e] unfolding evs ow by (auto intro!: arg_cong [where f = Some])
  have at: "fst v ?i = Some (entry_state e)" if "life_matches s v" for v
    using that e unfolding life_matches_def by blast
  show ?thesis
  proof (cases "entry_clients ?e = []")
    case False
    have up: "entries s' = AList.update key ?e (entries s)" using False by (simp add: s')
    have "distinct (client_ids ?e)"
      using D(2) by (simp add: entry_ok_def client_ids_def without_client_def distinct_map_filter)
    then have "entry_ok s' ?e" using D(2) False by (auto simp: entry_ok_def s')
    then have "registry_ok s'"
      by (intro replace_ok [OF ok e without_client_fields(2) up]) (use D(5) c in \<open>auto simp: s'\<close>)
    moreover note V = replace_views [OF ok e without_client_fields(2) up]
    have "active_owners s' = active_owners s - {?i} \<times> UNIV \<union> {?i} \<times> owners ?e" using V(1) by (simp add: s')
    moreover have "observe_life (Disconnected a) v = Some v \<and> life_matches s' v" if v: "life_matches s v" for v
    proof -
      have "(fst v)(?i \<mapsto> entry_state ?e) = fst v" using at [OF v] by auto
      then have "life_matches s' v" using V(2) [OF _ v] by (simp add: s')
      then show ?thesis using at [OF v] False by (cases "entry_state e") (simp_all add: a use_instance_def)
    qed
    ultimately show ?thesis unfolding step_good_def obs by auto
  next
    case True
    have up: "entries s' = AList.delete key (entries s)" "next_instance_id s' = next_instance_id s" using True by (simp_all add: s')
    have "set (client_ids ?e) = {}" using True by (simp add: client_ids_def)
    then have only: "set (client_ids e) = {client}" using c by auto
    have "registry_ok s'" by (rule remove_ok [OF ok e up(1)]) (simp_all add: s' only)
    moreover have "owners ?e = {}" using True by (simp add: owners_def)
    moreover note V = remove_views [OF ok e up]
    moreover have "observe_life (Disconnected a) = end_instance ?i (entry_state e)"
      using True by (cases "entry_state e") (simp_all add: a fun_eq_iff)
    ultimately show ?thesis unfolding step_good_def obs by auto
  qed
qed

lemma step_good_append:
  assumes "step_good s o1 s1" "step_good s1 o2 s2"
  shows "step_good s (o1 @ o2) s2"
proof -
  have "\<exists>v'. run observe_life (o1 @ o2) v = Some v' \<and> life_matches s2 v'" if v: "life_matches s v" for v
  proof -
    from assms(1) v obtain v1 where v1: "run observe_life o1 v = Some v1" "life_matches s1 v1"
      unfolding step_good_def by blast
    from assms(2) v1(2) obtain v2 where "run observe_life o2 v1 = Some v2" "life_matches s2 v2"
      unfolding step_good_def by blast
    with v1(1) show ?thesis by (simp add: run_append)
  qed
  moreover have "run observe_owner (o1 @ o2) (active_owners s) = Some (active_owners s2)"
    using assms by (simp add: step_good_def run_append)
  ultimately show ?thesis using assms(2) by (simp add: step_good_def del: split_paired_All split_paired_Ex)
qed

lemma remove_all_good:
  assumes "registry_ok s"
  shows "step_good s (concat (map (\<lambda>(a, evs). Gone a # map OwnerEvent evs) (fst (remove_all_instances_observed s))))
      (snd (remove_all_instances_observed s))"
  using assms
proof (induction "entries s" arbitrary: s)
  case Nil
  have "client_keys s = Map.empty" using Nil by (auto simp: registry_ok_def fun_eq_iff not_None_eq [symmetric] simp del: not_None_eq)
  then have "snd (remove_all_instances_observed s) = s" using Nil by (simp add: remove_all_instances_observed_def)
  with Nil show ?case by (simp add: step_good_def remove_all_instances_observed_def)
next
  case (Cons x es)
  obtain k e where x: "x = (k, e)" by fastforce
  have all: "entries s = (k, e) # es" using Cons.hyps(2) x by simp
  then have e: "(k, e) \<in> set (entries s)" by simp
  let ?s = "remove_entry k e s" and ?x = "Gone (InstanceRemoved k (entry_instance e) (client_ids e) (running_of e))"
  have one: "step_good s (?x # map OwnerEvent (last_client_removed_events (entry_instance e) e)) ?s"
    by (rule good_end [OF Cons.prems e]) (simp_all add: fun_eq_iff)
  have "k \<notin> fst ` set es" using Cons.prems all by (simp add: registry_ok_def)
  then have es: "es = entries ?s" by (simp add: remove_entry_def all)
  have "registry_ok ?s" using one by (simp add: step_good_def)
  from step_good_append [OF one Cons.hyps(1) [OF es this]] show ?case
    by (simp add: remove_all_instances_observed_def all es [symmetric]) (simp add: remove_entry_def)
qed

text \<open>Connections use up ids; a run fits if the ids last for it.\<close>

fun connects :: "'i registry_op list \<Rightarrow> nat" where
  "connects [] = 0"
| "connects (OpConnect key d ow # ops) = connects ops + 1"
| "connects (_ # ops) = connects ops"

definition registry_fits :: "'i registry_op list \<Rightarrow> 'i shared_worker_registry \<Rightarrow> bool" where
  "registry_fits ops s \<longleftrightarrow> registry_ok s \<and> next_client_id s + connects ops \<le> u64_max
     \<and> next_instance_id s + connects ops \<le> u64_max"

lemma registry_step_good:
  assumes ok: "registry_ok s" and room: "next_client_id s + connects [x] \<le> u64_max" "next_instance_id s + connects [x] \<le> u64_max"
    and run: "registry_step x s = Some (out, s')"
  shows "step_good s out s'"
proof (cases x)
  case (OpConnect key d ow)
  then have "next_client_id s < u64_max" "next_instance_id s < u64_max" using room by simp_all
  then show ?thesis using OpConnect run step_connect [OF ok]
    by (cases ow) (auto simp: connect_observed_def connect_with_owner_observed_def alloc_client_fits split: prod.splits)
next
  case (OpFinish key i y)
  then show ?thesis using run step_finish [OF ok] by (auto split: prod.splits)
next
  case (OpFail key i)
  then show ?thesis using run step_fail [OF ok] by (auto split: prod.splits)
next
  case (OpRemoveClient c)
  then show ?thesis using run step_remove_client [OF ok] by (auto split: prod.splits)
next
  case (OpRemoveInstance i)
  then show ?thesis using run step_remove_instance [OF ok] by (auto split: prod.splits)
next
  case OpRemoveAll
  then show ?thesis using run remove_all_good [OF ok] by (auto split: prod.splits)
qed

lemma connects_Cons: "connects (x # xs) = connects [x] + connects xs"
  by (cases x) simp_all

lemma registry_step_fitting:
  assumes "registry_fits (x # xs) s" "registry_step x s = Some (out, s')"
  shows "step_good s out s'"
  using registry_step_good [OF _ _ _ assms(2)] assms(1) connects_Cons [of x xs] by (simp add: registry_fits_def)

lemma connect_counters:
  assumes "connect_locked key d client ow s = (a, evs, s')"
  shows "next_client_id s' = next_client_id s \<and> next_instance_id s' \<le> next_instance_id s + 1"
  using assms
  by (auto simp: connect_locked_def alloc_instance_id_def Let_def split: option.splits sum.splits prod.splits
      intro: order_trans [OF mod_less_eq_dividend])

lemma registry_step_counters:
  assumes "registry_step x s = Some (out, s')"
  shows "next_client_id s' \<le> next_client_id s + connects [x]" "next_instance_id s' \<le> next_instance_id s + connects [x]"
proof -
  have le: "fst (alloc_client_id s) \<le> next_client_id s + 1"
    by (simp add: alloc_client_id_def Let_def order_trans [OF mod_less_eq_dividend])
  have "next_client_id s' \<le> next_client_id s + connects [x] \<and> next_instance_id s' \<le> next_instance_id s + connects [x]"
  proof (cases x)
    case (OpConnect key d ow)
    then show ?thesis
      using assms le by (cases ow) (auto simp: connect_observed_def connect_with_owner_observed_def alloc_client_id_def Let_def
        dest: connect_counters split: prod.splits)
  qed (use assms in \<open>auto simp: finish_loading_def fail_loading_observed_def remove_client_observed_def remove_instance_observed_def
      remove_all_instances_observed_def remove_entry_def Let_def split: option.splits if_splits prod.splits\<close>)
  then show "next_client_id s' \<le> next_client_id s + connects [x]" "next_instance_id s' \<le> next_instance_id s + connects [x]"
    by simp_all
qed

lemma registry_step_fits:
  assumes "registry_fits (x # xs) s" "registry_step x s = Some (out, s')"
  shows "registry_fits xs s'"
  using registry_step_fitting [OF assms] registry_step_counters [OF assms(2)] assms(1) connects_Cons [of x xs]
  by (simp add: registry_fits_def step_good_def)

interpretation owner_view: observed_runs registry_step observe_owner "\<lambda>s A. A = active_owners s" registry_fits
  by unfold_locales (auto dest: registry_step_fitting simp: step_good_def intro: registry_step_fits)

interpretation life_view: observed_runs registry_step observe_life life_matches registry_fits
  by unfold_locales (auto dest: registry_step_fitting simp: step_good_def intro: registry_step_fits)

lemma registry_run_total: "\<exists>out s'. run_out registry_step ops s = Some (out, s')"
proof (induction ops arbitrary: s)
  case (Cons x ops)
  have "registry_step x s \<noteq> None"
  proof (cases x)
    case (OpConnect key d ow)
    then show ?thesis by (cases ow) (simp_all split: prod.split)
  qed (simp_all split: prod.split)
  then obtain o1 s1 where "registry_step x s = Some (o1, s1)" by auto
  moreover obtain o2 s2 where "run_out registry_step ops s1 = Some (o2, s2)" using Cons by blast
  ultimately show ?case by simp
qed simp

lemma active_owners_default [simp]: "active_owners worker_registry_default = {}"
  by (simp add: active_owners_def worker_registry_default_def)

lemma worker_registry_default_fits: "connects ops \<le> u64_max \<Longrightarrow> registry_fits ops worker_registry_default"
  by (simp add: registry_fits_def registry_ok_def worker_registry_default_def)

text \<open>A search by instance id does not depend on the order in which the hash map is iterated.\<close>

lemma find_instance_iff:
  assumes "registry_ok s"
  shows "find_instance i s = Some (k, e) \<longleftrightarrow> (k, e) \<in> set (entries s) \<and> entry_instance e = i"
proof
  assume e: "(k, e) \<in> set (entries s) \<and> entry_instance e = i"
  then obtain p where p: "find_instance i s = Some p" by (cases "find_instance i s") (auto simp: find_instance_def find_None_iff)
  obtain k' e' where k': "p = (k', e')" by fastforce
  from find_instance_Some [OF p [unfolded k']] registry_okD(4) [OF assms, of k e k' e'] e p k'
  show "find_instance i s = Some (k, e)" by simp
qed (rule find_instance_Some)

lemma find_instance_order:
  assumes "registry_ok s" "registry_ok (s\<lparr>entries := es\<rparr>)" "set es = set (entries s)"
  shows "find_instance i (s\<lparr>entries := es\<rparr>) = find_instance i s"
proof -
  have "find_instance i (s\<lparr>entries := es\<rparr>) = Some (k, e) \<longleftrightarrow> find_instance i s = Some (k, e)" for k e
    using find_instance_iff [OF assms(1)] find_instance_iff [OF assms(2)] assms(3) by simp
  then show ?thesis by (metis option.exhaust surj_pair)
qed


subsection \<open>Properties\<close>

text \<open>C31: Whatever is called on a registry that has accepted fewer than 2 to the 64 connections, its two maps
  stay consistent: a client is recorded under a key exactly when the entry of that key lists it, no
  entry is without clients, clients are listed once, no two entries share an instance id, and no id
  has been handed out that the counters do not cover.\<close>

theorem shared_worker_registry_consistent:
  assumes "connects ops < 2 ^ 64"
  shows "\<exists>out s. run_out registry_step ops worker_registry_default = Some (out, s) \<and> registry_ok s"
proof -
  obtain out s where r: "run_out registry_step ops worker_registry_default = Some (out, s)" using registry_run_total by blast
  have "registry_fits ops worker_registry_default" using assms by (intro worker_registry_default_fits) (simp add: u64_max_def)
  from owner_view.fitting_run_observed [OF this refl r] r show ?thesis by (auto simp: registry_fits_def)
qed

text \<open>C5: The owner events are exact as long as fewer than 2 to the 64 connections are made: an observer that keeps
  the set of owners with a client on an instance from the events alone never sees a first client of an
  owner it knows or a last client of one it does not know, and after any sequence of operations its
  set is that of the registry.\<close>

theorem shared_worker_owner_events_exact:
  assumes "connects ops < 2 ^ 64"
  shows "\<exists>out s. run_out registry_step ops worker_registry_default = Some (out, s) \<and>
     run observe_owner out {} = Some (active_owners s)"
proof -
  obtain out s where r: "run_out registry_step ops worker_registry_default = Some (out, s)" using registry_run_total by blast
  have "registry_fits ops worker_registry_default" using assms by (intro worker_registry_default_fits) (simp add: u64_max_def)
  from owner_view.fitting_run_observed [OF this refl r] r show ?thesis by auto
qed

text \<open>C32: With fewer than 2 to the 64 connections, an embedder that follows the actions never starts an instance
  twice, is never told to queue for, connect to, finish, cancel or stop an instance that is not
  alive or not in that state, and gets back on termination the very instance it delivered; what it
  holds as alive is what the registry has.\<close>

theorem shared_worker_instances_tracked:
  assumes "connects ops < 2 ^ 64"
  shows "\<exists>out s v. run_out registry_step ops worker_registry_default = Some (out, s) \<and>
     run observe_life out (Map.empty, {}) = Some v \<and> life_matches s v"
proof -
  obtain out s where r: "run_out registry_step ops worker_registry_default = Some (out, s)" using registry_run_total by blast
  have "registry_fits ops worker_registry_default" using assms by (intro worker_registry_default_fits) (simp add: u64_max_def)
  moreover have "life_matches worker_registry_default (Map.empty, {})" by (simp add: life_matches_def worker_registry_default_def)
  ultimately show ?thesis using life_view.fitting_run_observed [OF _ _ r] r by blast
qed


subsection \<open>Witnesses\<close>

definition example_worker_key :: "string \<Rightarrow> shared_worker_key" where
  "example_worker_key url = \<lparr>worker_storage_key = key_new ''https://a'' ''https://a'' None FirstParty, script_url = url,
     worker_name = [], same_site_cookies = CookiesAll\<rparr>"

definition example_calls :: "string registry_op list" where
  "example_calls = [OpConnect (example_worker_key ''w.js'') descriptor_default (Some 7),
     OpConnect (example_worker_key ''w.js'') descriptor_default (Some 7), OpFinish (example_worker_key ''w.js'') 1 ''worker'',
     OpRemoveClient 1, OpConnect (example_worker_key ''v.js'') descriptor_default None, OpRemoveClient 2]"

lemma example_calls_fit: "connects example_calls < 2 ^ 64"
  by (simp add: example_calls_def)

theorem shared_worker_registry_consistent_witness:
  "\<exists>out s. run_out registry_step example_calls worker_registry_default = Some (out, s) \<and> registry_ok s"
  by (rule shared_worker_registry_consistent [OF example_calls_fit])

theorem shared_worker_owner_events_exact_witness:
  "\<exists>out s. run_out registry_step example_calls worker_registry_default = Some (out, s) \<and>
     run observe_owner out {} = Some (active_owners s)"
  by (rule shared_worker_owner_events_exact [OF example_calls_fit])

theorem shared_worker_instances_tracked_witness:
  "\<exists>out s v. run_out registry_step example_calls worker_registry_default = Some (out, s) \<and>
     run observe_life out (Map.empty, {}) = Some v \<and> life_matches s v"
  by (rule shared_worker_instances_tracked [OF example_calls_fit])

end
