(* ===== verification/Web_Storage.thy ===== *)
theory Web_Storage
  imports Storage_Key "HOL-Library.AList" "HOL-Library.List_Lexorder" "HOL-Library.Product_Lexorder" "HOL-Library.Multiset"
begin

section \<open>Web storage in memory (moli-web-storage)\<close>

text \<open>
  The in-memory store of local and session storage: \<^verbatim>\<open>lib.rs\<close> and \<^verbatim>\<open>store.rs\<close> without the SQLite backend.  Keys
  and values are UTF-16 units.  Hash maps are association lists with distinct keys, whose order
  stands for the iteration order.  A subscription is a shared queue: queues live in a heap of their
  own, a store holds weak references to them, and a queue that is dropped is no longer in the heap.
  Sizes are \<^verbatim>\<open>usize\<close> with the saturating operations of the source; a panic is \<^const>\<open>None\<close>.
\<close>

subsection \<open>Data (lib.rs)\<close>

type_synonym web_storage_string = "16 word list"

record memory_web_storage_area =
  area_values :: "(web_storage_string \<times> web_storage_string) list"
  area_size :: nat

datatype web_storage_mutation =
    ItemAdded string web_storage_string web_storage_string
  | ItemUpdated string web_storage_string web_storage_string web_storage_string
  | ItemRemoved string web_storage_string web_storage_string
  | ItemsCleared string

datatype web_storage_area_kind = Local | Session

record web_storage_mutation_record =
  area_kind :: web_storage_area_kind
  mutation :: web_storage_mutation

record web_storage_mutation_subscriber =
  subscriber_kind :: web_storage_area_kind
  subscriber_queue :: nat

datatype web_storage_mutation_error = QuotaExceeded | Persistence string

record web_storage_store =
  areas :: "(string \<times> memory_web_storage_area) list"
  mutation_subscribers :: "web_storage_mutation_subscriber list"
  queues :: "nat \<rightharpoonup> web_storage_mutation_record list"
  next_queue :: nat

definition area_default :: memory_web_storage_area where
  "area_default = \<lparr>area_values = [], area_size = 0\<rparr>"

definition new_shared_web_storage_store :: web_storage_store where
  "new_shared_web_storage_store = \<lparr>areas = [], mutation_subscribers = [], queues = Map.empty, next_queue = 0\<rparr>"

definition deep_clone_shared_web_storage_store :: "web_storage_store \<Rightarrow> web_storage_store" where
  "deep_clone_shared_web_storage_store s = s\<lparr>mutation_subscribers := []\<rparr>"

definition WEB_STORAGE_QUOTA_BYTES :: nat where
  "WEB_STORAGE_QUOTA_BYTES = 5 * 1024 * 1024"

definition web_storage_area_key_for_storage_key :: "moli_storage_key \<Rightarrow> string" where
  "web_storage_area_key_for_storage_key k = serialized_storage_key k"

definition saturating_add :: "nat \<Rightarrow> nat \<Rightarrow> nat" where
  "saturating_add a b = min u64_max (a + b)"

definition saturating_mul :: "nat \<Rightarrow> nat \<Rightarrow> nat" where
  "saturating_mul a b = min u64_max (a * b)"

definition string_usage_bytes :: "web_storage_string \<Rightarrow> nat" where
  "string_usage_bytes s = saturating_mul (length s) 2"

definition storage_item_size :: "web_storage_string \<Rightarrow> web_storage_string \<Rightarrow> nat" where
  "storage_item_size k v = saturating_add (string_usage_bytes k) (string_usage_bytes v)"

definition updated_storage_size ::
  "nat \<Rightarrow> web_storage_string \<Rightarrow> web_storage_string option \<Rightarrow> web_storage_string \<Rightarrow> nat" where
  "updated_storage_size current k previous v =
     saturating_add (current - (case previous of None \<Rightarrow> 0 | Some p \<Rightarrow> storage_item_size k p)) (storage_item_size k v)"

definition area_sorted_keys :: "memory_web_storage_area \<Rightarrow> web_storage_string list" where
  "area_sorted_keys a = sort (map fst (area_values a))"

definition area_key :: "nat \<Rightarrow> memory_web_storage_area \<Rightarrow> web_storage_string option" where
  "area_key i a = (let ks = sort (map fst (area_values a)) in if i < length ks then Some (ks ! i) else None)"

definition area_keys_for_origin :: "string \<Rightarrow> web_storage_store \<Rightarrow> string list" where
  "area_keys_for_origin org s = filter (prefix (storage_key_prefix_for_origin org)) (map fst (areas s))"

definition area_len :: "string \<Rightarrow> web_storage_store \<Rightarrow> nat" where
  "area_len k s = (case map_of (areas s) k of Some a \<Rightarrow> length (area_values a) | None \<Rightarrow> 0)"


subsection \<open>Subscriptions\<close>

definition drain_subscription ::
  "nat \<Rightarrow> web_storage_store \<Rightarrow> web_storage_mutation_record list \<times> web_storage_store" where
  "drain_subscription q s =
     (case queues s q of
        Some rs \<Rightarrow> (rs, s\<lparr>queues := (queues s)(q \<mapsto> [])\<rparr>)
      | None \<Rightarrow> ([], s))"

definition drop_subscription :: "nat \<Rightarrow> web_storage_store \<Rightarrow> web_storage_store" where
  "drop_subscription q s = s\<lparr>queues := (queues s)(q := None)\<rparr>"

definition add_mutation_subscription :: "web_storage_area_kind \<Rightarrow> nat \<Rightarrow> web_storage_store \<Rightarrow> web_storage_store" where
  "add_mutation_subscription kind q s =
     s\<lparr>mutation_subscribers :=
         filter (\<lambda>w. queues s (subscriber_queue w) \<noteq> None \<and> \<not> (subscriber_kind w = kind \<and> subscriber_queue w = q))
           (mutation_subscribers s) @
         [\<lparr>subscriber_kind = kind, subscriber_queue = q\<rparr>]\<rparr>"

definition subscribe_mutations :: "web_storage_area_kind \<Rightarrow> web_storage_store \<Rightarrow> nat \<times> web_storage_store" where
  "subscribe_mutations kind s =
     (let q = next_queue s in
      (q, add_mutation_subscription kind q (s\<lparr>queues := (queues s)(q \<mapsto> []), next_queue := q + 1\<rparr>)))"

fun publish_loop ::
  "web_storage_mutation \<Rightarrow> web_storage_mutation_subscriber list \<Rightarrow> (nat \<rightharpoonup> web_storage_mutation_record list) \<Rightarrow>
   web_storage_mutation_subscriber list \<times> (nat \<rightharpoonup> web_storage_mutation_record list)" where
  "publish_loop m [] qs = ([], qs)"
| "publish_loop m (w # ws) qs =
     (case qs (subscriber_queue w) of
        None \<Rightarrow> publish_loop m ws qs
      | Some rs \<Rightarrow>
          (let (ws', qs') = publish_loop m ws
             (qs(subscriber_queue w \<mapsto> rs @ [\<lparr>area_kind = subscriber_kind w, mutation = m\<rparr>])) in
           (w # ws', qs')))"

definition publish_mutation :: "web_storage_mutation \<Rightarrow> web_storage_store \<Rightarrow> web_storage_store" where
  "publish_mutation m s =
     (let (ws, qs) = publish_loop m (mutation_subscribers s) (queues s) in
      s\<lparr>mutation_subscribers := ws, queues := qs\<rparr>)"


subsection \<open>The store (store.rs)\<close>

type_synonym edit_result =
  "(web_storage_mutation_error + web_storage_mutation option \<times> memory_web_storage_area) option"

text \<open>An edit of one area.  The area is created before the edit runs; it is removed when the edit
  leaves it empty, but not when the edit fails.\<close>

definition edit_area ::
  "string \<Rightarrow> (memory_web_storage_area \<Rightarrow> edit_result) \<Rightarrow> web_storage_store \<Rightarrow>
   ((web_storage_mutation_error + web_storage_mutation option) \<times> web_storage_store) option" where
  "edit_area k f s =
     (let a = (case map_of (areas s) k of Some a \<Rightarrow> a | None \<Rightarrow> area_default);
          s = s\<lparr>areas := AList.update k a (areas s)\<rparr> in
      case f a of
        None \<Rightarrow> None
      | Some (Inl e) \<Rightarrow> Some (Inl e, s)
      | Some (Inr (m, a')) \<Rightarrow>
          (let s = s\<lparr>areas := AList.update k a' (areas s)\<rparr>;
               s = (if area_values a' = [] then s\<lparr>areas := AList.delete k (areas s)\<rparr> else s) in
           Some (Inr m, case m of Some x \<Rightarrow> publish_mutation x s | None \<Rightarrow> s)))"

definition set_edit :: "string \<Rightarrow> web_storage_string \<Rightarrow> web_storage_string \<Rightarrow> memory_web_storage_area \<Rightarrow> edit_result" where
  "set_edit org k v a =
     (let previous = map_of (area_values a) k in
      if previous = Some v then Some (Inr (None, a))
      else
        (let n = updated_storage_size (area_size a) k previous v in
         if area_size a < n \<and> WEB_STORAGE_QUOTA_BYTES < n then Some (Inl QuotaExceeded)
         else Some (Inr (Some (case previous of Some old \<Rightarrow> ItemUpdated org k old v | None \<Rightarrow> ItemAdded org k v),
           a\<lparr>area_values := AList.update k v (area_values a), area_size := n\<rparr>))))"

definition remove_edit :: "string \<Rightarrow> web_storage_string \<Rightarrow> memory_web_storage_area \<Rightarrow> edit_result" where
  "remove_edit org k a =
     (case map_of (area_values a) k of
        None \<Rightarrow> Some (Inr (None, a))
      | Some old \<Rightarrow>
          map_option (\<lambda>n. Inr (Some (ItemRemoved org k old), a\<lparr>area_values := AList.delete k (area_values a), area_size := n\<rparr>))
            (checked_sub (area_size a) (storage_item_size k old)))"

definition clear_edit :: "string \<Rightarrow> memory_web_storage_area \<Rightarrow> edit_result" where
  "clear_edit org a =
     (if area_values a = [] then Some (Inr (None, a))
      else Some (Inr (Some (ItemsCleared org), a\<lparr>area_values := [], area_size := 0\<rparr>)))"

definition try_set_change_utf16 ::
  "string \<Rightarrow> web_storage_string \<Rightarrow> web_storage_string \<Rightarrow> web_storage_store \<Rightarrow>
   ((web_storage_mutation_error + web_storage_mutation option) \<times> web_storage_store) option" where
  "try_set_change_utf16 org k v s = edit_area org (set_edit org k v) s"

definition try_remove_change_utf16 ::
  "string \<Rightarrow> web_storage_string \<Rightarrow> web_storage_store \<Rightarrow>
   ((web_storage_mutation_error + web_storage_mutation option) \<times> web_storage_store) option" where
  "try_remove_change_utf16 org k s = edit_area org (remove_edit org k) s"

definition try_clear_change ::
  "string \<Rightarrow> web_storage_store \<Rightarrow>
   ((web_storage_mutation_error + web_storage_mutation option) \<times> web_storage_store) option" where
  "try_clear_change org s = edit_area org (clear_edit org) s"

definition try_clear :: "string \<Rightarrow> web_storage_store \<Rightarrow> bool \<times> web_storage_store" where
  "try_clear org s =
     (let removed = map_of (areas s) org;
          s = s\<lparr>areas := AList.delete org (areas s)\<rparr> in
      (removed \<noteq> None,
       case removed of
         Some a \<Rightarrow> (if area_values a \<noteq> [] then publish_mutation (ItemsCleared org) s else s)
       | None \<Rightarrow> s))"

definition try_clear_origin_areas :: "string \<Rightarrow> web_storage_store \<Rightarrow> bool \<times> web_storage_store" where
  "try_clear_origin_areas org s =
     (let ks = area_keys_for_origin org s;
          nonempty = filter (\<lambda>k. 0 < area_len k s) ks;
          s = s\<lparr>areas := fold AList.delete ks (areas s)\<rparr> in
      (ks \<noteq> [], fold (\<lambda>k. publish_mutation (ItemsCleared k)) nonempty s))"

definition try_get_item_utf16 :: "string \<Rightarrow> web_storage_string \<Rightarrow> web_storage_store \<Rightarrow> web_storage_string option" where
  "try_get_item_utf16 org k s = Option.bind (map_of (areas s) org) (\<lambda>a. map_of (area_values a) k)"

definition try_contains_key_utf16 :: "string \<Rightarrow> web_storage_string \<Rightarrow> web_storage_store \<Rightarrow> bool" where
  "try_contains_key_utf16 org k s =
     (case map_of (areas s) org of Some a \<Rightarrow> map_of (area_values a) k \<noteq> None | None \<Rightarrow> False)"

definition try_key_utf16 :: "string \<Rightarrow> nat \<Rightarrow> web_storage_store \<Rightarrow> web_storage_string option" where
  "try_key_utf16 org i s = Option.bind (map_of (areas s) org) (area_key i)"

definition try_sorted_keys_utf16 :: "string \<Rightarrow> web_storage_store \<Rightarrow> web_storage_string list" where
  "try_sorted_keys_utf16 org s = (case map_of (areas s) org of Some a \<Rightarrow> area_sorted_keys a | None \<Rightarrow> [])"

definition try_items_utf16 :: "string \<Rightarrow> web_storage_store \<Rightarrow> (web_storage_string \<times> web_storage_string) list" where
  "try_items_utf16 org s = (case map_of (areas s) org of Some a \<Rightarrow> sort_key fst (area_values a) | None \<Rightarrow> [])"

definition try_len :: "string \<Rightarrow> web_storage_store \<Rightarrow> nat" where
  "try_len org s = (case map_of (areas s) org of Some a \<Rightarrow> length (area_values a) | None \<Rightarrow> 0)"


subsection \<open>Contents, sizes and the invariant\<close>

definition contents :: "web_storage_store \<Rightarrow> string \<Rightarrow> web_storage_string \<rightharpoonup> web_storage_string" where
  "contents s org = (case map_of (areas s) org of Some a \<Rightarrow> map_of (area_values a) | None \<Rightarrow> Map.empty)"

definition item_bytes :: "web_storage_string \<Rightarrow> web_storage_string \<Rightarrow> nat" where
  "item_bytes k v = 2 * length k + 2 * length v"

definition usage :: "(web_storage_string \<times> web_storage_string) list \<Rightarrow> nat" where
  "usage kvs = sum_list (map (\<lambda>(k, v). item_bytes k v) kvs)"

definition area_ok :: "memory_web_storage_area \<Rightarrow> bool" where
  "area_ok a \<longleftrightarrow> distinct (map fst (area_values a)) \<and> area_size a = usage (area_values a) \<and>
     area_size a \<le> WEB_STORAGE_QUOTA_BYTES"

definition store_ok :: "web_storage_store \<Rightarrow> bool" where
  "store_ok s \<longleftrightarrow> distinct (map fst (areas s)) \<and> (\<forall>k a. map_of (areas s) k = Some a \<longrightarrow> area_ok a)"

definition current_area :: "string \<Rightarrow> web_storage_store \<Rightarrow> memory_web_storage_area" where
  "current_area org s = (case map_of (areas s) org of Some a \<Rightarrow> a | None \<Rightarrow> area_default)"

lemma quota_small: "WEB_STORAGE_QUOTA_BYTES < u64_max"
  by (simp add: WEB_STORAGE_QUOTA_BYTES_def u64_max_def)

lemma storage_item_size_eq: "storage_item_size k v = min u64_max (item_bytes k v)"
  by (simp add: storage_item_size_def saturating_add_def string_usage_bytes_def saturating_mul_def item_bytes_def)

lemma usage_update:
  "distinct (map fst kvs) \<Longrightarrow>
   usage (AList.update k v kvs) + (case map_of kvs k of Some old \<Rightarrow> item_bytes k old | None \<Rightarrow> 0) = usage kvs + item_bytes k v"
proof (induction kvs)
  case Nil
  then show ?case by (simp add: usage_def)
next
  case (Cons p kvs)
  obtain k1 v1 where p: "p = (k1, v1)" by fastforce
  show ?case
  proof (cases "k1 = k")
    case True
    then show ?thesis by (simp add: p usage_def)
  next
    case False
    with Cons show ?thesis by (simp add: p usage_def)
  qed
qed

lemma usage_delete:
  "distinct (map fst kvs) \<Longrightarrow> map_of kvs k = Some old \<Longrightarrow> usage (AList.delete k kvs) + item_bytes k old = usage kvs"
proof (induction kvs)
  case (Cons p kvs)
  obtain k1 v1 where p: "p = (k1, v1)" by fastforce
  show ?case
  proof (cases "k1 = k")
    case True
    with Cons.prems have "k \<notin> fst ` set kvs" by (simp add: p)
    with True Cons.prems show ?thesis by (simp add: p usage_def)
  next
    case False
    with Cons show ?thesis by (simp add: p usage_def)
  qed
qed simp

lemma area_ok_default [simp]: "area_ok area_default"
  by (simp add: area_ok_def area_default_def usage_def)

lemma current_area_ok: "store_ok s \<Longrightarrow> area_ok (current_area org s)"
  by (auto simp: store_ok_def current_area_def split: option.split)

lemma current_area_values: "map_of (area_values (current_area org s)) = contents s org"
  by (simp add: current_area_def contents_def area_default_def split: option.split)

text \<open>The size a write would lead to, without saturation.\<close>

definition exact_size :: "memory_web_storage_area \<Rightarrow> web_storage_string \<Rightarrow> web_storage_string \<Rightarrow> nat" where
  "exact_size a k v = usage (AList.update k v (area_values a))"

lemma updated_size_eq:
  assumes "area_ok a"
  shows "updated_storage_size (area_size a) k (map_of (area_values a) k) v = min u64_max (exact_size a k v)"
proof -
  have d: "distinct (map fst (area_values a))" and n: "area_size a = usage (area_values a)" "usage (area_values a) < u64_max"
    using assms quota_small by (auto simp: area_ok_def)
  have up: "exact_size a k v + (case map_of (area_values a) k of Some old \<Rightarrow> item_bytes k old | None \<Rightarrow> 0) =
      usage (area_values a) + item_bytes k v"
    unfolding exact_size_def by (rule usage_update [OF d])
  show ?thesis
  proof (cases "map_of (area_values a) k")
    case None
    with up n show ?thesis by (simp add: updated_storage_size_def saturating_add_def storage_item_size_eq)
  next
    case (Some old)
    have "item_bytes k old \<le> usage (area_values a)" using usage_delete [OF d Some] by simp
    with up n Some show ?thesis by (simp add: updated_storage_size_def saturating_add_def storage_item_size_eq)
  qed
qed

lemma set_edit_cases:
  assumes "area_ok a"
  shows "set_edit org k v a =
     (if map_of (area_values a) k = Some v then Some (Inr (None, a))
      else if area_size a < exact_size a k v \<and> WEB_STORAGE_QUOTA_BYTES < exact_size a k v then Some (Inl QuotaExceeded)
      else Some (Inr (Some (case map_of (area_values a) k of Some old \<Rightarrow> ItemUpdated org k old v | None \<Rightarrow> ItemAdded org k v),
        a\<lparr>area_values := AList.update k v (area_values a), area_size := exact_size a k v\<rparr>)))"
proof -
  have "area_size a \<le> WEB_STORAGE_QUOTA_BYTES" using assms by (simp add: area_ok_def)
  then show ?thesis
    using updated_size_eq [OF assms, of k v] quota_small by (auto simp: set_edit_def Let_def min_def)
qed

lemma set_edit_ok:
  assumes "area_ok a" "set_edit org k v a = Some (Inr (m, a'))"
  shows "area_ok a'"
  using assms unfolding set_edit_cases [OF assms(1)]
  by (auto simp: area_ok_def exact_size_def distinct_update split: if_splits)

lemma remove_edit_cases:
  assumes "area_ok a"
  shows "remove_edit org k a =
     (case map_of (area_values a) k of
        None \<Rightarrow> Some (Inr (None, a))
      | Some old \<Rightarrow> Some (Inr (Some (ItemRemoved org k old),
          a\<lparr>area_values := AList.delete k (area_values a), area_size := usage (AList.delete k (area_values a))\<rparr>)))"
proof (cases "map_of (area_values a) k")
  case (Some old)
  have d: "distinct (map fst (area_values a))" and n: "area_size a = usage (area_values a)" "usage (area_values a) < u64_max"
    using assms quota_small by (auto simp: area_ok_def)
  from usage_delete [OF d Some] n have "checked_sub (area_size a) (storage_item_size k old) =
      Some (usage (AList.delete k (area_values a)))"
    by (simp add: checked_sub_def storage_item_size_eq)
  with Some show ?thesis by (simp add: remove_edit_def)
qed (simp add: remove_edit_def)

lemma remove_edit_ok:
  assumes "area_ok a" "remove_edit org k a = Some (Inr (m, a'))"
  shows "area_ok a'"
proof (cases "map_of (area_values a) k")
  case (Some old)
  with assms usage_delete [of "area_values a" k old] show ?thesis
    unfolding remove_edit_cases [OF assms(1)] by (auto simp: area_ok_def distinct_delete)
qed (use assms in \<open>simp add: remove_edit_def\<close>)

lemma clear_edit_ok: "area_ok a \<Longrightarrow> clear_edit org a = Some (Inr (m, a')) \<Longrightarrow> area_ok a'"
  by (auto simp: clear_edit_def area_ok_def usage_def split: if_splits)

subsection \<open>Publishing\<close>

text \<open>A queue that is still held and that the store knows under one kind.\<close>

definition subscribed :: "web_storage_area_kind \<Rightarrow> nat \<Rightarrow> web_storage_store \<Rightarrow> bool" where
  "subscribed K q s \<longleftrightarrow> queues s q \<noteq> None \<and>
     filter (\<lambda>w. subscriber_queue w = q) (mutation_subscribers s) = [\<lparr>subscriber_kind = K, subscriber_queue = q\<rparr>]"

definition queued :: "nat \<Rightarrow> web_storage_store \<Rightarrow> web_storage_mutation_record list" where
  "queued q s = (case queues s q of Some rs \<Rightarrow> rs | None \<Rightarrow> [])"

abbreviation record_of :: "web_storage_area_kind \<Rightarrow> web_storage_mutation \<Rightarrow> web_storage_mutation_record" where
  "record_of K m \<equiv> \<lparr>area_kind = K, mutation = m\<rparr>"

lemma publish_loop_queue:
  "snd (publish_loop m ws qs) q =
   map_option (\<lambda>rs. rs @ map (\<lambda>w. record_of (subscriber_kind w) m) (filter (\<lambda>w. subscriber_queue w = q) ws)) (qs q)"
proof (induction ws arbitrary: qs)
  case Nil
  then show ?case by (simp add: option.map_ident)
next
  case (Cons w ws)
  then show ?case by (auto simp: split_beta Let_def split: option.split)
qed

lemma publish_loop_subscribers:
  "fst (publish_loop m ws qs) = filter (\<lambda>w. qs (subscriber_queue w) \<noteq> None) ws"
proof (induction ws arbitrary: qs)
  case (Cons w ws)
  show ?case
  proof (cases "qs (subscriber_queue w)")
    case (Some rs)
    with Cons show ?thesis by (auto simp: split_beta Let_def intro!: filter_cong)
  qed (use Cons in simp)
qed simp

lemma publish_subscribed:
  assumes "subscribed K q s"
  shows "subscribed K q (publish_mutation m s)" "queued q (publish_mutation m s) = queued q s @ [record_of K m]"
proof -
  obtain rs where rs: "queues s q = Some rs"
    and one: "filter (\<lambda>w. subscriber_queue w = q) (mutation_subscribers s) = [\<lparr>subscriber_kind = K, subscriber_queue = q\<rparr>]"
    using assms by (auto simp: subscribed_def)
  have "queues (publish_mutation m s) q = Some (rs @ [record_of K m])"
    using publish_loop_queue [of m "mutation_subscribers s" "queues s" q] rs one
    by (simp add: publish_mutation_def split_beta Let_def)
  moreover have "filter (\<lambda>w. subscriber_queue w = q) (mutation_subscribers (publish_mutation m s)) =
      filter (\<lambda>w. queues s (subscriber_queue w) \<noteq> None) (filter (\<lambda>w. subscriber_queue w = q) (mutation_subscribers s))"
    by (simp add: publish_mutation_def split_beta Let_def publish_loop_subscribers conj_commute)
  ultimately show "subscribed K q (publish_mutation m s)" "queued q (publish_mutation m s) = queued q s @ [record_of K m]"
    using rs one by (simp_all add: subscribed_def queued_def)
qed

lemma publish_areas [simp]: "areas (publish_mutation m s) = areas s"
  by (simp add: publish_mutation_def split_beta Let_def)

lemma publish_contents [simp]: "contents (publish_mutation m s) = contents s" "store_ok (publish_mutation m s) = store_ok s"
  by (simp_all add: contents_def store_ok_def fun_eq_iff)

lemma fold_publish:
  assumes "subscribed K q s"
  shows "subscribed K q (fold publish_mutation ms s) \<and>
     queued q (fold publish_mutation ms s) = queued q s @ map (record_of K) ms"
  using assms by (induction ms arbitrary: s) (simp_all add: publish_subscribed)

lemma fold_publish_areas [simp]: "areas (fold publish_mutation ms s) = areas s"
  by (induction ms arbitrary: s) simp_all

lemma contents_areas: "areas s = areas t \<Longrightarrow> contents s = contents t" "areas s = areas t \<Longrightarrow> store_ok s = store_ok t"
  by (simp_all add: contents_def store_ok_def fun_eq_iff)


subsection \<open>A change and the mutations that describe it\<close>

text \<open>
  Replaying a mutation on the contents of all areas.  The replay is strict: an addition needs an
  absent key, an update and a removal the old value the record names, a clearing a non-empty area.
\<close>

type_synonym web_storage_contents = "string \<Rightarrow> web_storage_string \<rightharpoonup> web_storage_string"

fun observe_mutation :: "web_storage_mutation \<Rightarrow> web_storage_contents \<Rightarrow> web_storage_contents option" where
  "observe_mutation (ItemAdded org k v) c = (if c org k = None then Some (c(org := (c org)(k \<mapsto> v))) else None)"
| "observe_mutation (ItemUpdated org k old v) c =
     (if c org k = Some old \<and> old \<noteq> v then Some (c(org := (c org)(k \<mapsto> v))) else None)"
| "observe_mutation (ItemRemoved org k old) c =
     (if c org k = Some old then Some (c(org := (c org)(k := None))) else None)"
| "observe_mutation (ItemsCleared org) c = (if c org \<noteq> Map.empty then Some (c(org := Map.empty)) else None)"

definition observe_record :: "web_storage_area_kind \<Rightarrow> web_storage_mutation_record \<Rightarrow> web_storage_contents \<Rightarrow> web_storage_contents option" where
  "observe_record K r c = (if area_kind r = K then observe_mutation (mutation r) c else None)"

definition same_queues :: "web_storage_store \<Rightarrow> web_storage_store \<Rightarrow> bool" where
  "same_queues s s' \<longleftrightarrow> next_queue s' = next_queue s \<and> (\<forall>q. (queues s' q = None) = (queues s q = None)) \<and>
     set (mutation_subscribers s') \<subseteq> set (mutation_subscribers s)"

definition changed_by :: "web_storage_mutation list \<Rightarrow> web_storage_store \<Rightarrow> web_storage_store \<Rightarrow> bool" where
  "changed_by ms s s' \<longleftrightarrow>
     store_ok s' \<and> same_queues s s' \<and> run observe_mutation ms (contents s) = Some (contents s') \<and>
     (\<forall>K q. subscribed K q s \<longrightarrow> subscribed K q s' \<and> queued q s' = queued q s @ map (record_of K) ms)"

lemma run_observe_record: "run (observe_record K) (map (record_of K) ms) c = run observe_mutation ms c"
  by (induction ms arbitrary: c) (auto simp: observe_record_def split: Option.bind_split)

lemma unchanged:
  assumes "store_ok s'" "contents s' = contents s" "mutation_subscribers s' = mutation_subscribers s" "queues s' = queues s"
    "next_queue s' = next_queue s"
  shows "changed_by [] s s'"
  using assms by (simp add: changed_by_def subscribed_def queued_def same_queues_def)

lemma publish_same_queues: "same_queues s (publish_mutation m s)"
proof -
  have "snd (publish_loop m (mutation_subscribers s) (queues s)) q = None \<longleftrightarrow> queues s q = None" for q
    by (simp add: publish_loop_queue)
  then show ?thesis
    by (auto simp: same_queues_def publish_mutation_def split_beta Let_def publish_loop_subscribers)
qed

lemma same_queues_trans: "same_queues s t \<Longrightarrow> same_queues t u \<Longrightarrow> same_queues s u"
  by (auto simp: same_queues_def)

lemma fold_publish_same_queues: "same_queues s (fold publish_mutation ms s)"
proof (induction ms arbitrary: s)
  case (Cons m ms)
  show ?case using same_queues_trans [OF publish_same_queues Cons] by simp
qed (simp add: same_queues_def)

lemma published:
  assumes "store_ok t" "mutation_subscribers t = mutation_subscribers s" "queues t = queues s" "next_queue t = next_queue s"
    "run observe_mutation ms (contents s) = Some (contents t)"
  shows "changed_by ms s (fold publish_mutation ms t)"
proof -
  have "subscribed K q s = subscribed K q t" "queued q s = queued q t" for K q
    using assms by (simp_all add: subscribed_def queued_def)
  moreover have "store_ok (fold publish_mutation ms t)" "contents (fold publish_mutation ms t) = contents t"
    using assms(1) contents_areas [of "fold publish_mutation ms t" t] by simp_all
  moreover have "same_queues s (fold publish_mutation ms t)"
    using fold_publish_same_queues [of t ms] assms(2,3,4) by (simp add: same_queues_def)
  ultimately show ?thesis using assms(5) by (simp add: changed_by_def fold_publish)
qed

lemma contents_update: "contents (s\<lparr>areas := AList.update k a (areas s)\<rparr>) = (contents s)(k := map_of (area_values a))"
  by (simp add: contents_def fun_eq_iff update_conv')

lemma contents_delete: "contents (s\<lparr>areas := AList.delete k (areas s)\<rparr>) = (contents s)(k := Map.empty)"
  by (simp add: contents_def fun_eq_iff delete_conv')

lemma store_ok_update: "store_ok s \<Longrightarrow> area_ok a \<Longrightarrow> store_ok (s\<lparr>areas := AList.update k a (areas s)\<rparr>)"
  by (auto simp: store_ok_def distinct_update update_conv')

lemma store_ok_delete: "store_ok s \<Longrightarrow> store_ok (s\<lparr>areas := AList.delete k (areas s)\<rparr>)"
  by (auto simp: store_ok_def distinct_delete delete_conv')

text \<open>The store after an edit that succeeds, before the mutation is published.\<close>

definition edited :: "string \<Rightarrow> memory_web_storage_area \<Rightarrow> web_storage_store \<Rightarrow> web_storage_store" where
  "edited k a s =
     s\<lparr>areas := (if area_values a = [] then AList.delete k else id) (AList.update k a (AList.update k (current_area k s) (areas s)))\<rparr>"

lemma edited_simps [simp]:
  "mutation_subscribers (edited k a s) = mutation_subscribers s" "queues (edited k a s) = queues s"
  "next_queue (edited k a s) = next_queue s"
  by (simp_all add: edited_def)

lemma edited_contents: "contents (edited k a s) = (contents s)(k := map_of (area_values a))"
  by (auto simp: edited_def contents_def fun_eq_iff update_conv' delete_conv')

lemma edited_ok:
  assumes "store_ok s" "area_ok a"
  shows "store_ok (edited k a s)"
proof -
  have "store_ok (s\<lparr>areas := AList.update k a (AList.update k (current_area k s) (areas s))\<rparr>)"
    using store_ok_update [OF store_ok_update [OF assms(1) current_area_ok [OF assms(1), of k], of k] assms(2), of k] by simp
  from this store_ok_delete [OF this, of k] show ?thesis by (simp add: edited_def)
qed

lemma edit_area_value:
  "f (current_area k s) = Some (Inr (m, a)) \<Longrightarrow>
   edit_area k f s = Some (Inr m, fold publish_mutation (case m of Some x \<Rightarrow> [x] | None \<Rightarrow> []) (edited k a s))"
  by (simp add: edit_area_def Let_def edited_def current_area_def split: option.splits)

lemma edit_area_error:
  "f (current_area k s) = Some (Inl e) \<Longrightarrow>
   edit_area k f s = Some (Inl e, s\<lparr>areas := AList.update k (current_area k s) (areas s)\<rparr>)"
  by (simp add: edit_area_def Let_def current_area_def split: option.splits)

lemma rejected_edit:
  assumes "store_ok s"
  shows "changed_by [] s (s\<lparr>areas := AList.update k (current_area k s) (areas s)\<rparr>)"
  by (rule unchanged)
    (simp_all add: store_ok_update assms current_area_ok contents_update current_area_values)

lemma accepted_edit:
  assumes "store_ok s" "area_ok a" "run observe_mutation ms (contents s) = Some ((contents s)(k := map_of (area_values a)))"
  shows "changed_by ms s (fold publish_mutation ms (edited k a s))"
  by (rule published) (use assms in \<open>simp_all add: edited_ok edited_contents\<close>)

subsection \<open>What each operation changes\<close>

definition mutations_of :: "web_storage_mutation_error + web_storage_mutation option \<Rightarrow> web_storage_mutation list" where
  "mutations_of r = (case r of Inr (Some m) \<Rightarrow> [m] | _ \<Rightarrow> [])"

lemma edit_changes:
  assumes "store_ok s" "f (current_area k s) = Some r"
    "\<And>m a. r = Inr (m, a) \<Longrightarrow> area_ok a \<and>
       run observe_mutation (mutations_of (Inr m)) (contents s) = Some ((contents s)(k := map_of (area_values a)))"
  shows "\<exists>r' s'. edit_area k f s = Some (r', s') \<and> changed_by (mutations_of r') s s'"
proof (cases r)
  case (Inl e)
  then show ?thesis
    using edit_area_error [of f k s e] rejected_edit [OF assms(1), of k] assms(2) by (simp add: mutations_of_def)
next
  case (Inr p)
  obtain m a where p: "p = (m, a)" by fastforce
  have "mutations_of (Inr m) = (case m of Some x \<Rightarrow> [x] | None \<Rightarrow> [])" by (simp add: mutations_of_def)
  with Inr p show ?thesis
    using edit_area_value [of f k s m a] accepted_edit [OF assms(1), of a "mutations_of (Inr m)" k] assms(2,3) by simp
qed

lemma area_replay:
  assumes "store_ok s"
  shows "map_of (area_values (current_area org s)) k = None \<Longrightarrow>
      observe_mutation (ItemAdded org k v) (contents s) = Some ((contents s)(org := (map_of (area_values (current_area org s)))(k \<mapsto> v)))"
    "map_of (area_values (current_area org s)) k = Some old \<Longrightarrow> old \<noteq> v \<Longrightarrow>
      observe_mutation (ItemUpdated org k old v) (contents s) = Some ((contents s)(org := (map_of (area_values (current_area org s)))(k \<mapsto> v)))"
    "map_of (area_values (current_area org s)) k = Some old \<Longrightarrow>
      observe_mutation (ItemRemoved org k old) (contents s) = Some ((contents s)(org := (map_of (area_values (current_area org s)))(k := None)))"
  by (simp_all add: current_area_values)

lemma set_changes:
  assumes "store_ok s"
  shows "\<exists>r s'. try_set_change_utf16 org k v s = Some (r, s') \<and> changed_by (mutations_of r) s s'"
proof -
  let ?a = "current_area org s"
  have ok: "area_ok ?a" by (rule current_area_ok [OF assms])
  obtain r where r: "set_edit org k v ?a = Some r"
    by (cases "set_edit org k v ?a") (auto simp: set_edit_def Let_def split: if_splits)
  show ?thesis unfolding try_set_change_utf16_def
  proof (rule edit_changes [where f = "set_edit org k v", OF assms r])
    fix m a assume e: "r = Inr (m, a)"
    then have "area_ok a" using set_edit_ok [OF ok] r by blast
    moreover have "run observe_mutation (mutations_of (Inr m)) (contents s) = Some ((contents s)(org := map_of (area_values a)))"
      using r e area_replay [OF assms, of org k] unfolding set_edit_cases [OF ok]
      by (auto simp: mutations_of_def current_area_values update_conv' split: if_splits option.splits)
    ultimately show "area_ok a \<and> run observe_mutation (mutations_of (Inr m)) (contents s) =
        Some ((contents s)(org := map_of (area_values a)))" ..
  qed
qed

lemma remove_changes:
  assumes "store_ok s"
  shows "\<exists>r s'. try_remove_change_utf16 org k s = Some (r, s') \<and> changed_by (mutations_of r) s s'"
proof -
  let ?a = "current_area org s"
  have ok: "area_ok ?a" by (rule current_area_ok [OF assms])
  obtain r where r: "remove_edit org k ?a = Some r"
    unfolding remove_edit_cases [OF ok] by (cases "map_of (area_values ?a) k") simp_all
  show ?thesis unfolding try_remove_change_utf16_def
  proof (rule edit_changes [where f = "remove_edit org k", OF assms r])
    fix m a assume e: "r = Inr (m, a)"
    then have "area_ok a" using remove_edit_ok [OF ok] r by blast
    moreover have "run observe_mutation (mutations_of (Inr m)) (contents s) = Some ((contents s)(org := map_of (area_values a)))"
      using r e area_replay [OF assms, of org k] unfolding remove_edit_cases [OF ok]
      by (auto simp: mutations_of_def current_area_values delete_conv' split: option.splits)
    ultimately show "area_ok a \<and> run observe_mutation (mutations_of (Inr m)) (contents s) =
        Some ((contents s)(org := map_of (area_values a)))" ..
  qed
qed

lemma clear_changes:
  assumes "store_ok s"
  shows "\<exists>r s'. try_clear_change org s = Some (r, s') \<and> changed_by (mutations_of r) s s'"
proof -
  let ?a = "current_area org s"
  obtain r where r: "clear_edit org ?a = Some r"
    by (cases "clear_edit org ?a") (auto simp: clear_edit_def split: if_splits)
  show ?thesis unfolding try_clear_change_def
  proof (rule edit_changes [where f = "clear_edit org", OF assms r])
    fix m a assume e: "r = Inr (m, a)"
    then have "area_ok a" using clear_edit_ok [OF current_area_ok [OF assms]] r by blast
    moreover have "run observe_mutation (mutations_of (Inr m)) (contents s) = Some ((contents s)(org := map_of (area_values a)))"
      using r e current_area_values [of org s]
      by (auto simp: clear_edit_def mutations_of_def split: if_splits)
    ultimately show "area_ok a \<and> run observe_mutation (mutations_of (Inr m)) (contents s) =
        Some ((contents s)(org := map_of (area_values a)))" ..
  qed
qed

lemma contents_empty_iff: "contents s k = Map.empty \<longleftrightarrow> area_len k s = 0"
  by (simp add: contents_def area_len_def split: option.split)

lemma clear_area_changes:
  assumes "store_ok s"
  shows "changed_by (if area_len org s = 0 then [] else [ItemsCleared org]) s (snd (try_clear org s))"
proof (cases "area_len org s = 0")
  case True
  then have "snd (try_clear org s) = s\<lparr>areas := AList.delete org (areas s)\<rparr>"
    by (simp add: try_clear_def Let_def area_len_def split: option.splits)
  with True assms show ?thesis
    using contents_empty_iff [of s org] by (auto simp: contents_delete store_ok_delete fun_upd_idem intro!: unchanged)
next
  case False
  then have e: "snd (try_clear org s) = fold publish_mutation [ItemsCleared org] (s\<lparr>areas := AList.delete org (areas s)\<rparr>)"
    by (simp add: try_clear_def Let_def area_len_def split: option.splits)
  have "run observe_mutation [ItemsCleared org] (contents s) = Some (contents (s\<lparr>areas := AList.delete org (areas s)\<rparr>))"
    using False contents_empty_iff [of s org] by (simp add: contents_delete)
  then show ?thesis unfolding e using False assms
    by (simp only: if_False) (rule published, simp_all add: store_ok_delete)
qed

lemma map_of_fold_delete: "map_of (fold AList.delete ks xs) k = (if k \<in> set ks then None else map_of xs k)"
  by (induction ks arbitrary: xs) (auto simp: delete_conv')

lemma distinct_fold_delete: "distinct (map fst xs) \<Longrightarrow> distinct (map fst (fold AList.delete ks xs))"
  by (induction ks arbitrary: xs) (simp_all add: distinct_delete)

lemma contents_fold_delete:
  "contents (s\<lparr>areas := fold AList.delete ks (areas s)\<rparr>) = (\<lambda>k. if k \<in> set ks then Map.empty else contents s k)"
  by (simp add: contents_def fun_eq_iff map_of_fold_delete)

lemma store_ok_fold_delete: "store_ok s \<Longrightarrow> store_ok (s\<lparr>areas := fold AList.delete ks (areas s)\<rparr>)"
  by (auto simp: store_ok_def distinct_fold_delete map_of_fold_delete split: if_splits)

lemma observe_clears:
  "distinct ks \<Longrightarrow> \<forall>k\<in>set ks. c k \<noteq> Map.empty \<Longrightarrow>
   run observe_mutation (map ItemsCleared ks) c = Some (\<lambda>k. if k \<in> set ks then Map.empty else c k)"
proof (induction ks arbitrary: c)
  case (Cons k ks)
  then have "\<forall>j\<in>set ks. (c(k := Map.empty)) j \<noteq> Map.empty" by auto
  with Cons have "run observe_mutation (map ItemsCleared ks) (c(k := Map.empty)) =
      Some (\<lambda>j. if j \<in> set ks then Map.empty else (c(k := Map.empty)) j)"
    using Cons.IH [of "c(k := Map.empty)"] by simp
  with Cons.prems show ?case by (auto simp: fun_eq_iff)
qed simp

lemma clear_origin_changes:
  assumes "store_ok s"
  shows "changed_by (map ItemsCleared (filter (\<lambda>k. 0 < area_len k s) (area_keys_for_origin org s))) s
     (snd (try_clear_origin_areas org s))"
proof -
  let ?ks = "area_keys_for_origin org s" and ?t = "s\<lparr>areas := fold AList.delete (area_keys_for_origin org s) (areas s)\<rparr>"
  let ?ns = "filter (\<lambda>k. 0 < area_len k s) ?ks"
  have e: "snd (try_clear_origin_areas org s) = fold publish_mutation (map ItemsCleared ?ns) ?t"
    by (simp add: try_clear_origin_areas_def Let_def fold_map comp_def)
  have "distinct ?ns" using assms by (simp add: store_ok_def area_keys_for_origin_def)
  moreover have "\<forall>k\<in>set ?ns. contents s k \<noteq> Map.empty" by (simp add: contents_empty_iff)
  ultimately have "run observe_mutation (map ItemsCleared ?ns) (contents s) =
      Some (\<lambda>k. if k \<in> set ?ns then Map.empty else contents s k)" by (rule observe_clears)
  also have "(\<lambda>k. if k \<in> set ?ns then Map.empty else contents s k) = contents ?t"
    using contents_empty_iff [of s] unfolding contents_fold_delete by (auto simp: fun_eq_iff)
  finally show ?thesis unfolding e
    by (rule published [rotated 4]) (simp_all add: store_ok_fold_delete assms)
qed


subsection \<open>Sequences of operations\<close>

datatype web_op =
    OpSet string web_storage_string web_storage_string
  | OpRemove string web_storage_string
  | OpClearChange string
  | OpClear string
  | OpClearOriginAreas string
  | OpSubscribe web_storage_area_kind
  | OpAddSubscription web_storage_area_kind nat
  | OpDropSubscription nat
  | OpDrain nat

text \<open>One operation.  A subscription that is no longer held cannot be added again.\<close>

fun web_exec :: "web_op \<Rightarrow> web_storage_store \<Rightarrow> web_storage_store option" where
  "web_exec (OpSet org k v) s = map_option snd (try_set_change_utf16 org k v s)"
| "web_exec (OpRemove org k) s = map_option snd (try_remove_change_utf16 org k s)"
| "web_exec (OpClearChange org) s = map_option snd (try_clear_change org s)"
| "web_exec (OpClear org) s = Some (snd (try_clear org s))"
| "web_exec (OpClearOriginAreas org) s = Some (snd (try_clear_origin_areas org s))"
| "web_exec (OpSubscribe K) s = Some (snd (subscribe_mutations K s))"
| "web_exec (OpAddSubscription K q) s = Some (if queues s q = None then s else add_mutation_subscription K q s)"
| "web_exec (OpDropSubscription q) s = Some (drop_subscription q s)"
| "web_exec (OpDrain q) s = Some (snd (drain_subscription q s))"

text \<open>The same operation seen by the holder of queue \<open>q\<close>: its output is what that holder drains.\<close>

definition web_step :: "nat \<Rightarrow> web_op \<Rightarrow> web_storage_store \<Rightarrow> (web_storage_mutation_record list \<times> web_storage_store) option" where
  "web_step q x s = map_option (\<lambda>s'. (if x = OpDrain q then fst (drain_subscription q s) else [], s')) (web_exec x s)"

text \<open>The operations that leave the subscription of \<open>q\<close> alone.\<close>

fun keeps_subscription :: "web_storage_area_kind \<Rightarrow> nat \<Rightarrow> web_op \<Rightarrow> bool" where
  "keeps_subscription K q (OpAddSubscription K' q') \<longleftrightarrow> q' \<noteq> q \<or> K' = K"
| "keeps_subscription K q (OpDropSubscription q') \<longleftrightarrow> q' \<noteq> q"
| "keeps_subscription K q _ \<longleftrightarrow> True"

text \<open>Queues are allocated below the counter, so a fresh subscription never meets an old one.\<close>

definition queues_ok :: "web_storage_store \<Rightarrow> bool" where
  "queues_ok s \<longleftrightarrow> (\<forall>q. queues s q \<noteq> None \<longrightarrow> q < next_queue s) \<and>
     (\<forall>w\<in>set (mutation_subscribers s). subscriber_queue w < next_queue s)"

definition web_ok :: "web_storage_store \<Rightarrow> bool" where
  "web_ok s \<longleftrightarrow> store_ok s \<and> queues_ok s"

lemma changed_by_ok: "changed_by ms s s' \<Longrightarrow> web_ok s \<Longrightarrow> web_ok s'"
  by (auto simp: changed_by_def web_ok_def queues_ok_def same_queues_def)

text \<open>The operations on subscriptions do not touch the areas.\<close>

definition subscription_op :: "web_op \<Rightarrow> bool" where
  "subscription_op x \<longleftrightarrow> (case x of OpSubscribe K \<Rightarrow> True | OpAddSubscription K q \<Rightarrow> True
     | OpDropSubscription q \<Rightarrow> True | OpDrain q \<Rightarrow> True | _ \<Rightarrow> False)"

lemma content_op_changes:
  assumes "store_ok s" "\<not> subscription_op x"
  shows "\<exists>s' ms. web_exec x s = Some s' \<and> changed_by ms s s'"
proof (cases x)
  case (OpSet org k v)
  with set_changes [OF assms(1), of org k v] show ?thesis by auto
next
  case (OpRemove org k)
  with remove_changes [OF assms(1), of org k] show ?thesis by auto
next
  case (OpClearChange org)
  with clear_changes [OF assms(1), of org] show ?thesis by auto
next
  case (OpClear org)
  with clear_area_changes [OF assms(1), of org] show ?thesis by auto
next
  case (OpClearOriginAreas org)
  with clear_origin_changes [OF assms(1), of org] show ?thesis by auto
qed (use assms in \<open>simp_all add: subscription_op_def\<close>)

lemmas subscription_defs = subscribe_mutations_def add_mutation_subscription_def drop_subscription_def drain_subscription_def

lemma subscription_op_step:
  assumes "subscription_op x" "web_ok s"
  shows "\<exists>s'. web_exec x s = Some s' \<and> areas s' = areas s \<and> web_ok s'"
proof -
  have q: "queues_ok s" using assms(2) by (simp add: web_ok_def)
  obtain s' where s': "web_exec x s = Some s'" using assms(1) by (cases x) (auto simp: subscription_op_def)
  have "areas s' = areas s"
    using s' assms(1) by (cases x) (auto simp: subscription_op_def subscription_defs Let_def split: option.splits if_splits)
  moreover have "queues_ok s'"
    using s' assms(1) q
    by (cases x) (fastforce simp: subscription_op_def subscription_defs Let_def queues_ok_def split: option.splits if_splits)+
  ultimately show ?thesis using s' assms(2) contents_areas(2) [of s' s] by (simp add: web_ok_def)
qed

lemma web_exec_total: "web_ok s \<Longrightarrow> \<exists>s'. web_exec x s = Some s' \<and> web_ok s'"
  using content_op_changes [of s x] subscription_op_step [of x s] changed_by_ok [of _ s] by (auto simp: web_ok_def)

interpretation web_storage: checked_system web_exec web_ok
  by unfold_locales (rule web_exec_total)

subsection \<open>A subscriber mirrors the store\<close>

lemma added_subscribers:
  "filter (\<lambda>w. subscriber_queue w = q) (mutation_subscribers (add_mutation_subscription K' q' s)) =
   filter (\<lambda>w. queues s q \<noteq> None \<and> \<not> (subscriber_kind w = K' \<and> q' = q)) (filter (\<lambda>w. subscriber_queue w = q) (mutation_subscribers s)) @
   (if q' = q then [\<lparr>subscriber_kind = K', subscriber_queue = q\<rparr>] else [])"
  by (auto simp: add_mutation_subscription_def filter_filter intro!: filter_cong)

lemma added_queues [simp]: "queues (add_mutation_subscription K' q' s) = queues s"
  by (simp add: add_mutation_subscription_def)

lemma add_subscribed:
  "subscribed K q s \<Longrightarrow> q' \<noteq> q \<or> K' = K \<Longrightarrow> subscribed K q (add_mutation_subscription K' q' s)"
  by (auto simp: subscribed_def added_subscribers)

lemma subscribe_subscribed:
  assumes "subscribed K q s" "q < next_queue s"
  shows "subscribed K q (snd (subscribe_mutations K' s))" "queued q (snd (subscribe_mutations K' s)) = queued q s"
proof -
  let ?t = "s\<lparr>queues := (queues s)(next_queue s \<mapsto> []), next_queue := next_queue s + 1\<rparr>"
  have "subscribed K q ?t" using assms by (simp add: subscribed_def)
  from add_subscribed [OF this] assms(2)
  show "subscribed K q (snd (subscribe_mutations K' s))" "queued q (snd (subscribe_mutations K' s)) = queued q s"
    by (simp_all add: subscribe_mutations_def Let_def queued_def)
qed

lemma fresh_subscribed:
  assumes "queues_ok s"
  shows "subscribed K (next_queue s) (snd (subscribe_mutations K s)) \<and> queued (next_queue s) (snd (subscribe_mutations K s)) = []"
proof -
  have "filter (\<lambda>w. subscriber_queue w = next_queue s) (mutation_subscribers s) = []"
    using assms by (auto simp: queues_ok_def filter_empty_conv)
  then show ?thesis by (simp add: subscribe_mutations_def Let_def subscribed_def queued_def added_subscribers)
qed

lemma subscription_op_kept:
  assumes "subscription_op x" "keeps_subscription K q x" "subscribed K q s" "web_ok s" "web_exec x s = Some s'"
  shows "subscribed K q s' \<and> queued q s' = (if x = OpDrain q then [] else queued q s)"
proof (cases x)
  case (OpSubscribe K')
  have "q < next_queue s" using assms(3,4) by (auto simp: subscribed_def web_ok_def queues_ok_def)
  from subscribe_subscribed [OF assms(3) this, of K'] OpSubscribe assms(5) show ?thesis by auto
next
  case (OpAddSubscription K' q')
  with assms add_subscribed [OF assms(3), of q' K'] show ?thesis by (auto simp: queued_def split: if_splits)
next
  case (OpDropSubscription q')
  with assms show ?thesis by (auto simp: drop_subscription_def subscribed_def queued_def)
next
  case (OpDrain q')
  with assms show ?thesis by (auto simp: drain_subscription_def subscribed_def queued_def split: option.splits)
qed (use assms in \<open>simp_all add: subscription_op_def\<close>)

lemma observe_append:
  "run (observe_record K) (rs @ map (record_of K) ms) c = Option.bind (run (observe_record K) rs c) (run observe_mutation ms)"
  by (cases "run (observe_record K) rs c") (simp_all add: run_append run_observe_record)

text \<open>A view that the queued records bring up to date.\<close>

definition mirrors :: "web_storage_area_kind \<Rightarrow> nat \<Rightarrow> web_storage_store \<Rightarrow> web_storage_contents \<Rightarrow> bool" where
  "mirrors K q s c \<longleftrightarrow> run (observe_record K) (queued q s) c = Some (contents s)"

definition subscriber_inv :: "web_storage_area_kind \<Rightarrow> nat \<Rightarrow> web_storage_store \<Rightarrow> bool" where
  "subscriber_inv K q s \<longleftrightarrow> web_ok s \<and> subscribed K q s"

definition guarded_step :: "web_storage_area_kind \<Rightarrow> nat \<Rightarrow> web_op \<Rightarrow> web_storage_store \<Rightarrow>
    (web_storage_mutation_record list \<times> web_storage_store) option" where
  "guarded_step K q = (\<lambda>x s. if keeps_subscription K q x then web_step q x s else None)"

lemma content_op_change:
  assumes "subscriber_inv K q s" "\<not> subscription_op x" "web_exec x s = Some s'"
  obtains ms where "subscriber_inv K q s'" "queued q s' = queued q s @ map (record_of K) ms"
    "run observe_mutation ms (contents s) = Some (contents s')"
proof -
  have inv: "web_ok s" "subscribed K q s" using assms(1) by (simp_all add: subscriber_inv_def)
  then obtain ms where ch: "changed_by ms s s'"
    using content_op_changes [of s x] assms(2,3) by (auto simp: web_ok_def)
  with that [of ms] changed_by_ok [OF ch inv(1)] inv(2) show ?thesis
    by (auto simp: changed_by_def subscriber_inv_def)
qed

lemma web_step_inv:
  assumes "subscriber_inv K q s" "keeps_subscription K q x" "web_step q x s = Some (out, s')"
  shows "subscriber_inv K q s'"
proof (cases "subscription_op x")
  case True
  with assms subscription_op_kept [OF True assms(2), of s s'] subscription_op_step [OF True, of s] show ?thesis
    by (auto simp: subscriber_inv_def web_step_def)
next
  case False
  from assms(3) have "web_exec x s = Some s'" by (auto simp: web_step_def)
  from content_op_change [OF assms(1) False this] show ?thesis by blast
qed

lemma web_step_mirrors:
  assumes "subscriber_inv K q s" "mirrors K q s c" "keeps_subscription K q x" "web_step q x s = Some (out, s')"
  shows "\<exists>c'. run (observe_record K) out c = Some c' \<and> mirrors K q s' c'"
proof -
  have inv: "web_ok s" "subscribed K q s" using assms(1) by (simp_all add: subscriber_inv_def)
  from assms(4) have e: "web_exec x s = Some s'" "out = (if x = OpDrain q then queued q s else [])"
    by (auto simp: web_step_def drain_subscription_def queued_def split: option.split)
  show ?thesis
  proof (cases "subscription_op x")
    case True
    from subscription_op_step [OF True inv(1)] e(1) have a: "areas s' = areas s" by auto
    from subscription_op_kept [OF True assms(3) inv(2,1) e(1)] assms(2) e(2) contents_areas(1) [OF a]
    show ?thesis by (auto simp: mirrors_def)
  next
    case False
    then have "out = []" using e(2) by (auto simp: subscription_op_def)
    moreover obtain ms where "queued q s' = queued q s @ map (record_of K) ms"
      "run observe_mutation ms (contents s) = Some (contents s')"
      using content_op_change [OF assms(1) False e(1)] by blast
    ultimately show ?thesis using assms(2) by (simp add: mirrors_def observe_append)
  qed
qed

interpretation web_subscriber: observed_system "guarded_step K q" "observe_record K" "mirrors K q" "subscriber_inv K q" for K q
proof
  fix s c x out s'
  assume h: "subscriber_inv K q s" "guarded_step K q x s = Some (out, s')"
  then show "\<exists>c'. run (observe_record K) out c = Some c' \<and> mirrors K q s' c'" if "mirrors K q s c"
    using that web_step_mirrors [of K q s c x out s'] by (simp add: guarded_step_def split: if_splits)
  from h show "subscriber_inv K q s'"
    using web_step_inv [of K q s x out s'] by (simp add: guarded_step_def split: if_splits)
qed

lemma web_step_total:
  assumes "keeps_subscription K q x" "subscriber_inv K q s"
  shows "\<exists>out s'. web_step q x s = Some (out, s') \<and> subscriber_inv K q s'"
proof -
  obtain s' where "web_exec x s = Some s'" using web_exec_total [of s x] assms(2) by (auto simp: subscriber_inv_def)
  then obtain out where "web_step q x s = Some (out, s')" by (simp add: web_step_def)
  with web_step_inv [OF assms(2,1) this] show ?thesis by blast
qed


subsection \<open>Enumeration\<close>

lemma map_fst_sort_key: "map fst (sort_key fst xs) = sort (map fst xs)" for xs :: "('a :: linorder \<times> 'b) list"
  by (rule properties_for_sort [symmetric]) simp_all

lemma enumeration:
  assumes "store_ok s"
  shows "sorted (try_sorted_keys_utf16 org s)" "distinct (try_sorted_keys_utf16 org s)"
    "set (try_sorted_keys_utf16 org s) = dom (contents s org)"
    "try_len org s = length (try_sorted_keys_utf16 org s)"
    "try_key_utf16 org i s = (let ks = try_sorted_keys_utf16 org s in if i < length ks then Some (ks ! i) else None)"
    "map fst (try_items_utf16 org s) = try_sorted_keys_utf16 org s"
    "map_of (try_items_utf16 org s) = contents s org"
proof -
  have d: "distinct (map fst (area_values a))" if "map_of (areas s) org = Some a" for a
    using assms that by (auto simp: store_ok_def area_ok_def)
  show "sorted (try_sorted_keys_utf16 org s)" "distinct (try_sorted_keys_utf16 org s)"
    "set (try_sorted_keys_utf16 org s) = dom (contents s org)"
    "try_len org s = length (try_sorted_keys_utf16 org s)"
    "try_key_utf16 org i s = (let ks = try_sorted_keys_utf16 org s in if i < length ks then Some (ks ! i) else None)"
    "map fst (try_items_utf16 org s) = try_sorted_keys_utf16 org s"
    using d by (simp_all add: try_sorted_keys_utf16_def area_sorted_keys_def contents_def try_len_def try_key_utf16_def
      area_key_def try_items_utf16_def map_fst_sort_key dom_map_of_conv_image_fst Let_def split: option.split)
  show "map_of (try_items_utf16 org s) = contents s org"
    using d by (auto simp: try_items_utf16_def contents_def map_fst_sort_key intro!: map_of_inject_set [THEN iffD2] split: option.split)
qed


subsection \<open>Cloning and refused writes\<close>

lemma clone_contents:
  "contents (deep_clone_shared_web_storage_store s) = contents s"
  "mutation_subscribers (deep_clone_shared_web_storage_store s) = []"
  by (simp_all add: deep_clone_shared_web_storage_store_def contents_def fun_eq_iff)

text \<open>A refused write to a key without an area leaves an empty area behind, which a later clearing
  reports as removed.\<close>

lemma refused_write_leaves_area:
  assumes "store_ok s" "map_of (areas s) org = None" "WEB_STORAGE_QUOTA_BYTES < exact_size area_default k v"
  shows "\<exists>s'. try_set_change_utf16 org k v s = Some (Inl QuotaExceeded, s') \<and> fst (try_clear org s') \<and> \<not> fst (try_clear org s)"
proof -
  have a: "current_area org s = area_default" using assms(2) by (simp add: current_area_def)
  have "set_edit org k v (current_area org s) = Some (Inl QuotaExceeded)"
    unfolding a set_edit_cases [OF area_ok_default] using assms(3) by (simp add: area_default_def)
  from edit_area_error [of "set_edit org k v", OF this] assms(2) show ?thesis
    by (simp add: try_set_change_utf16_def try_clear_def Let_def update_conv')
qed


subsection \<open>Properties\<close>

lemma new_store_ok: "web_ok new_shared_web_storage_store"
  by (simp add: web_ok_def store_ok_def queues_ok_def new_shared_web_storage_store_def)

lemma reached_ok: "run web_exec xs new_shared_web_storage_store = Some s \<Longrightarrow> web_ok s"
  using web_storage.run_total [OF new_store_ok, of xs] by simp

lemma subscribe_ok: "web_ok s \<Longrightarrow> web_ok (snd (subscribe_mutations K s)) \<and> contents (snd (subscribe_mutations K s)) = contents s"
  using subscription_op_step [of "OpSubscribe K" s] contents_areas(1) [of "snd (subscribe_mutations K s)" s]
  by (auto simp: subscription_op_def)

text \<open>
  C6: A subscriber can rebuild the store from its records.  Take any store an operation sequence
  leads to, subscribe to it, and run any further operations that do not drop the subscription or
  add it a second time under another kind.  No operation panics; and the records the subscriber
  drained on the way, followed by those still in its queue, replayed strictly on the contents at
  the time of the subscription, give exactly the contents of every area now: no record is missing,
  doubled, out of order, or carries a wrong old value or kind.
\<close>
theorem web_storage_subscriber_mirrors:
  assumes "run web_exec before new_shared_web_storage_store = Some s" "subscribe_mutations K s = (q, s1)"
    "list_all (keeps_subscription K q) xs"
  shows "\<exists>records s2. run_out (web_step q) xs s1 = Some (records, s2) \<and>
     run (observe_record K) (records @ queued q s2) (contents s) = Some (contents s2)"
proof -
  have ok: "web_ok s" by (rule reached_ok [OF assms(1)])
  have s1: "q = next_queue s" "s1 = snd (subscribe_mutations K s)" using assms(2) by (auto simp: subscribe_mutations_def Let_def)
  have fresh: "subscribed K q s1" "queued q s1 = []" using fresh_subscribed [of s K] ok by (auto simp: s1 web_ok_def)
  have c: "web_ok s1" "contents s1 = contents s" using subscribe_ok [OF ok, of K] by (auto simp: s1(2))
  have inv: "subscriber_inv K q s1" using fresh c by (simp add: subscriber_inv_def)
  from run_out_total [of "keeps_subscription K q" "subscriber_inv K q" "web_step q", OF web_step_total assms(3) inv]
  obtain records s2 where r: "run_out (web_step q) xs s1 = Some (records, s2)" by blast
  then have "run_out (guarded_step K q) xs s1 = Some (records, s2)"
    using run_out_guard [OF assms(3), of "web_step q"] by (simp add: guarded_step_def)
  from web_subscriber.run_observed [OF inv _ this, of "contents s"] fresh c
  have "run (observe_record K) (records @ queued q s2) (contents s) = Some (contents s2)"
    by (auto simp: mirrors_def run_append)
  with r show ?thesis by blast
qed

text \<open>A page whose storage holds one item: the item is updated, the record drained, the area cleared.\<close>

lemma one_item_store:
  "\<exists>s. run web_exec [OpSet ''a'' [1] [2]] new_shared_web_storage_store = Some s \<and> next_queue s = 0 \<and>
     areas s = [(''a'', \<lparr>area_values = [([1], [2])], area_size = 4\<rparr>)]"
  by (simp add: try_set_change_utf16_def edit_area_def set_edit_def new_shared_web_storage_store_def area_default_def
    updated_storage_size_def storage_item_size_eq item_bytes_def saturating_add_def u64_max_def WEB_STORAGE_QUOTA_BYTES_def
    publish_mutation_def Let_def)

theorem web_storage_subscriber_mirrors_witness:
  "\<exists>s s1 records s2. run web_exec [OpSet ''a'' [1] [2]] new_shared_web_storage_store = Some s \<and>
     subscribe_mutations Local s = (0, s1) \<and>
     run_out (web_step 0) [OpSet ''a'' [1] [3], OpDrain 0, OpClear ''a''] s1 = Some (records, s2) \<and>
     run (observe_record Local) (records @ queued 0 s2) (contents s) = Some (contents s2)"
proof -
  obtain s where s: "run web_exec [OpSet ''a'' [1] [2]] new_shared_web_storage_store = Some s" "next_queue s = 0"
    using one_item_store by blast
  then obtain s1 where s1: "subscribe_mutations Local s = (0, s1)" by (simp add: subscribe_mutations_def Let_def)
  have "list_all (keeps_subscription Local 0) [OpSet ''a'' [1] [3], OpDrain 0, OpClear ''a'']" by simp
  from web_storage_subscriber_mirrors [OF s(1) s1 this] s(1) s1 show ?thesis by blast
qed

text \<open>
  C11: Whatever the sequence of writes, removals, clearings and subscriptions, no operation of a
  fresh store panics (the size subtraction of a removal does not underflow), and afterwards every
  area has distinct keys, its size is exactly the bytes of its items, and the size is within the quota.
\<close>
theorem web_storage_sizes_exact:
  "\<exists>s. run web_exec xs new_shared_web_storage_store = Some s \<and> distinct (map fst (areas s)) \<and>
     list_all (\<lambda>(org, a). distinct (map fst (area_values a)) \<and>
       area_size a = sum_list (map (\<lambda>(k, v). 2 * length k + 2 * length v) (area_values a)) \<and>
       area_size a \<le> 5 * 1024 * 1024) (areas s)"
proof -
  obtain s where s: "run web_exec xs new_shared_web_storage_store = Some s" "web_ok s"
    using web_storage.run_total [OF new_store_ok, of xs] by blast
  then have "\<forall>(k, a)\<in>set (areas s). area_ok a" "distinct (map fst (areas s))"
    by (auto simp: web_ok_def store_ok_def)
  with s show ?thesis
    by (auto simp: list_all_iff area_ok_def usage_def item_bytes_def WEB_STORAGE_QUOTA_BYTES_def)
qed

text \<open>
  C22: A write on a store that any operations led to either succeeds or is refused, and refused only
  for the quota: exactly when the item does not hold the value already and the exact bytes of the
  area after the write would exceed the quota.  A refused write leaves all contents and queues as
  they were and the areas too, except that the area of the origin exists afterwards, empty if it did not exist before; a write that succeeds makes the item readable and changes no other item of any area,
  and it reports an addition or an update with the old value, or nothing if the value was there.
\<close>
theorem web_storage_set_get:
  assumes "run web_exec before new_shared_web_storage_store = Some s"
  shows "\<exists>r s'. try_set_change_utf16 org k v s = Some (r, s') \<and>
     (if try_get_item_utf16 org k s \<noteq> Some v \<and> 5 * 1024 * 1024 < exact_size (current_area org s) k v
      then r = Inl QuotaExceeded \<and> contents s' = contents s \<and> queues s' = queues s
        \<and> map_of (areas s') = (map_of (areas s))(org \<mapsto> case map_of (areas s) org of Some a \<Rightarrow> a | None \<Rightarrow> area_default)
      else contents s' = (contents s)(org := (contents s org)(k \<mapsto> v)) \<and> try_get_item_utf16 org k s' = Some v \<and>
        r = Inr (case try_get_item_utf16 org k s of
               None \<Rightarrow> Some (ItemAdded org k v)
             | Some old \<Rightarrow> if old = v then None else Some (ItemUpdated org k old v)))"
proof -
  let ?a = "current_area org s" and ?e = "exact_size (current_area org s) k v"
  have ok: "store_ok s" "area_ok ?a" using reached_ok [OF assms] current_area_ok [of s org] by (auto simp: web_ok_def)
  have get: "try_get_item_utf16 org k t = contents t org k" for t
    by (simp add: try_get_item_utf16_def contents_def split: option.split)
  have le: "area_size ?a \<le> 5 * 1024 * 1024" using ok(2) by (simp add: area_ok_def WEB_STORAGE_QUOTA_BYTES_def)
  note cases = set_edit_cases [OF ok(2), of org k v, unfolded current_area_values]
  show ?thesis
  proof (cases "contents s org k \<noteq> Some v \<and> 5 * 1024 * 1024 < ?e")
    case True
    with cases le have "set_edit org k v ?a = Some (Inl QuotaExceeded)" by (simp add: WEB_STORAGE_QUOTA_BYTES_def)
    from edit_area_error [of "set_edit org k v", OF this] True show ?thesis
      by (simp add: try_set_change_utf16_def get contents_update current_area_values update_conv', simp add: current_area_def)
  next
    case False
    define m where "m = (case contents s org k of None \<Rightarrow> Some (ItemAdded org k v)
      | Some old \<Rightarrow> if old = v then None else Some (ItemUpdated org k old v))"
    have "\<exists>a. set_edit org k v ?a = Some (Inr (m, a)) \<and> map_of (area_values a) = (contents s org)(k \<mapsto> v)"
      using cases False le
      by (auto simp: m_def WEB_STORAGE_QUOTA_BYTES_def update_conv' current_area_values split: option.split)
    then obtain a where a: "set_edit org k v ?a = Some (Inr (m, a))" "map_of (area_values a) = (contents s org)(k \<mapsto> v)"
      by blast
    have "contents (fold publish_mutation ms (edited org a s)) = (contents s)(org := (contents s org)(k \<mapsto> v))" for ms
      using contents_areas(1) [of "fold publish_mutation ms (edited org a s)" "edited org a s"] a(2)
      by (simp add: edited_contents)
    with edit_area_value [of "set_edit org k v", OF a(1)] False show ?thesis
      by (simp add: try_set_change_utf16_def get m_def)
  qed
qed

theorem web_storage_set_get_witness:
  "\<exists>s s'. run web_exec [OpSet ''a'' [1] [2]] new_shared_web_storage_store = Some s \<and>
     try_set_change_utf16 ''a'' [1] [3] s = Some (Inr (Some (ItemUpdated ''a'' [1] [2] [3])), s') \<and>
     contents s' = (contents s)(''a'' := (contents s ''a'')([1] \<mapsto> [3]))"
proof -
  obtain s where s: "run web_exec [OpSet ''a'' [1] [2]] new_shared_web_storage_store = Some s"
    "areas s = [(''a'', \<lparr>area_values = [([1], [2])], area_size = 4\<rparr>)]"
    using one_item_store by blast
  have get: "try_get_item_utf16 ''a'' [1] s = Some [2]" by (simp add: try_get_item_utf16_def s(2))
  have "exact_size (current_area ''a'' s) [1] [3] = 4"
    by (simp add: exact_size_def current_area_def s(2) usage_def item_bytes_def)
  with web_storage_set_get [OF s(1), of "''a''" "[1]" "[3]"] get s(1) show ?thesis by auto
qed

end
