(* ===== verification/Parkable_Image.thy ===== *)
theory Parkable_Image
  imports Disk_Pool "HOL-Library.AList"
begin

section \<open>Parkable images (moli-parkable-image)\<close>

text \<open>
  Encoded image bytes that move between memory and an extent of the disk pool: \<^verbatim>\<open>image.rs\<close>,
  \<^verbatim>\<open>manager.rs\<close>, \<^verbatim>\<open>registry.rs\<close> and \<^verbatim>\<open>policy.rs\<close> over the pool of \<^verbatim>\<open>Disk_Pool\<close>.

  Live images are kept by address, so that a weak reference is an address that may no longer be
  live.  Every critical section of an image's lock is one operation, and so are the disk write of
  a parking thread, which holds no lock, the two halves of dropping an image (the storage goes
  first, the registration after it), and the notification of the scheduler; operations of
  different threads interleave freely.  A thread that writes holds its image alive.  Read-only
  snapshots are a list of the address they lease and their bytes.  Other parts of the program may
  use the same pool: their handles are a table of their own.  What the operating system answers
  and the current time are inputs.  A failed expectation or debug assertion is \<^const>\<open>None\<close>, and so is
  a disk transfer that has not returned.  The field \<open>original\<close> remembers the bytes each image was
  made of; no operation reads it.
\<close>

subsection \<open>Data\<close>

type_synonym instant = nat

text \<open>An \<^verbatim>\<open>Instant\<close> in nanoseconds is bounded by a 64 bit signed count of seconds.\<close>

definition instant_bound :: nat where
  "instant_bound = 9223372036854775807 * 1000000000 + 999999999"

definition instant_add :: "instant \<Rightarrow> nat \<Rightarrow> instant option" where
  "instant_add t d = (if t + d \<le> instant_bound then Some (t + d) else None)"

record parkable_image_policy =
  min_size_to_park :: nat
  parking_delay :: nat
  reader_release_delay :: nat

definition policy_default :: parkable_image_policy where
  "policy_default = \<lparr>min_size_to_park = 1024, parking_delay = 30 * 1000000000, reader_release_delay = 2 * 1000000000\<rparr>"

datatype frozen_image_storage =
    Resident "u8 list" "extent option"
  | Parking "u8 list"
  | Parked extent

record frozen_image_state =
  storage :: frozen_image_storage
  park_after :: instant
  image_len :: nat
  reader_count :: nat
  image_id :: nat

datatype park_outcome = ParkedNow | AlreadyParked | BelowMinimum | Delayed nat | InUse | Unavailable

datatype park_preparation = ParkDone park_outcome | ParkWrite extent "u8 list"

datatype park_job = Writing extent "u8 list" | Written "io_error_kind + extent" "u8 list"

record parkable_image_registry =
  resident :: "(nat \<times> nat) list"
  parked :: "(nat \<times> nat) list"

record park_sys =
  image_pool :: "disk_pool option"
  policy :: parkable_image_policy
  next_image_id :: nat
  registry :: parkable_image_registry
  waiting_for_change :: bool
  wakeups :: nat
  images :: "nat \<rightharpoonup> frozen_image_state"
  next_address :: nat
  snapshots :: "(nat \<times> u8 list) list"
  jobs :: "nat \<rightharpoonup> park_job"
  dying :: "nat list"
  notifications :: nat
  other_handles :: "nat \<rightharpoonup> handle"
  original :: "nat \<Rightarrow> u8 list"

definition manager_new :: "disk_pool option \<Rightarrow> parkable_image_policy \<Rightarrow> park_sys" where
  "manager_new p pol =
     \<lparr>image_pool = p, policy = pol, next_image_id = 0, registry = \<lparr>resident = [], parked = []\<rparr>,
      waiting_for_change = False, wakeups = 0, images = Map.empty, next_address = 0, snapshots = [], jobs = Map.empty,
      dying = [], notifications = 0, other_handles = Map.empty, original = (\<lambda>_. [])\<rparr>"


subsection \<open>The registry (registry.rs)\<close>

definition register_resident :: "nat \<Rightarrow> nat \<Rightarrow> parkable_image_registry \<Rightarrow> parkable_image_registry option" where
  "register_resident n a r =
     (if map_of (parked r) n \<noteq> None \<or> map_of (resident r) n \<noteq> None then None
      else Some (r\<lparr>resident := AList.update n a (resident r)\<rparr>))"

definition move_to_parked :: "nat \<Rightarrow> nat \<Rightarrow> parkable_image_registry \<Rightarrow> parkable_image_registry option" where
  "move_to_parked n a r =
     (if map_of (resident r) n = None \<or> map_of (parked r) n \<noteq> None then None
      else Some (r\<lparr>resident := AList.delete n (resident r), parked := AList.update n a (parked r)\<rparr>))"

definition move_to_resident :: "nat \<Rightarrow> nat \<Rightarrow> parkable_image_registry \<Rightarrow> parkable_image_registry option" where
  "move_to_resident n a r =
     (if map_of (parked r) n = None \<or> map_of (resident r) n \<noteq> None then None
      else Some (r\<lparr>parked := AList.delete n (parked r), resident := AList.update n a (resident r)\<rparr>))"

definition registry_remove :: "nat \<Rightarrow> parkable_image_registry \<Rightarrow> bool \<times> parkable_image_registry" where
  "registry_remove n r =
     (if map_of (resident r) n \<noteq> None then (True, r\<lparr>resident := AList.delete n (resident r)\<rparr>)
      else if map_of (parked r) n \<noteq> None then (True, r\<lparr>parked := AList.delete n (parked r)\<rparr>)
      else (False, r))"

definition resident_images :: "park_sys \<Rightarrow> nat list" where
  "resident_images s = filter (\<lambda>a. images s a \<noteq> None) (map snd (resident (registry s)))"


subsection \<open>Images (image.rs)\<close>

definition image_new :: "nat \<Rightarrow> u8 list \<Rightarrow> instant \<Rightarrow> parkable_image_policy \<Rightarrow> frozen_image_state option" where
  "image_new n bytes now pol =
     map_option (\<lambda>t. \<lparr>storage = Resident bytes None, park_after = t, image_len = length bytes, reader_count = 0, image_id = n\<rparr>)
       (instant_add now (parking_delay pol))"

definition allocate_image_id :: "park_sys \<Rightarrow> nat \<times> park_sys" where
  "allocate_image_id s =
     (min u64_max (next_image_id s + 1), s\<lparr>next_image_id := (next_image_id s + 1) mod 2 ^ 64\<rparr>)"

definition notify_later :: "park_sys \<Rightarrow> park_sys" where
  "notify_later s = s\<lparr>notifications := notifications s + 1\<rparr>"

definition from_frozen_bytes :: "u8 list \<Rightarrow> instant \<Rightarrow> park_sys \<Rightarrow> park_sys option" where
  "from_frozen_bytes bytes now s =
     (let (n, s) = allocate_image_id s; a = next_address s in
      case image_new n bytes now (policy s) of
        None \<Rightarrow> None
      | Some i \<Rightarrow>
          (let s = s\<lparr>images := (images s)(a \<mapsto> i), next_address := a + 1, original := (original s)(a := bytes)\<rparr> in
           if min_size_to_park (policy s) \<le> length bytes
           then map_option (\<lambda>r. notify_later (s\<lparr>registry := r\<rparr>)) (register_resident n a (registry s))
           else Some s))"

text \<open>The end of a snapshot's critical section, on storage that is in memory.\<close>

definition lease :: "nat \<Rightarrow> frozen_image_state \<Rightarrow> park_sys \<Rightarrow> ((io_error_kind + u8 list) \<times> park_sys) option" where
  "lease a i s =
     (case (storage i, checked_add (reader_count i) 1) of
        (Parked _, _) \<Rightarrow> None
      | (_, None) \<Rightarrow> None
      | (Resident bytes _, Some n) \<Rightarrow>
          Some (Inr bytes, (if reader_count i = 0 then notify_later else id)
            (s\<lparr>images := (images s)(a \<mapsto> i\<lparr>reader_count := n\<rparr>), snapshots := snapshots s @ [(a, bytes)]\<rparr>))
      | (Parking bytes, Some n) \<Rightarrow>
          Some (Inr bytes, (if reader_count i = 0 then notify_later else id)
            (s\<lparr>images := (images s)(a \<mapsto> i\<lparr>reader_count := n\<rparr>), snapshots := snapshots s @ [(a, bytes)]\<rparr>)))"

definition snapshot :: "os_reply list \<Rightarrow> nat \<Rightarrow> frozen_image_state \<Rightarrow> park_sys \<Rightarrow> ((io_error_kind + u8 list) \<times> park_sys) option" where
  "snapshot rs a i s =
     (case storage i of
        Parked e \<Rightarrow>
          (case image_pool s of
             None \<Rightarrow> None
           | Some p \<Rightarrow>
               (case to_vec rs e p of
                  None \<Rightarrow> None
                | Some (Inl err) \<Rightarrow> Some (Inl err, s)
                | Some (Inr data) \<Rightarrow>
                    if length data \<noteq> image_len i then None
                    else
                      (case move_to_resident (image_id i) a (registry s) of
                         None \<Rightarrow> None
                       | Some r \<Rightarrow> lease a (i\<lparr>storage := Resident data (Some e)\<rparr>) (s\<lparr>registry := r\<rparr>))))
      | _ \<Rightarrow> lease a i s)"

definition retain_snapshot_reader :: "nat \<Rightarrow> frozen_image_state \<Rightarrow> park_sys \<Rightarrow> park_sys option" where
  "retain_snapshot_reader a i s =
     map_option (\<lambda>n. s\<lparr>images := (images s)(a \<mapsto> i\<lparr>reader_count := n\<rparr>)\<rparr>) (checked_add (reader_count i) 1)"

definition release_snapshot_reader :: "instant \<Rightarrow> nat \<Rightarrow> frozen_image_state \<Rightarrow> park_sys \<Rightarrow> park_sys option" where
  "release_snapshot_reader now a i s =
     (case checked_sub (reader_count i) 1 of
        None \<Rightarrow> None
      | Some n \<Rightarrow>
          if n = 0 then
            map_option (\<lambda>t. notify_later (s\<lparr>images := (images s)(a \<mapsto> i\<lparr>reader_count := n, park_after := t\<rparr>)\<rparr>))
              (instant_add now (reader_release_delay (policy s)))
          else Some (s\<lparr>images := (images s)(a \<mapsto> i\<lparr>reader_count := n\<rparr>)\<rparr>))"

definition pool_may_write :: "park_sys \<Rightarrow> bool" where
  "pool_may_write s = (case image_pool s of Some p \<Rightarrow> may_write (pool_state p) | None \<Rightarrow> False)"

definition parking_deadline :: "frozen_image_state \<Rightarrow> park_sys \<Rightarrow> instant option" where
  "parking_deadline i s =
     (if image_len i < min_size_to_park (policy s) then None
      else
        (case storage i of
           Resident _ disk_backup \<Rightarrow>
             if reader_count i \<noteq> 0 then None
             else if disk_backup = None \<and> \<not> pool_may_write s then None
             else Some (park_after i)
         | _ \<Rightarrow> None))"

definition prepare_parking ::
  "bool \<Rightarrow> instant \<Rightarrow> nat \<Rightarrow> frozen_image_state \<Rightarrow> park_sys \<Rightarrow> (park_preparation \<times> park_sys) option" where
  "prepare_parking ignore_deadline now a i s =
     (if image_len i < min_size_to_park (policy s) then Some (ParkDone BelowMinimum, s)
      else
        (case storage i of
           Parking _ \<Rightarrow> Some (ParkDone InUse, s)
         | Parked _ \<Rightarrow> Some (ParkDone AlreadyParked, s)
         | Resident bytes disk_backup \<Rightarrow>
             if reader_count i \<noteq> 0 then Some (ParkDone InUse, s)
             else if \<not> ignore_deadline \<and> now < park_after i then Some (ParkDone (Delayed (park_after i - now)), s)
             else
               (case disk_backup of
                  Some disk \<Rightarrow>
                    map_option (\<lambda>r. (ParkDone ParkedNow, s\<lparr>images := (images s)(a \<mapsto> i\<lparr>storage := Parked disk\<rparr>), registry := r\<rparr>))
                      (move_to_parked (image_id i) a (registry s))
                | None \<Rightarrow>
                    (case image_pool s of
                       None \<Rightarrow> Some (ParkDone Unavailable, s)
                     | Some p \<Rightarrow>
                         (case try_reserve_chunk (image_len i) p of
                            None \<Rightarrow> None
                          | Some (None, p) \<Rightarrow> Some (ParkDone Unavailable, s\<lparr>image_pool := Some p\<rparr>)
                          | Some (Some e, p) \<Rightarrow>
                              Some (ParkWrite e bytes,
                                s\<lparr>image_pool := Some p, images := (images s)(a \<mapsto> i\<lparr>storage := Parking bytes\<rparr>)\<rparr>))))))"

definition complete_parking_write ::
  "io_error_kind + extent \<Rightarrow> u8 list \<Rightarrow> nat \<Rightarrow> frozen_image_state \<Rightarrow> park_sys \<Rightarrow> ((io_error_kind + park_outcome) \<times> park_sys) option" where
  "complete_parking_write write_result bytes a i s =
     (case storage i of
        Parking _ \<Rightarrow>
          (case write_result of
             Inr disk \<Rightarrow>
               if reader_count i = 0 then
                 map_option (\<lambda>r. (Inr ParkedNow, s\<lparr>images := (images s)(a \<mapsto> i\<lparr>storage := Parked disk\<rparr>), registry := r\<rparr>))
                   (move_to_parked (image_id i) a (registry s))
               else Some (Inr InUse, s\<lparr>images := (images s)(a \<mapsto> i\<lparr>storage := Resident bytes (Some disk)\<rparr>)\<rparr>)
           | Inl err \<Rightarrow> Some (Inl err, s\<lparr>images := (images s)(a \<mapsto> i\<lparr>storage := Resident bytes None\<rparr>)\<rparr>))
      | _ \<Rightarrow>
          (case (write_result, image_pool s) of
             (Inr disk, Some p) \<Rightarrow> map_option (\<lambda>p. (Inl OtherError, s\<lparr>image_pool := Some p\<rparr>)) (pool_release disk p)
           | _ \<Rightarrow> Some (Inl OtherError, s)))"

text \<open>Dropping an image: the storage with its extent first, the registration later.\<close>

definition disk_of :: "frozen_image_storage \<Rightarrow> extent option" where
  "disk_of st = (case st of Resident _ b \<Rightarrow> b | Parking _ \<Rightarrow> None | Parked e \<Rightarrow> Some e)"

definition drop_image :: "nat \<Rightarrow> frozen_image_state \<Rightarrow> park_sys \<Rightarrow> park_sys option" where
  "drop_image a i s =
     (let s1 = s\<lparr>images := (images s)(a := None), dying := image_id i # dying s\<rparr> in
      case disk_of (storage i) of
        None \<Rightarrow> Some s1
      | Some e \<Rightarrow>
          (case image_pool s of
             None \<Rightarrow> None
           | Some p \<Rightarrow> map_option (\<lambda>p. s1\<lparr>image_pool := Some p\<rparr>) (pool_release e p)))"


subsection \<open>The manager (manager.rs)\<close>

definition notify_schedule_changed :: "park_sys \<Rightarrow> park_sys" where
  "notify_schedule_changed s = s\<lparr>waiting_for_change := False, wakeups := wakeups s + 1\<rparr>"

definition unregister :: "nat \<Rightarrow> park_sys \<Rightarrow> park_sys" where
  "unregister n s =
     (let (removed, r) = registry_remove n (registry s) in
      (if removed then notify_later else id) (s\<lparr>registry := r\<rparr>))"

definition begin_scheduled_sweep :: "park_sys \<Rightarrow> bool \<times> park_sys" where
  "begin_scheduled_sweep s = (if waiting_for_change s then (False, s) else (True, s\<lparr>waiting_for_change := True\<rparr>))"

definition begin_forced_sweep :: "park_sys \<Rightarrow> park_sys" where
  "begin_forced_sweep s = s\<lparr>waiting_for_change := True\<rparr>"

definition finish_sweep :: "nat \<Rightarrow> park_sys \<Rightarrow> park_sys" where
  "finish_sweep unavailable s =
     (let s = (if unavailable = 0 then s\<lparr>waiting_for_change := False\<rparr> else s) in s\<lparr>wakeups := wakeups s + 1\<rparr>)"

definition next_parking_deadline :: "park_sys \<Rightarrow> instant option" where
  "next_parking_deadline s =
     (if waiting_for_change s then None
      else
        (case List.map_filter (\<lambda>a. Option.bind (images s a) (\<lambda>i. parking_deadline i s)) (resident_images s) of
           [] \<Rightarrow> None
         | t # ts \<Rightarrow> Some (fold min ts t)))"


subsection \<open>Interleaved operations\<close>

datatype park_op =
    OpNew "u8 list" instant
  | OpSnapshot nat "os_reply list"
  | OpCloneSnapshot nat
  | OpDropSnapshot nat instant
  | OpPrepare nat bool instant
  | OpWrite nat "os_reply list"
  | OpComplete nat
  | OpDropImage nat
  | OpUnregister nat
  | OpNotify
  | OpBeginSweep
  | OpBeginForcedSweep
  | OpFinishSweep nat
  | OpOther pool_op

text \<open>A thread can only use an image it has a reference to: operations on addresses that are not
  live have no effect.\<close>

definition with_image :: "nat \<Rightarrow> (frozen_image_state \<Rightarrow> park_sys \<Rightarrow> park_sys option) \<Rightarrow> park_sys \<Rightarrow> park_sys option" where
  "with_image a f s = (case images s a of None \<Rightarrow> Some s | Some i \<Rightarrow> f i s)"

definition clone_snapshot :: "nat \<Rightarrow> park_sys \<Rightarrow> park_sys option" where
  "clone_snapshot k s =
     (let (a, bytes) = snapshots s ! k in
      map_option (\<lambda>s. s\<lparr>snapshots := snapshots s @ [(a, bytes)]\<rparr>) (with_image a (retain_snapshot_reader a) s))"

definition drop_snapshot :: "nat \<Rightarrow> instant \<Rightarrow> park_sys \<Rightarrow> park_sys option" where
  "drop_snapshot k now s =
     (let (a, bytes) = snapshots s ! k in
      with_image a (release_snapshot_reader now a) (s\<lparr>snapshots := take k (snapshots s) @ drop (Suc k) (snapshots s)\<rparr>))"

text \<open>A parking thread: preparation, the write without a lock, and completion.  A write that is
  started while another one runs for the image would be a failure of the model.\<close>

definition start_parking :: "bool \<Rightarrow> instant \<Rightarrow> nat \<Rightarrow> frozen_image_state \<Rightarrow> park_sys \<Rightarrow> park_sys option" where
  "start_parking force now a i s =
     (case prepare_parking force now a i s of
        None \<Rightarrow> None
      | Some (ParkDone _, s) \<Rightarrow> Some s
      | Some (ParkWrite e bytes, s) \<Rightarrow>
          if jobs s a = None then Some (s\<lparr>jobs := (jobs s)(a \<mapsto> Writing e bytes)\<rparr>) else None)"

definition write_job :: "os_reply list \<Rightarrow> nat \<Rightarrow> park_sys \<Rightarrow> park_sys option" where
  "write_job rs a s =
     (case (jobs s a, image_pool s) of
        (Some (Writing e bytes), Some p) \<Rightarrow>
          map_option (\<lambda>(r, p). s\<lparr>image_pool := Some p, jobs := (jobs s)(a \<mapsto> Written r bytes)\<rparr>) (pool_write rs e bytes p)
      | (Some (Writing e bytes), None) \<Rightarrow> None
      | _ \<Rightarrow> Some s)"

definition complete_job :: "nat \<Rightarrow> frozen_image_state \<Rightarrow> park_sys \<Rightarrow> park_sys option" where
  "complete_job a i s =
     (case jobs s a of
        Some (Written r bytes) \<Rightarrow>
          map_option (\<lambda>(_, s). s\<lparr>jobs := (jobs s)(a := None)\<rparr>) (complete_parking_write r bytes a i s)
      | _ \<Rightarrow> Some s)"

fun park_step :: "park_op \<Rightarrow> park_sys \<Rightarrow> park_sys option" where
  "park_step (OpNew bytes now) s = from_frozen_bytes bytes now s"
| "park_step (OpSnapshot a rs) s = with_image a (\<lambda>i s. map_option snd (snapshot rs a i s)) s"
| "park_step (OpCloneSnapshot k) s = (if k < length (snapshots s) then clone_snapshot k s else Some s)"
| "park_step (OpDropSnapshot k now) s = (if k < length (snapshots s) then drop_snapshot k now s else Some s)"
| "park_step (OpPrepare a force now) s = with_image a (start_parking force now a) s"
| "park_step (OpWrite a rs) s = write_job rs a s"
| "park_step (OpComplete a) s = with_image a (complete_job a) s"
| "park_step (OpDropImage a) s = (if jobs s a = None then with_image a (drop_image a) s else Some s)"
| "park_step (OpUnregister n) s =
     Some (if n \<in> set (dying s) then unregister n (s\<lparr>dying := remove1 n (dying s)\<rparr>) else s)"
| "park_step OpNotify s =
     Some (if 0 < notifications s then notify_schedule_changed (s\<lparr>notifications := notifications s - 1\<rparr>) else s)"
| "park_step OpBeginSweep s = Some (snd (begin_scheduled_sweep s))"
| "park_step OpBeginForcedSweep s = Some (begin_forced_sweep s)"
| "park_step (OpFinishSweep unavailable) s = Some (finish_sweep unavailable s)"
| "park_step (OpOther x) s =
     (case image_pool s of
        None \<Rightarrow> Some s
      | Some p \<Rightarrow>
          map_option (\<lambda>t. s\<lparr>image_pool := Some (sys_pool t), other_handles := handles t\<rparr>)
            (pool_step x \<lparr>sys_pool = p, handles = other_handles s\<rparr>))"


subsection \<open>What the pool promises\<close>

definition pool_ok :: "disk_pool \<Rightarrow> (nat \<rightharpoonup> handle) \<Rightarrow> bool" where
  "pool_ok p hs \<longleftrightarrow> pool_inv \<lparr>sys_pool = p, handles = hs\<rparr>"

lemma pool_reserve:
  assumes "pool_ok p hs" "hs h = None"
  obtains "try_reserve_chunk n p = Some (None, p)"
  | e p' where "try_reserve_chunk n p = Some (Some e, p')" "ext_len e = n" "pool_ok p' (hs(h \<mapsto> ReservedChunk e))"
proof -
  let ?s = "\<lparr>sys_pool = p, handles = hs\<rparr>"
  have "alloc_inv (pool_state p)" "within_capacity p" using assms(1) by (simp_all add: pool_ok_def pool_inv_iff)
  from try_reserve_chunk_spec [OF this, of n] show thesis
  proof (elim disjE exE conjE)
    fix e p' assume r: "try_reserve_chunk n p = Some (Some e, p')" "reserved n p e p'"
    obtain s' where "pool_step (Reserve h n) ?s = Some s'" "pool_inv s'"
      using reserve_step [of ?s h n] assms(1) by (auto simp: pool_ok_def)
    with r assms(2) show thesis by (intro that(2) [of e p']) (auto simp: pool_ok_def reserved_def)
  qed (rule that(1))
qed

lemma pool_write_result:
  assumes "pool_ok p hs" "hs h = Some (ReservedChunk e)" "pool_write rs e data p = Some (r, p')"
  shows "case r of Inr e' \<Rightarrow> e' = e \<and> pool_ok p' (hs(h \<mapsto> DiskData e data)) | Inl _ \<Rightarrow> pool_ok p' (hs(h := None))"
proof -
  let ?s = "\<lparr>sys_pool = p, handles = hs\<rparr>"
  have "r = Inr e' \<Longrightarrow> e' = e" for e'
    using assms(3) by (auto simp: pool_write_def split: if_splits option.splits sum.splits prod.splits)
  moreover have "pool_step (Write h data rs) ?s =
      Some (case r of Inr e' \<Rightarrow> \<lparr>sys_pool = p', handles = hs(h \<mapsto> DiskData e' data)\<rparr> | Inl _ \<Rightarrow> \<lparr>sys_pool = p', handles = hs(h := None)\<rparr>)"
    using assms(2,3) by (simp split: sum.split)
  moreover have "pool_inv ?s" using assms(1) by (simp add: pool_ok_def)
  ultimately show ?thesis
    using pool_system.step_inv [of ?s "Write h data rs"] by (auto simp: pool_ok_def split: sum.splits)
qed

lemma pool_write_blocked:
  assumes "pool_ok p hs" "hs h = Some (ReservedChunk e)" "pool_write rs e data p = None"
  shows "write_all_at rs data (ext_offset e) (pool_file p) = None"
  using pool_step_cases [of "\<lparr>sys_pool = p, handles = hs\<rparr>" "Write h data rs"] assms by (auto simp: pool_ok_def)

lemma pool_release_handle:
  assumes "pool_ok p hs" "hs h = Some x"
  obtains p' where "pool_release (handle_extent x) p = Some p'" "pool_ok p' (hs(h := None))"
proof -
  have "\<exists>s'. pool_step (Drop h) \<lparr>sys_pool = p, handles = hs\<rparr> = Some s' \<and> pool_inv s'"
    using drop_step [of "\<lparr>sys_pool = p, handles = hs\<rparr>" h] assms(1) by (simp add: pool_ok_def)
  with assms(2) that show thesis by (auto simp: pool_ok_def drop_handle_def)
qed

text \<open>A read that succeeds gives the stored bytes, whatever the replies were.\<close>

lemma read_exact_file_at_bytes: "read_exact_file_at rs n off f = Some (Inr bs) \<Longrightarrow> bs = get_bytes off n f"
proof (induction rs n off f arbitrary: bs rule: read_exact_file_at.induct)
  case (3 k rs m off f)
  then show ?case
    using get_bytes_split [of k "Suc m" off f]
    by (auto simp: checked_add_def split: if_splits option.splits sum.splits)
qed (auto simp: get_bytes_def split: if_splits)

lemma pool_read:
  assumes "pool_ok p hs" "hs h = Some (DiskData e data)"
  shows "to_vec rs e p = Some (Inr bs) \<Longrightarrow> bs = data" "length data = ext_len e"
    "transfers rs (ext_len e) \<Longrightarrow> to_vec rs e p = Some (Inr data)"
proof -
  have c: "length data = ext_len e" "get_bytes (ext_offset e) (ext_len e) (pool_file p) = data"
    using content_okD [of hs _ h e data] assms by (auto simp: pool_ok_def pool_inv_def)
  show "length data = ext_len e" by (rule c(1))
  show "to_vec rs e p = Some (Inr bs) \<Longrightarrow> bs = data"
    using c(2) read_exact_file_at_bytes
    by (fastforce simp: to_vec_def read_exact_at_def checked_add_def split: if_splits option.splits)
  show "transfers rs (ext_len e) \<Longrightarrow> to_vec rs e p = Some (Inr data)"
    using stored_read [of "\<lparr>sys_pool = p, handles = hs\<rparr>" h e data 0 "ext_len e" rs] assms c(1)
    by (simp add: to_vec_def pool_ok_def)
qed

text \<open>Two users of one pool.\<close>

definition both :: "(nat \<rightharpoonup> handle) \<Rightarrow> (nat \<rightharpoonup> handle) \<Rightarrow> nat \<rightharpoonup> handle" where
  "both hs os k = (if even k then hs (k div 2) else os (k div 2))"

lemma both_left [simp]: "both hs os (2 * a) = hs a" "(both hs os)(2 * a := x) = both (hs(a := x)) os"
  by (auto simp: both_def fun_eq_iff)

lemma both_right [simp]: "both hs os (Suc (2 * a)) = os a" "(both hs os)(Suc (2 * a) := x) = both hs (os(a := x))"
  by (auto simp: both_def fun_eq_iff elim!: oddE)

fun on_right :: "pool_op \<Rightarrow> pool_op" where
  "on_right (Reserve h n) = Reserve (Suc (2 * h)) n"
| "on_right (Write h data rs) = Write (Suc (2 * h)) data rs"
| "on_right (Drop h) = Drop (Suc (2 * h))"

lemma other_step:
  assumes "pool_step x \<lparr>sys_pool = p, handles = os\<rparr> = Some t"
  shows "pool_step (on_right x) \<lparr>sys_pool = p, handles = both hs os\<rparr> = Some (t\<lparr>handles := both hs (handles t)\<rparr>)"
  using assms by (cases x) (auto split: option.splits handle.splits sum.splits if_splits)

lemma other_step_ok:
  assumes "pool_ok p (both hs os)" "pool_step x \<lparr>sys_pool = p, handles = os\<rparr> = Some t"
  shows "pool_ok (sys_pool t) (both hs (handles t))"
proof -
  have "pool_inv (t\<lparr>handles := both hs (handles t)\<rparr>)"
    using pool_system.step_inv [OF _ other_step [OF assms(2)]] assms(1) by (simp add: pool_ok_def)
  moreover have "t\<lparr>handles := both hs (handles t)\<rparr> = \<lparr>sys_pool = sys_pool t, handles = both hs (handles t)\<rparr>" by simp
  ultimately show ?thesis by (simp add: pool_ok_def)
qed


subsection \<open>The invariant\<close>

definition readers :: "park_sys \<Rightarrow> nat \<Rightarrow> nat" where
  "readers s a = length (filter (\<lambda>x. fst x = a) (snapshots s))"

fun job_bytes :: "park_job \<Rightarrow> u8 list" where
  "job_bytes (Writing _ bytes) = bytes"
| "job_bytes (Written _ bytes) = bytes"

definition is_parked :: "frozen_image_state \<Rightarrow> bool" where
  "is_parked i = (case storage i of Parked _ \<Rightarrow> True | _ \<Rightarrow> False)"

text \<open>One image: its bytes, its number of leases, the write that runs for it, and its entries in the
  registry.\<close>

definition storage_ok :: "nat \<Rightarrow> u8 list \<Rightarrow> park_job option \<Rightarrow> frozen_image_state \<Rightarrow> bool" where
  "storage_ok min_size orig job i =
     (case storage i of
        Resident bytes _ \<Rightarrow> bytes = orig \<and> job = None
      | Parking bytes \<Rightarrow> bytes = orig \<and> map_option job_bytes job = Some orig \<and> min_size \<le> length orig
      | Parked _ \<Rightarrow> job = None \<and> reader_count i = 0 \<and> min_size \<le> length orig)"

definition image_ok ::
  "nat \<Rightarrow> u8 list \<Rightarrow> nat \<Rightarrow> park_job option \<Rightarrow> nat option \<Rightarrow> nat option \<Rightarrow> nat \<Rightarrow> frozen_image_state \<Rightarrow> bool" where
  "image_ok min_size orig n job res par a i \<longleftrightarrow>
     image_id i = Suc a \<and> image_len i = length orig \<and> reader_count i = n \<and> storage_ok min_size orig job i \<and>
     res = (if min_size \<le> length orig \<and> \<not> is_parked i then Some a else None) \<and>
     par = (if is_parked i then Some a else None)"

abbreviation resident_at :: "park_sys \<Rightarrow> nat \<Rightarrow> nat option" where
  "resident_at s n \<equiv> map_of (resident (registry s)) n"

abbreviation parked_at :: "park_sys \<Rightarrow> nat \<Rightarrow> nat option" where
  "parked_at s n \<equiv> map_of (parked (registry s)) n"

definition images_ok :: "park_sys \<Rightarrow> bool" where
  "images_ok s \<longleftrightarrow> (\<forall>a i. images s a = Some i \<longrightarrow> a < next_address s \<and>
     image_ok (min_size_to_park (policy s)) (original s a) (readers s a) (jobs s a) (resident_at s (Suc a)) (parked_at s (Suc a)) a i)"

definition registry_ok :: "park_sys \<Rightarrow> bool" where
  "registry_ok s \<longleftrightarrow> distinct (map fst (resident (registry s))) \<and> distinct (map fst (parked (registry s))) \<and>
     (\<forall>n. resident_at s n = None \<or> parked_at s n = None) \<and>
     (\<forall>n a. resident_at s n = Some a \<or> parked_at s n = Some a \<longrightarrow>
        n = Suc a \<and> a < next_address s \<and> (images s a \<noteq> None \<or> n \<in> set (dying s)))"

definition dying_ok :: "park_sys \<Rightarrow> bool" where
  "dying_ok s \<longleftrightarrow> (\<forall>n\<in>set (dying s). \<exists>a. n = Suc a \<and> a < next_address s \<and> images s a = None)"

definition snapshots_ok :: "park_sys \<Rightarrow> bool" where
  "snapshots_ok s \<longleftrightarrow> (\<forall>(a, bytes)\<in>set (snapshots s). a < next_address s \<and> bytes = original s a)"

text \<open>The handles of the pool that the images own, as the pool's invariant sees them.\<close>

definition image_handle :: "u8 list \<Rightarrow> park_job option \<Rightarrow> frozen_image_state option \<Rightarrow> handle option" where
  "image_handle orig job im =
     (case job of
        Some (Writing e _) \<Rightarrow> Some (ReservedChunk e)
      | Some (Written (Inr e) bytes) \<Rightarrow> Some (DiskData e bytes)
      | Some (Written (Inl _) _) \<Rightarrow> None
      | None \<Rightarrow> Option.bind im (\<lambda>i. map_option (\<lambda>e. DiskData e orig) (disk_of (storage i))))"

definition image_handles :: "park_sys \<Rightarrow> nat \<rightharpoonup> handle" where
  "image_handles s a = image_handle (original s a) (jobs s a) (images s a)"

definition disk_ok :: "park_sys \<Rightarrow> bool" where
  "disk_ok s = (case image_pool s of
       None \<Rightarrow> image_handles s = Map.empty
     | Some p \<Rightarrow> pool_ok p (both (image_handles s) (other_handles s)))"

definition park_inv :: "park_sys \<Rightarrow> bool" where
  "park_inv s \<longleftrightarrow> next_image_id s = next_address s \<and> images_ok s \<and> (\<forall>a. jobs s a \<noteq> None \<longrightarrow> images s a \<noteq> None) \<and>
     registry_ok s \<and> dying_ok s \<and> snapshots_ok s \<and> disk_ok s"

text \<open>Steps that change one live image.\<close>

definition same_base :: "park_sys \<Rightarrow> park_sys \<Rightarrow> bool" where
  "same_base s s' \<longleftrightarrow> policy s' = policy s \<and> next_image_id s' = next_image_id s \<and> next_address s' = next_address s \<and>
     original s' = original s \<and> dying s' = dying s \<and> other_handles s' = other_handles s"

definition registry_frame :: "nat \<Rightarrow> parkable_image_registry \<Rightarrow> parkable_image_registry \<Rightarrow> bool" where
  "registry_frame a r r' \<longleftrightarrow>
     (distinct (map fst (resident r)) \<and> distinct (map fst (parked r)) \<longrightarrow>
      distinct (map fst (resident r')) \<and> distinct (map fst (parked r'))) \<and>
     (\<forall>n. n \<noteq> Suc a \<longrightarrow> map_of (resident r') n = map_of (resident r) n \<and> map_of (parked r') n = map_of (parked r) n)"

lemma registry_frame_refl [simp]: "registry_frame a r r"
  by (simp add: registry_frame_def)

lemma moved_to_parked:
  assumes "move_to_parked (Suc a) a r = Some r'"
  shows "registry_frame a r r'" "map_of (resident r') (Suc a) = None" "map_of (parked r') (Suc a) = Some a"
  using assms by (auto simp: move_to_parked_def registry_frame_def update_conv' delete_conv' distinct_update distinct_delete split: if_splits)

lemma moved_to_resident:
  assumes "move_to_resident (Suc a) a r = Some r'"
  shows "registry_frame a r r'" "map_of (resident r') (Suc a) = Some a" "map_of (parked r') (Suc a) = None"
  using assms by (auto simp: move_to_resident_def registry_frame_def update_conv' delete_conv' distinct_update distinct_delete split: if_splits)

lemma registered:
  assumes "register_resident (Suc a) a r = Some r'"
  shows "registry_frame a r r'" "map_of (resident r') (Suc a) = Some a" "map_of (parked r') (Suc a) = None"
  using assms by (auto simp: register_resident_def registry_frame_def update_conv' distinct_update split: if_splits)

lemma park_invD:
  assumes "park_inv s" "images s a = Some i"
  shows "a < next_address s" "image_id i = Suc a" "image_len i = length (original s a)" "reader_count i = readers s a"
    "storage_ok (min_size_to_park (policy s)) (original s a) (jobs s a) i"
    "resident_at s (Suc a) = (if min_size_to_park (policy s) \<le> length (original s a) \<and> \<not> is_parked i then Some a else None)"
    "parked_at s (Suc a) = (if is_parked i then Some a else None)"
  using assms by (auto simp: park_inv_def images_ok_def image_ok_def)

lemma image_handles_update:
  "images s' = (images s)(a := im) \<Longrightarrow> jobs s' = (jobs s)(a := j) \<Longrightarrow> original s' = original s \<Longrightarrow>
   image_handles s' = (image_handles s)(a := image_handle (original s a) j im)"
  by (auto simp: image_handles_def fun_eq_iff)

lemma disk_ok_cong:
  "image_pool s' = image_pool s \<Longrightarrow> image_handles s' = image_handles s \<Longrightarrow> other_handles s' = other_handles s \<Longrightarrow> disk_ok s' = disk_ok s"
  by (simp add: disk_ok_def split: option.split)

lemma dying_ok_mono:
  assumes "dying_ok s" "dying t = dying s" "next_address s \<le> next_address t"
    "\<And>c. c < next_address s \<Longrightarrow> images s c = None \<Longrightarrow> images t c = None"
  shows "dying_ok t"
  unfolding dying_ok_def
proof
  fix n assume "n \<in> set (dying t)"
  with assms(1,2) obtain c where "n = Suc c" "c < next_address s" "images s c = None" by (auto simp: dying_ok_def)
  with assms(3,4) show "\<exists>c. n = Suc c \<and> c < next_address t \<and> images t c = None" by auto
qed

lemma update_image:
  assumes inv: "park_inv s" and i: "images s a = Some i" and base: "same_base s s'"
    and im: "images s' = (images s)(a \<mapsto> i')" and jo: "jobs s' = (jobs s)(a := j)"
    and rd: "\<And>b. b \<noteq> a \<Longrightarrow> readers s' b = readers s b"
    and reg: "registry_frame a (registry s) (registry s')"
    and ok: "image_ok (min_size_to_park (policy s)) (original s a) (readers s' a) j (resident_at s' (Suc a)) (parked_at s' (Suc a)) a i'"
    and sn: "snapshots_ok s'" and disk: "disk_ok s'"
  shows "park_inv s'"
proof -
  note b = base [unfolded same_base_def]
  have "images_ok s'" unfolding images_ok_def
  proof (intro allI impI)
    fix c k assume k: "images s' c = Some k"
    show "c < next_address s' \<and> image_ok (min_size_to_park (policy s')) (original s' c) (readers s' c) (jobs s' c)
        (resident_at s' (Suc c)) (parked_at s' (Suc c)) c k"
    proof (cases "c = a")
      case True
      with k im jo ok b park_invD(1) [OF inv i] show ?thesis by simp
    next
      case False
      with k im jo b rd [OF False] reg inv show ?thesis by (simp add: park_inv_def images_ok_def registry_frame_def)
    qed
  qed
  moreover have "registry_ok s'"
  proof -
    have r: "registry_ok s" using inv by (simp add: park_inv_def)
    have "n = Suc c \<and> c < next_address s' \<and> (images s' c \<noteq> None \<or> n \<in> set (dying s'))"
      if "resident_at s' n = Some c \<or> parked_at s' n = Some c" for n c
    proof (cases "n = Suc a")
      case True
      with that ok im b park_invD(1) [OF inv i] show ?thesis by (auto simp: image_ok_def split: if_splits)
    next
      case False
      with that reg have "resident_at s n = Some c \<or> parked_at s n = Some c" by (simp add: registry_frame_def)
      with r have "n = Suc c \<and> c < next_address s \<and> (images s c \<noteq> None \<or> n \<in> set (dying s))"
        unfolding registry_ok_def by blast
      with b im show ?thesis by auto
    qed
    moreover have "resident_at s' n = None \<or> parked_at s' n = None" for n
    proof (cases "n = Suc a")
      case True
      with ok show ?thesis by (simp add: image_ok_def)
    next
      case False
      with reg r show ?thesis by (simp add: registry_frame_def registry_ok_def)
    qed
    ultimately show ?thesis using r reg unfolding registry_ok_def registry_frame_def by blast
  qed
  moreover have "dying_ok s'" by (rule dying_ok_mono [of s]) (use inv b im i in \<open>auto simp: park_inv_def\<close>)
  moreover have "\<forall>c. jobs s' c \<noteq> None \<longrightarrow> images s' c \<noteq> None" using inv im jo by (simp add: park_inv_def)
  ultimately show ?thesis using inv b sn disk by (simp add: park_inv_def)
qed

text \<open>Dependence of the parts on the fields they read.\<close>

lemma notify_later_simps [simp]:
  "images (notify_later s) = images s" "jobs (notify_later s) = jobs s" "registry (notify_later s) = registry s"
  "snapshots (notify_later s) = snapshots s" "image_pool (notify_later s) = image_pool s" "policy (notify_later s) = policy s"
  "next_address (notify_later s) = next_address s" "original (notify_later s) = original s"
  "other_handles (notify_later s) = other_handles s" "dying (notify_later s) = dying s" "next_image_id (notify_later s) = next_image_id s"
  by (simp_all add: notify_later_def)

lemma park_inv_cong:
  assumes "same_base s s'" "images s' = images s" "jobs s' = jobs s" "registry s' = registry s" "snapshots s' = snapshots s"
    "image_pool s' = image_pool s"
  shows "park_inv s' = park_inv s"
proof -
  have "readers s' = readers s" "image_handles s' = image_handles s"
    using assms by (simp_all add: fun_eq_iff readers_def image_handles_def same_base_def)
  with assms have "disk_ok s' = disk_ok s" by (simp add: disk_ok_def same_base_def split: option.split)
  with assms \<open>readers s' = readers s\<close> show ?thesis
    by (simp add: park_inv_def images_ok_def registry_ok_def dying_ok_def snapshots_ok_def same_base_def)
qed

lemma park_inv_notify [simp]: "park_inv (notify_later s) = park_inv s"
  by (rule park_inv_cong) (simp_all add: same_base_def)

lemma readers_snoc: "snapshots s' = snapshots s @ [(a, bytes)] \<Longrightarrow> readers s' b = (if b = a then Suc (readers s b) else readers s b)"
  by (simp add: readers_def)

lemma filter_take_drop:
  assumes "k < length xs"
  shows "length (filter P (take k xs @ drop (Suc k) xs)) + (if P (xs ! k) then 1 else 0) = length (filter P xs)"
proof -
  have "filter P xs = filter P (take k xs @ xs ! k # drop (Suc k) xs)" using id_take_nth_drop [OF assms] by simp
  then show ?thesis by simp
qed

lemma readers_removed:
  "k < length (snapshots s) \<Longrightarrow> snapshots s' = take k (snapshots s) @ drop (Suc k) (snapshots s) \<Longrightarrow> snapshots s ! k = (a, bytes) \<Longrightarrow>
   readers s b = (if b = a then Suc (readers s' b) else readers s' b)"
  using filter_take_drop [of k "snapshots s" "\<lambda>x. fst x = b"] by (auto simp: readers_def)


subsection \<open>Reading\<close>

text \<open>A lease on storage in memory.\<close>

lemma lease_step:
  assumes inv: "park_inv s" and i: "images s a = Some i" and l: "lease a i' (s\<lparr>registry := r\<rparr>) = Some (x, s')"
    and ok: "image_ok (min_size_to_park (policy s)) (original s a) (readers s a) (jobs s a) (map_of (resident r) (Suc a)) (map_of (parked r) (Suc a)) a i'"
    and reg: "registry_frame a (registry s) r"
    and np: "\<not> is_parked i'" and h: "disk_of (storage i') = disk_of (storage i)"
  shows "x = Inr (original s a) \<and> park_inv s'"
proof -
  let ?t = "s\<lparr>registry := r, images := (images s)(a \<mapsto> i'\<lparr>reader_count := reader_count i' + 1\<rparr>), snapshots := snapshots s @ [(a, original s a)]\<rparr>"
  have res: "x = Inr (original s a)" "s' = ?t \<or> s' = notify_later ?t"
    using l ok np
    by (auto simp: lease_def image_ok_def storage_ok_def is_parked_def split: frozen_image_storage.splits option.splits if_splits)
  have hs: "image_handles ?t = (image_handles s)(a := image_handles s a)"
    using h i by (subst image_handles_update [of ?t s a "Some (i'\<lparr>reader_count := reader_count i' + 1\<rparr>)" "jobs s a"])
      (auto simp: image_handles_def image_handle_def split: option.split)
  have "park_inv ?t"
  proof (rule update_image [OF inv i])
    show "image_ok (min_size_to_park (policy s)) (original s a) (readers ?t a) (jobs s a)
        (resident_at ?t (Suc a)) (parked_at ?t (Suc a)) a (i'\<lparr>reader_count := reader_count i' + 1\<rparr>)"
      using ok np by (auto simp: image_ok_def storage_ok_def is_parked_def readers_def split: frozen_image_storage.splits)
    have "disk_ok ?t = disk_ok s" by (rule disk_ok_cong) (simp, use hs in simp, simp)
    with inv show "disk_ok ?t" by (simp add: park_inv_def)
    show "snapshots_ok ?t" using inv park_invD(1) [OF inv i] by (auto simp: park_inv_def snapshots_ok_def)
  qed (use reg in \<open>simp_all add: same_base_def readers_def\<close>)
  with res show ?thesis by auto
qed

lemma image_handle_at: "park_inv s \<Longrightarrow> images s a = Some i \<Longrightarrow> jobs s a = None \<Longrightarrow> disk_of (storage i) = Some e \<Longrightarrow>
   image_handles s a = Some (DiskData e (original s a))"
  by (simp add: image_handles_def image_handle_def)

lemma image_pool_of:
  assumes "park_inv s" "image_handles s a \<noteq> None"
  obtains p where "image_pool s = Some p" "pool_ok p (both (image_handles s) (other_handles s))"
  using assms that by (cases "image_pool s") (auto simp: park_inv_def disk_ok_def)

lemma parked_image:
  assumes "park_inv s" "images s a = Some i" "storage i = Parked e"
  obtains p where "image_pool s = Some p" "pool_ok p (both (image_handles s) (other_handles s))"
    "image_handles s a = Some (DiskData e (original s a))"
proof -
  have "jobs s a = None" using park_invD(5) [OF assms(1,2)] assms(3) by (simp add: storage_ok_def)
  then have "image_handles s a = Some (DiskData e (original s a))"
    using assms by (intro image_handle_at) (auto simp: disk_of_def)
  with image_pool_of [OF assms(1), of a] that show thesis by auto
qed

lemma snapshot_step:
  assumes inv: "park_inv s" and i: "images s a = Some i" and r: "snapshot rs a i s = Some (x, s')"
  shows "park_inv s' \<and> (x = Inr (original s a) \<or> (\<exists>err. x = Inl err \<and> s' = s))"
proof (cases "is_parked i")
  case False
  then have l: "lease a i (s\<lparr>registry := registry s\<rparr>) = Some (x, s')"
    using r by (auto simp: snapshot_def is_parked_def split: frozen_image_storage.splits)
  have "image_ok (min_size_to_park (policy s)) (original s a) (readers s a) (jobs s a) (resident_at s (Suc a)) (parked_at s (Suc a)) a i"
    using inv i by (simp add: park_inv_def images_ok_def)
  from lease_step [OF inv i l this _ False] show ?thesis by simp
next
  case True
  then obtain e where e: "storage i = Parked e" by (auto simp: is_parked_def split: frozen_image_storage.splits)
  obtain p where p: "image_pool s = Some p" "pool_ok p (both (image_handles s) (other_handles s))"
    "image_handles s a = Some (DiskData e (original s a))" using parked_image [OF inv i e] by blast
  note d = park_invD [OF inv i]
  consider err where "x = Inl err" "s' = s"
    | data reg where "to_vec rs e p = Some (Inr data)" "move_to_resident (Suc a) a (registry s) = Some reg"
      "lease a (i\<lparr>storage := Resident data (Some e)\<rparr>) (s\<lparr>registry := reg\<rparr>) = Some (x, s')"
    using r p(1) d(2) by (auto simp: snapshot_def e split: option.splits sum.splits if_splits)
  then show ?thesis
  proof cases
    case 2
    have data: "data = original s a" using pool_read(1) [OF p(2), of "2 * a" e] p(3) 2(1) by simp
    note m = moved_to_resident [OF 2(2)]
    have "image_ok (min_size_to_park (policy s)) (original s a) (readers s a) (jobs s a) (map_of (resident reg) (Suc a))
        (map_of (parked reg) (Suc a)) a (i\<lparr>storage := Resident data (Some e)\<rparr>)"
      using d m data e by (simp add: image_ok_def storage_ok_def is_parked_def)
    from lease_step [OF inv i 2(3) this m(1)] e show ?thesis by (simp add: is_parked_def disk_of_def)
  qed (use inv in simp)
qed

text \<open>Leases of an image that is gone have no effect on the images.\<close>

lemma resnapshot:
  assumes "park_inv s" "s' = s\<lparr>snapshots := xs\<rparr>" "snapshots_ok s'" "\<And>b. images s b \<noteq> None \<Longrightarrow> readers s' b = readers s b"
  shows "park_inv s'"
proof -
  have "image_handles s' = image_handles s" using assms(2) by (simp add: image_handles_def fun_eq_iff)
  then have "disk_ok s'" using assms(1,2) disk_ok_cong [of s' s] by (simp add: park_inv_def)
  with assms show ?thesis by (simp add: park_inv_def images_ok_def registry_ok_def dying_ok_def)
qed

lemma clone_snapshot_step:
  assumes inv: "park_inv s" and k: "k < length (snapshots s)" and r: "clone_snapshot k s = Some s'"
  shows "park_inv s'"
proof -
  obtain a bytes where x: "snapshots s ! k = (a, bytes)" by fastforce
  then have m: "(a, bytes) \<in> set (snapshots s)" using k by (metis nth_mem)
  have bytes: "a < next_address s" "bytes = original s a" using inv m by (auto simp: park_inv_def snapshots_ok_def)
  have sn: "snapshots_ok (t\<lparr>snapshots := snapshots s @ [(a, bytes)]\<rparr>)" if "original t = original s" "next_address t = next_address s" for t
    using inv bytes that by (auto simp: park_inv_def snapshots_ok_def)
  show ?thesis
  proof (cases "images s a")
    case None
    then have "s' = s\<lparr>snapshots := snapshots s @ [(a, bytes)]\<rparr>" using r x by (simp add: clone_snapshot_def with_image_def)
    with sn [of s] None show ?thesis by (intro resnapshot [OF inv]) (auto simp: readers_def)
  next
    case (Some i)
    note d = park_invD [OF inv Some]
    let ?i = "i\<lparr>reader_count := reader_count i + 1\<rparr>"
    let ?t = "s\<lparr>images := (images s)(a \<mapsto> ?i), snapshots := snapshots s @ [(a, original s a)]\<rparr>"
    have s': "s' = ?t" using r x Some bytes
      by (auto simp: clone_snapshot_def with_image_def retain_snapshot_reader_def checked_add_def split: if_splits)
    have "0 < readers s a" using m by (force simp: readers_def filter_empty_conv)
    then have "\<not> is_parked i" using d(4,5) by (auto simp: storage_ok_def is_parked_def split: frozen_image_storage.splits)
    then have ok: "image_ok (min_size_to_park (policy s)) (original s a) (readers s' a) (jobs s a) (resident_at s' (Suc a)) (parked_at s' (Suc a)) a ?i"
      using d s' by (auto simp: image_ok_def storage_ok_def is_parked_def readers_def split: frozen_image_storage.splits)
    have "image_handles s' = image_handles s"
      using Some s' by (auto simp: image_handles_def image_handle_def fun_eq_iff split: option.split)
    then have "disk_ok s'" using inv s' disk_ok_cong [of s' s] by (simp add: park_inv_def)
    moreover have "snapshots_ok s'" using inv bytes by (auto simp: s' park_inv_def snapshots_ok_def)
    ultimately show ?thesis using ok
      by (intro update_image [OF inv Some, of s' ?i "jobs s a"]) (simp_all add: s' same_base_def readers_def)
  qed
qed

lemma release_result:
  assumes "release_snapshot_reader now a i s = Some s'"
  obtains u where "s' = (if reader_count i = 1 then notify_later else id)
      (s\<lparr>images := (images s)(a \<mapsto> i\<lparr>reader_count := reader_count i - 1, park_after := u\<rparr>)\<rparr>)"
proof -
  have triv: "i\<lparr>reader_count := n\<rparr> = i\<lparr>reader_count := n, park_after := park_after i\<rparr>" for n by (cases i) simp
  have n: "0 < reader_count i" using assms by (simp add: release_snapshot_reader_def checked_sub_def split: option.splits if_splits)
  show thesis
  proof (cases "reader_count i = 1")
    case True
    with assms that show thesis by (auto simp: release_snapshot_reader_def checked_sub_def)
  next
    case False
    with n assms triv [of "reader_count i - 1"] that [of "park_after i"] show thesis
      by (auto simp: release_snapshot_reader_def checked_sub_def)
  qed
qed

lemma drop_snapshot_step:
  assumes inv: "park_inv s" and k: "k < length (snapshots s)" and r: "drop_snapshot k now s = Some s'"
  shows "park_inv s'"
proof -
  obtain a bytes where x: "snapshots s ! k = (a, bytes)" by fastforce
  let ?xs = "take k (snapshots s) @ drop (Suc k) (snapshots s)"
  have "set ?xs \<subseteq> set (snapshots s)" using set_take_subset [of k] set_drop_subset [of "Suc k"] by fastforce
  then have sn: "snapshots_ok t" if "snapshots t = ?xs" "original t = original s" "next_address t = next_address s" for t
    using inv that unfolding park_inv_def snapshots_ok_def by auto
  have rd: "readers s b = (if b = a then Suc (readers t b) else readers t b)" if "snapshots t = ?xs" for t b
    by (rule readers_removed [OF k that x])
  show ?thesis
  proof (cases "images s a")
    case None
    then have s': "s' = s\<lparr>snapshots := ?xs\<rparr>" using r x by (simp add: drop_snapshot_def with_image_def)
    have "readers s' b = readers s b" if "images s b \<noteq> None" for b using rd [of s' b] that None s' by auto
    with s' sn [of s'] show ?thesis by (intro resnapshot [OF inv]) simp_all
  next
    case (Some i)
    note d = park_invD [OF inv Some]
    from r x Some have "release_snapshot_reader now a i (s\<lparr>snapshots := ?xs\<rparr>) = Some s'"
      by (simp add: drop_snapshot_def with_image_def)
    then obtain u where u: "s' = (if reader_count i = 1 then notify_later else id)
        (s\<lparr>snapshots := ?xs, images := (images s)(a \<mapsto> i\<lparr>reader_count := reader_count i - 1, park_after := u\<rparr>)\<rparr>)"
      by (rule release_result) simp
    define i' where "i' = i\<lparr>reader_count := reader_count i - 1, park_after := u\<rparr>"
    have i': "storage i' = storage i" "image_len i' = image_len i" "image_id i' = image_id i" "reader_count i' = reader_count i - 1"
      by (simp_all add: i'_def)
    have s': "s' = s\<lparr>snapshots := ?xs, images := (images s)(a \<mapsto> i')\<rparr> \<or>
        s' = notify_later (s\<lparr>snapshots := ?xs, images := (images s)(a \<mapsto> i')\<rparr>)"
      using u by (simp add: i'_def)
    let ?t = "s\<lparr>snapshots := ?xs, images := (images s)(a \<mapsto> i')\<rparr>"
    have n: "readers ?t a = readers s a - 1" "0 < readers s a" using rd [of ?t a] by simp_all
    then have "\<not> is_parked i" using d(4,5) by (auto simp: storage_ok_def is_parked_def split: frozen_image_storage.splits)
    then have ok: "image_ok (min_size_to_park (policy s)) (original s a) (readers ?t a) (jobs s a) (resident_at ?t (Suc a)) (parked_at ?t (Suc a)) a i'"
      using d n i' by (simp add: image_ok_def storage_ok_def is_parked_def split: frozen_image_storage.splits)
    have "image_handles ?t = image_handles s"
      using Some i' by (auto simp: image_handles_def image_handle_def fun_eq_iff split: option.split)
    then have "disk_ok ?t" using inv disk_ok_cong [of ?t s] by (simp add: park_inv_def)
    then have "park_inv ?t" using ok sn [of ?t] rd [of ?t]
      by (intro update_image [OF inv Some, of ?t i' "jobs s a"]) (simp_all add: same_base_def)
    with s' show ?thesis by auto
  qed
qed


subsection \<open>Parking\<close>

lemma move_out_of_resident:
  assumes "park_inv s" "images s a = Some i" "\<not> is_parked i" "min_size_to_park (policy s) \<le> length (original s a)"
  obtains r where "move_to_parked (image_id i) a (registry s) = Some r" "registry_frame a (registry s) r"
    "map_of (resident r) (Suc a) = None" "map_of (parked r) (Suc a) = Some a"
proof -
  note d = park_invD [OF assms(1,2)]
  have "\<exists>r. move_to_parked (Suc a) a (registry s) = Some r" using d(6,7) assms(3,4) by (simp add: move_to_parked_def)
  with moved_to_parked that d(2) show thesis by auto
qed

text \<open>A change of storage and job, with what it means for the pool.\<close>

lemma restore_image:
  assumes inv: "park_inv s" and i: "images s a = Some i"
    and t: "t = s\<lparr>images := (images s)(a \<mapsto> i\<lparr>storage := st\<rparr>), jobs := (jobs s)(a := j), registry := r, image_pool := p\<rparr>"
    and reg: "registry_frame a (registry s) r"
      "map_of (resident r) (Suc a) = (if min_size_to_park (policy s) \<le> length (original s a) \<and> \<not> is_parked (i\<lparr>storage := st\<rparr>) then Some a else None)"
      "map_of (parked r) (Suc a) = (if is_parked (i\<lparr>storage := st\<rparr>) then Some a else None)"
    and st: "storage_ok (min_size_to_park (policy s)) (original s a) j (i\<lparr>storage := st\<rparr>)"
    and disk: "case p of None \<Rightarrow> image_handles t = Map.empty
      | Some p \<Rightarrow> pool_ok p (both ((image_handles s)(a := image_handle (original s a) j (Some (i\<lparr>storage := st\<rparr>)))) (other_handles s))"
  shows "park_inv t"
proof -
  note d = park_invD [OF inv i]
  have rd: "readers t = readers s" by (simp add: t readers_def fun_eq_iff)
  have "image_handles t = (image_handles s)(a := image_handle (original s a) j (Some (i\<lparr>storage := st\<rparr>)))"
    by (rule image_handles_update) (simp_all add: t)
  then have disk': "disk_ok t" using disk by (simp add: disk_ok_def t split: option.splits)
  have sn: "snapshots_ok t" using inv by (simp add: t park_inv_def snapshots_ok_def)
  have "image_ok (min_size_to_park (policy s)) (original s a) (readers t a) j (resident_at t (Suc a)) (parked_at t (Suc a)) a (i\<lparr>storage := st\<rparr>)"
    using d reg st rd by (simp add: image_ok_def t)
  from update_image [OF inv i _ _ _ _ _ this sn disk'] reg(1) rd show ?thesis by (simp add: t same_base_def)
qed

definition eligible :: "bool \<Rightarrow> instant \<Rightarrow> frozen_image_state \<Rightarrow> park_sys \<Rightarrow> bool" where
  "eligible force now i s \<longleftrightarrow> (case storage i of Resident _ _ \<Rightarrow> True | _ \<Rightarrow> False) \<and> reader_count i = 0 \<and>
     min_size_to_park (policy s) \<le> image_len i \<and> (force \<or> park_after i \<le> now)"

lemma prepare_refused:
  assumes "\<not> eligible force now i s"
  shows "\<exists>out. prepare_parking force now a i s = Some (ParkDone out, s) \<and> out \<noteq> ParkedNow"
proof (cases "storage i")
  case (Resident bytes b)
  have "\<exists>out. (if image_len i < min_size_to_park (policy s) then Some (ParkDone BelowMinimum, s)
      else if reader_count i \<noteq> 0 then Some (ParkDone InUse, s)
      else Some (ParkDone (Delayed (park_after i - now)), s)) = Some (ParkDone out, s) \<and> out \<noteq> ParkedNow" by simp
  with Resident assms show ?thesis by (auto simp: prepare_parking_def eligible_def not_le not_less)
qed (simp_all add: prepare_parking_def)

lemma prepare_eligible:
  assumes "eligible force now i s" "storage i = Resident bytes b"
  shows "prepare_parking force now a i s =
     (case b of
        Some disk \<Rightarrow>
          map_option (\<lambda>r. (ParkDone ParkedNow, s\<lparr>images := (images s)(a \<mapsto> i\<lparr>storage := Parked disk\<rparr>), registry := r\<rparr>))
            (move_to_parked (image_id i) a (registry s))
      | None \<Rightarrow>
          (case image_pool s of
             None \<Rightarrow> Some (ParkDone Unavailable, s)
           | Some p \<Rightarrow>
               (case try_reserve_chunk (image_len i) p of
                  None \<Rightarrow> None
                | Some (None, p) \<Rightarrow> Some (ParkDone Unavailable, s\<lparr>image_pool := Some p\<rparr>)
                | Some (Some e, p) \<Rightarrow>
                    Some (ParkWrite e bytes, s\<lparr>image_pool := Some p, images := (images s)(a \<mapsto> i\<lparr>storage := Parking bytes\<rparr>)\<rparr>))))"
proof -
  have "\<not> image_len i < min_size_to_park (policy s)" "reader_count i = 0" "\<not> (\<not> force \<and> now < park_after i)"
    using assms(1) by (auto simp: eligible_def)
  with assms(2) show ?thesis unfolding prepare_parking_def by (simp only: if_False frozen_image_storage.case if_True simp_thms)
qed

lemma reserve_for_image:
  assumes inv: "park_inv s" and i: "images s a = Some i" and st: "storage i = Resident bytes None" and p: "image_pool s = Some p"
  obtains "try_reserve_chunk (image_len i) p = Some (None, p)"
  | e p' where "try_reserve_chunk (image_len i) p = Some (Some e, p')" "ext_len e = image_len i"
      "pool_ok p' (both ((image_handles s)(a \<mapsto> ReservedChunk e)) (other_handles s))"
proof -
  have "jobs s a = None" using park_invD(5) [OF inv i] st by (simp add: storage_ok_def)
  then have "both (image_handles s) (other_handles s) (2 * a) = None"
    using i st by (simp add: image_handles_def image_handle_def disk_of_def)
  with inv p show thesis using pool_reserve [of p "both (image_handles s) (other_handles s)" "2 * a" "image_len i" thesis] that
    by (simp add: park_inv_def disk_ok_def)
qed

lemma prepare_cases [consumes 2, case_names unchanged moved writing]:
  assumes inv: "park_inv s" and i: "images s a = Some i"
  obtains (unchanged) out where "prepare_parking force now a i s = Some (ParkDone out, s)" "out \<noteq> ParkedNow"
      "eligible force now i s \<Longrightarrow> out = Unavailable"
  | (moved) e r where "prepare_parking force now a i s =
        Some (ParkDone ParkedNow, s\<lparr>images := (images s)(a \<mapsto> i\<lparr>storage := Parked e\<rparr>), registry := r\<rparr>)"
      "storage i = Resident (original s a) (Some e)" "eligible force now i s"
      "registry_frame a (registry s) r" "map_of (resident r) (Suc a) = None" "map_of (parked r) (Suc a) = Some a"
  | (writing) p e p' where "prepare_parking force now a i s =
        Some (ParkWrite e (original s a), s\<lparr>image_pool := Some p', images := (images s)(a \<mapsto> i\<lparr>storage := Parking (original s a)\<rparr>)\<rparr>)"
      "storage i = Resident (original s a) None" "eligible force now i s"
      "image_pool s = Some p" "try_reserve_chunk (length (original s a)) p = Some (Some e, p')" "ext_len e = length (original s a)"
      "pool_ok p' (both ((image_handles s)(a \<mapsto> ReservedChunk e)) (other_handles s))"
proof (cases "eligible force now i s")
  case False
  with prepare_refused [OF False, of a] unchanged show thesis by blast
next
  case True
  note d = park_invD [OF inv i]
  obtain bytes b where st: "storage i = Resident bytes b"
    using True by (auto simp: eligible_def split: frozen_image_storage.splits)
  note prep = prepare_eligible [OF True st, of a]
  have bytes: "bytes = original s a" using d(5) st by (simp add: storage_ok_def)
  show thesis
  proof (cases b)
    case (Some e)
    have "\<not> is_parked i" "min_size_to_park (policy s) \<le> length (original s a)"
      using st True d(3) by (simp_all add: is_parked_def eligible_def)
    from move_out_of_resident [OF inv i this] obtain r where
      r: "move_to_parked (image_id i) a (registry s) = Some r" "registry_frame a (registry s) r"
      "map_of (resident r) (Suc a) = None" "map_of (parked r) (Suc a) = Some a" by blast
    show thesis by (rule moved [OF _ _ True r(2-4)]) (use prep Some r(1) st bytes in simp_all)
  next
    case None
    show thesis
    proof (cases "image_pool s")
      case (Some p)
      have same: "s\<lparr>image_pool := Some p\<rparr> = s" using Some by (cases s) simp
      from inv i st [unfolded None] Some show thesis
      proof (cases rule: reserve_for_image)
        case 1
        with prep None Some same show thesis by (intro unchanged [of Unavailable]) simp_all
      next
        case (2 e p')
        show thesis by (rule writing [OF _ _ True Some _ _ 2(3)]) (use 2 prep None Some st bytes d(3) in simp_all)
      qed
    qed (use prep None in \<open>intro unchanged [of Unavailable], simp_all\<close>)
  qed
qed

lemma same_storage [simp]: "i\<lparr>storage := storage i\<rparr> = i" "i\<lparr>storage := Parked e, storage := st\<rparr> = i\<lparr>storage := st\<rparr>"
  by simp_all

lemma start_parking_step:
  assumes inv: "park_inv s" and i: "images s a = Some i"
  shows "\<exists>s'. start_parking force now a i s = Some s' \<and> park_inv s'"
  using assms
proof (cases rule: prepare_cases [where force = force and now = now])
  case (unchanged out)
  with inv show ?thesis by (simp add: start_parking_def)
next
  case (moved e r)
  note d = park_invD [OF inv i]
  let ?t = "s\<lparr>images := (images s)(a \<mapsto> i\<lparr>storage := Parked e\<rparr>), registry := r\<rparr>"
  have j: "jobs s a = None" using d(5) moved(2) by (simp add: storage_ok_def)
  have h: "image_handles s a = Some (DiskData e (original s a))"
    using image_handle_at [OF inv i j] moved(2) by (simp add: disk_of_def)
  then obtain p where p: "image_pool s = Some p" "pool_ok p (both (image_handles s) (other_handles s))"
    using image_pool_of [OF inv, of a] by auto
  have "park_inv ?t"
  proof (rule restore_image [where st = "Parked e" and j = None and p = "image_pool s", OF inv i _ moved(4)])
    show "?t = s\<lparr>images := (images s)(a \<mapsto> i\<lparr>storage := Parked e\<rparr>), jobs := (jobs s)(a := None), registry := r, image_pool := image_pool s\<rparr>"
      using j by (cases s) (auto simp: fun_upd_idem)
  qed (use moved d p h in \<open>simp_all add: storage_ok_def is_parked_def eligible_def image_handle_def disk_of_def fun_upd_idem\<close>)
  with moved(1) show ?thesis by (simp add: start_parking_def)
next
  case (writing p e p')
  note d = park_invD [OF inv i]
  have j: "jobs s a = None" using d(5) writing(2) by (simp add: storage_ok_def)
  let ?t = "s\<lparr>image_pool := Some p', images := (images s)(a \<mapsto> i\<lparr>storage := Parking (original s a)\<rparr>), jobs := (jobs s)(a \<mapsto> Writing e (original s a))\<rparr>"
  have "park_inv ?t"
  proof (rule restore_image [where st = "Parking (original s a)" and j = "Some (Writing e (original s a))" and p = "Some p'", OF inv i _ registry_frame_refl])
  qed (use writing d in \<open>simp_all add: storage_ok_def is_parked_def eligible_def image_handle_def\<close>)
  with writing(1) j show ?thesis by (simp add: start_parking_def)
qed

lemma job_image:
  assumes inv: "park_inv s" and j: "jobs s a = Some job"
  obtains i where "images s a = Some i" "storage i = Parking (original s a)" "job_bytes job = original s a"
    "min_size_to_park (policy s) \<le> length (original s a)"
proof -
  from inv j obtain i where i: "images s a = Some i" by (auto simp: park_inv_def)
  from park_invD(5) [OF inv i] j that [OF i] show thesis by (auto simp: storage_ok_def split: frozen_image_storage.splits)
qed

lemma writing_handle:
  assumes inv: "park_inv s" and j: "jobs s a = Some (Writing e bytes)"
  obtains p where "image_pool s = Some p" "pool_ok p (both (image_handles s) (other_handles s))" "image_handles s a = Some (ReservedChunk e)"
proof -
  have "image_handles s a = Some (ReservedChunk e)" using j by (simp add: image_handles_def image_handle_def)
  with image_pool_of [OF inv, of a] that show thesis by auto
qed

lemma write_job_step:
  assumes inv: "park_inv s" and w: "write_job rs a s = Some s'"
  shows "park_inv s'"
proof (cases "\<exists>e bytes. jobs s a = Some (Writing e bytes)")
  case False
  with w inv show ?thesis by (auto simp: write_job_def split: option.splits park_job.splits)
next
  case True
  then obtain e bytes where j: "jobs s a = Some (Writing e bytes)" by blast
  obtain i where i: "images s a = Some i" and st: "storage i = Parking (original s a)" "bytes = original s a"
    "min_size_to_park (policy s) \<le> length (original s a)"
    using job_image [OF inv j] by auto
  obtain p where p: "image_pool s = Some p" "pool_ok p (both (image_handles s) (other_handles s))" "image_handles s a = Some (ReservedChunk e)"
    using writing_handle [OF inv j] by blast
  from w j p(1) obtain r p' where r: "pool_write rs e bytes p = Some (r, p')"
    and s': "s' = s\<lparr>image_pool := Some p', jobs := (jobs s)(a \<mapsto> Written r bytes)\<rparr>"
    by (auto simp: write_job_def)
  have pw: "case r of Inr e' \<Rightarrow> e' = e \<and> pool_ok p' (both ((image_handles s)(a \<mapsto> DiskData e bytes)) (other_handles s))
      | Inl _ \<Rightarrow> pool_ok p' (both ((image_handles s)(a := None)) (other_handles s))"
    using pool_write_result [OF p(2) _ r, of "2 * a"] p(3) by (simp split: sum.splits)
  show ?thesis
  proof (rule restore_image [where st = "storage i" and j = "Some (Written r bytes)" and p = "Some p'", OF inv i _ registry_frame_refl])
    show "s' = s\<lparr>images := (images s)(a \<mapsto> i\<lparr>storage := storage i\<rparr>), jobs := (jobs s)(a \<mapsto> Written r bytes), registry := registry s, image_pool := Some p'\<rparr>"
      using i by (simp add: s' fun_upd_idem)
  qed (use park_invD [OF inv i] st pw in \<open>auto simp: storage_ok_def is_parked_def image_handle_def split: sum.splits\<close>)
qed

lemma restore_keeps:
  assumes inv: "park_inv s" and i: "images s a = Some i" and reg: "registry_frame a (registry s) r"
    and res: "map_of (resident r) (Suc a) = (if min_size_to_park (policy s) \<le> length (original s a) \<and> \<not> is_parked (i\<lparr>storage := st\<rparr>) then Some a else None)"
    and par: "map_of (parked r) (Suc a) = (if is_parked (i\<lparr>storage := st\<rparr>) then Some a else None)"
    and st: "storage_ok (min_size_to_park (policy s)) (original s a) j (i\<lparr>storage := st\<rparr>)"
    and h: "image_handle (original s a) j (Some (i\<lparr>storage := st\<rparr>)) = image_handles s a"
  shows "park_inv (s\<lparr>images := (images s)(a \<mapsto> i\<lparr>storage := st\<rparr>), jobs := (jobs s)(a := j), registry := r\<rparr>)"
proof -
  let ?t = "s\<lparr>images := (images s)(a \<mapsto> i\<lparr>storage := st\<rparr>), jobs := (jobs s)(a := j), registry := r\<rparr>"
  have "image_handles ?t = image_handles s" using h by (subst image_handles_update [of ?t s a "Some (i\<lparr>storage := st\<rparr>)" j]) simp_all
  with inv h have "case image_pool s of None \<Rightarrow> image_handles ?t = Map.empty
      | Some p \<Rightarrow> pool_ok p (both ((image_handles s)(a := image_handle (original s a) j (Some (i\<lparr>storage := st\<rparr>)))) (other_handles s))"
    by (simp add: park_inv_def disk_ok_def split: option.splits)
  moreover have "?t = s\<lparr>images := (images s)(a \<mapsto> i\<lparr>storage := st\<rparr>), jobs := (jobs s)(a := j), registry := r, image_pool := image_pool s\<rparr>"
    by (cases s) simp
  ultimately show ?thesis by (rule restore_image [where p = "image_pool s", OF inv i _ reg res par st, rotated])
qed

lemma complete_job_step:
  assumes inv: "park_inv s" and i: "images s a = Some i"
  shows "\<exists>s'. complete_job a i s = Some s' \<and> park_inv s'"
proof (cases "\<exists>r bytes. jobs s a = Some (Written r bytes)")
  case False
  then have "complete_job a i s = Some s" by (auto simp: complete_job_def split: option.splits park_job.splits)
  with inv show ?thesis by simp
next
  case True
  then obtain r bytes where j: "jobs s a = Some (Written r bytes)" by blast
  have st: "storage i = Parking (original s a)" "bytes = original s a" "min_size_to_park (policy s) \<le> length (original s a)"
    using job_image [OF inv j] i by auto
  note d = park_invD [OF inv i]
  have np: "\<not> is_parked i" using st by (simp add: is_parked_def)
  have h: "image_handles s a = (case r of Inr e \<Rightarrow> Some (DiskData e (original s a)) | Inl _ \<Rightarrow> None)"
    using j st by (simp add: image_handles_def image_handle_def split: sum.split)
  consider e where "r = Inr e" "reader_count i = 0"
    | b where "r = (case b of Some e \<Rightarrow> Inr e | None \<Rightarrow> r)" "b = None \<Longrightarrow> \<exists>err. r = Inl err" "b \<noteq> None \<Longrightarrow> reader_count i \<noteq> 0"
    by (cases r) (force, metis option.case(2) option.discI)
  then show ?thesis
  proof cases
    case (1 e)
    obtain reg where m: "move_to_parked (image_id i) a (registry s) = Some reg" "registry_frame a (registry s) reg"
      "map_of (resident reg) (Suc a) = None" "map_of (parked reg) (Suc a) = Some a"
      using move_out_of_resident [OF inv i np st(3)] by blast
    have "park_inv (s\<lparr>images := (images s)(a \<mapsto> i\<lparr>storage := Parked e\<rparr>), jobs := (jobs s)(a := None), registry := reg\<rparr>)"
      by (rule restore_keeps [OF inv i m(2)])
        (use m 1 st h in \<open>simp_all add: storage_ok_def is_parked_def image_handle_def disk_of_def\<close>)
    also have "s\<lparr>images := (images s)(a \<mapsto> i\<lparr>storage := Parked e\<rparr>), jobs := (jobs s)(a := None), registry := reg\<rparr> =
        s\<lparr>images := (images s)(a \<mapsto> i\<lparr>storage := Parked e\<rparr>), registry := reg, jobs := (jobs s)(a := None)\<rparr>" by (cases s) simp
    finally show ?thesis using j m(1) 1 st by (simp add: complete_job_def complete_parking_write_def)
  next
    case (2 b)
    have "park_inv (s\<lparr>images := (images s)(a \<mapsto> i\<lparr>storage := Resident (original s a) b\<rparr>), jobs := (jobs s)(a := None), registry := registry s\<rparr>)"
      by (rule restore_keeps [OF inv i registry_frame_refl])
        (use 2 d np st h in \<open>auto simp: storage_ok_def is_parked_def image_handle_def disk_of_def split: option.splits\<close>)
    with j 2 st show ?thesis by (cases b) (auto simp: complete_job_def complete_parking_write_def)
  qed
qed


subsection \<open>Creation and removal of images\<close>

lemma image_registry_okD:
  "registry_ok s \<Longrightarrow> resident_at s n = Some c \<or> parked_at s n = Some c \<Longrightarrow>
   n = Suc c \<and> c < next_address s \<and> (images s c \<noteq> None \<or> n \<in> set (dying s))"
  unfolding registry_ok_def by blast

lemma registry_ok_dying:
  assumes "registry_ok s" "registry t = registry s" "next_address t = next_address s" "set (dying s) \<subseteq> set (dying t)"
    "\<And>c. images s c \<noteq> None \<Longrightarrow> images t c \<noteq> None \<or> Suc c \<in> set (dying t)"
  shows "registry_ok t"
proof -
  have "n = Suc c \<and> c < next_address t \<and> (images t c \<noteq> None \<or> n \<in> set (dying t))"
    if "resident_at t n = Some c \<or> parked_at t n = Some c" for n c
    using image_registry_okD [OF assms(1), of n c] assms(2-5) that by auto
  with assms(1,2) show ?thesis unfolding registry_ok_def by simp
qed

lemma drop_image_step:
  assumes inv: "park_inv s" and i: "images s a = Some i" and j: "jobs s a = None"
  shows "\<exists>s'. drop_image a i s = Some s' \<and> park_inv s'"
proof -
  note d = park_invD [OF inv i]
  have ih: "image_handles s a = map_option (\<lambda>e. DiskData e (original s a)) (disk_of (storage i))"
    using i j by (simp add: image_handles_def image_handle_def)
  let ?t = "\<lambda>q. s\<lparr>images := (images s)(a := None), dying := Suc a # dying s, image_pool := q\<rparr>"
  have ht: "image_handles (?t q) = (image_handles s)(a := None)" for q
    using j by (subst image_handles_update [of "?t q" s a None None]) (auto simp: image_handle_def)
  have "\<exists>q. drop_image a i s = Some (?t q) \<and> disk_ok (?t q)"
  proof (cases "disk_of (storage i)")
    case None
    have "drop_image a i s = Some (?t (image_pool s))" using None d(2) by (cases s) (simp add: drop_image_def)
    moreover have "disk_ok (?t (image_pool s)) = disk_ok s"
      by (rule disk_ok_cong) (use ht [of "image_pool s"] ih None in \<open>simp_all add: fun_upd_idem\<close>)
    ultimately have "drop_image a i s = Some (?t (image_pool s)) \<and> disk_ok (?t (image_pool s))" using inv by (simp only: park_inv_def)
    then show ?thesis by (rule exI)
  next
    case (Some e)
    then obtain p where p: "image_pool s = Some p" "pool_ok p (both (image_handles s) (other_handles s))"
      using image_pool_of [OF inv, of a] ih by auto
    obtain p' where "pool_release e p = Some p'" "pool_ok p' (both ((image_handles s)(a := None)) (other_handles s))"
      using pool_release_handle [OF p(2), of "2 * a" "DiskData e (original s a)"] ih Some by auto
    then show ?thesis using p(1) Some d(2) ht by (auto simp: drop_image_def disk_ok_def)
  qed
  then obtain q where q: "drop_image a i s = Some (?t q)" "disk_ok (?t q)" by blast
  have rd: "readers (?t q) = readers s" by (simp add: readers_def fun_eq_iff)
  have "images_ok (?t q)" using inv rd by (auto simp: park_inv_def images_ok_def split: if_splits)
  moreover have "registry_ok (?t q)" by (rule registry_ok_dying [of s]) (use inv in \<open>auto simp: park_inv_def\<close>)
  moreover have "dying_ok (?t q)" using inv d(1) unfolding park_inv_def dying_ok_def by auto
  ultimately have "park_inv (?t q)" using inv q(2) j by (auto simp: park_inv_def snapshots_ok_def)
  with q(1) show ?thesis by blast
qed

lemma registry_removed:
  assumes "map_of (resident r) n = None \<or> map_of (parked r) n = None" "registry_remove n r = (b, r')"
  shows "map_of (resident r') k = (if k = n then None else map_of (resident r) k)"
    "map_of (parked r') k = (if k = n then None else map_of (parked r) k)"
    "distinct (map fst (resident r)) \<Longrightarrow> distinct (map fst (resident r'))"
    "distinct (map fst (parked r)) \<Longrightarrow> distinct (map fst (parked r'))"
  using assms by (auto simp: registry_remove_def delete_conv' distinct_delete split: if_splits)

lemma unregister_step:
  assumes inv: "park_inv s" and n: "n \<in> set (dying s)"
  shows "park_inv (unregister n (s\<lparr>dying := remove1 n (dying s)\<rparr>))"
proof -
  obtain b r where br: "registry_remove n (registry s) = (b, r)" by fastforce
  let ?t = "s\<lparr>dying := remove1 n (dying s), registry := r\<rparr>"
  have dead: "n \<noteq> Suc a" if "images s a \<noteq> None" for a
    using inv n that by (auto simp: park_inv_def dying_ok_def)
  have reg: "registry_ok s" using inv by (simp add: park_inv_def)
  then have "map_of (resident (registry s)) n = None \<or> map_of (parked (registry s)) n = None" by (simp add: registry_ok_def)
  note m = registry_removed [OF this br]
  have hs: "image_handles ?t = image_handles s" "readers ?t = readers s" by (simp_all add: image_handles_def readers_def fun_eq_iff)
  then have "disk_ok ?t" using inv disk_ok_cong [of ?t s] by (simp add: park_inv_def)
  moreover have "images_ok ?t" unfolding images_ok_def
  proof (intro allI impI)
    fix a i assume i: "images ?t a = Some i"
    then have "Suc a \<noteq> n" using dead [of a] by auto
    with i inv m(1,2) hs(2) show "a < next_address ?t \<and> image_ok (min_size_to_park (policy ?t)) (original ?t a) (readers ?t a) (jobs ?t a)
        (resident_at ?t (Suc a)) (parked_at ?t (Suc a)) a i"
      by (simp add: park_inv_def images_ok_def)
  qed
  moreover have "registry_ok ?t" unfolding registry_ok_def
  proof (intro conjI allI impI)
    fix k c assume "resident_at ?t k = Some c \<or> parked_at ?t k = Some c"
    then have k: "k \<noteq> n" "resident_at s k = Some c \<or> parked_at s k = Some c" using m(1,2) by (auto split: if_splits)
    then have h: "k = Suc c \<and> c < next_address s \<and> (images s c \<noteq> None \<or> k \<in> set (dying s))"
      using reg unfolding registry_ok_def by blast
    then show "k = Suc c" "c < next_address ?t" "images ?t c \<noteq> None \<or> k \<in> set (dying ?t)"
      using k(1) in_set_remove1 [of k n "dying s"] by auto
  qed (use reg m in \<open>auto simp: registry_ok_def\<close>)
  moreover have "dying_ok ?t" using inv notin_set_remove1 [of _ "dying s" n] unfolding park_inv_def dying_ok_def by auto
  ultimately have "park_inv ?t" using inv by (simp add: park_inv_def snapshots_ok_def)
  then show ?thesis using br by (simp add: unregister_def)
qed

lemma fresh_address:
  assumes "park_inv s" "a = next_address s"
  shows "images s a = None" "jobs s a = None" "resident_at s (Suc a) = None" "parked_at s (Suc a) = None" "readers s a = 0"
    "image_handles s a = None"
proof -
  show i: "images s a = None" using assms by (cases "images s a") (auto simp: park_inv_def images_ok_def)
  then show j: "jobs s a = None" using assms(1) by (cases "jobs s a") (auto simp: park_inv_def)
  have "resident_at s (Suc a) \<noteq> Some c" "parked_at s (Suc a) \<noteq> Some c" for c
    using assms unfolding park_inv_def registry_ok_def by blast+
  then show "resident_at s (Suc a) = None" "parked_at s (Suc a) = None" by auto
  show "readers s a = 0" using assms by (auto simp: park_inv_def snapshots_ok_def readers_def filter_empty_conv)
  show "image_handles s a = None" using i j by (simp add: image_handles_def image_handle_def)
qed

text \<open>A new image at the next address.\<close>

lemma add_image:
  assumes inv: "park_inv s" and a: "a = next_address s" and bound: "a < u64_max"
    and i: "i = \<lparr>storage = Resident bytes None, park_after = u, image_len = length bytes, reader_count = 0, image_id = Suc a\<rparr>"
    and reg: "registry_frame a (registry s) r" "map_of (parked r) (Suc a) = None"
      "map_of (resident r) (Suc a) = (if min_size_to_park (policy s) \<le> length bytes then Some a else None)"
    and t: "t = s\<lparr>next_image_id := Suc a, images := (images s)(a \<mapsto> i), next_address := Suc a, original := (original s)(a := bytes), registry := r\<rparr>"
  shows "park_inv t"
proof -
  note f = fresh_address [OF inv a]
  have rd: "readers t = readers s" by (simp add: t readers_def fun_eq_iff)
  have "image_handles t = image_handles s"
    using f i by (auto simp: t image_handles_def image_handle_def disk_of_def fun_eq_iff)
  then have "disk_ok t" using inv disk_ok_cong [of t s] by (simp add: park_inv_def t)
  moreover have "images_ok t" unfolding images_ok_def
  proof (intro allI impI)
    fix c k assume k: "images t c = Some k"
    show "c < next_address t \<and> image_ok (min_size_to_park (policy t)) (original t c) (readers t c) (jobs t c)
        (resident_at t (Suc c)) (parked_at t (Suc c)) c k"
    proof (cases "c = a")
      case True
      with k have "k = i" by (simp add: t)
      with True f reg rd show ?thesis by (simp add: t i image_ok_def storage_ok_def is_parked_def)
    next
      case False
      with k have c: "images s c = Some k" by (simp add: t)
      have "resident_at t (Suc c) = resident_at s (Suc c)" "parked_at t (Suc c) = parked_at s (Suc c)"
        using reg(1) False by (simp_all add: t registry_frame_def)
      moreover have "policy t = policy s" "original t c = original s c" "jobs t c = jobs s c" "c < next_address t"
        using False park_invD(1) [OF inv c] a by (simp_all add: t)
      ultimately show ?thesis using inv c rd a by (simp add: park_inv_def images_ok_def)
    qed
  qed
  moreover have "registry_ok t" unfolding registry_ok_def
  proof (intro conjI allI impI)
    have r: "registry_ok s" using inv by (simp add: park_inv_def)
    show "distinct (map fst (resident (registry t)))" "distinct (map fst (parked (registry t)))"
      using r reg(1) by (simp_all add: t registry_ok_def registry_frame_def)
    show "resident_at t n = None \<or> parked_at t n = None" for n
      using r reg by (cases "n = Suc a") (simp_all add: t registry_ok_def registry_frame_def)
    fix n c assume n: "resident_at t n = Some c \<or> parked_at t n = Some c"
    have "n = Suc c \<and> c < next_address t \<and> (images t c \<noteq> None \<or> n \<in> set (dying t))"
    proof (cases "n = Suc a")
      case True
      with n reg show ?thesis by (auto simp: t split: if_splits)
    next
      case False
      with n reg(1) have "resident_at s n = Some c \<or> parked_at s n = Some c" by (simp add: t registry_frame_def)
      from image_registry_okD [OF r this] a show ?thesis by (auto simp: t)
    qed
    then show "n = Suc c" "c < next_address t" "images t c \<noteq> None \<or> n \<in> set (dying t)" by auto
  qed
  moreover have "dying_ok t" by (rule dying_ok_mono [of s]) (use inv a in \<open>auto simp: park_inv_def t\<close>)
  moreover have "snapshots_ok t" using inv a by (auto simp: t park_inv_def snapshots_ok_def)
  ultimately show ?thesis using inv by (auto simp: park_inv_def t)
qed

lemma new_step:
  assumes inv: "park_inv s" and bound: "next_address s < u64_max"
  shows "from_frozen_bytes bytes now s = Some s' \<Longrightarrow> park_inv s'"
    "now + parking_delay (policy s) \<le> instant_bound \<Longrightarrow> from_frozen_bytes bytes now s \<noteq> None"
proof -
  let ?a = "next_address s"
  let ?i = "\<lambda>u. \<lparr>storage = Resident bytes None, park_after = u, image_len = length bytes, reader_count = 0, image_id = Suc (next_address s)\<rparr>"
  let ?t = "\<lambda>u r. s\<lparr>next_image_id := Suc ?a, images := (images s)(?a \<mapsto> ?i u), next_address := Suc ?a, original := (original s)(?a := bytes), registry := r\<rparr>"
  note f = fresh_address [OF inv refl]
  have "next_image_id s = ?a" using inv by (simp add: park_inv_def)
  moreover have "Suc ?a mod 2 ^ 64 = Suc ?a" "min u64_max (Suc ?a) = Suc ?a" using bound by (simp_all add: u64_max_def)
  ultimately have id: "allocate_image_id s = (Suc ?a, s\<lparr>next_image_id := Suc ?a\<rparr>)" by (simp add: allocate_image_id_def)
  obtain r where r: "register_resident (Suc ?a) ?a (registry s) = Some r" using f by (simp add: register_resident_def)
  have e: "from_frozen_bytes bytes now s = map_option (\<lambda>u. if min_size_to_park (policy s) \<le> length bytes then notify_later (?t u r) else ?t u (registry s))
      (instant_add now (parking_delay (policy s)))"
    using id r by (cases s) (simp add: from_frozen_bytes_def image_new_def option.case_eq_if map_option_case)
  show "from_frozen_bytes bytes now s \<noteq> None" if "now + parking_delay (policy s) \<le> instant_bound"
    using that by (simp add: e instant_add_def)
  assume "from_frozen_bytes bytes now s = Some s'"
  then obtain u where s': "s' = (if min_size_to_park (policy s) \<le> length bytes then notify_later (?t u r) else ?t u (registry s))"
    by (auto simp: e)
  show "park_inv s'"
  proof (cases "min_size_to_park (policy s) \<le> length bytes")
    case True
    have "park_inv (?t u r)"
      by (rule add_image [OF inv refl bound refl registered(1) [OF r] registered(3) [OF r] _ refl]) (use registered(2) [OF r] True in simp)
    with s' True show ?thesis by simp
  next
    case False
    have "park_inv (?t u (registry s))"
      by (rule add_image [OF inv refl bound refl registry_frame_refl _ _ refl]) (use f False in simp_all)
    with s' False show ?thesis by simp
  qed
qed

lemma other_pool_step:
  assumes inv: "park_inv s" and p: "image_pool s = Some p" and x: "pool_step x \<lparr>sys_pool = p, handles = other_handles s\<rparr> = Some t"
  shows "park_inv (s\<lparr>image_pool := Some (sys_pool t), other_handles := handles t\<rparr>)"
proof -
  let ?t = "s\<lparr>image_pool := Some (sys_pool t), other_handles := handles t\<rparr>"
  have hs: "image_handles ?t = image_handles s" "readers ?t = readers s" by (simp_all add: image_handles_def readers_def fun_eq_iff)
  have "pool_ok (sys_pool t) (both (image_handles s) (handles t))"
    using other_step_ok [OF _ x] inv p by (simp add: park_inv_def disk_ok_def)
  then have "disk_ok ?t" using hs by (simp add: disk_ok_def)
  with inv hs show ?thesis by (simp add: park_inv_def images_ok_def registry_ok_def dying_ok_def snapshots_ok_def)
qed


subsection \<open>All interleavings\<close>

lemma flags_keep [simp]:
  "park_inv (notify_schedule_changed (s\<lparr>notifications := k\<rparr>)) = park_inv s" "park_inv (snd (begin_scheduled_sweep s)) = park_inv s"
  "park_inv (begin_forced_sweep s) = park_inv s" "park_inv (finish_sweep n s) = park_inv s"
  by (rule park_inv_cong; simp add: notify_schedule_changed_def begin_scheduled_sweep_def begin_forced_sweep_def finish_sweep_def Let_def same_base_def)+

lemma park_step_keeps:
  assumes inv: "park_inv s" and x: "park_step x s = Some s'" and bound: "next_address s' \<le> u64_max"
  shows "park_inv s'"
proof (cases x)
  case (OpNew bytes now)
  then have "next_address s' = Suc (next_address s)"
    using x by (auto simp: from_frozen_bytes_def allocate_image_id_def Let_def split: option.splits if_splits)
  with OpNew x bound inv show ?thesis using new_step(1) [OF inv, of bytes now s'] by simp
next
  case (OpSnapshot a rs)
  with x inv show ?thesis
    by (auto simp: with_image_def dest: snapshot_step split: option.splits)
next
  case (OpCloneSnapshot k)
  with x inv show ?thesis using clone_snapshot_step by (auto split: if_splits)
next
  case (OpDropSnapshot k now)
  with x inv show ?thesis using drop_snapshot_step by (auto split: if_splits)
next
  case (OpPrepare a force now)
  with x inv show ?thesis using start_parking_step [OF inv, of a _ force now] by (auto simp: with_image_def split: option.splits)
next
  case (OpWrite a rs)
  with x inv show ?thesis using write_job_step by simp
next
  case (OpComplete a)
  with x inv show ?thesis using complete_job_step [OF inv, of a] by (auto simp: with_image_def split: option.splits)
next
  case (OpDropImage a)
  with x inv show ?thesis using drop_image_step [OF inv, of a] by (auto simp: with_image_def split: option.splits if_splits)
next
  case (OpUnregister n)
  with x inv show ?thesis using unregister_step [OF inv, of n] by auto
next
  case (OpOther y)
  with x inv show ?thesis using other_pool_step [OF inv] by (auto split: option.splits)
qed (use x inv in auto)

text \<open>The images are numbered in the order they are made, and only making one changes what is
  remembered about it.\<close>

definition base :: "park_sys \<Rightarrow> nat \<times> (nat \<Rightarrow> u8 list) \<times> parkable_image_policy" where
  "base s = (next_address s, original s, policy s)"

lemma base_notify [simp]: "base (notify_later s) = base s"
  by (simp add: base_def)

lemma base_lease: "lease a i s = Some (x, s') \<Longrightarrow> base s' = base s"
  by (auto simp: lease_def base_def split: frozen_image_storage.splits option.splits if_splits)

lemma base_snapshot: "snapshot rs a i s = Some (x, s') \<Longrightarrow> base s' = base s"
  by (auto simp: snapshot_def dest!: base_lease split: frozen_image_storage.splits option.splits sum.splits if_splits)
    (simp_all add: base_def)

lemma base_prepare: "prepare_parking force now a i s = Some (x, s') \<Longrightarrow> base s' = base s"
  by (auto simp: prepare_parking_def base_def split: frozen_image_storage.splits option.splits if_splits)

lemma base_complete: "complete_parking_write r bytes a i s = Some (x, s') \<Longrightarrow> base s' = base s"
  by (auto simp: complete_parking_write_def base_def split: frozen_image_storage.splits option.splits sum.splits if_splits)

lemma base_release: "release_snapshot_reader now a i s = Some s' \<Longrightarrow> base s' = base s"
  by (elim release_result) (simp add: base_def)

lemma base_step:
  assumes "park_step x s = Some s'"
  shows "base s' = (case x of OpNew bytes now \<Rightarrow> (Suc (next_address s), (original s)(next_address s := bytes), policy s) | _ \<Rightarrow> base s)"
proof (cases x)
  case (OpNew bytes now)
  with assms show ?thesis
    by (auto simp: base_def from_frozen_bytes_def allocate_image_id_def Let_def split: option.splits if_splits)
next
  case (OpSnapshot a rs)
  with assms show ?thesis by (auto simp: with_image_def dest: base_snapshot split: option.splits)
next
  case (OpCloneSnapshot k)
  with assms show ?thesis
    by (auto simp: clone_snapshot_def with_image_def retain_snapshot_reader_def base_def split: if_splits option.splits prod.splits)
next
  case (OpDropSnapshot k now)
  with assms show ?thesis
    by (auto simp: drop_snapshot_def with_image_def split: if_splits option.splits prod.splits dest!: base_release) (simp_all add: base_def)
next
  case (OpPrepare a force now)
  with assms show ?thesis
    by (auto simp: with_image_def start_parking_def split: option.splits park_preparation.splits if_splits dest!: base_prepare)
      (simp_all add: base_def)
next
  case (OpWrite a rs)
  with assms show ?thesis by (auto simp: write_job_def base_def split: option.splits park_job.splits)
next
  case (OpComplete a)
  with assms show ?thesis
    by (auto simp: with_image_def complete_job_def split: option.splits park_job.splits dest!: base_complete) (simp_all add: base_def)
next
  case (OpDropImage a)
  with assms show ?thesis by (auto simp: with_image_def drop_image_def base_def Let_def split: option.splits if_splits)
next
  case (OpUnregister n)
  with assms show ?thesis by (auto simp: unregister_def Let_def split_beta base_def)
qed (use assms in \<open>auto simp: base_def notify_schedule_changed_def begin_scheduled_sweep_def begin_forced_sweep_def finish_sweep_def
    Let_def split: option.splits\<close>)

fun created :: "park_op list \<Rightarrow> u8 list list" where
  "created [] = []"
| "created (OpNew bytes now # xs) = bytes # created xs"
| "created (_ # xs) = created xs"

lemma created_append: "created (xs @ ys) = created xs @ created ys"
  by (induction xs rule: created.induct) simp_all

lemma run_base:
  "run park_step xs (manager_new p pol) = Some s \<Longrightarrow>
   next_address s = length (created xs) \<and> (\<forall>a < length (created xs). original s a = created xs ! a) \<and> policy s = pol"
proof (induction xs arbitrary: s rule: rev_induct)
  case Nil
  then show ?case by (auto simp: manager_new_def)
next
  case (snoc x xs)
  then obtain t where t: "run park_step xs (manager_new p pol) = Some t" "park_step x t = Some s"
    by (auto simp: run_append split: Option.bind_splits)
  from base_step [OF t(2)] snoc.IH [OF t(1)] show ?case
    by (cases x) (auto simp: created_append base_def nth_append less_Suc_eq)
qed

lemma next_address_mono: "park_step x s = Some s' \<Longrightarrow> next_address s \<le> next_address s'"
  using base_step [of x s s'] by (cases x) (auto simp: base_def)

interpretation park_system: kept_system park_step "\<lambda>s. next_address s \<le> u64_max \<longrightarrow> park_inv s"
  by unfold_locales (use park_step_keeps next_address_mono order_trans in blast)

text \<open>A manager with the pool the runtime made for it, or without one.\<close>

definition new_manager :: "nat option option \<Rightarrow> (nat \<Rightarrow> u8) \<Rightarrow> parkable_image_policy \<Rightarrow> park_sys" where
  "new_manager cap f pol = manager_new (map_option (\<lambda>c. disk_pool_new c f) cap) pol"

lemma new_manager_inv: "park_inv (new_manager cap f pol)"
proof -
  have e: "image_handles (new_manager cap f pol) = Map.empty" "other_handles (new_manager cap f pol) = Map.empty"
    by (simp_all add: new_manager_def manager_new_def image_handles_def image_handle_def fun_eq_iff)
  have "both Map.empty Map.empty = Map.empty" by (simp add: both_def fun_eq_iff)
  then have "disk_ok (new_manager cap f pol)"
    using pool_inv_new e by (cases cap) (simp_all add: disk_ok_def new_manager_def manager_new_def pool_ok_def pool_sys_new_def)
  then show ?thesis
    by (simp add: park_inv_def images_ok_def registry_ok_def dying_ok_def snapshots_ok_def new_manager_def manager_new_def)
qed

lemma run_policy: "run park_step xs (new_manager cap f pol) = Some s \<Longrightarrow> policy s = pol"
  using run_base [of xs _ pol s] by (simp add: new_manager_def)

lemma reached_inv:
  assumes "run park_step xs (new_manager cap f pol) = Some s" "length (created xs) \<le> u64_max"
  shows "park_inv s" "next_address s = length (created xs)" "a < length (created xs) \<Longrightarrow> original s a = created xs ! a"
  using park_system.run_inv [of "new_manager cap f pol" xs s] new_manager_inv [of cap f pol] assms
    run_base [of xs _ pol s] by (auto simp: new_manager_def)


subsection \<open>Operations return\<close>

lemma reader_bound: "park_inv s \<Longrightarrow> images s a = Some i \<Longrightarrow> reader_count i \<le> length (snapshots s)"
  using park_invD(4) by (simp add: readers_def)

lemma lease_returns: "\<not> is_parked i \<Longrightarrow> reader_count i < u64_max \<Longrightarrow> \<exists>s'. lease a i s = Some (Inr (case storage i of Resident b _ \<Rightarrow> b | Parking b \<Rightarrow> b), s')"
  by (auto simp: lease_def is_parked_def checked_add_def split: frozen_image_storage.splits)

lemma snapshot_returns:
  assumes inv: "park_inv s" and i: "images s a = Some i" and n: "reader_count i < u64_max"
    and io: "\<And>e p. storage i = Parked e \<Longrightarrow> image_pool s = Some p \<Longrightarrow> to_vec rs e p \<noteq> None"
  shows "\<exists>x s'. snapshot rs a i s = Some (x, s')"
proof (cases "is_parked i")
  case False
  from lease_returns [OF False n, of a s] False show ?thesis
    by (auto simp: snapshot_def is_parked_def split: frozen_image_storage.splits)
next
  case True
  then obtain e where e: "storage i = Parked e" by (auto simp: is_parked_def split: frozen_image_storage.splits)
  obtain p where p: "image_pool s = Some p" "pool_ok p (both (image_handles s) (other_handles s))"
    "image_handles s a = Some (DiskData e (original s a))" using parked_image [OF inv i e] by blast
  note d = park_invD [OF inv i]
  obtain v where v: "to_vec rs e p = Some v" using io [OF e p(1)] by auto
  have vd: "v = Inr data \<Longrightarrow> data = original s a" for data
    using pool_read(1) [OF p(2), of "2 * a" e "original s a" rs data] p(3) v by simp
  obtain r where r: "move_to_resident (image_id i) a (registry s) = Some r" using d(2,6,7) True by (simp add: move_to_resident_def)
  have np: "\<not> is_parked (i\<lparr>storage := Resident data (Some e)\<rparr>)" for data by (simp add: is_parked_def)
  obtain s' where s': "lease a (i\<lparr>storage := Resident (original s a) (Some e)\<rparr>) (s\<lparr>registry := r\<rparr>) = Some (Inr (original s a), s')"
    using lease_returns [OF np, of "original s a" a "s\<lparr>registry := r\<rparr>"] n by auto
  show ?thesis
  proof (cases v)
    case (Inr data)
    with e p(1) v r vd [OF Inr] d(3) s' show ?thesis by (simp add: snapshot_def)
  qed (use e p(1) v in \<open>simp add: snapshot_def\<close>)
qed

text \<open>A read whose transfers add up gives the bytes.\<close>

lemma snapshot_reads:
  assumes inv: "park_inv s" and i: "images s a = Some i" and n: "reader_count i < u64_max"
    and tr: "transfers rs (length (original s a))"
  shows "\<exists>s'. snapshot rs a i s = Some (Inr (original s a), s') \<and> park_inv s'"
proof -
  have data: "to_vec rs e p = Some (Inr (original s a))" if e: "storage i = Parked e" and ip: "image_pool s = Some p" for e p
  proof -
    obtain p' where p: "image_pool s = Some p'" "pool_ok p' (both (image_handles s) (other_handles s))"
      "image_handles s a = Some (DiskData e (original s a))" using parked_image [OF inv i e] by blast
    have "both (image_handles s) (other_handles s) (2 * a) = Some (DiskData e (original s a))" using p(3) by simp
    from pool_read(2,3) [OF p(2) this] p(1) ip tr show ?thesis by simp
  qed
  then have "storage i = Parked e \<Longrightarrow> image_pool s = Some p \<Longrightarrow> to_vec rs e p \<noteq> None" for e p by simp
  from snapshot_returns [OF inv i n this] obtain x s' where x: "snapshot rs a i s = Some (x, s')" by blast
  have "x \<noteq> Inl err" for err
    using x data by (auto simp: snapshot_def lease_def split: frozen_image_storage.splits option.splits sum.splits if_splits)
  with snapshot_step [OF inv i x] x show ?thesis by auto
qed

text \<open>The transfers of an operation return, and its deadlines are in the range of instants.\<close>

definition op_feasible :: "park_op \<Rightarrow> park_sys \<Rightarrow> bool" where
  "op_feasible x s =
     (case x of
        OpNew bytes now \<Rightarrow> now + parking_delay (policy s) \<le> instant_bound
      | OpDropSnapshot k now \<Rightarrow> now + reader_release_delay (policy s) \<le> instant_bound
      | OpSnapshot a rs \<Rightarrow>
          (case (map_option storage (images s a), image_pool s) of (Some (Parked e), Some p) \<Rightarrow> to_vec rs e p \<noteq> None | _ \<Rightarrow> True)
      | OpWrite a rs \<Rightarrow>
          (case (jobs s a, image_pool s) of
             (Some (Writing e bytes), Some p) \<Rightarrow> write_all_at rs bytes (ext_offset e) (pool_file p) \<noteq> None
           | _ \<Rightarrow> True)
      | OpOther (Write h data rs) \<Rightarrow>
          (case (other_handles s h, image_pool s) of
             (Some (ReservedChunk e), Some p) \<Rightarrow> write_all_at rs data (ext_offset e) (pool_file p) \<noteq> None
           | _ \<Rightarrow> True)
      | _ \<Rightarrow> True)"

lemma pool_step_returns:
  assumes "pool_ok p (both hs os)"
    "\<And>h data rs e. x = Write h data rs \<Longrightarrow> os h = Some (ReservedChunk e) \<Longrightarrow> write_all_at rs data (ext_offset e) (pool_file p) \<noteq> None"
  shows "pool_step x \<lparr>sys_pool = p, handles = os\<rparr> \<noteq> None"
proof -
  have "pool_step (on_right x) \<lparr>sys_pool = p, handles = both hs os\<rparr> \<noteq> None"
  proof
    assume "pool_step (on_right x) \<lparr>sys_pool = p, handles = both hs os\<rparr> = None"
    with pool_step_cases [of "\<lparr>sys_pool = p, handles = both hs os\<rparr>" "on_right x"] assms(1) obtain h data rs e where
      w: "on_right x = Write h data rs" "both hs os h = Some (ReservedChunk e)" "write_all_at rs data (ext_offset e) (pool_file p) = None"
      by (auto simp: pool_ok_def)
    then obtain k where "x = Write k data rs" "h = Suc (2 * k)" by (cases x) auto
    with w(2,3) assms(2) [of k data rs e] show False by simp
  qed
  then show ?thesis by (cases x) (auto split: option.splits handle.splits sum.splits if_splits)
qed

lemma drop_snapshot_returns:
  assumes inv: "park_inv s" and k: "k < length (snapshots s)" and now: "now + reader_release_delay (policy s) \<le> instant_bound"
  shows "drop_snapshot k now s \<noteq> None"
proof -
  obtain a bytes where x: "snapshots s ! k = (a, bytes)" by fastforce
  show ?thesis
  proof (cases "images s a")
    case (Some i)
    have "(a, bytes) \<in> set (snapshots s)" using k x by (metis nth_mem)
    then have "0 < readers s a" by (force simp: readers_def filter_empty_conv)
    with Some x now park_invD(4) [OF inv Some] show ?thesis
      by (simp add: drop_snapshot_def with_image_def release_snapshot_reader_def checked_sub_def instant_add_def)
  qed (simp add: drop_snapshot_def with_image_def x)
qed

lemma park_step_returns:
  assumes inv: "park_inv s" and b: "next_address s < u64_max" "length (snapshots s) < u64_max" and ok: "op_feasible x s"
  shows "park_step x s \<noteq> None"
proof (cases x)
  case (OpNew bytes now)
  with ok new_step(2) [OF inv b(1)] show ?thesis by (simp add: op_feasible_def)
next
  case (OpSnapshot a rs)
  have "\<exists>x s'. snapshot rs a i s = Some (x, s')" if i: "images s a = Some i" for i
  proof (rule snapshot_returns [OF inv i])
    show "reader_count i < u64_max" using reader_bound [OF inv i] b(2) by simp
    show "to_vec rs e p \<noteq> None" if "storage i = Parked e" "image_pool s = Some p" for e p
      using ok OpSnapshot i that by (simp add: op_feasible_def)
  qed
  with OpSnapshot show ?thesis by (fastforce simp: with_image_def split: option.split)
next
  case (OpCloneSnapshot k)
  have "retain_snapshot_reader a i s \<noteq> None" if "images s a = Some i" for a i
    using reader_bound [OF inv that] b(2) by (simp add: retain_snapshot_reader_def checked_add_def)
  with OpCloneSnapshot show ?thesis by (auto simp: clone_snapshot_def with_image_def split: prod.split option.split)
next
  case (OpDropSnapshot k now)
  with ok drop_snapshot_returns [OF inv] show ?thesis by (simp add: op_feasible_def)
next
  case (OpPrepare a force now)
  with start_parking_step [OF inv, of a _ force now] show ?thesis by (fastforce simp: with_image_def split: option.split)
next
  case (OpWrite a rs)
  show ?thesis
  proof (cases "\<exists>e bytes. jobs s a = Some (Writing e bytes)")
    case True
    then obtain e bytes where j: "jobs s a = Some (Writing e bytes)" by blast
    obtain p where p: "image_pool s = Some p" "pool_ok p (both (image_handles s) (other_handles s))" "image_handles s a = Some (ReservedChunk e)"
      using writing_handle [OF inv j] by blast
    with pool_write_blocked [OF p(2), of "2 * a" e rs bytes] j ok OpWrite show ?thesis
      by (cases "pool_write rs e bytes p") (auto simp: op_feasible_def write_job_def)
  qed (use OpWrite in \<open>auto simp: write_job_def split: option.splits park_job.splits\<close>)
next
  case (OpComplete a)
  with complete_job_step [OF inv, of a] show ?thesis by (fastforce simp: with_image_def split: option.split)
next
  case (OpDropImage a)
  with drop_image_step [OF inv, of a] show ?thesis by (fastforce simp: with_image_def split: option.split)
next
  case (OpOther y)
  have "pool_step y \<lparr>sys_pool = p, handles = other_handles s\<rparr> \<noteq> None" if p: "image_pool s = Some p" for p
    by (rule pool_step_returns [of p "image_handles s"])
      (use inv p ok OpOther in \<open>auto simp: park_inv_def disk_ok_def op_feasible_def\<close>)
  with OpOther show ?thesis by (auto split: option.split)
qed simp_all


subsection \<open>Properties\<close>

lemmas park_eval = new_manager_def manager_new_def from_frozen_bytes_def allocate_image_id_def image_new_def instant_add_def
  instant_bound_def register_resident_def with_image_def start_parking_def prepare_parking_def write_job_def complete_job_def
  complete_parking_write_def move_to_parked_def notify_later_def is_parked_def pool_eval put_bytes_def

text \<open>An image of three bytes is made and parked.\<close>

abbreviation (input) demo_ops :: "park_op list" where
  "demo_ops \<equiv> [OpNew [7, 8, 9] 0, OpPrepare 0 False 9, OpWrite 0 [Transferred 2, Transferred 1], OpComplete 0]"

abbreviation (input) demo_policy :: parkable_image_policy where
  "demo_policy \<equiv> \<lparr>min_size_to_park = 2, parking_delay = 5, reader_release_delay = 1\<rparr>"

lemma demo_parked:
  "\<exists>s i. run park_step demo_ops (new_manager (Some None) (\<lambda>_. 0) demo_policy) = Some s \<and>
     images s 0 = Some i \<and> is_parked i \<and> reader_count i = 0 \<and> snapshots s = []"
  by (simp add: park_eval)

text \<open>
  C7: In every interleaving of creating, leasing, parking, writing, completing, dropping and
  unregistering images, and of other users of the same disk pool, whatever the disk answers: every
  snapshot that is held has exactly the bytes its image was created with, even after the image is
  gone; a read of a live image returns those bytes or the disk's error, which changes nothing; and
  a read whose disk transfers succeed returns them.
\<close>
theorem parkable_image_reads_original:
  assumes "run park_step xs (new_manager cap f pol) = Some s" "length (created xs) \<le> u64_max"
  shows "list_all (\<lambda>(a, bytes). a < length (created xs) \<and> bytes = created xs ! a) (snapshots s) \<and>
    (\<forall>a i. images s a = Some i \<longrightarrow> a < length (created xs) \<and>
      (\<forall>rs x s'. snapshot rs a i s = Some (x, s') \<longrightarrow> x = Inr (created xs ! a) \<or> (\<exists>err. x = Inl err \<and> s' = s)) \<and>
      (\<forall>rs. transfers rs (length (created xs ! a)) \<longrightarrow> reader_count i < u64_max \<longrightarrow>
         (\<exists>s'. snapshot rs a i s = Some (Inr (created xs ! a), s'))))"
proof -
  note r = reached_inv [OF assms]
  have "list_all (\<lambda>(a, bytes). a < length (created xs) \<and> bytes = created xs ! a) (snapshots s)"
    using r by (auto simp: list_all_iff park_inv_def snapshots_ok_def)
  moreover have "a < length (created xs) \<and>
      (\<forall>rs x s'. snapshot rs a i s = Some (x, s') \<longrightarrow> x = Inr (created xs ! a) \<or> (\<exists>err. x = Inl err \<and> s' = s)) \<and>
      (\<forall>rs. transfers rs (length (created xs ! a)) \<longrightarrow> reader_count i < u64_max \<longrightarrow>
         (\<exists>s'. snapshot rs a i s = Some (Inr (created xs ! a), s')))" if i: "images s a = Some i" for a i
  proof -
    have a: "a < length (created xs)" "original s a = created xs ! a" using park_invD(1) [OF r(1) i] r(2,3) by auto
    show ?thesis unfolding a(2) [symmetric]
      using a(1) snapshot_step [OF r(1) i] snapshot_reads [OF r(1) i] by blast
  qed
  ultimately show ?thesis by blast
qed

theorem parkable_image_reads_original_witness:
  "\<exists>s i s'. run park_step demo_ops (new_manager (Some None) (\<lambda>_. 0) demo_policy) = Some s \<and> images s 0 = Some i \<and> is_parked i \<and>
     snapshot [OsError Interrupted, Transferred 3] 0 i s = Some (Inr [7, 8, 9], s')"
proof -
  obtain s i where s: "run park_step demo_ops (new_manager (Some None) (\<lambda>_. 0) demo_policy) = Some s"
    "images s 0 = Some i" "is_parked i" "reader_count i = 0" using demo_parked by blast
  have c: "created demo_ops = [[7, 8, 9]]" by simp
  have b: "length (created demo_ops) \<le> u64_max" "reader_count i < u64_max" using s(4) by (simp_all add: u64_max_def)
  have t: "transfers [OsError Interrupted, Transferred 3] (length (created demo_ops ! 0))" by (simp add: numeral_3_eq_3)
  have "\<exists>s'. snapshot [OsError Interrupted, Transferred 3] 0 i s = Some (Inr (created demo_ops ! 0), s')"
    using parkable_image_reads_original [OF s(1) b(1)] s(2) b(2) t by blast
  with s c show ?thesis by auto
qed

text \<open>
  C8: In every such interleaving the state is consistent.  An image is parked only while nobody reads
  it, and its reader count is the number of snapshots held on it.  An image that is large enough is
  in exactly one registry, the resident one unless it is parked; a smaller one is in none.  The
  extents the images own on disk are disjoint from each other, from those of other users and from
  the free space; and no operation panics or fails a debug assertion as long as counters and
  deadlines are in range and disk transfers return.
\<close>
theorem parkable_image_consistent:
  assumes "run park_step xs (new_manager cap f pol) = Some s" "length (created xs) \<le> u64_max"
  shows "(\<forall>a i. images s a = Some i \<longrightarrow>
      reader_count i = length (filter (\<lambda>x. fst x = a) (snapshots s)) \<and> (is_parked i \<longrightarrow> reader_count i = 0) \<and>
      resident_at s (image_id i) = (if min_size_to_park pol \<le> image_len i \<and> \<not> is_parked i then Some a else None) \<and>
      parked_at s (image_id i) = (if is_parked i then Some a else None)) \<and>
    (\<forall>p. image_pool s = Some p \<longrightarrow> pool_inv \<lparr>sys_pool = p, handles = both (image_handles s) (other_handles s)\<rparr>) \<and>
    (\<forall>x. length (created xs) < u64_max \<longrightarrow> length (snapshots s) < u64_max \<longrightarrow> op_feasible x s \<longrightarrow> park_step x s \<noteq> None)"
proof -
  note r = reached_inv [OF assms]
  have pol: "policy s = pol" by (rule run_policy [OF assms(1)])
  have "reader_count i = length (filter (\<lambda>x. fst x = a) (snapshots s)) \<and> (is_parked i \<longrightarrow> reader_count i = 0) \<and>
      resident_at s (image_id i) = (if min_size_to_park pol \<le> image_len i \<and> \<not> is_parked i then Some a else None) \<and>
      parked_at s (image_id i) = (if is_parked i then Some a else None)" if i: "images s a = Some i" for a i
    using park_invD [OF r(1) i] pol
    by (auto simp: readers_def storage_ok_def is_parked_def split: frozen_image_storage.splits)
  moreover have "\<forall>p. image_pool s = Some p \<longrightarrow> pool_inv \<lparr>sys_pool = p, handles = both (image_handles s) (other_handles s)\<rparr>"
    using r(1) by (auto simp: park_inv_def disk_ok_def pool_ok_def)
  moreover have "\<forall>x. length (created xs) < u64_max \<longrightarrow> length (snapshots s) < u64_max \<longrightarrow> op_feasible x s \<longrightarrow> park_step x s \<noteq> None"
    using park_step_returns [OF r(1)] r(2) by simp
  ultimately show ?thesis by blast
qed

theorem parkable_image_consistent_witness:
  "\<exists>s. run park_step demo_ops (new_manager (Some None) (\<lambda>_. 0) demo_policy) = Some s \<and> parked_at s 1 = Some 0 \<and> resident_at s 1 = None \<and>
     park_step (OpDropImage 0) s \<noteq> None"
proof -
  obtain s i where s: "run park_step demo_ops (new_manager (Some None) (\<lambda>_. 0) demo_policy) = Some s"
    "images s 0 = Some i" "is_parked i" "snapshots s = []" using demo_parked by blast
  have b: "length (created demo_ops) < u64_max" "length (snapshots s) < u64_max" using s(4) by (simp_all add: u64_max_def)
  have "op_feasible (OpDropImage 0) s" by (simp add: op_feasible_def)
  with parkable_image_consistent [OF s(1) less_imp_le [OF b(1)]] b have f: "park_step (OpDropImage 0) s \<noteq> None" by blast
  have "parked_at s (image_id i) = (if is_parked i then Some 0 else None)"
    "resident_at s (image_id i) = (if min_size_to_park demo_policy \<le> image_len i \<and> \<not> is_parked i then Some 0 else None)"
    using parkable_image_consistent [OF s(1) less_imp_le [OF b(1)]] s(2) by blast+
  moreover have "image_id i = 1" using park_invD(2) [OF reached_inv(1) [OF s(1) less_imp_le [OF b(1)]] s(2)] by simp
  ultimately have "parked_at s 1 = Some 0 \<and> resident_at s 1 = None" using s(3) by simp
  with f s(1) show ?thesis by blast
qed

end
