(* ===== verification/Parkable_Sweep.thy ===== *)
theory Parkable_Sweep
  imports Parkable_Image
begin

section \<open>Parking sweeps (moli-parkable-image, manager.rs)\<close>

text \<open>
  The calls that do several steps of \<^verbatim>\<open>Parkable_Image\<close> in a row: parking one image, sweeping the
  resident images, and reading a range.  They are defined as the code has them, for a thread
  that is not interrupted; each is shown to be a sequence of the interleaved operations.  The time at
  which an image is looked at and what the disk answers to its write are functions of the image.
\<close>

subsection \<open>Operations\<close>

definition park_impl ::
  "bool \<Rightarrow> instant \<Rightarrow> os_reply list \<Rightarrow> nat \<Rightarrow> frozen_image_state \<Rightarrow> park_sys \<Rightarrow> ((io_error_kind + park_outcome) \<times> park_sys) option" where
  "park_impl ignore_deadline now rs a i s =
     (case prepare_parking ignore_deadline now a i s of
        None \<Rightarrow> None
      | Some (ParkDone outcome, s) \<Rightarrow> Some (Inr outcome, s)
      | Some (ParkWrite e bytes, s) \<Rightarrow>
          (case Option.bind (image_pool s) (pool_write rs e bytes) of
             None \<Rightarrow> None
           | Some (r, p) \<Rightarrow>
               Option.bind (images s a) (\<lambda>i. complete_parking_write r bytes a i (s\<lparr>image_pool := Some p\<rparr>))))"

record parkable_image_sweep_report =
  considered :: nat
  parked_images :: nat
  already_parked :: nat
  delayed :: nat
  in_use :: nat
  ineligible :: nat
  unavailable :: nat
  write_failures :: nat

definition report_default :: parkable_image_sweep_report where
  "report_default = \<lparr>considered = 0, parked_images = 0, already_parked = 0, delayed = 0, in_use = 0, ineligible = 0, unavailable = 0, write_failures = 0\<rparr>"

definition count_outcome :: "io_error_kind + park_outcome \<Rightarrow> parkable_image_sweep_report \<Rightarrow> parkable_image_sweep_report" where
  "count_outcome x r =
     (let r = r\<lparr>considered := considered r + 1\<rparr> in
      case x of
        Inr ParkedNow \<Rightarrow> r\<lparr>parked_images := parked_images r + 1\<rparr>
      | Inr AlreadyParked \<Rightarrow> r\<lparr>already_parked := already_parked r + 1\<rparr>
      | Inr (Delayed _) \<Rightarrow> r\<lparr>delayed := delayed r + 1\<rparr>
      | Inr InUse \<Rightarrow> r\<lparr>in_use := in_use r + 1\<rparr>
      | Inr Unavailable \<Rightarrow> r\<lparr>unavailable := unavailable r + 1\<rparr>
      | Inr BelowMinimum \<Rightarrow> r\<lparr>ineligible := ineligible r + 1\<rparr>
      | Inl _ \<Rightarrow> r\<lparr>write_failures := write_failures r + 1\<rparr>)"

fun sweep ::
  "bool \<Rightarrow> (nat \<Rightarrow> instant) \<Rightarrow> (nat \<Rightarrow> os_reply list) \<Rightarrow> nat list \<Rightarrow> parkable_image_sweep_report \<Rightarrow> park_sys \<Rightarrow>
   (parkable_image_sweep_report \<times> park_sys) option" where
  "sweep force now rs [] r s = Some (r, s)"
| "sweep force now rs (a # as) r s =
     (case images s a of
        None \<Rightarrow> None
      | Some i \<Rightarrow>
          (case park_impl force (now a) (rs a) a i s of
             None \<Rightarrow> None
           | Some (x, s) \<Rightarrow> sweep force now rs as (count_outcome x r) s))"

definition due :: "instant \<Rightarrow> park_sys \<Rightarrow> nat \<Rightarrow> bool" where
  "due now s a = (case Option.bind (images s a) (\<lambda>i. parking_deadline i s) of Some t \<Rightarrow> t \<le> now | None \<Rightarrow> False)"

definition park_images_with_report ::
  "instant \<Rightarrow> (nat \<Rightarrow> instant) \<Rightarrow> (nat \<Rightarrow> os_reply list) \<Rightarrow> park_sys \<Rightarrow> (parkable_image_sweep_report \<times> park_sys) option" where
  "park_images_with_report now nows rs s =
     (let (go, s) = begin_scheduled_sweep s in
      if go then
        map_option (\<lambda>(r, s). (r, finish_sweep (unavailable r) s))
          (sweep False nows rs (filter (due now s) (resident_images s)) report_default s)
      else Some (report_default, s))"

definition force_park_images_with_report ::
  "(nat \<Rightarrow> instant) \<Rightarrow> (nat \<Rightarrow> os_reply list) \<Rightarrow> park_sys \<Rightarrow> (parkable_image_sweep_report \<times> park_sys) option" where
  "force_park_images_with_report nows rs s =
     (let s = begin_forced_sweep s in
      map_option (\<lambda>(r, s). (r, finish_sweep (unavailable r) s)) (sweep True nows rs (resident_images s) report_default s))"

definition read_range ::
  "os_reply list \<Rightarrow> instant \<Rightarrow> nat \<Rightarrow> frozen_image_state \<Rightarrow> nat \<Rightarrow> nat \<Rightarrow> park_sys \<Rightarrow> ((io_error_kind + u8 list) \<times> park_sys) option" where
  "read_range rs now a i off max_len s =
     (case snapshot rs a i s of
        None \<Rightarrow> None
      | Some (Inl err, s) \<Rightarrow> Some (Inl err, s)
      | Some (Inr bytes, s) \<Rightarrow>
          map_option (Pair (Inr (if off \<le> length bytes then take max_len (drop off bytes) else [])))
            (drop_snapshot (length (snapshots s) - 1) now s))"


subsection \<open>The calls are sequences of steps\<close>

text \<open>Parking one image with no other write running for it.\<close>

lemma park_impl_steps:
  assumes inv: "park_inv s" and i: "images s a = Some i" and r: "park_impl force now rs a i s = Some (x, s')"
  shows "\<exists>xs. run park_step xs s = Some s' \<and> created xs = []"
  using inv i
proof (cases rule: prepare_cases [where force = force and now = now])
  case (unchanged out)
  then have "s' = s" using r by (simp add: park_impl_def)
  then show ?thesis by (intro exI [of _ "[]"]) simp
next
  case (moved e reg)
  then have "run park_step [OpPrepare a force now] s = Some s'" using r i by (auto simp: park_impl_def with_image_def start_parking_def)
  then show ?thesis by (intro exI [of _ "[OpPrepare a force now]"]) simp
next
  case (writing p e p')
  have j: "jobs s a = None" using park_invD(5) [OF inv i] writing(2) by (simp add: storage_ok_def)
  let ?i = "i\<lparr>storage := Parking (original s a)\<rparr>"
  let ?t = "s\<lparr>image_pool := Some p', images := (images s)(a \<mapsto> ?i)\<rparr>"
  from r writing(1) obtain w q where w: "pool_write rs e (original s a) p' = Some (w, q)"
    and c: "complete_parking_write w (original s a) a ?i (?t\<lparr>image_pool := Some q\<rparr>) = Some (x, s')"
    by (auto simp: park_impl_def split: option.splits)
  have js: "jobs s' = jobs s"
    using c by (auto simp: complete_parking_write_def split: sum.splits if_splits)
  have u: "complete_parking_write w (original s a) a ?i (?t\<lparr>image_pool := Some q, jobs := m\<rparr>) = Some (x, s'\<lparr>jobs := m\<rparr>)" for m
    using c by (auto simp: complete_parking_write_def split: sum.splits if_splits)
  have "s'\<lparr>jobs := (jobs s)(a := None)\<rparr> = s'" using js j by (cases s') (simp add: fun_upd_idem)
  then have "run park_step [OpPrepare a force now, OpWrite a rs, OpComplete a] s = Some s'"
    using i writing(1) j w u
    by (simp add: with_image_def start_parking_def write_job_def complete_job_def)
  then show ?thesis by (intro exI [of _ "[OpPrepare a force now, OpWrite a rs, OpComplete a]"]) simp
qed

lemma steps_keep:
  assumes "park_inv s" "next_address s \<le> u64_max" "run park_step xs s = Some s'" "created xs = []"
  shows "park_inv s' \<and> next_address s' = next_address s"
  using assms
proof (induction xs arbitrary: s)
  case (Cons x xs)
  then obtain t where t: "park_step x s = Some t" "run park_step xs t = Some s'" by (auto split: Option.bind_splits)
  have "created xs = []" "next_address t = next_address s" using Cons.prems(4) base_step [OF t(1)] by (cases x; simp add: base_def)+
  with Cons.IH [OF _ _ t(2)] Cons.prems(1,2) park_step_keeps [OF Cons.prems(1) t(1)] show ?case by simp
qed simp

lemma park_impl_keeps:
  assumes "park_inv s" "next_address s \<le> u64_max" "images s a = Some i" "park_impl force now rs a i s = Some (x, s')"
  shows "park_inv s'" "next_address s' = next_address s"
proof -
  obtain xs where "run park_step xs s = Some s'" "created xs = []" using park_impl_steps [OF assms(1,3,4)] by blast
  from steps_keep [OF assms(1,2) this] show "park_inv s'" "next_address s' = next_address s" by simp_all
qed

lemma sweep_steps:
  assumes "park_inv s" "next_address s \<le> u64_max" "sweep force now rs as r s = Some (r', s')"
  shows "\<exists>xs. run park_step xs s = Some s' \<and> created xs = []"
  using assms
proof (induction as arbitrary: r s)
  case Nil
  then show ?case by (intro exI [of _ "[]"]) simp
next
  case (Cons a as)
  then obtain i x t where i: "images s a = Some i" "park_impl force (now a) (rs a) a i s = Some (x, t)"
    "sweep force now rs as (count_outcome x r) t = Some (r', s')" by (auto split: option.splits)
  obtain xs where xs: "run park_step xs s = Some t" "created xs = []" using park_impl_steps [OF Cons.prems(1) i(1,2)] by blast
  note k = park_impl_keeps [OF Cons.prems(1,2) i(1,2)]
  obtain ys where "run park_step ys t = Some s'" "created ys = []" using Cons.IH [OF k(1) _ i(3)] k(2) Cons.prems(2) by auto
  with xs have "run park_step (xs @ ys) s = Some s'" "created (xs @ ys) = []" by (simp_all add: run_append created_append)
  then show ?case by blast
qed


subsection \<open>A forced sweep parks what nobody reads\<close>

text \<open>A pool without a limit that has room for \<open>n\<close> more bytes at the end of its file.\<close>

definition pool_ready :: "nat \<Rightarrow> disk_pool \<Rightarrow> bool" where
  "pool_ready n p \<longleftrightarrow> max_capacity p = None \<and> may_write (pool_state p) \<and> file_tail (pool_state p) + n \<le> u64_max"

lemma reserve_ready:
  assumes "pool_ok p hs" "0 < n" "pool_ready (n + m) p"
  shows "\<exists>e p'. try_reserve_chunk n p = Some (Some e, p') \<and> pool_ready m p'"
proof -
  have "alloc_inv (pool_state p)" using assms(1) by (simp add: pool_ok_def pool_inv_iff)
  from find_free_chunk_spec [OF this assms(2)] show ?thesis
  proof (elim disjE conjE exE)
    assume "find_free_chunk (pool_state p) n = Some (None, pool_state p)"
    with assms(2,3) show ?thesis by (simp add: try_reserve_chunk_def reserve_at_tail_def checked_add_def pool_ready_def)
  next
    fix off l s' assume "find_free_chunk (pool_state p) n = Some (Some \<lparr>ext_offset = off, ext_len = n\<rparr>, s')" "allocated (pool_state p) off n s'"
    with assms(2,3) show ?thesis by (simp add: try_reserve_chunk_def allocated_def same_frame_def pool_ready_def)
  qed
qed

lemma write_ready:
  assumes "pool_ok p hs" "hs h = Some (ReservedChunk e)" "ext_len e = length data" "transfers rs (length data)" "pool_ready m p"
  shows "\<exists>p'. pool_write rs e data p = Some (Inr e, p') \<and> pool_ready m p'"
proof -
  have "ext_offset e + ext_len e \<le> file_tail (pool_state p)" "alloc_inv (pool_state p)"
    using ownership_bounds(1) [of hs _ _ h] assms(1,2) by (fastforce simp: pool_ok_def pool_inv_def)+
  then have "ext_offset e + length data \<le> u64_max" using assms(3) by (simp add: alloc_inv_def)
  from write_all_at_returns [OF assms(4) this] obtain f where "write_all_at rs data (ext_offset e) (pool_file p) = Some (Inr (), f)" by blast
  with assms(3,5) show ?thesis by (simp add: pool_write_def pool_ready_def)
qed

lemma park_parks:
  assumes inv: "park_inv s" and i: "images s a = Some i" and el: "eligible True now i s" and len: "0 < image_len i"
    and p: "image_pool s = Some p" "pool_ready (image_len i + m) p" and tr: "transfers rs (image_len i)"
  shows "\<exists>e q reg. park_impl True now rs a i s = Some (Inr ParkedNow, s\<lparr>image_pool := Some q, images := (images s)(a \<mapsto> i\<lparr>storage := Parked e\<rparr>), registry := reg\<rparr>) \<and>
     pool_ready m q"
proof -
  have ok: "pool_ok p (both (image_handles s) (other_handles s))" using inv p(1) by (simp add: park_inv_def disk_ok_def)
  obtain e' p' where res: "try_reserve_chunk (image_len i) p = Some (Some e', p')" "pool_ready m p'"
    using reserve_ready [OF ok len p(2)] by blast
  have same: "s\<lparr>image_pool := Some p\<rparr> = s" using p(1) by (cases s) simp
  have pm: "pool_ready m p" using p(2) by (simp add: pool_ready_def)
  note d = park_invD [OF inv i]
  from inv i show ?thesis
  proof (cases rule: prepare_cases [where force = True and now = now])
    case (unchanged out)
    obtain bytes b where st: "storage i = Resident bytes b" using el by (auto simp: eligible_def split: frozen_image_storage.splits)
    from unchanged el have "prepare_parking True now a i s = Some (ParkDone Unavailable, s)" by simp
    with prepare_eligible [OF el st, of a] p(1) res(1) show ?thesis
      by (cases b; cases "move_to_parked (image_id i) a (registry s)") auto
  next
    case (moved e reg)
    then have "park_impl True now rs a i s = Some (Inr ParkedNow, s\<lparr>images := (images s)(a \<mapsto> i\<lparr>storage := Parked e\<rparr>), registry := reg\<rparr>)"
      by (simp add: park_impl_def)
    also have "s\<lparr>images := (images s)(a \<mapsto> i\<lparr>storage := Parked e\<rparr>), registry := reg\<rparr> =
        s\<lparr>image_pool := Some p, images := (images s)(a \<mapsto> i\<lparr>storage := Parked e\<rparr>), registry := reg\<rparr>" using p(1) by (cases s) simp
    finally show ?thesis using pm by blast
  next
    case (writing p0 e q)
    have q: "q = p'" "e = e'" using writing(4,5) p(1) res(1) d(3) by auto
    have h: "both ((image_handles s)(a \<mapsto> ReservedChunk e)) (other_handles s) (2 * a) = Some (ReservedChunk e)" by simp
    obtain q' where w: "pool_write rs e (original s a) q = Some (Inr e, q')" "pool_ready m q'"
      using write_ready [OF writing(7) h writing(6)] tr res(2) q d(3) by auto
    have "\<not> is_parked i" "min_size_to_park (policy s) \<le> length (original s a)" "reader_count i = 0"
      using writing(2) el d(3) by (simp_all add: is_parked_def eligible_def)
    then obtain reg where "move_to_parked (image_id i) a (registry s) = Some reg" using move_out_of_resident [OF inv i] by blast
    with writing(1) w \<open>reader_count i = 0\<close> have "park_impl True now rs a i s =
        Some (Inr ParkedNow, s\<lparr>images := (images s)(a \<mapsto> i\<lparr>storage := Parked e\<rparr>), image_pool := Some q', registry := reg\<rparr>)"
      by (simp add: park_impl_def complete_parking_write_def)
    also have "s\<lparr>images := (images s)(a \<mapsto> i\<lparr>storage := Parked e\<rparr>), image_pool := Some q', registry := reg\<rparr> =
        s\<lparr>image_pool := Some q', images := (images s)(a \<mapsto> i\<lparr>storage := Parked e\<rparr>), registry := reg\<rparr>" by (cases s) simp
    finally show ?thesis using w(2) by blast
  qed
qed

lemma park_in_use:
  assumes inv: "park_inv s" and i: "images s a = Some i" and "jobs s a = None" "\<not> is_parked i" "reader_count i \<noteq> 0"
    "min_size_to_park (policy s) \<le> image_len i"
  shows "park_impl force now rs a i s = Some (Inr InUse, s)"
  using park_invD(5) [OF inv i] assms(3-6)
  by (auto simp: park_impl_def prepare_parking_def storage_ok_def is_parked_def split: frozen_image_storage.splits)

lemma resident_images_exact:
  assumes inv: "park_inv s"
  shows "distinct (resident_images s)"
    "a \<in> set (resident_images s) \<longleftrightarrow> (\<exists>i. images s a = Some i \<and> min_size_to_park (policy s) \<le> image_len i \<and> \<not> is_parked i)"
proof -
  let ?r = "resident (registry s)"
  have reg: "registry_ok s" using inv by (simp add: park_inv_def)
  then have d: "distinct (map fst ?r)" by (simp add: registry_ok_def)
  have key: "n = Suc c" if "(n, c) \<in> set ?r" for n c
    using image_registry_okD [OF reg, of n c] map_of_eq_Some_iff [OF d] that by blast
  then have "map fst ?r = map Suc (map snd ?r)" by force
  then have "distinct (map snd ?r)" using d by (metis distinct_map)
  then show "distinct (resident_images s)" by (simp add: resident_images_def)
  have m: "a \<in> snd ` set ?r \<longleftrightarrow> resident_at s (Suc a) = Some a"
    using key map_of_eq_Some_iff [OF d] by force
  show "a \<in> set (resident_images s) \<longleftrightarrow> (\<exists>i. images s a = Some i \<and> min_size_to_park (policy s) \<le> image_len i \<and> \<not> is_parked i)"
  proof (cases "images s a")
    case (Some i)
    with m park_invD(3,6) [OF inv Some] show ?thesis by (auto simp: resident_images_def)
  qed (simp add: resident_images_def)
qed

text \<open>Images a forced sweep can park: in memory, large enough, not being written, and with disk
  transfers that succeed.\<close>

definition sweepable :: "(nat \<Rightarrow> os_reply list) \<Rightarrow> park_sys \<Rightarrow> nat \<Rightarrow> bool" where
  "sweepable rs s a \<longleftrightarrow> (\<exists>i. images s a = Some i \<and> \<not> is_parked i \<and> jobs s a = None \<and> min_size_to_park (policy s) \<le> image_len i \<and>
     0 < image_len i \<and> transfers (rs a) (image_len i))"

definition swept :: "nat list \<Rightarrow> park_sys \<Rightarrow> park_sys \<Rightarrow> bool" where
  "swept as s s' \<longleftrightarrow> (\<forall>a i. images s a = Some i \<longrightarrow> (\<exists>i'. images s' a = Some i' \<and>
     (if a \<in> set as \<and> reader_count i = 0 then is_parked i' else i' = i)))"

lemma swept_Cons:
  assumes "images s a = Some i" "images t = (images s)(a \<mapsto> j)" "a \<notin> set as" "swept as t s'"
    "if reader_count i = 0 then is_parked j else j = i"
  shows "swept (a # as) s s'"
  unfolding swept_def
proof (intro allI impI)
  fix b k assume k: "images s b = Some k"
  show "\<exists>k'. images s' b = Some k' \<and> (if b \<in> set (a # as) \<and> reader_count k = 0 then is_parked k' else k' = k)"
  proof (cases "b = a")
    case True
    have "images t a = Some j" using assms(2) by simp
    with assms(3,4) have "images s' a = Some j" unfolding swept_def by fastforce
    with True k assms(1,5) show ?thesis by (auto split: if_splits)
  next
    case False
    with k assms(2,4) show ?thesis by (auto simp: swept_def)
  qed
qed

lemma sweep_parks:
  assumes "park_inv s" "next_address s \<le> u64_max" "distinct as" "\<forall>a\<in>set as. sweepable rs s a"
    "image_pool s = Some p" "pool_ready (sum_list (map (\<lambda>a. length (original s a)) as)) p"
  shows "\<exists>r' s'. sweep True now rs as r s = Some (r', s') \<and> unavailable r' = unavailable r \<and> write_failures r' = write_failures r \<and> swept as s s'"
  using assms
proof (induction as arbitrary: r s p)
  case Nil
  then show ?case by (simp add: swept_def)
next
  case (Cons a as)
  then obtain i where i: "images s a = Some i" and sw: "\<not> is_parked i" "jobs s a = None" "min_size_to_park (policy s) \<le> image_len i"
    "0 < image_len i" "transfers (rs a) (image_len i)" by (auto simp: sweepable_def)
  note d = park_invD [OF Cons.prems(1) i]
  show ?case
  proof (cases "reader_count i = 0")
    case False
    have "park_impl True (now a) (rs a) a i s = Some (Inr InUse, s)"
      by (rule park_in_use [OF Cons.prems(1) i sw(2,1) False sw(3)])
    moreover have "pool_ready (sum_list (map (\<lambda>a. length (original s a)) as)) p" using Cons.prems(6) by (simp add: pool_ready_def)
    moreover obtain r' s' where "sweep True now rs as (count_outcome (Inr InUse) r) s = Some (r', s')" "unavailable r' = unavailable r"
      "write_failures r' = write_failures r" "swept as s s'"
      using Cons.IH [of s p "count_outcome (Inr InUse) r"] Cons.prems calculation(2) by (auto simp: count_outcome_def)
    moreover have "images s = (images s)(a \<mapsto> i)" using i by (simp add: fun_upd_idem)
    ultimately show ?thesis using i False Cons.prems(3) swept_Cons [of s a i s i as s'] by auto
  next
    case True
    have el: "eligible True (now a) i s" using sw d(5) True
      by (auto simp: eligible_def storage_ok_def is_parked_def split: frozen_image_storage.splits)
    have "pool_ready (image_len i + sum_list (map (\<lambda>a. length (original s a)) as)) p" using Cons.prems(6) d(3) by simp
    from park_parks [OF Cons.prems(1) i el sw(4) Cons.prems(5) this sw(5)] obtain e q reg where
      pk: "park_impl True (now a) (rs a) a i s = Some (Inr ParkedNow, s\<lparr>image_pool := Some q, images := (images s)(a \<mapsto> i\<lparr>storage := Parked e\<rparr>), registry := reg\<rparr>)"
      and q: "pool_ready (sum_list (map (\<lambda>a. length (original s a)) as)) q" by blast
    let ?t = "s\<lparr>image_pool := Some q, images := (images s)(a \<mapsto> i\<lparr>storage := Parked e\<rparr>), registry := reg\<rparr>"
    have "\<forall>b\<in>set as. sweepable rs ?t b" using Cons.prems(3,4) by (auto simp: sweepable_def)
    with Cons.IH [of ?t q "count_outcome (Inr ParkedNow) r"] park_impl_keeps [OF Cons.prems(1,2) i pk] Cons.prems(2,3) q
    obtain r' s' where "sweep True now rs as (count_outcome (Inr ParkedNow) r) ?t = Some (r', s')" "unavailable r' = unavailable r"
      "write_failures r' = write_failures r" "swept as ?t s'" by (auto simp: count_outcome_def)
    with i pk True Cons.prems(3) show ?thesis
      using swept_Cons [of s a i ?t "i\<lparr>storage := Parked e\<rparr>" as s'] by (simp add: is_parked_def)
  qed
qed


subsection \<open>Reading a range\<close>

lemma read_range_reads:
  assumes inv: "park_inv s" and i: "images s a = Some i" and n: "reader_count i < u64_max"
    and tr: "transfers rs (length (original s a))" and now: "now + reader_release_delay (policy s) \<le> instant_bound"
  shows "\<exists>s'. read_range rs now a i off max_len s = Some (Inr (take max_len (drop off (original s a))), s') \<and> park_inv s'"
proof -
  obtain t where t: "snapshot rs a i s = Some (Inr (original s a), t)" "park_inv t" using snapshot_reads [OF inv i n tr] by blast
  have "snapshots t \<noteq> []"
    using t(1) by (auto simp: snapshot_def lease_def split: frozen_image_storage.splits option.splits sum.splits if_splits)
  then have k: "length (snapshots t) - 1 < length (snapshots t)" by simp
  have "policy t = policy s" using base_snapshot [OF t(1)] by (simp add: base_def)
  with drop_snapshot_returns [OF t(2) k, of now] now obtain s' where s': "drop_snapshot (length (snapshots t) - 1) now t = Some s'" by auto
  moreover have "park_inv s'" by (rule drop_snapshot_step [OF t(2) k s'])
  ultimately show ?thesis using t(1) by (auto simp: read_range_def)
qed


subsection \<open>Properties\<close>

text \<open>
  C15: Under memory pressure the sweep does its work.  From any reachable state in which no parking
  write is running, with a pool that is writable, has no limit and has room for the resident images, and with disk transfers
  that succeed, a forced sweep returns; every image of at least the minimum size that nobody reads
  is then parked, images with readers are untouched, nothing was unavailable or failed, the
  scheduler is armed again, and the state is one of the interleaved system, so all images still
  read as created.
\<close>
theorem parkable_forced_sweep_parks:
  assumes "run park_step xs (new_manager cap f pol) = Some s" "length (created xs) \<le> u64_max"
    and "jobs s = Map.empty" "0 < min_size_to_park pol" "image_pool s = Some p"
    and "pool_ready (sum_list (map (\<lambda>a. length (created xs ! a)) (resident_images s))) p"
    and "list_all (\<lambda>a. transfers (rs a) (length (created xs ! a))) (resident_images s)"
  shows "\<exists>r s' ys. force_park_images_with_report now rs s = Some (r, s') \<and> unavailable r = 0 \<and> write_failures r = 0 \<and>
     \<not> waiting_for_change s' \<and> run park_step (xs @ ys) (new_manager cap f pol) = Some s' \<and> created ys = [] \<and>
     (\<forall>a i. images s a = Some i \<longrightarrow> (\<exists>i'. images s' a = Some i' \<and>
        (if reader_count i = 0 \<and> min_size_to_park pol \<le> image_len i then is_parked i' else i' = i)))"
proof -
  note r = reached_inv [OF assms(1,2)]
  have pol: "policy s = pol" by (rule run_policy [OF assms(1)])
  let ?s = "begin_forced_sweep s" and ?as = "resident_images s"
  have eq: "images ?s = images s" "jobs ?s = jobs s" "policy ?s = policy s" "image_pool ?s = image_pool s" "original ?s = original s"
    "next_address ?s = next_address s" "resident_images ?s = ?as" by (simp_all add: begin_forced_sweep_def resident_images_def)
  note res = resident_images_exact [OF r(1)]
  have len: "image_len i = length (created xs ! a)" "original s a = created xs ! a" if "images s a = Some i" for a i
    using park_invD(1,3) [OF r(1) that] r(2,3) by auto
  have sw: "\<forall>a\<in>set ?as. sweepable rs ?s a"
    using res(2) assms(3,4,7) len(1) pol by (fastforce simp: sweepable_def eq list_all_iff)
  have "map (\<lambda>a. length (original ?s a)) ?as = map (\<lambda>a. length (created xs ! a)) ?as"
    using res(2) len(2) by (auto simp: eq)
  with assms(6) have ready: "pool_ready (sum_list (map (\<lambda>a. length (original ?s a)) ?as)) p" by (simp only:)
  have inv: "park_inv ?s" "next_address ?s \<le> u64_max" "image_pool ?s = Some p" using r(1,2) assms(2,5) eq by simp_all
  obtain rep t where t: "sweep True now rs ?as report_default ?s = Some (rep, t)" "unavailable rep = 0" "write_failures rep = 0" "swept ?as ?s t"
    using sweep_parks [OF inv(1,2) res(1) sw inv(3) ready, of now report_default] by (auto simp: report_default_def)
  obtain ys where ys: "run park_step ys ?s = Some t" "created ys = []"
    using sweep_steps [OF inv(1,2) t(1)] by blast
  let ?u = "finish_sweep 0 t" and ?ys = "OpBeginForcedSweep # ys @ [OpFinishSweep 0]"
  have run: "run park_step (xs @ ?ys) (new_manager cap f pol) = Some ?u" "created ?ys = []"
    using assms(1) ys by (simp_all add: run_append created_append)
  have fp: "force_park_images_with_report now rs s = Some (rep, ?u)"
    using t(1,2) by (simp add: force_park_images_with_report_def Let_def eq)
  have u: "\<not> waiting_for_change ?u" "images ?u = images t" by (simp_all add: finish_sweep_def)
  have "\<exists>i'. images ?u a = Some i' \<and> (if reader_count i = 0 \<and> min_size_to_park pol \<le> image_len i then is_parked i' else i' = i)"
    if i: "images s a = Some i" for a i
  proof -
    obtain i' where i': "images t a = Some i'" "if a \<in> set ?as \<and> reader_count i = 0 then is_parked i' else i' = i"
      using t(4) i unfolding swept_def eq by blast
    with res(2) [of a] i pol u(2) show ?thesis by (auto split: if_splits)
  qed
  then have im: "\<forall>a i. images s a = Some i \<longrightarrow> (\<exists>i'. images ?u a = Some i' \<and>
      (if reader_count i = 0 \<and> min_size_to_park pol \<le> image_len i then is_parked i' else i' = i))" by blast
  show ?thesis
    by (rule exI [of _ rep], rule exI [of _ ?u], rule exI [of _ ?ys]) (intro conjI fp t(2,3) u(1) run im)
qed

theorem parkable_forced_sweep_parks_witness:
  "\<exists>s r s' i. run park_step [OpNew [7, 8, 9] 0] (new_manager (Some None) (\<lambda>_. 0) demo_policy) = Some s \<and>
     force_park_images_with_report (\<lambda>_. 1) (\<lambda>_. [Transferred 3]) s = Some (r, s') \<and> unavailable r = 0 \<and> images s' 0 = Some i \<and> is_parked i"
proof -
  let ?xs = "[OpNew [7, 8, 9] 0]"
  obtain s i p where s: "run park_step ?xs (new_manager (Some None) (\<lambda>_. 0) demo_policy) = Some s" and e: "jobs s = Map.empty"
    "image_pool s = Some p" "pool_ready 3 p" "resident_images s = [0]" and i: "images s 0 = Some i" "reader_count i = 0" "image_len i = 3"
    by (simp add: park_eval pool_ready_def resident_images_def)
  have c: "length (created ?xs) \<le> u64_max" "0 < min_size_to_park demo_policy"
    "pool_ready (sum_list (map (\<lambda>a. length (created ?xs ! a)) (resident_images s))) p"
    "list_all (\<lambda>a. transfers [Transferred 3] (length (created ?xs ! a))) (resident_images s)"
    using e by (simp_all add: u64_max_def numeral_3_eq_3)
  obtain r s' where r: "force_park_images_with_report (\<lambda>_. 1) (\<lambda>_. [Transferred 3]) s = Some (r, s')" "unavailable r = 0"
    and im: "\<forall>a i. images s a = Some i \<longrightarrow> (\<exists>i'. images s' a = Some i' \<and>
        (if reader_count i = 0 \<and> min_size_to_park demo_policy \<le> image_len i then is_parked i' else i' = i))"
    using parkable_forced_sweep_parks [OF s c(1) e(1) c(2) e(2) c(3,4), of "\<lambda>_. 1"] by blast
  obtain i' where "images s' 0 = Some i'" "is_parked i'" using im [rule_format, OF i(1)] i(2,3) by auto
  with s r show ?thesis by blast
qed

end
