(* ===== verification/Stream_Pipe.thy ===== *)
theory Stream_Pipe
  imports Moli_Prelude "HOL-Library.Word"
begin

section \<open>Piping a readable stream to a writable one (moli-streams, pipe.rs)\<close>

unbundle bit_operations_syntax

text \<open>
  \<^verbatim>\<open>PipeOwnerState\<close>: the state machine of one \<^verbatim>\<open>pipeTo\<close> operation.  Promises, chunks and errors stay with the
  embedder, which reports events and executes the command a transition returns.  Every transition of
  the code is a definition of the same name; the two bit sets, the options and the settlements of
  the shutdown actions, are 8 bit words as in the code.

  The lemmas are over all sequences of events, in any order: callbacks may be late, repeated or
  come from an earlier stage.  The events with their answers form the trace of a run.
\<close>

subsection \<open>Options\<close>

record pipe_options =
  prevent_close :: bool
  prevent_abort :: bool
  prevent_cancel :: bool

definition PREVENT_CLOSE :: "8 word" where "PREVENT_CLOSE = push_bit 0 1"
definition PREVENT_ABORT :: "8 word" where "PREVENT_ABORT = push_bit 1 1"
definition PREVENT_CANCEL :: "8 word" where "PREVENT_CANCEL = push_bit 2 1"

definition options_bits :: "pipe_options \<Rightarrow> 8 word" where
  "options_bits o1 = ((if prevent_close o1 then PREVENT_CLOSE else 0) OR (if prevent_abort o1 then PREVENT_ABORT else 0)) OR
     (if prevent_cancel o1 then PREVENT_CANCEL else 0)"

definition options_from_bits :: "8 word \<Rightarrow> pipe_options option" where
  "options_from_bits bits =
     (if bits AND NOT (PREVENT_CLOSE OR PREVENT_ABORT OR PREVENT_CANCEL) \<noteq> 0 then None
      else Some \<lparr>prevent_close = bits AND PREVENT_CLOSE \<noteq> 0, prevent_abort = bits AND PREVENT_ABORT \<noteq> 0,
        prevent_cancel = bits AND PREVENT_CANCEL \<noteq> 0\<rparr>)"


subsection \<open>Data\<close>

datatype readable_state = ReadableReadable | ReadableClosed | ReadableErrored

datatype writable_state = WritableWritable | WritableErroring | WritableClosed | WritableErrored

datatype pipe_shutdown_stage = WaitingForWritePublication | WaitingForLastWrite | RunningActions | Finalizing

datatype pipe_write_barrier = NoBarrier | WaitForPublication | WaitForSettlement

datatype pipe_terminal_trigger = SourceErrored | DestinationErrored | SourceClosed | DestinationClosed | Aborted

datatype pipe_lifecycle = Active | ShuttingDown pipe_shutdown_stage pipe_terminal_trigger | Finished

datatype pipe_shutdown_action = AbortDestination | CancelSource | CloseDestination | AbortDestinationAndCancelSource

datatype pipe_shutdown_operation = Destination | Source

datatype pipe_final_settlement = Resolve | RejectOriginal | RejectShutdownAction pipe_shutdown_operation

datatype pipe_abort_cleanup = NoCleanup | Unregister | ClearDispatching

record pipe_finalization =
  settlement :: pipe_final_settlement
  abort_cleanup :: pipe_abort_cleanup

datatype abort_listener_state = NoListener | Registered | Aborting

record pipe_owner_state =
  lifecycle :: pipe_lifecycle
  options :: pipe_options
  drain_scheduled :: bool
  read_pending :: bool
  write_in_progress :: bool
  drain_yield_once :: bool
  abort_listener :: abort_listener_state
  shutdown_settlements :: "8 word"

record pipe_destination_observation =
  destination_state :: writable_state
  close_requested :: bool

record pipe_endpoint_observation =
  endpoint_source_state :: readable_state
  endpoint_destination :: pipe_destination_observation

record pipe_pull_observation =
  source_state :: readable_state
  source_queue_empty :: bool
  destination_has_capacity :: bool

record pipe_entry_observation =
  source_locked :: bool
  destination_locked :: bool

datatype pipe_owner_mutation = MarkReadPending | IncomingChunk | BeginWrite | AbandonWrite | SetDrainBarrier | ClearDrainBarrier
  | AbortListenerRegistered | AbortDispatchStarted

datatype pipe_drain_event = Schedule | Callback

datatype pipe_shutdown_event =
    ClaimTerminal pipe_terminal_trigger pipe_destination_observation
  | LastWriteSettled
  | ActionFulfilled pipe_shutdown_operation
  | ActionRejected pipe_shutdown_operation
  | Finalize

datatype pipe_admission = Applied | Ignored

datatype pipe_drain_command = Enqueue | Run

datatype pipe_shutdown_command = WaitForLastWrite | RunActions pipe_shutdown_action | EnqueueFinalize | FinalizeWith pipe_finalization

datatype pipe_write_publication_command = StoreLastWrite | StoreLastWriteAndWait

record 'c pipe_transition =
  transition_source :: pipe_owner_state
  transition_next :: pipe_owner_state
  admission :: pipe_admission
  command :: "'c option"

definition ignored :: "pipe_owner_state \<Rightarrow> 'c pipe_transition" where
  "ignored s = \<lparr>transition_source = s, transition_next = s, admission = Ignored, command = None\<rparr>"

definition applied :: "pipe_owner_state \<Rightarrow> pipe_owner_state \<Rightarrow> 'c option \<Rightarrow> 'c pipe_transition" where
  "applied s t c = \<lparr>transition_source = s, transition_next = t, admission = Applied, command = c\<rparr>"

datatype pipe_chunk_size = ZeroSize | StrategySize

datatype pipe_incoming_chunk_plan = NotPiped | EnqueueAndSchedule pipe_chunk_size

datatype pipe_pull_plan = StopPull | BlockedByDestination | MarkReadPendingAndPull | ContinuePull

datatype pipe_endpoint_terminal_trigger = EndpointSourceErrored | EndpointDestinationErrored | EndpointSourceClosed
  | EndpointDestinationClosed

datatype pipe_initial_terminal_plan = StopInitial | ContinueInitial | ClaimInitial pipe_endpoint_terminal_trigger

datatype pipe_shutdown_operation_observation = ObserveAbortDestination writable_state | ObserveCancelSource readable_state

datatype pipe_shutdown_operation_plan = RunOperation | FulfillWithoutRunning

datatype pipe_entry_plan = StartPipe | RejectSourceLocked | RejectDestinationLocked


subsection \<open>Settlements\<close>

definition operation_bit :: "pipe_shutdown_operation \<Rightarrow> 8 word" where
  "operation_bit op = (case op of Destination \<Rightarrow> push_bit 0 1 | Source \<Rightarrow> push_bit 1 1)"

definition OPERATION_MASK :: "8 word" where
  "OPERATION_MASK = operation_bit Destination OR operation_bit Source"

definition SETTLEMENT_VALID_BITS :: "8 word" where
  "SETTLEMENT_VALID_BITS = OPERATION_MASK OR push_bit 2 OPERATION_MASK"

definition settled_mask :: "8 word \<Rightarrow> 8 word" where
  "settled_mask b = b AND OPERATION_MASK"

definition rejected_mask :: "8 word \<Rightarrow> 8 word" where
  "rejected_mask b = drop_bit 2 b AND OPERATION_MASK"

definition settlements_from_bits :: "8 word \<Rightarrow> (8 word) option" where
  "settlements_from_bits b =
     (if b AND NOT SETTLEMENT_VALID_BITS \<noteq> 0 then None
      else if rejected_mask b AND NOT (settled_mask b) \<noteq> 0 then None
      else Some b)"

definition settlements_empty :: "8 word \<Rightarrow> bool" where
  "settlements_empty b \<longleftrightarrow> b = 0"

definition is_settled :: "8 word \<Rightarrow> pipe_shutdown_operation \<Rightarrow> bool" where
  "is_settled b op \<longleftrightarrow> settled_mask b AND operation_bit op \<noteq> 0"

definition is_rejected :: "8 word \<Rightarrow> pipe_shutdown_operation \<Rightarrow> bool" where
  "is_rejected b op \<longleftrightarrow> rejected_mask b AND operation_bit op \<noteq> 0"

definition settle :: "8 word \<Rightarrow> pipe_shutdown_operation \<Rightarrow> bool \<Rightarrow> 8 word" where
  "settle b op rejected =
     (let bits = b OR operation_bit op in if rejected then bits OR push_bit 2 (operation_bit op) else bits)"

definition operation_mask :: "pipe_shutdown_action \<Rightarrow> 8 word" where
  "operation_mask a =
     (case a of
        AbortDestination \<Rightarrow> operation_bit Destination
      | CloseDestination \<Rightarrow> operation_bit Destination
      | CancelSource \<Rightarrow> operation_bit Source
      | AbortDestinationAndCancelSource \<Rightarrow> operation_bit Destination OR operation_bit Source)"


subsection \<open>The owner state\<close>

definition new_pipe :: "pipe_options \<Rightarrow> pipe_owner_state" where
  "new_pipe opts = \<lparr>lifecycle = Active, options = opts, drain_scheduled = False, read_pending = False,
     write_in_progress = False, drain_yield_once = False, abort_listener = NoListener, shutdown_settlements = 0\<rparr>"

definition terminal_trigger :: "pipe_owner_state \<Rightarrow> pipe_terminal_trigger option" where
  "terminal_trigger s = (case lifecycle s of ShuttingDown stage trigger \<Rightarrow> Some trigger | Active \<Rightarrow> None | Finished \<Rightarrow> None)"

definition is_active :: "pipe_owner_state \<Rightarrow> bool" where
  "is_active s \<longleftrightarrow> lifecycle s = Active"

definition is_waiting_for_write_publication :: "pipe_owner_state \<Rightarrow> bool" where
  "is_waiting_for_write_publication s =
     (case lifecycle s of ShuttingDown WaitingForWritePublication trigger \<Rightarrow> True | _ \<Rightarrow> False)"

definition shutdown_action :: "pipe_owner_state \<Rightarrow> pipe_terminal_trigger \<Rightarrow> pipe_shutdown_action option" where
  "shutdown_action s trigger =
     (case trigger of
        SourceErrored \<Rightarrow> if \<not> prevent_abort (options s) then Some AbortDestination else None
      | DestinationErrored \<Rightarrow> if \<not> prevent_cancel (options s) then Some CancelSource else None
      | DestinationClosed \<Rightarrow> if \<not> prevent_cancel (options s) then Some CancelSource else None
      | SourceClosed \<Rightarrow> if \<not> prevent_close (options s) then Some CloseDestination else None
      | Aborted \<Rightarrow>
          if \<not> prevent_abort (options s) \<and> \<not> prevent_cancel (options s) then Some AbortDestinationAndCancelSource
          else if \<not> prevent_abort (options s) then Some AbortDestination
          else if \<not> prevent_cancel (options s) then Some CancelSource
          else None)"

definition required_shutdown_action_mask :: "pipe_owner_state \<Rightarrow> 8 word" where
  "required_shutdown_action_mask s =
     (case terminal_trigger s of
        Some trigger \<Rightarrow> (case shutdown_action s trigger of Some action \<Rightarrow> operation_mask action | None \<Rightarrow> 0)
      | None \<Rightarrow> 0)"

definition remaining_shutdown_action_mask :: "pipe_owner_state \<Rightarrow> 8 word" where
  "remaining_shutdown_action_mask s =
     required_shutdown_action_mask s AND NOT (settled_mask (shutdown_settlements s))"

definition storage_invariants_hold :: "pipe_owner_state \<Rightarrow> bool" where
  "storage_invariants_hold s =
     (case lifecycle s of
        Active \<Rightarrow> settlements_empty (shutdown_settlements s)
      | ShuttingDown stage trigger \<Rightarrow>
          if drain_scheduled s \<or> read_pending s \<or> drain_yield_once s then False
          else (case stage of
              WaitingForWritePublication \<Rightarrow> write_in_progress s \<and> settlements_empty (shutdown_settlements s)
            | WaitingForLastWrite \<Rightarrow> \<not> write_in_progress s \<and> settlements_empty (shutdown_settlements s)
            | RunningActions \<Rightarrow>
                (let required = required_shutdown_action_mask s
                 in \<not> write_in_progress s \<and> required \<noteq> 0
                    \<and> settled_mask (shutdown_settlements s) AND NOT required = 0
                    \<and> remaining_shutdown_action_mask s \<noteq> 0)
            | Finalizing \<Rightarrow>
                (let required = required_shutdown_action_mask s
                 in \<not> write_in_progress s \<and> required \<noteq> 0
                    \<and> settled_mask (shutdown_settlements s) = required
                    \<and> rejected_mask (shutdown_settlements s) = 0))
      | Finished \<Rightarrow>
          \<not> drain_scheduled s \<and> \<not> read_pending s \<and> \<not> write_in_progress s \<and> \<not> drain_yield_once s
          \<and> abort_listener s = NoListener \<and> settlements_empty (shutdown_settlements s))"

definition pipe_from_storage ::
  "pipe_lifecycle \<Rightarrow> pipe_options \<Rightarrow> bool \<Rightarrow> bool \<Rightarrow> bool \<Rightarrow> bool \<Rightarrow> abort_listener_state \<Rightarrow> 8 word \<Rightarrow> pipe_owner_state option" where
  "pipe_from_storage lc opts ds rp wip dyo al ss =
     (let state = \<lparr>lifecycle = lc, options = opts, drain_scheduled = ds, read_pending = rp, write_in_progress = wip,
        drain_yield_once = dyo, abort_listener = al, shutdown_settlements = ss\<rparr>
      in if storage_invariants_hold state then Some state else None)"


subsection \<open>Plans\<close>

definition plan_incoming_chunk :: "pipe_owner_state \<Rightarrow> pipe_incoming_chunk_plan" where
  "plan_incoming_chunk s =
     (if \<not> is_active s then NotPiped
      else if read_pending s then EnqueueAndSchedule ZeroSize
      else EnqueueAndSchedule StrategySize)"

definition fulfills_pending_read :: "pipe_chunk_size \<Rightarrow> bool" where
  "fulfills_pending_read sz \<longleftrightarrow> sz = ZeroSize"

definition has_pull_demand :: "pipe_owner_state \<Rightarrow> bool \<Rightarrow> bool" where
  "has_pull_demand s source_has_capacity \<longleftrightarrow> is_active s \<and> (read_pending s \<or> source_has_capacity)"

definition plan_before_pull :: "pipe_owner_state \<Rightarrow> pipe_pull_observation \<Rightarrow> pipe_pull_plan" where
  "plan_before_pull s obs =
     (if \<not> is_active s then StopPull
      else if source_state obs \<noteq> ReadableReadable then ContinuePull
      else if \<not> destination_has_capacity obs then BlockedByDestination
      else if source_queue_empty obs then MarkReadPendingAndPull
      else ContinuePull)"

definition plan_initial_terminal :: "pipe_owner_state \<Rightarrow> pipe_endpoint_observation \<Rightarrow> pipe_initial_terminal_plan" where
  "plan_initial_terminal s obs =
     (if \<not> is_active s then StopInitial
      else if endpoint_source_state obs = ReadableErrored then ClaimInitial EndpointSourceErrored
      else if destination_state (endpoint_destination obs) = WritableErrored then ClaimInitial EndpointDestinationErrored
      else if endpoint_source_state obs = ReadableClosed then ClaimInitial EndpointSourceClosed
      else if close_requested (endpoint_destination obs)
        \<or> destination_state (endpoint_destination obs) = WritableClosed then ClaimInitial EndpointDestinationClosed
      else ContinueInitial)"

definition plan_shutdown_operation ::
  "pipe_owner_state \<Rightarrow> pipe_shutdown_operation_observation \<Rightarrow> pipe_shutdown_operation_plan" where
  "plan_shutdown_operation s obs =
     (case obs of
        ObserveAbortDestination state \<Rightarrow>
          if terminal_trigger s = Some Aborted \<and> state \<noteq> WritableWritable then FulfillWithoutRunning else RunOperation
      | ObserveCancelSource state \<Rightarrow> if state \<noteq> ReadableReadable then FulfillWithoutRunning else RunOperation)"

definition entry_plan :: "pipe_entry_observation \<Rightarrow> pipe_entry_plan" where
  "entry_plan obs =
     (if source_locked obs then RejectSourceLocked
      else if destination_locked obs then RejectDestinationLocked
      else StartPipe)"


subsection \<open>Transitions\<close>

definition original_settlement :: "pipe_terminal_trigger \<Rightarrow> pipe_final_settlement" where
  "original_settlement trigger =
     (case trigger of
        SourceClosed \<Rightarrow> Resolve
      | SourceErrored \<Rightarrow> RejectOriginal
      | DestinationErrored \<Rightarrow> RejectOriginal
      | DestinationClosed \<Rightarrow> RejectOriginal
      | Aborted \<Rightarrow> RejectOriginal)"

definition finalization :: "pipe_owner_state \<Rightarrow> pipe_final_settlement \<Rightarrow> pipe_finalization" where
  "finalization s settle_as = \<lparr>settlement = settle_as,
     abort_cleanup = (case abort_listener s of
        NoListener \<Rightarrow> NoCleanup | Registered \<Rightarrow> Unregister | Aborting \<Rightarrow> ClearDispatching)\<rparr>"

definition finish_pipe :: "pipe_owner_state \<Rightarrow> pipe_owner_state" where
  "finish_pipe s = s\<lparr>lifecycle := Finished, drain_scheduled := False, read_pending := False, write_in_progress := False,
     drain_yield_once := False, abort_listener := NoListener, shutdown_settlements := 0\<rparr>"

definition begin_write :: "pipe_owner_state \<Rightarrow> 'c pipe_transition" where
  "begin_write s =
     (if \<not> is_active s \<or> write_in_progress s then ignored s
      else applied s (s\<lparr>write_in_progress := True\<rparr>) None)"

definition abandon_write :: "pipe_owner_state \<Rightarrow> 'c pipe_transition" where
  "abandon_write s =
     (if \<not> write_in_progress s \<or> is_waiting_for_write_publication s then ignored s
      else applied s (s\<lparr>write_in_progress := False\<rparr>) None)"

definition transition_mutation :: "pipe_owner_state \<Rightarrow> pipe_owner_mutation \<Rightarrow> 'c pipe_transition" where
  "transition_mutation s mutation =
     (case mutation of
        MarkReadPending \<Rightarrow> if \<not> is_active s then ignored s else applied s (s\<lparr>read_pending := True\<rparr>) None
      | IncomingChunk \<Rightarrow> if \<not> is_active s then ignored s else applied s (s\<lparr>read_pending := False\<rparr>) None
      | BeginWrite \<Rightarrow> begin_write s
      | AbandonWrite \<Rightarrow> abandon_write s
      | SetDrainBarrier \<Rightarrow> if \<not> is_active s then ignored s else applied s (s\<lparr>drain_yield_once := True\<rparr>) None
      | ClearDrainBarrier \<Rightarrow> if \<not> is_active s then ignored s else applied s (s\<lparr>drain_yield_once := False\<rparr>) None
      | AbortListenerRegistered \<Rightarrow>
          if \<not> is_active s then ignored s else applied s (s\<lparr>abort_listener := Registered\<rparr>) None
      | AbortDispatchStarted \<Rightarrow>
          if \<not> is_active s then ignored s else applied s (s\<lparr>abort_listener := Aborting\<rparr>) None)"

definition schedule_drain :: "pipe_owner_state \<Rightarrow> pipe_drain_command pipe_transition" where
  "schedule_drain s =
     (if \<not> is_active s then ignored s
      else if drain_scheduled s then applied s s None
      else applied s (s\<lparr>drain_scheduled := True\<rparr>) (Some Enqueue))"

definition begin_drain :: "pipe_owner_state \<Rightarrow> pipe_drain_command pipe_transition" where
  "begin_drain s =
     (if \<not> is_active s \<or> \<not> drain_scheduled s then ignored s
      else if drain_yield_once s then applied s (s\<lparr>drain_yield_once := False\<rparr>) (Some Enqueue)
      else applied s (s\<lparr>drain_scheduled := False\<rparr>) (Some Run))"

definition transition_drain :: "pipe_owner_state \<Rightarrow> pipe_drain_event \<Rightarrow> pipe_drain_command pipe_transition" where
  "transition_drain s event = (case event of Schedule \<Rightarrow> schedule_drain s | Callback \<Rightarrow> begin_drain s)"

definition publish_last_write :: "pipe_owner_state \<Rightarrow> pipe_write_publication_command pipe_transition" where
  "publish_last_write s =
     (if \<not> write_in_progress s then ignored s
      else let next = s\<lparr>write_in_progress := False\<rparr>
        in if is_active s then applied s next (Some StoreLastWrite)
           else (case lifecycle s of
               ShuttingDown WaitingForWritePublication trigger \<Rightarrow>
                 applied s (next\<lparr>lifecycle := ShuttingDown WaitingForLastWrite trigger\<rparr>) (Some StoreLastWriteAndWait)
             | _ \<Rightarrow> applied s next None))"

definition write_barrier :: "pipe_owner_state \<Rightarrow> pipe_destination_observation \<Rightarrow> pipe_write_barrier" where
  "write_barrier s destination =
     (if destination_state destination \<noteq> WritableWritable \<or> close_requested destination then NoBarrier
      else if write_in_progress s then WaitForPublication
      else WaitForSettlement)"

definition claim_terminal ::
  "pipe_owner_state \<Rightarrow> pipe_terminal_trigger \<Rightarrow> pipe_write_barrier \<Rightarrow> pipe_shutdown_command pipe_transition" where
  "claim_terminal s trigger barrier =
     (if \<not> is_active s then ignored s
      else
        let action = shutdown_action s trigger;
            settle_as = original_settlement trigger;
            stage = (case barrier of NoBarrier \<Rightarrow> RunningActions | WaitForPublication \<Rightarrow> WaitingForWritePublication
              | WaitForSettlement \<Rightarrow> WaitingForLastWrite);
            next = s\<lparr>drain_scheduled := False, read_pending := False, drain_yield_once := False,
              lifecycle := ShuttingDown stage trigger, shutdown_settlements := 0\<rparr>;
            next = (if barrier \<noteq> WaitForPublication then next\<lparr>write_in_progress := False\<rparr> else next)
        in case barrier of
            WaitForPublication \<Rightarrow> applied s next None
          | WaitForSettlement \<Rightarrow> applied s next (Some WaitForLastWrite)
          | NoBarrier \<Rightarrow>
              (case action of
                 None \<Rightarrow> applied s (finish_pipe next) (Some (FinalizeWith (finalization next settle_as)))
               | Some action \<Rightarrow> applied s next (Some (RunActions action))))"

definition last_write_settled :: "pipe_owner_state \<Rightarrow> pipe_shutdown_command pipe_transition" where
  "last_write_settled s =
     (case lifecycle s of
        ShuttingDown WaitingForLastWrite trigger \<Rightarrow>
          (let action = shutdown_action s trigger;
               settle_as = original_settlement trigger;
               next = s\<lparr>lifecycle := ShuttingDown RunningActions trigger\<rparr>
           in case action of
               None \<Rightarrow> applied s (finish_pipe next) (Some (FinalizeWith (finalization next settle_as)))
             | Some action \<Rightarrow> applied s next (Some (RunActions action)))
      | _ \<Rightarrow> ignored s)"

definition shutdown_action_settled ::
  "pipe_owner_state \<Rightarrow> pipe_shutdown_operation \<Rightarrow> bool \<Rightarrow> pipe_shutdown_command pipe_transition" where
  "shutdown_action_settled s operation rejected =
     (case lifecycle s of
        ShuttingDown RunningActions trigger \<Rightarrow>
          (case shutdown_action s trigger of
             None \<Rightarrow> ignored s
           | Some action \<Rightarrow>
               if operation_mask action AND operation_bit operation = 0
                 \<or> is_settled (shutdown_settlements s) operation then ignored s
               else
                 let next = s\<lparr>shutdown_settlements := settle (shutdown_settlements s) operation rejected\<rparr>
                 in if remaining_shutdown_action_mask next \<noteq> 0 then applied s next None
                    else if is_rejected (shutdown_settlements next) Destination then
                      applied s (finish_pipe next) (Some (FinalizeWith (finalization next (RejectShutdownAction Destination))))
                    else if is_rejected (shutdown_settlements next) Source then
                      applied s (finish_pipe next) (Some (FinalizeWith (finalization next (RejectShutdownAction Source))))
                    else applied s (next\<lparr>lifecycle := ShuttingDown Finalizing trigger\<rparr>) (Some EnqueueFinalize))
      | _ \<Rightarrow> ignored s)"

definition finalize_original :: "pipe_owner_state \<Rightarrow> pipe_shutdown_command pipe_transition" where
  "finalize_original s =
     (case lifecycle s of
        ShuttingDown Finalizing trigger \<Rightarrow>
          applied s (finish_pipe s) (Some (FinalizeWith (finalization s (original_settlement trigger))))
      | _ \<Rightarrow> ignored s)"

definition transition_shutdown :: "pipe_owner_state \<Rightarrow> pipe_shutdown_event \<Rightarrow> pipe_shutdown_command pipe_transition" where
  "transition_shutdown s event =
     (case event of
        ClaimTerminal trigger destination \<Rightarrow> claim_terminal s trigger (write_barrier s destination)
      | LastWriteSettled \<Rightarrow> last_write_settled s
      | ActionFulfilled operation \<Rightarrow> shutdown_action_settled s operation False
      | ActionRejected operation \<Rightarrow> shutdown_action_settled s operation True
      | Finalize \<Rightarrow> finalize_original s)"


subsection \<open>Runs and their traces\<close>

text \<open>
  The public transitions as one step.  The commands of the three kinds of transition are tagged;
  \<^verbatim>\<open>transition_mutation\<close> has none (its command type is \<^verbatim>\<open>Infallible\<close> in the code).  A run keeps the trace
  of its events with the admission and the command of each.
\<close>

datatype pipe_event = Mutate pipe_owner_mutation | Drain pipe_drain_event | Shutdown pipe_shutdown_event | PublishLastWrite

datatype pipe_command = DrainCommand pipe_drain_command | ShutdownCommand pipe_shutdown_command
  | PublicationCommand pipe_write_publication_command

type_synonym pipe_entry = "pipe_event \<times> pipe_admission \<times> pipe_command option"

definition tagged :: "('c \<Rightarrow> pipe_command) \<Rightarrow> 'c pipe_transition \<Rightarrow> pipe_admission \<times> pipe_command option \<times> pipe_owner_state" where
  "tagged tag t = (admission t, map_option tag (command t), transition_next t)"

definition pipe_step :: "pipe_owner_state \<Rightarrow> pipe_event \<Rightarrow> pipe_admission \<times> pipe_command option \<times> pipe_owner_state" where
  "pipe_step s event =
     (case event of
        Mutate m \<Rightarrow> tagged (\<lambda>c. c) (transition_mutation s m)
      | Drain e \<Rightarrow> tagged DrainCommand (transition_drain s e)
      | Shutdown e \<Rightarrow> tagged ShutdownCommand (transition_shutdown s e)
      | PublishLastWrite \<Rightarrow> tagged PublicationCommand (publish_last_write s))"

definition pipe_exec :: "pipe_event \<Rightarrow> pipe_entry list \<times> pipe_owner_state \<Rightarrow> (pipe_entry list \<times> pipe_owner_state) option" where
  "pipe_exec event h =
     (case pipe_step (snd h) event of (adm, cmd, next) \<Rightarrow> Some (fst h @ [(event, adm, cmd)], next))"


text \<open>What a trace shows: the claims, settlements and write waits that were admitted, and the commands.\<close>

fun claim_of :: "pipe_entry \<Rightarrow> (pipe_terminal_trigger \<times> pipe_destination_observation) list" where
  "claim_of (Shutdown (ClaimTerminal t d), Applied, cmd) = [(t, d)]"
| "claim_of x = []"

fun settled_of :: "pipe_entry \<Rightarrow> (pipe_shutdown_operation \<times> bool) list" where
  "settled_of (Shutdown (ActionFulfilled op), Applied, cmd) = [(op, False)]"
| "settled_of (Shutdown (ActionRejected op), Applied, cmd) = [(op, True)]"
| "settled_of x = []"

fun waited_of :: "pipe_entry \<Rightarrow> unit list" where
  "waited_of (Shutdown LastWriteSettled, Applied, cmd) = [()]"
| "waited_of x = []"

fun listener_of :: "pipe_entry \<Rightarrow> abort_listener_state list" where
  "listener_of (Mutate AbortListenerRegistered, Applied, cmd) = [Registered]"
| "listener_of (Mutate AbortDispatchStarted, Applied, cmd) = [Aborting]"
| "listener_of x = []"

fun action_of :: "pipe_entry \<Rightarrow> pipe_shutdown_action list" where
  "action_of (e, adm, Some (ShutdownCommand (RunActions a))) = [a]"
| "action_of x = []"

fun final_of :: "pipe_entry \<Rightarrow> pipe_finalization list" where
  "final_of (e, adm, Some (ShutdownCommand (FinalizeWith f))) = [f]"
| "final_of x = []"

definition seen :: "(pipe_entry \<Rightarrow> 'a list) \<Rightarrow> pipe_entry list \<Rightarrow> 'a list" where
  "seen f tr = concat (map f tr)"

definition after_final :: "pipe_entry list \<Rightarrow> pipe_entry list" where
  "after_final tr = tl (dropWhile (\<lambda>x. final_of x = []) tr)"

text \<open>
  The contract of the specification: destination rejections win, then source rejections, then the
  first trigger; each option takes one operation away.
\<close>

definition promised_settlement :: "pipe_terminal_trigger \<Rightarrow> (pipe_shutdown_operation \<times> bool) list \<Rightarrow> pipe_final_settlement" where
  "promised_settlement t rs =
     (if (Destination, True) \<in> set rs then RejectShutdownAction Destination
      else if (Source, True) \<in> set rs then RejectShutdownAction Source
      else if t = SourceClosed then Resolve else RejectOriginal)"

definition promised_cleanup :: "abort_listener_state list \<Rightarrow> pipe_abort_cleanup" where
  "promised_cleanup ls = (if ls = [] then NoCleanup else if last ls = Registered then Unregister else ClearDispatching)"

definition action_operations :: "pipe_shutdown_action \<Rightarrow> pipe_shutdown_operation set" where
  "action_operations a =
     (case a of AbortDestination \<Rightarrow> {Destination} | CloseDestination \<Rightarrow> {Destination} | CancelSource \<Rightarrow> {Source}
      | AbortDestinationAndCancelSource \<Rightarrow> {Destination, Source})"

definition promised_operations :: "pipe_options \<Rightarrow> pipe_terminal_trigger \<Rightarrow> pipe_shutdown_operation set" where
  "promised_operations opts t =
     (if t = SourceClosed \<and> \<not> prevent_close opts \<or> t \<in> {SourceErrored, Aborted} \<and> \<not> prevent_abort opts
      then {Destination} else {})
     \<union> (if t \<in> {DestinationErrored, DestinationClosed, Aborted} \<and> \<not> prevent_cancel opts then {Source} else {})"

definition live_destination :: "pipe_destination_observation \<Rightarrow> bool" where
  "live_destination d \<longleftrightarrow> destination_state d = WritableWritable \<and> \<not> close_requested d"


subsection \<open>Lemmas on the settlement bits\<close>

definition settlement_code :: "bool option \<Rightarrow> bool option \<Rightarrow> 8 word" where
  "settlement_code d r =
     (case d of None \<Rightarrow> 0 | Some rej \<Rightarrow> if rej then 5 else 1) OR (case r of None \<Rightarrow> 0 | Some rej \<Rightarrow> if rej then 10 else 2)"

lemmas bits_defs = settlement_code_def operation_bit_def OPERATION_MASK_def SETTLEMENT_VALID_BITS_def settled_mask_def
  rejected_mask_def is_settled_def is_rejected_def settle_def operation_mask_def settlements_empty_def

lemma word8_masks [simp]:
  "push_bit 1 (1 :: 8 word) = 2" "push_bit 2 (1 :: 8 word) = 4" "push_bit 2 (2 :: 8 word) = 8" "push_bit 2 (3 :: 8 word) = 12"
  by (simp_all add: push_bit_eq_mult)

lemma settlement_code_empty [simp]: "settlement_code None None = 0"
  by (simp add: settlement_code_def)

lemma settlement_code_settled [simp]:
  "is_settled (settlement_code d r) Destination \<longleftrightarrow> d \<noteq> None"
  "is_settled (settlement_code d r) Source \<longleftrightarrow> r \<noteq> None"
  by (cases d; cases r; simp add: bits_defs; fail)+

lemma settlement_code_rejected [simp]:
  "is_rejected (settlement_code d r) Destination \<longleftrightarrow> d = Some True"
  "is_rejected (settlement_code d r) Source \<longleftrightarrow> r = Some True"
  by (cases d; cases r; simp add: bits_defs drop_bit_eq_div; fail)+

lemma settlement_code_settle [simp]:
  "d = None \<Longrightarrow> settle (settlement_code d r) Destination rej = settlement_code (Some rej) r"
  "r = None \<Longrightarrow> settle (settlement_code d r) Source rej = settlement_code d (Some rej)"
  by (cases d; cases r; simp add: bits_defs; fail)+


text \<open>The bits as a function of the settlements seen, and the masks as sets of operations.\<close>

definition code_of :: "(pipe_shutdown_operation \<times> bool) list \<Rightarrow> 8 word" where
  "code_of rs = settlement_code (map_of rs Destination) (map_of rs Source)"

lemma code_of_Nil [simp]: "code_of [] = 0"
  by (simp add: code_of_def)

lemma operations_subset: "A \<subseteq> B \<longleftrightarrow> (Destination \<in> A \<longrightarrow> Destination \<in> B) \<and> (Source \<in> A \<longrightarrow> Source \<in> B)"
  by (metis (full_types) pipe_shutdown_operation.exhaust subset_iff)

lemma operations_eq: "A = B \<longleftrightarrow> (Destination \<in> A \<longleftrightarrow> Destination \<in> B) \<and> (Source \<in> A \<longleftrightarrow> Source \<in> B)"
  unfolding set_eq_subset operations_subset by blast

lemma settled_map_of: "op \<in> fst ` set rs \<longleftrightarrow> map_of rs op \<noteq> None"
  by (simp add: map_of_eq_None_iff)

lemma code_of_settled [simp]: "is_settled (code_of rs) op \<longleftrightarrow> op \<in> fst ` set rs"
  by (cases op) (simp_all add: code_of_def settled_map_of)

lemma code_of_rejected [simp]: "distinct (map fst rs) \<Longrightarrow> is_rejected (code_of rs) op \<longleftrightarrow> (op, True) \<in> set rs"
  by (cases op) (simp_all add: code_of_def)

lemma code_of_settle [simp]:
  "op \<notin> fst ` set rs \<Longrightarrow> settle (code_of rs) op rej = code_of (rs @ [(op, rej)])"
  by (cases op) (simp_all add: code_of_def settled_map_of map_add_def split: option.split)

lemma action_operation_bit [simp]: "operation_mask a AND operation_bit op = 0 \<longleftrightarrow> op \<notin> action_operations a"
  by (cases a; cases op) (simp_all add: bits_defs action_operations_def)

lemma operation_mask_nonzero [simp]: "operation_mask a \<noteq> 0"
  by (cases a) (simp_all add: bits_defs)

lemma remaining_settled:
  "operation_mask a AND NOT (settled_mask (code_of rs)) = 0 \<longleftrightarrow> action_operations a \<subseteq> fst ` set rs"
  unfolding operations_subset settled_map_of code_of_def
  by (cases a; cases "map_of rs Destination"; cases "map_of rs Source")
    (simp_all add: bits_defs action_operations_def)

lemma settled_within:
  "settled_mask (code_of rs) AND NOT (operation_mask a) = 0 \<longleftrightarrow> fst ` set rs \<subseteq> action_operations a"
  unfolding operations_subset settled_map_of code_of_def
  by (cases a; cases "map_of rs Destination"; cases "map_of rs Source")
    (simp_all add: bits_defs action_operations_def)

lemma settled_exactly: "settled_mask (code_of rs) = operation_mask a \<longleftrightarrow> fst ` set rs = action_operations a"
  unfolding operations_eq settled_map_of code_of_def
  by (cases a; cases "map_of rs Destination"; cases "map_of rs Source")
    (simp_all add: bits_defs action_operations_def)

lemma nothing_rejected: "distinct (map fst rs) \<Longrightarrow> rejected_mask (code_of rs) = 0 \<longleftrightarrow> (\<forall>op. (op, True) \<notin> set rs)"
proof -
  assume d: "distinct (map fst rs)"
  have "rejected_mask (code_of rs) = 0 \<longleftrightarrow> map_of rs Destination \<noteq> Some True \<and> map_of rs Source \<noteq> Some True"
    unfolding code_of_def by (cases "map_of rs Destination"; cases "map_of rs Source")
      (simp_all add: bits_defs drop_bit_eq_div)
  then show ?thesis using d by (metis (full_types) map_of_eq_Some_iff pipe_shutdown_operation.exhaust)
qed

lemma code_of_decodes: "settlements_from_bits (code_of rs) = Some (code_of rs)"
  unfolding code_of_def by (cases "map_of rs Destination"; cases "map_of rs Source")
    (simp_all add: bits_defs settlements_from_bits_def drop_bit_eq_div)

lemma options_bits_decode: "options_from_bits (options_bits opts) = Some opts"
  by (cases opts) (simp add: options_bits_def options_from_bits_def PREVENT_CLOSE_def PREVENT_ABORT_def PREVENT_CANCEL_def)


subsection \<open>What the trace says about the state\<close>

definition listener_seen :: "pipe_entry list \<Rightarrow> abort_listener_state" where
  "listener_seen tr = (if seen listener_of tr = [] then NoListener else last (seen listener_of tr))"

definition waits_seen :: "pipe_destination_observation \<Rightarrow> unit list" where
  "waits_seen d = (if live_destination d then [()] else [])"

definition started :: "pipe_entry list \<Rightarrow> pipe_owner_state \<Rightarrow> bool" where
  "started tr s \<longleftrightarrow> seen claim_of tr = [] \<and> seen action_of tr = [] \<and> seen settled_of tr = [] \<and> seen waited_of tr = []
     \<and> seen final_of tr = [] \<and> shutdown_settlements s = 0 \<and> abort_listener s = listener_seen tr"

definition draining :: "pipe_entry list \<Rightarrow> pipe_owner_state \<Rightarrow> pipe_shutdown_stage \<Rightarrow> pipe_terminal_trigger
    \<Rightarrow> pipe_destination_observation \<Rightarrow> bool" where
  "draining tr s stage t d \<longleftrightarrow> \<not> drain_scheduled s \<and> \<not> read_pending s \<and> \<not> drain_yield_once s
     \<and> write_in_progress s = (stage = WaitingForWritePublication) \<and> abort_listener s = listener_seen tr
     \<and> seen claim_of tr = [(t, d)] \<and> seen final_of tr = []"

definition waiting_for_write :: "pipe_entry list \<Rightarrow> pipe_owner_state \<Rightarrow> pipe_destination_observation \<Rightarrow> bool" where
  "waiting_for_write tr s d \<longleftrightarrow> live_destination d \<and> seen action_of tr = [] \<and> seen settled_of tr = [] \<and> seen waited_of tr = []
     \<and> shutdown_settlements s = 0"

definition acting :: "pipe_entry list \<Rightarrow> pipe_owner_state \<Rightarrow> pipe_terminal_trigger \<Rightarrow> pipe_destination_observation
    \<Rightarrow> pipe_shutdown_action \<Rightarrow> bool" where
  "acting tr s t d a \<longleftrightarrow> shutdown_action s t = Some a \<and> seen action_of tr = [a] \<and> seen waited_of tr = waits_seen d
     \<and> distinct (map fst (seen settled_of tr)) \<and> shutdown_settlements s = code_of (seen settled_of tr)"

definition ended :: "pipe_entry list \<Rightarrow> pipe_owner_state \<Rightarrow> pipe_terminal_trigger \<Rightarrow> pipe_destination_observation \<Rightarrow> bool" where
  "ended tr s t d \<longleftrightarrow> seen claim_of tr = [(t, d)] \<and> seen waited_of tr = waits_seen d
     \<and> seen action_of tr = (case shutdown_action s t of None \<Rightarrow> [] | Some a \<Rightarrow> [a])
     \<and> distinct (map fst (seen settled_of tr))
     \<and> fst ` set (seen settled_of tr) = (case shutdown_action s t of None \<Rightarrow> {} | Some a \<Rightarrow> action_operations a)
     \<and> seen final_of tr = [\<lparr>settlement = promised_settlement t (seen settled_of tr),
          abort_cleanup = promised_cleanup (seen listener_of tr)\<rparr>]
     \<and> (\<forall>x\<in>set (after_final tr). snd x = (Ignored, None))"

fun stage_seen :: "pipe_entry list \<Rightarrow> pipe_owner_state \<Rightarrow> pipe_shutdown_stage \<Rightarrow> pipe_terminal_trigger
    \<Rightarrow> pipe_destination_observation \<Rightarrow> bool" where
  "stage_seen tr s WaitingForWritePublication t d = waiting_for_write tr s d"
| "stage_seen tr s WaitingForLastWrite t d = waiting_for_write tr s d"
| "stage_seen tr s RunningActions t d =
     (\<exists>a. acting tr s t d a \<and> fst ` set (seen settled_of tr) \<subset> action_operations a)"
| "stage_seen tr s Finalizing t d =
     (\<exists>a. acting tr s t d a \<and> fst ` set (seen settled_of tr) = action_operations a
        \<and> (\<forall>op. (op, True) \<notin> set (seen settled_of tr)))"

definition lifecycle_seen :: "pipe_entry list \<Rightarrow> pipe_owner_state \<Rightarrow> bool" where
  "lifecycle_seen tr s =
     (case lifecycle s of
        Active \<Rightarrow> started tr s
      | ShuttingDown stage t \<Rightarrow> \<exists>d. draining tr s stage t d \<and> stage_seen tr s stage t d
      | Finished \<Rightarrow> finish_pipe s = s \<and> (\<exists>t d. ended tr s t d))"

definition pipe_history :: "pipe_options \<Rightarrow> pipe_entry list \<times> pipe_owner_state \<Rightarrow> bool" where
  "pipe_history opts h \<longleftrightarrow> options (snd h) = opts \<and> lifecycle_seen (fst h) (snd h)"

lemma seen_Nil [simp]: "seen f [] = []"
  by (simp add: seen_def)

lemma seen_snoc [simp]: "seen f (tr @ [x]) = seen f tr @ f x"
  by (simp add: seen_def)

lemma ignored_claim [simp]: "claim_of (e, Ignored, c) = []"
  by (cases "(e, Ignored, c)" rule: claim_of.cases) simp_all

lemma ignored_settled [simp]: "settled_of (e, Ignored, c) = []"
  by (cases "(e, Ignored, c)" rule: settled_of.cases) simp_all

lemma ignored_waited [simp]: "waited_of (e, Ignored, c) = []"
  by (cases "(e, Ignored, c)" rule: waited_of.cases) simp_all

lemma ignored_listener [simp]: "listener_of (e, Ignored, c) = []"
  by (cases "(e, Ignored, c)" rule: listener_of.cases) simp_all

lemma silent_unseen [simp]: "action_of (e, adm, None) = []" "final_of (e, adm, None) = []"
  by simp_all

lemma after_final_first: "seen final_of tr = [] \<Longrightarrow> after_final (tr @ [x]) = []"
  by (auto simp: after_final_def seen_def dropWhile_append)

lemma after_final_snoc: "seen final_of tr \<noteq> [] \<Longrightarrow> after_final (tr @ [x]) = after_final tr @ [x]"
  by (auto simp: after_final_def seen_def dropWhile_append tl_append split: list.split)

lemma listener_seen_snoc [simp]:
  "listener_seen (tr @ [x]) = (if listener_of x = [] then listener_seen tr else last (listener_of x))"
  by (simp add: listener_seen_def)


lemmas stage_defs = started_def draining_def waiting_for_write_def acting_def ended_def

lemma ended_ignored: "ended tr s t d \<Longrightarrow> ended (tr @ [(e, Ignored, None)]) s t d"
  by (auto simp: ended_def after_final_snoc)

lemma stage_seen_ignored [simp]: "stage_seen (tr @ [(e, Ignored, None)]) s stage t d = stage_seen tr s stage t d"
  by (cases stage) (simp_all add: waiting_for_write_def acting_def)

lemma lifecycle_seen_ignored: "lifecycle_seen tr s \<Longrightarrow> lifecycle_seen (tr @ [(e, Ignored, None)]) s"
  by (auto simp: lifecycle_seen_def started_def draining_def intro: ended_ignored split: pipe_lifecycle.splits)

text \<open>The one step lemma of each group of events.\<close>

definition keeps :: "pipe_owner_state \<Rightarrow> pipe_event \<Rightarrow> bool" where
  "keeps s e \<longleftrightarrow> (\<forall>tr. lifecycle_seen tr s \<longrightarrow>
     (case pipe_step s e of (adm, cmd, next) \<Rightarrow> lifecycle_seen (tr @ [(e, adm, cmd)]) next \<and> options next = options s))"

lemma keeps_ignored: "pipe_step s e = (Ignored, None, s) \<Longrightarrow> keeps s e"
  by (simp add: keeps_def lifecycle_seen_ignored)

lemma tagged_simps [simp]:
  "tagged tag (ignored s) = (Ignored, None, s)" "tagged tag (applied s t c) = (Applied, map_option tag c, t)"
  by (simp_all add: tagged_def ignored_def applied_def)

lemmas mutation_defs = transition_mutation_def begin_write_def abandon_write_def is_active_def is_waiting_for_write_publication_def
lemmas drain_defs = transition_drain_def schedule_drain_def begin_drain_def is_active_def

lemma mutation_inactive:
  assumes "lifecycle_seen tr s" "lifecycle s \<noteq> Active"
  shows "pipe_step s (Mutate m) = (Ignored, None, s)"
  using assms
  by (cases m; cases "lifecycle s") (auto simp: pipe_step_def mutation_defs lifecycle_seen_def draining_def finish_pipe_def
      split: pipe_shutdown_stage.splits intro: pipe_owner_state.equality dest: arg_cong [where f = write_in_progress])

lemma keeps_mutation: "keeps s (Mutate m)"
proof (cases "lifecycle s = Active")
  case True
  then show ?thesis
    by (cases m) (simp_all add: keeps_def pipe_step_def mutation_defs lifecycle_seen_def started_def)
next
  case False
  then show ?thesis unfolding keeps_def
    by (auto simp: mutation_inactive lifecycle_seen_ignored)
qed

lemma keeps_drain: "keeps s (Drain e)"
proof (cases "lifecycle s = Active")
  case True
  then show ?thesis
    by (cases e) (simp_all add: keeps_def pipe_step_def drain_defs lifecycle_seen_def started_def lifecycle_seen_ignored)
next
  case False
  then show ?thesis
    by (intro keeps_ignored, cases e) (simp_all add: pipe_step_def drain_defs)
qed


lemma shutdown_action_options: "options s = options s' \<Longrightarrow> shutdown_action s t = shutdown_action s' t"
  by (simp add: shutdown_action_def)

lemma shutdown_action_update [simp]:
  "shutdown_action (s\<lparr>lifecycle := l\<rparr>) t = shutdown_action s t"
  "shutdown_action (s\<lparr>shutdown_settlements := b\<rparr>) t = shutdown_action s t"
  by (rule shutdown_action_options, simp)+

lemma finish_simps [simp]:
  "options (finish_pipe s) = options s" "lifecycle (finish_pipe s) = Finished" "finish_pipe (finish_pipe s) = finish_pipe s"
  "shutdown_action (finish_pipe s) t = shutdown_action s t"
  by (simp_all add: finish_pipe_def shutdown_action_def)

lemma finish_seen: "ended tr s t d \<Longrightarrow> lifecycle_seen tr (finish_pipe s)"
  unfolding lifecycle_seen_def ended_def by simp

lemma listener_values: "set (seen listener_of tr) \<subseteq> {Registered, Aborting}"
proof -
  have "set (listener_of x) \<subseteq> {Registered, Aborting}" for x
    by (cases x rule: listener_of.cases) simp_all
  then show ?thesis by (auto simp: seen_def)
qed

lemma finalization_promised:
  assumes "abort_listener s = listener_seen tr"
  shows "finalization s f = \<lparr>settlement = f, abort_cleanup = promised_cleanup (seen listener_of tr)\<rparr>"
proof (cases "seen listener_of tr = []")
  case False
  then have "last (seen listener_of tr) \<in> {Registered, Aborting}"
    using last_in_set listener_values by blast
  with False assms show ?thesis
    by (auto simp: finalization_def promised_cleanup_def listener_seen_def)
qed (use assms in \<open>simp add: finalization_def promised_cleanup_def listener_seen_def\<close>)

lemma original_promised: "\<forall>op. (op, True) \<notin> set rs \<Longrightarrow> original_settlement t = promised_settlement t rs"
  by (cases t) (simp_all add: original_settlement_def promised_settlement_def)

lemma keeps_publish: "keeps s PublishLastWrite"
proof (cases "lifecycle s")
  case Active
  then show ?thesis
    by (simp add: keeps_def pipe_step_def publish_last_write_def is_active_def lifecycle_seen_def started_def)
next
  case (ShuttingDown stage t)
  show ?thesis
  proof (cases "stage = WaitingForWritePublication")
    case True
    with ShuttingDown show ?thesis
      by (auto simp: keeps_def pipe_step_def publish_last_write_def is_active_def lifecycle_seen_def draining_def waiting_for_write_def)
  next
    case False
    with ShuttingDown show ?thesis
      by (auto simp: keeps_def pipe_step_def publish_last_write_def lifecycle_seen_def draining_def)
  qed
next
  case Finished
  have "pipe_step s PublishLastWrite = (Ignored, None, s)" if "lifecycle_seen tr s" for tr
  proof -
    from that Finished have "write_in_progress (finish_pipe s) = write_in_progress s" by (simp add: lifecycle_seen_def)
    then show ?thesis by (simp add: pipe_step_def publish_last_write_def finish_pipe_def)
  qed
  then show ?thesis by (auto simp: keeps_def lifecycle_seen_ignored)
qed

text \<open>Both ways into the shutdown actions: at the claim, or once the last write has settled.\<close>

definition at_actions :: "pipe_entry list \<Rightarrow> pipe_event \<Rightarrow> pipe_owner_state \<Rightarrow> pipe_terminal_trigger \<Rightarrow> pipe_destination_observation \<Rightarrow> bool" where
  "at_actions tr e n t d \<longleftrightarrow> lifecycle n = ShuttingDown RunningActions t \<and> \<not> drain_scheduled n \<and> \<not> read_pending n
     \<and> \<not> drain_yield_once n \<and> \<not> write_in_progress n \<and> shutdown_settlements n = 0 \<and> abort_listener n = listener_seen tr
     \<and> seen action_of tr = [] \<and> seen final_of tr = [] \<and> seen settled_of tr = []
     \<and> (\<forall>c. seen claim_of tr @ claim_of (e, Applied, c) = [(t, d)] \<and> settled_of (e, Applied, c) = []
          \<and> seen waited_of tr @ waited_of (e, Applied, c) = waits_seen d \<and> listener_of (e, Applied, c) = [])"

lemma enter_finished:
  assumes "at_actions tr e n t d" "shutdown_action n t = None"
  shows "lifecycle_seen (tr @ [(e, Applied, Some (ShutdownCommand (FinalizeWith (finalization n (original_settlement t)))))]) (finish_pipe n)"
  by (rule finish_seen [of _ _ t d])
    (use assms in \<open>simp add: at_actions_def ended_def after_final_first original_promised [of "[]"] finalization_promised [of n tr]\<close>)

lemma enter_actions:
  assumes "at_actions tr e n t d" "shutdown_action n t = Some a"
  shows "lifecycle_seen (tr @ [(e, Applied, Some (ShutdownCommand (RunActions a)))]) n"
proof -
  have "{} \<subset> action_operations a" by (cases a) (auto simp: action_operations_def)
  with assms show ?thesis
    by (auto simp: at_actions_def lifecycle_seen_def draining_def acting_def)
qed

lemma keeps_last_write: "keeps s (Shutdown LastWriteSettled)"
proof (cases "\<exists>t. lifecycle s = ShuttingDown WaitingForLastWrite t")
  case False
  then show ?thesis
    by (intro keeps_ignored)
      (auto simp: pipe_step_def transition_shutdown_def last_write_settled_def split: pipe_lifecycle.split pipe_shutdown_stage.split)
next
  case True
  then obtain t where t: "lifecycle s = ShuttingDown WaitingForLastWrite t" by blast
  define n where "n = s\<lparr>lifecycle := ShuttingDown RunningActions t\<rparr>"
  have options: "options n = options s" by (simp add: n_def)
  have action: "shutdown_action s t = shutdown_action n t" by (rule shutdown_action_options) (simp add: n_def)
  have "\<exists>d. at_actions tr (Shutdown LastWriteSettled) n t d" if "lifecycle_seen tr s" for tr
    using that t by (auto simp: lifecycle_seen_def draining_def waiting_for_write_def at_actions_def n_def waits_seen_def)
  with t show ?thesis
    by (cases "shutdown_action n t")
      (auto simp: keeps_def pipe_step_def transition_shutdown_def last_write_settled_def Let_def n_def [symmetric] options
          action dest: enter_finished enter_actions)
qed

lemma keeps_claim: "keeps s (Shutdown (ClaimTerminal t d))"
proof (cases "lifecycle s = Active")
  case False
  then show ?thesis
    by (intro keeps_ignored) (simp add: pipe_step_def transition_shutdown_def claim_terminal_def is_active_def)
next
  case active: True
  show ?thesis
  proof (cases "live_destination d")
    case True
    with active show ?thesis
      by (auto simp: keeps_def pipe_step_def transition_shutdown_def claim_terminal_def is_active_def write_barrier_def
          live_destination_def lifecycle_seen_def started_def draining_def waiting_for_write_def)
  next
    case False
    define n where "n = s\<lparr>drain_scheduled := False, read_pending := False, drain_yield_once := False,
      lifecycle := ShuttingDown RunningActions t, shutdown_settlements := 0, write_in_progress := False\<rparr>"
    have options: "options n = options s" by (simp add: n_def)
    have action: "shutdown_action s t = shutdown_action n t" by (rule shutdown_action_options) (simp add: n_def)
    have barrier: "write_barrier s d = NoBarrier" using False by (auto simp: write_barrier_def live_destination_def)
    have step: "transition_shutdown s (ClaimTerminal t d) =
      (case shutdown_action n t of
         None \<Rightarrow> applied s (finish_pipe n) (Some (FinalizeWith (finalization n (original_settlement t))))
       | Some a \<Rightarrow> applied s n (Some (RunActions a)))"
      using active by (cases "shutdown_action n t")
        (simp_all add: transition_shutdown_def claim_terminal_def is_active_def barrier action, simp_all add: n_def Let_def)
    have "at_actions tr (Shutdown (ClaimTerminal t d)) n t d" if "lifecycle_seen tr s" for tr
      using that active False by (simp add: lifecycle_seen_def started_def at_actions_def n_def waits_seen_def)
    then show ?thesis
      by (cases "shutdown_action n t")
        (auto simp: keeps_def pipe_step_def step options dest: enter_finished enter_actions)
  qed
qed

lemma keeps_finalize: "keeps s (Shutdown Finalize)"
proof (cases "\<exists>t. lifecycle s = ShuttingDown Finalizing t")
  case False
  then show ?thesis
    by (intro keeps_ignored)
      (auto simp: pipe_step_def transition_shutdown_def finalize_original_def split: pipe_lifecycle.split pipe_shutdown_stage.split)
next
  case True
  then obtain t where t: "lifecycle s = ShuttingDown Finalizing t" by blast
  let ?x = "(Shutdown Finalize, Applied, Some (ShutdownCommand (FinalizeWith (finalization s (original_settlement t)))))"
  have "\<exists>d. ended (tr @ [?x]) s t d" if "lifecycle_seen tr s" for tr
    using that t
    by (auto simp: lifecycle_seen_def draining_def acting_def ended_def after_final_first original_promised finalization_promised)
  with t show ?thesis
    by (auto simp: keeps_def pipe_step_def transition_shutdown_def finalize_original_def intro: finish_seen)
qed


lemma remaining_code:
  assumes "lifecycle n = ShuttingDown RunningActions t" "shutdown_action n t = Some a" "shutdown_settlements n = code_of rs"
  shows "remaining_shutdown_action_mask n = 0 \<longleftrightarrow> action_operations a \<subseteq> fst ` set rs"
  using assms
  by (simp add: remaining_shutdown_action_mask_def required_shutdown_action_mask_def terminal_trigger_def remaining_settled)

lemma settled_finish:
  assumes "draining tr s RunningActions t d" "acting tr s t d a" "op \<notin> fst ` set (seen settled_of tr)"
    and "fst ` set (seen settled_of tr @ [(op, rej)]) = action_operations a"
    and "settled_of (e, Applied, c) = [(op, rej)]" "claim_of (e, Applied, c) = []" "waited_of (e, Applied, c) = []"
      "listener_of (e, Applied, c) = []"
    and "abort_listener n = abort_listener s" "options n = options s"
    and "c = Some (ShutdownCommand (FinalizeWith (finalization n f)))" "f = promised_settlement t (seen settled_of tr @ [(op, rej)])"
  shows "lifecycle_seen (tr @ [(e, Applied, c)]) (finish_pipe n)"
proof (rule finish_seen [of _ _ t d])
  have "shutdown_action n t = Some a" using assms by (simp add: acting_def shutdown_action_options [of n s])
  with assms show "ended (tr @ [(e, Applied, c)]) n t d"
    by (simp add: ended_def draining_def acting_def after_final_first finalization_promised [of n tr])
qed

definition settle_event :: "pipe_shutdown_operation \<Rightarrow> bool \<Rightarrow> pipe_shutdown_event" where
  "settle_event op rej = (if rej then ActionRejected op else ActionFulfilled op)"

lemma settle_event_transition: "transition_shutdown s (settle_event op rej) = shutdown_action_settled s op rej"
  by (simp add: settle_event_def transition_shutdown_def)

lemma settle_event_seen [simp]:
  "settled_of (Shutdown (settle_event op rej), Applied, c) = [(op, rej)]"
  "claim_of (Shutdown (settle_event op rej), Applied, c) = []"
  "waited_of (Shutdown (settle_event op rej), Applied, c) = []"
  "listener_of (Shutdown (settle_event op rej), Applied, c) = []"
  by (simp_all add: settle_event_def)

definition settled_state :: "pipe_owner_state \<Rightarrow> (pipe_shutdown_operation \<times> bool) list \<Rightarrow> pipe_owner_state" where
  "settled_state s rs = s\<lparr>shutdown_settlements := code_of rs\<rparr>"

lemma settled_state_simps [simp]:
  "lifecycle (settled_state s rs) = lifecycle s" "options (settled_state s rs) = options s"
  "abort_listener (settled_state s rs) = abort_listener s" "shutdown_settlements (settled_state s rs) = code_of rs"
  "shutdown_action (settled_state s rs) t = shutdown_action s t"
  by (simp_all add: settled_state_def)

lemma settled_transition:
  assumes t: "lifecycle s = ShuttingDown RunningActions t" and a: "acting tr s t d a"
    and op: "op \<in> action_operations a" "op \<notin> fst ` set (seen settled_of tr)"
    and rs: "rs = seen settled_of tr @ [(op, rej)]" and sub: "fst ` set rs \<subseteq> action_operations a"
  shows "shutdown_action_settled s op rej =
    (if fst ` set rs \<noteq> action_operations a then applied s (settled_state s rs) None
     else if (Destination, True) \<in> set rs \<or> (Source, True) \<in> set rs then
       applied s (finish_pipe (settled_state s rs)) (Some (FinalizeWith (finalization (settled_state s rs) (promised_settlement t rs))))
     else applied s (settled_state s rs\<lparr>lifecycle := ShuttingDown Finalizing t\<rparr>) (Some EnqueueFinalize))"
proof -
  from a have dist: "distinct (map fst rs)" and act: "shutdown_action s t = Some a"
    and code: "shutdown_settlements s = code_of (seen settled_of tr)" using op by (simp_all add: acting_def rs)
  have rem: "remaining_shutdown_action_mask (settled_state s rs) = 0 \<longleftrightarrow> fst ` set rs = action_operations a"
    using remaining_code [of "settled_state s rs" t a rs] t act sub by auto
  have settles: "settle (shutdown_settlements s) op rej = code_of rs" using code op by (simp add: rs)
  show ?thesis
    using op unfolding shutdown_action_settled_def t act pipe_lifecycle.case pipe_shutdown_stage.case option.case settles
    by (simp add: settled_state_def [symmetric] code_of_rejected [OF dist] code rem promised_settlement_def Let_def del: set_append)
qed

lemma keeps_settle_running:
  assumes t: "lifecycle s = ShuttingDown RunningActions t" and d: "draining tr s RunningActions t d"
    and a: "acting tr s t d a" and L: "fst ` set (seen settled_of tr) \<subset> action_operations a"
    and op: "op \<in> action_operations a" "op \<notin> fst ` set (seen settled_of tr)"
    and step: "pipe_step s (Shutdown (settle_event op rej)) = (adm, cmd, next)"
  shows "lifecycle_seen (tr @ [(Shutdown (settle_event op rej), adm, cmd)]) next \<and> options next = options s"
proof -
  define rs where "rs = seen settled_of tr @ [(op, rej)]"
  have sub: "fst ` set rs \<subseteq> action_operations a" and dist: "distinct (map fst rs)"
    using L op a by (auto simp: rs_def acting_def)
  note trans = settled_transition [OF t a op rs_def sub] and step = step [unfolded pipe_step_def pipe_event.case settle_event_transition]
  consider "fst ` set rs \<noteq> action_operations a"
    | "fst ` set rs = action_operations a" "(Destination, True) \<in> set rs \<or> (Source, True) \<in> set rs"
    | "fst ` set rs = action_operations a" "\<forall>x. (x, True) \<notin> set rs"
    by (metis (full_types) pipe_shutdown_operation.exhaust)
  then show ?thesis
  proof cases
    case 1
    with step trans have r: "adm = Applied" "cmd = None" "next = settled_state s rs" by simp_all
    from 1 sub have "fst ` set rs \<subset> action_operations a" by blast
    with r show ?thesis
      using d a t dist by (auto simp: lifecycle_seen_def draining_def acting_def settled_state_def rs_def)
  next
    case 2
    with step trans have r: "adm = Applied" "next = finish_pipe (settled_state s rs)"
      "cmd = Some (ShutdownCommand (FinalizeWith (finalization (settled_state s rs) (promised_settlement t rs))))"
      by simp_all
    show ?thesis
      using settled_finish [OF d a op(2) 2(1) [unfolded rs_def] settle_event_seen _ _ r(3) rs_def [THEN arg_cong]] r by simp
  next
    case 3
    with step trans have "adm = Applied" "next = settled_state s rs\<lparr>lifecycle := ShuttingDown Finalizing t\<rparr>"
      "cmd = Some (ShutdownCommand EnqueueFinalize)"
      by simp_all
    with 3 show ?thesis
      using d a t dist by (auto simp: lifecycle_seen_def draining_def acting_def settled_state_def rs_def)
  qed
qed

lemma keeps_settle: "keeps s (Shutdown (settle_event op rej))"
  unfolding keeps_def
proof (intro allI impI)
  fix tr assume seen: "lifecycle_seen tr s"
  let ?e = "Shutdown (settle_event op rej)"
  show "case pipe_step s ?e of (adm, cmd, next) \<Rightarrow> lifecycle_seen (tr @ [(?e, adm, cmd)]) next \<and> options next = options s"
  proof (cases "\<exists>t. lifecycle s = ShuttingDown RunningActions t")
    case False
    then have "pipe_step s ?e = (Ignored, None, s)"
      by (auto simp: pipe_step_def settle_event_transition shutdown_action_settled_def
        split: pipe_lifecycle.split pipe_shutdown_stage.split)
    then show ?thesis using seen by (simp add: lifecycle_seen_ignored)
  next
    case True
    then obtain t where run: "lifecycle s = ShuttingDown RunningActions t" by blast
    with seen obtain d a where t: "lifecycle s = ShuttingDown RunningActions t" "draining tr s RunningActions t d"
      "acting tr s t d a" "fst ` set (seen settled_of tr) \<subset> action_operations a"
      by (simp add: lifecycle_seen_def) blast
    show ?thesis
    proof (cases "op \<in> action_operations a \<and> op \<notin> fst ` set (seen settled_of tr)")
      case True
      then show ?thesis using keeps_settle_running [OF t] by (auto split: prod.split)
    next
      case False
      with t(1,3) have "pipe_step s ?e = (Ignored, None, s)"
        by (auto simp: pipe_step_def settle_event_transition shutdown_action_settled_def acting_def)
      then show ?thesis using seen by (simp add: lifecycle_seen_ignored)
    qed
  qed
qed

lemma keeps_event: "keeps s e"
proof (cases e)
  case (Shutdown x)
  then show ?thesis
    using keeps_claim keeps_last_write keeps_finalize keeps_settle [of s _ True] keeps_settle [of s _ False]
    by (cases x) (simp_all add: settle_event_def)
qed (simp_all add: keeps_mutation keeps_drain keeps_publish)

interpretation pipe: checked_system pipe_exec "pipe_history opts" for opts
proof
  show "\<exists>h'. pipe_exec e h = Some h' \<and> pipe_history opts h'" if "pipe_history opts h" for e h
    using that keeps_event [of "snd h" e] by (auto simp: pipe_history_def pipe_exec_def keeps_def split: prod.splits)
qed

lemma new_pipe_history: "pipe_history opts ([], new_pipe opts)"
  by (simp add: pipe_history_def lifecycle_seen_def new_pipe_def started_def listener_seen_def)


subsection \<open>Progress\<close>

text \<open>In every stage only the events that the stage waits for have an effect.\<close>

fun awaits :: "pipe_shutdown_stage \<Rightarrow> pipe_event \<Rightarrow> bool" where
  "awaits WaitingForWritePublication e \<longleftrightarrow> e = PublishLastWrite"
| "awaits WaitingForLastWrite e \<longleftrightarrow> e = Shutdown LastWriteSettled"
| "awaits RunningActions e \<longleftrightarrow> (\<exists>op rej. e = Shutdown (settle_event op rej))"
| "awaits Finalizing e \<longleftrightarrow> e = Shutdown Finalize"

lemma settle_event_cases:
  obtains t d where "e = ClaimTerminal t d" | "e = LastWriteSettled" | op rej where "e = settle_event op rej" | "e = Finalize"
proof -
  have "ActionFulfilled op = settle_event op False" "ActionRejected op = settle_event op True" for op
    by (simp_all add: settle_event_def)
  then show ?thesis using that by (cases e) blast+
qed

lemma shutdown_transitions:
  "transition_shutdown s (ClaimTerminal t d) = claim_terminal s t (write_barrier s d)"
  "transition_shutdown s LastWriteSettled = last_write_settled s"
  "transition_shutdown s (settle_event op rej) = shutdown_action_settled s op rej"
  "transition_shutdown s Finalize = finalize_original s"
  by (rule settle_event_transition | simp add: transition_shutdown_def)+

lemma not_awaited:
  assumes "lifecycle_seen tr s" "lifecycle s = ShuttingDown stage t" "\<not> awaits stage e"
  shows "pipe_step s e = (Ignored, None, s)"
proof (cases e)
  case (Mutate m)
  with assms show ?thesis by (simp add: mutation_inactive)
next
  case (Drain x)
  with assms show ?thesis by (cases x) (simp_all add: pipe_step_def drain_defs)
next
  case PublishLastWrite
  with assms have "\<not> write_in_progress s" by (auto simp: lifecycle_seen_def draining_def)
  with PublishLastWrite show ?thesis by (simp add: pipe_step_def publish_last_write_def)
next
  case (Shutdown x)
  with assms show ?thesis
    by (cases x rule: settle_event_cases; cases stage)
      (auto simp: pipe_step_def shutdown_transitions claim_terminal_def is_active_def
        last_write_settled_def finalize_original_def shutdown_action_settled_def)
qed

lemma finished_ignores:
  assumes "lifecycle_seen tr s" "lifecycle s = Finished"
  shows "pipe_step s e = (Ignored, None, s)"
proof (cases e)
  case (Mutate m)
  with assms show ?thesis by (simp add: mutation_inactive)
next
  case (Drain x)
  with assms show ?thesis by (cases x) (simp_all add: pipe_step_def drain_defs)
next
  case PublishLastWrite
  from assms have "write_in_progress (finish_pipe s) = write_in_progress s" by (simp add: lifecycle_seen_def)
  with PublishLastWrite show ?thesis by (simp add: pipe_step_def publish_last_write_def finish_pipe_def)
next
  case (Shutdown x)
  with assms show ?thesis
    by (cases x rule: settle_event_cases)
      (auto simp: pipe_step_def shutdown_transitions claim_terminal_def is_active_def
        last_write_settled_def finalize_original_def shutdown_action_settled_def)
qed

text \<open>
  What the embedder owes.  An admitted write intent is followed by its publication, unless it is abandoned or a terminal
  event finds that the destination takes no more writes; a command is answered by the callback it
  asks for.
\<close>

definition write_over :: "pipe_entry \<Rightarrow> bool" where
  "write_over y \<longleftrightarrow> fst y = PublishLastWrite \<or> fst y = Mutate AbandonWrite \<and> fst (snd y) = Applied
     \<or> list_ex (\<lambda>c. \<not> live_destination (snd c)) (claim_of y)"

definition last_write_answer :: "pipe_entry \<Rightarrow> bool" where
  "last_write_answer y \<longleftrightarrow> fst y = Shutdown LastWriteSettled"

definition action_answer :: "pipe_shutdown_operation \<Rightarrow> pipe_entry \<Rightarrow> bool" where
  "action_answer op y \<longleftrightarrow> fst y = Shutdown (ActionFulfilled op) \<or> fst y = Shutdown (ActionRejected op)"

definition finalize_answer :: "pipe_entry \<Rightarrow> bool" where
  "finalize_answer y \<longleftrightarrow> fst y = Shutdown Finalize"

fun command_calls :: "pipe_command \<Rightarrow> (pipe_entry \<Rightarrow> bool) list" where
  "command_calls (ShutdownCommand WaitForLastWrite) = [last_write_answer]"
| "command_calls (PublicationCommand StoreLastWriteAndWait) = [last_write_answer]"
| "command_calls (ShutdownCommand (RunActions AbortDestination)) = [action_answer Destination]"
| "command_calls (ShutdownCommand (RunActions CloseDestination)) = [action_answer Destination]"
| "command_calls (ShutdownCommand (RunActions CancelSource)) = [action_answer Source]"
| "command_calls (ShutdownCommand (RunActions AbortDestinationAndCancelSource)) =
     [action_answer Destination, action_answer Source]"
| "command_calls (ShutdownCommand EnqueueFinalize) = [finalize_answer]"
| "command_calls _ = []"

definition calls_for :: "pipe_entry \<Rightarrow> (pipe_entry \<Rightarrow> bool) list" where
  "calls_for x = (if fst x = Mutate BeginWrite \<and> fst (snd x) = Applied then [write_over] else [])
     @ (case snd (snd x) of None \<Rightarrow> [] | Some c \<Rightarrow> command_calls c)"

fun answered :: "pipe_entry list \<Rightarrow> bool" where
  "answered [] = True"
| "answered (x # tr) = (list_all (\<lambda>P. list_ex P tr) (calls_for x) \<and> answered tr)"

definition unanswered :: "pipe_entry list \<Rightarrow> (pipe_entry \<Rightarrow> bool) \<Rightarrow> bool" where
  "unanswered tr P \<longleftrightarrow> (\<exists>us x vs. tr = us @ x # vs \<and> P \<in> set (calls_for x) \<and> \<not> list_ex P vs)"

lemma unanswered_owing: "unanswered tr P \<Longrightarrow> \<not> answered tr"
proof -
  have suffix: "answered (us @ vs) \<Longrightarrow> answered vs" for us vs by (induction us) simp_all
  show "unanswered tr P \<Longrightarrow> \<not> answered tr"
    unfolding unanswered_def using suffix by (fastforce simp: list_all_iff)
qed

lemma unanswered_new: "P \<in> set (calls_for y) \<Longrightarrow> unanswered (tr @ [y]) P"
  unfolding unanswered_def by (intro exI [of _ tr] exI [of _ y] exI [of _ "[]"]) simp

lemma unanswered_old: "unanswered tr P \<Longrightarrow> \<not> P y \<Longrightarrow> unanswered (tr @ [y]) P"
proof -
  assume "unanswered tr P" and y: "\<not> P y"
  then obtain us x vs where "tr = us @ x # vs" "P \<in> set (calls_for x)" "\<not> list_ex P vs" by (auto simp: unanswered_def)
  with y show ?thesis unfolding unanswered_def by (intro exI [of _ us] exI [of _ x] exI [of _ "vs @ [y]"]) simp
qed

lemma action_calls: "op \<in> action_operations a \<Longrightarrow> action_answer op \<in> set (calls_for (e, adm, Some (ShutdownCommand (RunActions a))))"
  by (cases a) (auto simp: calls_for_def action_operations_def)

lemma action_answer_event: "action_answer op (Shutdown (settle_event op' rej), adm, cmd) \<longleftrightarrow> op = op'"
  by (auto simp: action_answer_def settle_event_def)

text \<open>In every stage something is owed.\<close>

fun stage_owes :: "pipe_entry list \<Rightarrow> pipe_owner_state \<Rightarrow> pipe_shutdown_stage \<Rightarrow> pipe_terminal_trigger \<Rightarrow> bool" where
  "stage_owes tr s WaitingForWritePublication t = unanswered tr write_over"
| "stage_owes tr s WaitingForLastWrite t = unanswered tr last_write_answer"
| "stage_owes tr s RunningActions t =
     (\<forall>a op. shutdown_action s t = Some a \<longrightarrow> op \<in> action_operations a \<longrightarrow> op \<notin> fst ` set (seen settled_of tr) \<longrightarrow>
        unanswered tr (action_answer op))"
| "stage_owes tr s Finalizing t = unanswered tr finalize_answer"

definition owes :: "pipe_entry list \<Rightarrow> pipe_owner_state \<Rightarrow> bool" where
  "owes tr s =
     (case lifecycle s of
        Active \<Rightarrow> write_in_progress s \<longrightarrow> unanswered tr write_over
      | ShuttingDown stage t \<Rightarrow> stage_owes tr s stage t
      | Finished \<Rightarrow> True)"

lemma owes_not_awaited:
  assumes "lifecycle s = ShuttingDown stage t" "\<not> awaits stage e" "owes tr s"
  shows "owes (tr @ [(e, Ignored, None)]) s"
proof (cases stage)
  case RunningActions
  then have "\<not> action_answer op (e, Ignored, None)" for op
    using assms(2) by (auto simp: action_answer_def settle_event_def) (metis (full_types))+
  with RunningActions assms(1,3) show ?thesis by (simp add: owes_def unanswered_old)
qed (use assms in \<open>auto simp: owes_def write_over_def last_write_answer_def finalize_answer_def intro!: unanswered_old\<close>)

lemma owes_actions:
  "lifecycle n = ShuttingDown RunningActions t \<Longrightarrow> shutdown_action n t = Some a \<Longrightarrow>
   owes (tr @ [(e, adm, Some (ShutdownCommand (RunActions a)))]) n"
  by (simp add: owes_def unanswered_new action_calls)

lemma owes_finished: "lifecycle n = Finished \<Longrightarrow> owes tr n"
  by (simp add: owes_def)

lemma owes_active:
  assumes "lifecycle s = Active" "owes tr s" "pipe_step s e = (adm, cmd, n)"
  shows "owes (tr @ [(e, adm, cmd)]) n"
proof (cases e)
  case (Mutate m)
  with assms show ?thesis
    by (cases m) (auto simp: pipe_step_def mutation_defs owes_def write_over_def calls_for_def
        unanswered_old unanswered_new split: if_splits)
next
  case (Drain x)
  with assms show ?thesis
    by (cases x) (auto simp: pipe_step_def drain_defs owes_def write_over_def intro!: unanswered_old split: if_splits)
next
  case PublishLastWrite
  with assms show ?thesis by (auto simp: pipe_step_def publish_last_write_def owes_def Let_def split: if_splits)
next
  case (Shutdown x)
  show ?thesis
  proof (cases "\<exists>t d. x = ClaimTerminal t d")
    case False
    with Shutdown assms show ?thesis
      by (cases x rule: settle_event_cases)
        (auto simp: pipe_step_def shutdown_transitions last_write_settled_def shutdown_action_settled_def finalize_original_def
          owes_def write_over_def intro!: unanswered_old)
  next
    case True
    then obtain t d where x: "x = ClaimTerminal t d" by blast
    have action: "shutdown_action (s\<lparr>drain_scheduled := False, read_pending := False, drain_yield_once := False,
        lifecycle := ShuttingDown RunningActions t, shutdown_settlements := 0, write_in_progress := False\<rparr>) t = shutdown_action s t"
      by (rule shutdown_action_options) simp
    show ?thesis
    proof (cases "live_destination d")
      case True
      with assms Shutdown x show ?thesis
        by (auto simp: pipe_step_def transition_shutdown_def claim_terminal_def is_active_def write_barrier_def Let_def
            live_destination_def owes_def write_over_def calls_for_def unanswered_old unanswered_new split: if_splits)
    next
      case False
      then have "write_barrier s d = NoBarrier" by (auto simp: write_barrier_def live_destination_def)
      with assms(1,3) Shutdown x show ?thesis
        by (cases "shutdown_action s t") (auto simp: pipe_step_def transition_shutdown_def claim_terminal_def is_active_def Let_def
            action owes_finished owes_actions)
    qed
  qed
qed

lemma owes_settle:
  assumes t: "lifecycle s = ShuttingDown RunningActions t" and seen: "lifecycle_seen tr s" and "owes tr s"
    and step: "pipe_step s (Shutdown (settle_event op rej)) = (adm, cmd, n)"
  shows "owes (tr @ [(Shutdown (settle_event op rej), adm, cmd)]) n"
proof -
  let ?e = "(Shutdown (settle_event op rej), adm, cmd)"
  obtain d a where a: "acting tr s t d a" and L: "fst ` set (seen settled_of tr) \<subset> action_operations a"
    using t seen by (auto simp: lifecycle_seen_def)
  then have act: "shutdown_action s t = Some a" by (simp add: acting_def)
  have old: "unanswered (tr @ [?e]) (action_answer op')"
    if "op' \<in> action_operations a" "op' \<notin> fst ` set (seen settled_of tr)" "op' \<noteq> op" for op'
    using assms(3) t act that by (auto simp: owes_def action_answer_event intro!: unanswered_old)
  note step = step [unfolded pipe_step_def pipe_event.case settle_event_transition]
  show ?thesis
  proof (cases "op \<in> action_operations a \<and> op \<notin> fst ` set (seen settled_of tr)")
    case False
    then have "adm = Ignored" "cmd = None" "n = s"
      using step t act a by (auto simp: shutdown_action_settled_def acting_def)
    with t act old False show ?thesis by (auto simp: owes_def)
  next
    case True
    define rs where "rs = seen settled_of tr @ [(op, rej)]"
    have sub: "fst ` set rs \<subseteq> action_operations a" using L True by (auto simp: rs_def)
    from settled_transition [OF t a _ _ rs_def sub] True step t act old show ?thesis
      by (auto simp: owes_def rs_def calls_for_def intro!: unanswered_new split: if_splits)
  qed
qed

lemma owes_step:
  assumes seen: "lifecycle_seen tr s" and owes: "owes tr s" and step: "pipe_step s e = (adm, cmd, n)"
  shows "owes (tr @ [(e, adm, cmd)]) n"
proof (cases "lifecycle s")
  case Active
  then show ?thesis using owes step by (rule owes_active)
next
  case Finished
  with finished_ignores [OF seen] step show ?thesis by (simp add: owes_finished)
next
  case (ShuttingDown stage t)
  show ?thesis
  proof (cases "awaits stage e")
    case False
    with not_awaited [OF seen ShuttingDown] owes_not_awaited [OF ShuttingDown _ owes] step show ?thesis by simp
  next
    case True
    show ?thesis
    proof (cases stage)
      case RunningActions
      with True ShuttingDown owes_settle [OF _ seen owes] step show ?thesis by auto
    next
      case WaitingForLastWrite
      with True ShuttingDown step show ?thesis
        by (cases "shutdown_action s t")
          (auto simp: pipe_step_def transition_shutdown_def last_write_settled_def Let_def owes_finished owes_actions)
    qed (use True ShuttingDown step seen in \<open>auto simp: pipe_step_def publish_last_write_def transition_shutdown_def
          finalize_original_def lifecycle_seen_def draining_def owes_def calls_for_def Let_def is_active_def intro!: unanswered_new\<close>)
  qed
qed

interpretation pipe_owing: checked_system pipe_exec "\<lambda>h. pipe_history opts h \<and> owes (fst h) (snd h)" for opts
proof
  fix h :: "pipe_entry list \<times> pipe_owner_state" and e
  assume h: "pipe_history opts h \<and> owes (fst h) (snd h)"
  then obtain h' where r: "pipe_exec e h = Some h'" "pipe_history opts h'" using pipe.step_total [of opts h e] by auto
  with h have "owes (fst h') (snd h')"
    by (auto simp: pipe_exec_def pipe_history_def split: prod.splits intro: owes_step)
  with r show "\<exists>h'. pipe_exec e h = Some h' \<and> pipe_history opts h' \<and> owes (fst h') (snd h')" by blast
qed

lemma owing_stages:
  assumes "pipe_history opts (tr, s)" "owes tr s" "answered tr" "\<not> is_active s"
  shows "lifecycle s = Finished"
proof (rule ccontr)
  assume "lifecycle s \<noteq> Finished"
  with assms(4) obtain stage t where t: "lifecycle s = ShuttingDown stage t"
    by (cases "lifecycle s") (auto simp: is_active_def)
  have "\<exists>P. unanswered tr P"
  proof (cases stage)
    case RunningActions
    with t assms(1) obtain d a where "acting tr s t d a" "fst ` set (seen settled_of tr) \<subset> action_operations a"
      by (auto simp: pipe_history_def lifecycle_seen_def)
    then show ?thesis using t RunningActions assms(2) by (auto simp: owes_def acting_def)
  qed (use t assms(2) in \<open>auto simp: owes_def\<close>)
  with assms(3) show False using unanswered_owing by blast
qed

lemma history_ended:
  assumes "pipe_history opts (tr, s)" "lifecycle s = Finished"
  obtains t d where "ended tr s t d"
  using assms by (auto simp: pipe_history_def lifecycle_seen_def)

lemma history_unfinished: "pipe_history opts (tr, s) \<Longrightarrow> lifecycle s \<noteq> Finished \<Longrightarrow> seen final_of tr = []"
  by (auto simp: pipe_history_def lifecycle_seen_def started_def draining_def split: pipe_lifecycle.splits)

lemma unfinished_quiet: "seen final_of tr = [] \<Longrightarrow> after_final tr = []"
  by (cases tr rule: rev_cases) (simp_all add: after_final_first, simp add: after_final_def)

lemma history_storage:
  assumes "pipe_history opts (tr, s)"
  shows "storage_invariants_hold s \<and> settlements_from_bits (shutdown_settlements s) = Some (shutdown_settlements s)"
proof (cases "lifecycle s")
  case Active
  with assms show ?thesis using code_of_decodes [of "[]"]
    by (simp add: pipe_history_def lifecycle_seen_def started_def storage_invariants_hold_def settlements_empty_def)
next
  case Finished
  with assms have f: "finish_pipe s = s" by (simp add: pipe_history_def lifecycle_seen_def)
  have "storage_invariants_hold (finish_pipe s) \<and> shutdown_settlements (finish_pipe s) = 0"
    by (simp add: finish_pipe_def storage_invariants_hold_def settlements_empty_def)
  then show ?thesis using code_of_decodes [of "[]"] by (simp add: f)
next
  case (ShuttingDown stage t)
  with assms obtain d where d: "draining tr s stage t d" "stage_seen tr s stage t d"
    by (auto simp: pipe_history_def lifecycle_seen_def)
  with ShuttingDown show ?thesis using code_of_decodes [of "[]"]
    by (cases stage) (auto simp: storage_invariants_hold_def draining_def waiting_for_write_def acting_def settlements_empty_def
        required_shutdown_action_mask_def remaining_shutdown_action_mask_def terminal_trigger_def remaining_settled
        settled_within settled_exactly nothing_rejected code_of_decodes)
qed


lemma history_actions:
  assumes "pipe_history opts (tr, s)" "a \<in> set (seen action_of tr)"
  shows "\<exists>t d. seen claim_of tr = [(t, d)] \<and> shutdown_action (new_pipe opts) t = Some a \<and> seen action_of tr = [a]
    \<and> seen waited_of tr = waits_seen d"
proof -
  have "shutdown_action (new_pipe opts) t = shutdown_action s t" for t
    using assms by (intro shutdown_action_options) (simp add: pipe_history_def new_pipe_def)
  moreover have "\<exists>t d. seen claim_of tr = [(t, d)] \<and> shutdown_action s t = Some a \<and> seen action_of tr = [a]
    \<and> seen waited_of tr = waits_seen d"
  proof (cases "lifecycle s")
    case (ShuttingDown stage t)
    with assms show ?thesis
      by (cases stage) (auto simp: pipe_history_def lifecycle_seen_def draining_def waiting_for_write_def acting_def)
  next
    case Finished
    with assms obtain t d where "ended tr s t d" by (auto elim: history_ended)
    with assms(2) show ?thesis by (auto simp: ended_def split: option.splits)
  qed (use assms in \<open>simp_all add: pipe_history_def lifecycle_seen_def started_def\<close>)
  ultimately show ?thesis by simp
qed

lemma promised_actions:
  "(case shutdown_action (new_pipe opts) t of None \<Rightarrow> {} | Some a \<Rightarrow> action_operations a) = promised_operations opts t"
  "shutdown_action (new_pipe opts) t = Some a \<Longrightarrow>
     action_operations a = promised_operations opts t \<and> (a = CloseDestination \<longleftrightarrow> t = SourceClosed)"
  by (cases t; auto simp: shutdown_action_def new_pipe_def promised_operations_def action_operations_def split: if_splits)+

lemma history_claims: "pipe_history opts (tr, s) \<Longrightarrow> length (seen claim_of tr) \<le> 1"
  by (auto simp: pipe_history_def lifecycle_seen_def started_def draining_def ended_def split: pipe_lifecycle.splits)

text \<open>
  Drain callbacks.  The embedder queues one callback per \<^verbatim>\<open>Enqueue\<close>; a callback runs only while one is queued.
\<close>

definition drain_exec :: "pipe_event \<Rightarrow> nat \<times> pipe_owner_state \<Rightarrow> (nat \<times> pipe_owner_state) option" where
  "drain_exec e q =
     (if e = Drain Callback \<and> fst q = 0 then None
      else case pipe_step (snd q) e of (adm, cmd, next) \<Rightarrow>
        Some ((if e = Drain Callback then fst q - 1 else fst q) + (if cmd = Some (DrainCommand Enqueue) then 1 else 0), next))"

definition drain_queued :: "nat \<times> pipe_owner_state \<Rightarrow> bool" where
  "drain_queued q \<longleftrightarrow> (is_active (snd q) \<longrightarrow> fst q = (if drain_scheduled (snd q) then 1 else 0))"

lemma step_drain_flag:
  assumes "pipe_step s e = (adm, cmd, n)" "is_active n" "\<forall>x. e \<noteq> Drain x"
  shows "is_active s \<and> drain_scheduled n = drain_scheduled s \<and> cmd \<noteq> Some (DrainCommand Enqueue)"
proof (cases e)
  case (Mutate m)
  with assms show ?thesis by (cases m) (auto simp: pipe_step_def mutation_defs split: if_splits)
next
  case (Shutdown y)
  with assms show ?thesis
    by (cases y rule: settle_event_cases)
      (auto simp: pipe_step_def shutdown_transitions claim_terminal_def last_write_settled_def shutdown_action_settled_def
        finalize_original_def is_active_def finish_pipe_def Let_def
        split: if_splits option.splits pipe_lifecycle.splits pipe_shutdown_stage.splits pipe_write_barrier.splits)
next
  case PublishLastWrite
  with assms show ?thesis
    by (auto simp: pipe_step_def publish_last_write_def is_active_def Let_def
        split: if_splits pipe_lifecycle.splits pipe_shutdown_stage.splits)
qed (use assms in \<open>auto\<close>)


interpretation drain_queue: kept_system drain_exec drain_queued
proof
  show "drain_queued q'" if "drain_queued q" "drain_exec e q = Some q'" for q e q'
  proof (cases "\<exists>x. e = Drain x")
    case True
    then obtain x where "e = Drain x" by blast
    with that show ?thesis
      by (cases x) (auto simp: drain_queued_def drain_exec_def pipe_step_def drain_defs split: if_splits)
  next
    case False
    with that step_drain_flag [of "snd q" e] show ?thesis
      by (auto simp: drain_queued_def drain_exec_def split: prod.splits if_splits)
  qed
qed

text \<open>
  While a pipe is active the drain flag is set exactly when one callback is queued: no wake-up is lost, none is queued twice.
\<close>

lemma pipe_drain_queued_once:
  assumes "run drain_exec es (0, new_pipe opts) = Some (n, s)" "is_active s"
  shows "n = (if drain_scheduled s then 1 else 0)"
proof -
  have "drain_queued (0, new_pipe opts)" by (simp add: drain_queued_def new_pipe_def)
  from drain_queue.run_inv [OF this assms(1)] assms(2) show ?thesis by (simp add: drain_queued_def)
qed


subsection \<open>Properties\<close>

text \<open>
  C9: Whatever events a pipe receives, in whatever order, its lifecycle machine returns, its promise is settled at
  most once and as the specification says.  At most one terminal event is admitted; the shutdown actions run at most
  once, they are the ones that the options leave for that event, and when the destination was writable at the event the
  last write has settled before.  There is a finalization exactly when the pipe is finished; it rejects with the
  destination's rejection, else with the source's, else settles as the first terminal event says, after
  every action has settled exactly once; it cleans up the abort listener that was registered; and nothing
  is admitted afterwards.
\<close>

theorem pipe_settles_as_promised:
  assumes "run pipe_exec es ([], new_pipe opts) = Some (tr, s)"
  shows "length (seen claim_of tr) \<le> 1
    \<and> (\<forall>a\<in>set (seen action_of tr). \<exists>t d. seen claim_of tr = [(t, d)] \<and> shutdown_action (new_pipe opts) t = Some a
         \<and> action_operations a = promised_operations opts t \<and> (a = CloseDestination \<longleftrightarrow> t = SourceClosed)
         \<and> seen action_of tr = [a] \<and> seen waited_of tr = (if live_destination d then [()] else []))
    \<and> (seen final_of tr \<noteq> [] \<longleftrightarrow> lifecycle s = Finished)
    \<and> (\<forall>f\<in>set (seen final_of tr). \<exists>t d. seen final_of tr = [f] \<and> seen claim_of tr = [(t, d)]
         \<and> settlement f = promised_settlement t (seen settled_of tr)
         \<and> abort_cleanup f = promised_cleanup (seen listener_of tr)
         \<and> distinct (map fst (seen settled_of tr))
         \<and> fst ` set (seen settled_of tr) =
             (case shutdown_action (new_pipe opts) t of None \<Rightarrow> {} | Some a \<Rightarrow> action_operations a)
         \<and> fst ` set (seen settled_of tr) = promised_operations opts t)
    \<and> (\<forall>x\<in>set (after_final tr). snd x = (Ignored, None))"
proof -
  have h: "pipe_history opts (tr, s)" using pipe.run_inv [OF new_pipe_history assms] .
  have act: "shutdown_action (new_pipe opts) t = shutdown_action s t" for t
    using h by (intro shutdown_action_options) (simp add: pipe_history_def new_pipe_def)
  show ?thesis
  proof (cases "lifecycle s = Finished")
    case True
    with h obtain t d where "ended tr s t d" by (rule history_ended)
    then show ?thesis
      using history_claims [OF h] history_actions [OF h] True promised_actions [of opts]
      by (auto simp: ended_def act waits_seen_def)
  next
    case False
    with h have "seen final_of tr = []" by (rule history_unfinished)
    then show ?thesis
      using history_claims [OF h] history_actions [OF h] False promised_actions(2) [of opts]
      by (fastforce simp: unfinished_quiet waits_seen_def)
  qed
qed

definition abort_example :: "pipe_event list" where
  "abort_example = [Mutate AbortListenerRegistered, Mutate BeginWrite,
     Shutdown (ClaimTerminal Aborted \<lparr>destination_state = WritableWritable, close_requested = False\<rparr>),
     Shutdown (ClaimTerminal SourceClosed \<lparr>destination_state = WritableWritable, close_requested = False\<rparr>),
     PublishLastWrite, Shutdown LastWriteSettled, Shutdown (ActionRejected Source), Shutdown (ActionRejected Destination),
     Shutdown Finalize]"

definition default_options :: pipe_options where
  "default_options = \<lparr>prevent_close = False, prevent_abort = False, prevent_cancel = False\<rparr>"

lemma abort_example_run:
  "run pipe_exec abort_example ([], new_pipe default_options) = Some (the (run pipe_exec abort_example ([], new_pipe default_options)))"
  "seen final_of (fst (the (run pipe_exec abort_example ([], new_pipe default_options)))) =
     [\<lparr>settlement = RejectShutdownAction Destination, abort_cleanup = Unregister\<rparr>]"
  by code_simp+

theorem pipe_settles_as_promised_witness:
  "\<exists>tr s. run pipe_exec abort_example ([], new_pipe default_options) = Some (tr, s)
     \<and> seen final_of tr = [\<lparr>settlement = RejectShutdownAction Destination, abort_cleanup = Unregister\<rparr>]
     \<and> lifecycle s = Finished \<and> length (seen claim_of tr) \<le> 1"
proof -
  obtain tr s where h: "the (run pipe_exec abort_example ([], new_pipe default_options)) = (tr, s)" by (metis surj_pair)
  have r: "run pipe_exec abort_example ([], new_pipe default_options) = Some (tr, s)"
    using abort_example_run(1) h by simp
  have f: "seen final_of tr = [\<lparr>settlement = RejectShutdownAction Destination, abort_cleanup = Unregister\<rparr>]"
    using abort_example_run(2) h by simp
  from pipe_settles_as_promised [OF r] f have "lifecycle s = Finished \<and> length (seen claim_of tr) \<le> 1" by simp
  with r f show ?thesis by blast
qed

text \<open>
  C16: A pipe that has begun to shut down does not get stuck: in every run in which the embedder has done what
  was asked of it, the pipe is finished and its promise has been settled, once.  What is asked: a write whose intent was admitted
  is published, unless it is abandoned or the terminal event finds the destination closed to writes;
  a command to wait is answered once the last write has settled; every operation that a command to
  act names is fulfilled or rejected; a queued finalization is run.  Nothing is asked in a stage
  that the run does not enter, other events may come at any time, and the answers in any order that the commands allow.
\<close>

theorem pipe_shutdown_finishes:
  assumes "run pipe_exec es ([], new_pipe opts) = Some (tr, s)" and "seen claim_of tr \<noteq> []" and "answered tr"
  shows "lifecycle s = Finished \<and> length (seen final_of tr) = 1"
proof -
  have "pipe_history opts ([], new_pipe opts) \<and> owes (fst ([], new_pipe opts)) (snd ([], new_pipe opts))"
    using new_pipe_history [of opts] by (simp add: owes_def new_pipe_def)
  from pipe_owing.run_inv [OF this assms(1)] have h: "pipe_history opts (tr, s)" and owes: "owes tr s" by simp_all
  from h assms(2) have "\<not> is_active s" by (auto simp: pipe_history_def lifecycle_seen_def started_def is_active_def)
  with h owes assms(3) have f: "lifecycle s = Finished" by (rule owing_stages)
  with h obtain t d where "ended tr s t d" by (rule history_ended)
  with f show ?thesis by (auto simp: ended_def)
qed

definition closed_example :: "pipe_event list" where
  "closed_example = [Drain Schedule, Drain Callback, Mutate MarkReadPending, Mutate IncomingChunk, Mutate BeginWrite, PublishLastWrite,
     Shutdown (ClaimTerminal SourceClosed \<lparr>destination_state = WritableWritable, close_requested = False\<rparr>),
     Shutdown LastWriteSettled, Shutdown (ActionFulfilled Destination), Shutdown Finalize]"

lemma answered_examples:
  "run pipe_exec closed_example ([], new_pipe default_options) = Some (the (run pipe_exec closed_example ([], new_pipe default_options)))"
  "seen claim_of (fst (the (run pipe_exec closed_example ([], new_pipe default_options)))) \<noteq> []"
  "answered (fst (the (run pipe_exec closed_example ([], new_pipe default_options))))"
  "seen claim_of (fst (the (run pipe_exec abort_example ([], new_pipe default_options)))) \<noteq> []"
  "answered (fst (the (run pipe_exec abort_example ([], new_pipe default_options))))"
  "\<not> answered (fst (the (run pipe_exec (butlast closed_example) ([], new_pipe default_options))))"
  by code_simp+

theorem pipe_shutdown_finishes_witness:
  "(\<exists>tr s. run pipe_exec closed_example ([], new_pipe default_options) = Some (tr, s)
      \<and> lifecycle s = Finished \<and> length (seen final_of tr) = 1)
   \<and> (\<exists>tr s. run pipe_exec abort_example ([], new_pipe default_options) = Some (tr, s)
      \<and> lifecycle s = Finished \<and> length (seen final_of tr) = 1)"
proof -
  let ?run = "\<lambda>es. run pipe_exec es ([], new_pipe default_options)"
  obtain tr s tr' s' where h: "the (?run closed_example) = (tr, s)" "the (?run abort_example) = (tr', s')"
    by (metis surj_pair)
  then have "?run closed_example = Some (tr, s)" "?run abort_example = Some (tr', s')"
    using answered_examples(1) abort_example_run(1) by simp_all
  moreover note pipe_shutdown_finishes [OF this(1)] pipe_shutdown_finishes [OF this(2)]
  ultimately show ?thesis using answered_examples h by simp
qed

text \<open>
  C17: Every state that a pipe can be in is stored and read back: the storage invariants that the decoder
  demands hold after every run, and the decoder returns the same state, options and settlement bits.
\<close>

theorem pipe_state_storage_roundtrip:
  "\<exists>tr s. run pipe_exec es ([], new_pipe opts) = Some (tr, s)
    \<and> pipe_from_storage (lifecycle s) (options s) (drain_scheduled s) (read_pending s) (write_in_progress s)
        (drain_yield_once s) (abort_listener s) (shutdown_settlements s) = Some s
    \<and> options_from_bits (options_bits (options s)) = Some (options s)
    \<and> settlements_from_bits (shutdown_settlements s) = Some (shutdown_settlements s)"
proof -
  obtain tr s where r: "run pipe_exec es ([], new_pipe opts) = Some (tr, s)" and h: "pipe_history opts (tr, s)"
    using pipe.run_total [OF new_pipe_history [of opts], of es] by auto
  from history_storage [OF h] have "storage_invariants_hold s" by simp
  then have "pipe_from_storage (lifecycle s) (options s) (drain_scheduled s) (read_pending s) (write_in_progress s)
        (drain_yield_once s) (abort_listener s) (shutdown_settlements s) = Some s"
    by (cases s) (simp add: pipe_from_storage_def)
  with r history_storage [OF h] show ?thesis by (blast intro: options_bits_decode)
qed

end
