(* ===== verification/Spec2Isabelle.thy ===== *)
theory Spec2Isabelle
  imports Bounded_Buffer Disk_Pool Message_Port Broadcast_Channel Session_History Window_History
    Action_Window Leveldb_Snapshot Robots Timer_Agenda Dns_Resolver Owner_Queue Header_Field Module_Drive Shared_Worker
    Web_Storage Parkable_Sweep Stream_Pipe
begin

text \<open>
  Moli is a headless browser written in Rust as a workspace of crates.  The engine-facing crates
  (V8 bindings, DOM, layout, painting, network transport, automation protocols) share
  a set of small crates that hold state, queues, formats and policies without any engine
  object.  This development models such crates, one theory per component, and proves what their
  callers rely on.

  \<^bold>\<open>How the parts interact.\<close>  Pages exchange messages through message ports and broadcast channels,
  which route by storage key, and share web storage areas, whose names are storage keys.  Navigation moves through the joint session history of a
  traversable, and every window keeps its own entries and cached state.  Input from
  automation clients passes an action window that batches and compacts it.  The renderer
  schedules work with timers and owner task queues, loads module scripts with their imports through
  module tree jobs, connects windows to shared workers, which are matched by storage key, and pipes streams into each other.  Network code resolves names through one
  shared resolver, reads structured header fields, honours robots.txt, keeps bodies in
  bounded buffers and moves resource data and encoded images to a pooled file.  Profile import reads the
  LevelDB directories of other browsers.

  \<^bold>\<open>Shared theories.\<close>  \<^verbatim>\<open>Moli_Prelude\<close> has checked 64-bit arithmetic, \<^verbatim>\<open>BTreeMap\<close> as a strictly sorted association
  list (locale \<open>ordered_map\<close>), runs of operations, and the locales that lift one-step facts to
  runs: \<open>kept_system\<close> and \<open>checked_system\<close> for invariants and absence of panics, \<open>refinement\<close> and
  \<open>matching_runs\<close> for components that implement an abstract one, by an abstraction function or by a relation,
  \<open>observed_system\<close> and the more general \<open>observed_runs\<close> for components whose outputs keep an observer informed.  \<^verbatim>\<open>Mailbox\<close> has the locales \<open>budgeted_system\<close> and \<open>mailbox_system\<close> for
  message queues with a bounded supply of identifiers.  \<^verbatim>\<open>Text_Prelude\<close> has the string operations.
  Every locale is interpreted on the definitions of the components.

  \<^bold>\<open>Components.\<close>  A record stands for a struct, a datatype for an enum, a definition for a function of
  the same or a prefixed name; panics are \<^const>\<open>None\<close>, errors are values.

  \<^item> \<^verbatim>\<open>Bounded_Buffer\<close> (src/moli-bounded-buffer, buffer.rs): insertion with eviction, removal, clearing.  The
    byte counter is the sum of the retained charges and within its limits; insertion evicts exactly
    the oldest entries needed.
  \<^item> \<^verbatim>\<open>Disk_Alloc\<close>, \<^verbatim>\<open>Disk_Pool\<close> (src/moli-disk-pool): free lists, reservation, positioned reads and writes with
    partial transfers.  Live extents and free chunks partition the file, data is read back
    unchanged, a failing write gives up its extent.
  \<^item> \<^verbatim>\<open>Message_Port\<close> (src/moli-message-port, registry.rs) and \<^verbatim>\<open>Broadcast_Channel\<close> (src/moli-broadcast-channel): registries
    and routing.  Messages are neither lost, duplicated nor reordered, entanglement is mutual, and
    posting reaches exactly the other channels of the same name and storage key.
  \<^item> \<^verbatim>\<open>Storage_Key\<close> (src/moli-storage-key): construction, relation and serialization.  What a
    reader gets back from a serialized key is stated for every key, and when it is the key itself; equal
    serializations mean equal parts.
  \<^item> \<^verbatim>\<open>Session_History\<close> (src/moli-session-history, joint.rs): the joint timeline, traversal plans and their commit;
    a plan made for an older timeline is refused.  \<^verbatim>\<open>Window_History\<close> (src/moli-history, window.rs, and the
    writes of src/moli-renderer-v8/src/context_bootstrap into entries): one window's
    entries over a store of shared entries; an unchanged revision means an unchanged state.
  \<^item> \<^verbatim>\<open>Action_Window\<close> (src/moli-action-window): admission, compaction, rotation, flushing and cancellation refine a
    flat window without compaction.
  \<^item> \<^verbatim>\<open>Leveldb_Coding\<close>, \<^verbatim>\<open>Leveldb_Log\<close>, \<^verbatim>\<open>Leveldb_Table\<close>, \<^verbatim>\<open>Leveldb_Manifest\<close>, \<^verbatim>\<open>Leveldb_Snapshot\<close> (src/moli-leveldb-parser): the reader from integers to
    the whole directory.  Each layer is shown to read back what a writer of the format wrote (locale
    \<open>codec\<close>), up to the snapshot, which is the newest visible version of every key; logs cut off
    in an append, bad checksums and block bounds are covered.  The checksum, the
    decompressor and memory reservation are parameters.
  \<^item> \<^verbatim>\<open>Robots\<close> (src/moli-robots): percent-encoding, patterns, parsing and decisions; the segment search decides
    the declarative meaning of wildcards, the longest match decides.  Unicode lowercasing and
    trimming are parameters.
  \<^item> \<^verbatim>\<open>Timers\<close>, \<^verbatim>\<open>Timer_Agenda\<close> (src/moli-time, timers.rs): the scheduler over every sequence of calls.  As long as ids last it
    answers like an agenda that holds just the waiting timers: the due timer that comes
    first is started, a cancelled one never.  Draining starts all due timers in order, and the search for an id ends;
    once ids wrap around, a cancelled timer can fire.
  \<^item> \<^verbatim>\<open>Dns_Resolver\<close> (src/moli-dns-resolver): the expiring cache refines a map that forgets answers at their
    deadline; in every interleaving of callers and workers each completion is called exactly
    once, also when the pool is dropped.
  \<^item> \<^verbatim>\<open>Owner_Queue\<close> (src/moli-owner-queue): a source that wakes its owner on the edge refines a queue without
    a readiness flag, so no wake is lost; the order of the two-channel task source.
  \<^item> \<^verbatim>\<open>Header_Field\<close> (src/moli-header-field): tokenizer, parameter splitting and unquoting, with their round trip.
  \<^item> \<^verbatim>\<open>Module_Types\<close>, \<^verbatim>\<open>Module_Job\<close>, \<^verbatim>\<open>Module_Tree\<close>, \<^verbatim>\<open>Module_Drive\<close> (src/moli-module-script-tree, types.rs, job.rs, host.rs): the
    data, the job, its invariant, and its drive loop.  The host is a record of functions.  A job
    completes only with a closed graph without parse errors, it is never stuck, and driving it
    ends if imports resolve into finitely many keys.
  \<^item> \<^verbatim>\<open>Shared_Worker\<close> (src/moli-shared-worker): keys, options and the registry.  Until an id counter wraps
    around, its two maps stay consistent, its owner events are exact, and its actions fit the state of the instances.
  \<^item> \<^verbatim>\<open>Web_Storage\<close> (src/moli-web-storage, lib.rs, store.rs): the areas in memory and the mutation subscriptions.
    Sizes are exact and within the quota, writes read back, a refused write leaves the contents alone, and the records of a subscriber
    rebuild the contents of the store.
  \<^item> \<^verbatim>\<open>Parkable_Image\<close>, \<^verbatim>\<open>Parkable_Sweep\<close> (src/moli-parkable-image): images that move between memory and an extent of
    the disk pool, the registry of resident and parked images, and the sweeps.  The steps are the
    critical sections and the disk writes of all threads, over a pool that others use too.  Readers
    always see the original bytes, nothing is discarded under a reader, registries and extents
    stay exact, and a forced sweep parks what nobody reads.
  \<^item> \<^verbatim>\<open>Stream_Pipe\<close> (src/moli-streams, pipe.rs): the state machine of one \<^verbatim>\<open>pipeTo\<close>, over every sequence of its events.
    The promise is settled once and as promised, after the actions and the last write; a shutdown
    is finished once the embedder has done what the commands of the run asked for; every state
    is accepted by the decoder of stored states; drain callbacks are neither lost nor doubled.

  \<^bold>\<open>Bounds and termination.\<close>  Loops are structural recursions or functions with a termination measure (the bytes
  left to read, the entries left in a heap), except the search for a timer id and the drive
  loop of a module tree, partial functions that are shown to return.  No definition uses fuel.  Identifiers and counters keep their width;
  where a theorem excludes exhaustion, its hypothesis bounds the number of operations (2 to the 64 for
  ports, channels, images, revisions and connections to shared workers, 2 to the 32 for timers), and the timer theory shows that
  the bound is needed.  The counter of module clients is a natural number without a bound: it grows
  by one with every edge that a job keeps in its list.

  \<^bold>\<open>Concurrency.\<close>  Components guarded by one lock take one step per critical section, so runs and reachable
  states range over the interleavings.  Memory ordering below the lock is not modelled.

  \<^bold>\<open>Not modelled.\<close>  The V8 bindings apart from their writes into history entries, DOM, selectors, layout, painting and the parsers rest on foreign crates and
  an engine; transport, cookies, IndexedDB and SQLite code is input and output; macros run at
  build time.  The other stream machines, stylesheet blocking, content security policy and the small
  microsyntax crates are self-contained but not covered.  Within the modelled crates the
  following is left out: tracing and formatting, thread creation and panics of callbacks in the resolver,
  the URL setters of robots.txt, the SQLite backend and the UTF-8 conversions of web storage, the
  diagnostics of parkable images, serde deserialization and UTF-8 encoding of header lists, and
  the failure injection of the disk pool's tests.
\<close>

end
